(* ===== verification/C_Prelude.thy ===== *)
theory C_Prelude
  imports Main "HOL-Library.Word"
begin

text \<open>
  Shared vocabulary of the development: bytes and byte buffers, the C string and memory
  functions the sources call (\<open>strlen\<close>, \<open>strncpy\<close>, \<open>strncat\<close>, \<open>snprintf\<close> with
  \<open>%s\<close>/\<open>%d\<close>/\<open>%02x\<close>, \<open>memcpy\<close>), the ways a process of the system can die, and the
  generic lemmas about lists that the component theories use.

  A C array is a list of bytes whose length is the size of the array; a C string inside
  an array is the part before the first NUL byte.  Writing outside an array, using a
  null pointer or an array of size zero or less is undefined behaviour in C: the model makes
  each such spot a value of type \<open>fault\<close>, so that it can neither be overlooked nor used.
\<close>

section \<open>Types\<close>

type_synonym byte = "8 word"
type_synonym bytes = "byte list"
type_synonym limb = "64 word"

text \<open>
  How a call can fail to return: \<open>exit(EXIT_FAILURE)\<close> (\<open>handle_openssl_error\<close> and the
  start-up code), the signal that GMP raises on a division by zero, the signal \<open>SIGPIPE\<close> of a
  \<open>send\<close> to a peer that is gone, a system call that waits for ever (\<open>recv\<close> on a connection whose
  peer stays silent), or undefined behaviour, with the reason.
\<close>

datatype ub = NullPointer | NegativeArraySize | ZeroArraySize | OutOfBounds | DanglingPointer | Uninitialised

datatype fault = ExitFailure | DivideByZero | BrokenPipe | Waiting | Undefined ub

type_synonym 'a result = "fault + 'a"

named_theorems layout_simps \<open>contents of buffers assembled by memcpy\<close>
named_theorems cstr_simps \<open>C strings held in buffers\<close>

section \<open>Sequencing calls that may not return\<close>

definition bindE :: "'a result \<Rightarrow> ('a \<Rightarrow> 'b result) \<Rightarrow> 'b result" where
  "bindE m f = (case m of Inl e \<Rightarrow> Inl e | Inr x \<Rightarrow> f x)"

lemma bindE_simps [simp]:
  "bindE (Inr x) f = f x"
  "bindE (Inl e) f = Inl e"
  by (simp_all add: bindE_def)

lemma bindE_eq_Inr [simp]:
  "bindE m f = Inr y \<longleftrightarrow> (\<exists>x. m = Inr x \<and> f x = Inr y)"
  by (auto simp: bindE_def split: sum.splits)

text \<open>A call that may also run forever.\<close>

type_synonym 'a run = "'a result option"

definition bindR :: "'a run \<Rightarrow> ('a \<Rightarrow> 'b run) \<Rightarrow> 'b run" where
  "bindR m f = Option.bind m (\<lambda>r. case r of Inl e \<Rightarrow> Some (Inl e) | Inr x \<Rightarrow> f x)"

lemma bindR_simps [simp]:
  "bindR (Some (Inr x)) f = f x"
  "bindR (Some (Inl e)) f = Some (Inl e)"
  "bindR None f = None"
  by (simp_all add: bindR_def)

lemma bindR_mono [partial_function_mono]:
  assumes "mono_option B" and "\<And>y. mono_option (\<lambda>f. C y f)"
  shows "mono_option (\<lambda>f. bindR (B f) (\<lambda>y. C y f))"
proof -
  have "mono_option (\<lambda>f. case r of Inl e \<Rightarrow> Some (Inl e) | Inr x \<Rightarrow> C x f)" for r
    using assms(2) by (cases r) (simp_all add: option.const_mono)
  then show ?thesis unfolding bindR_def by (intro bind_mono assms(1))
qed

section \<open>C strings\<close>

definition str :: "string \<Rightarrow> bytes" where
  "str s = map of_char s"

text \<open>The string a buffer holds: the bytes before the first NUL.\<close>

definition cstr :: "bytes \<Rightarrow> bytes" where
  "cstr b = takeWhile (\<lambda>c. c \<noteq> 0) b"

definition strlen :: "bytes \<Rightarrow> nat" where
  "strlen b = length (cstr b)"

text \<open>\<open>strncpy(dst, src, n)\<close>: at most \<open>n\<close> bytes of the string, padded with NULs to \<open>n\<close>.\<close>

definition strncpy :: "bytes \<Rightarrow> bytes \<Rightarrow> nat \<Rightarrow> bytes" where
  "strncpy dst src n =
     (let s = take n (cstr src) in s @ replicate (n - length s) 0 @ drop n dst)"

text \<open>\<open>snprintf(dst, n, "%s", s)\<close> for \<open>n > 0\<close>: at most \<open>n - 1\<close> bytes and a NUL.\<close>

definition snprintf :: "bytes \<Rightarrow> nat \<Rightarrow> bytes \<Rightarrow> bytes" where
  "snprintf dst n s = (let t = take (n - 1) s in t @ [0] @ drop (Suc (length t)) dst)"

text \<open>\<open>strncat(dst, src, n)\<close>: appends at most \<open>n\<close> bytes of the string and a NUL.\<close>

definition strncat :: "bytes \<Rightarrow> bytes \<Rightarrow> nat \<Rightarrow> bytes" where
  "strncat dst src n =
     (let t = cstr dst @ take n (cstr src) in t @ [0] @ drop (Suc (length t)) dst)"

text \<open>The comparison \<open>strncmp(a, b, n) == 0\<close>.\<close>

definition strncmp_eq :: "bytes \<Rightarrow> bytes \<Rightarrow> nat \<Rightarrow> bool" where
  "strncmp_eq a b n \<longleftrightarrow> take n (cstr a) = take n (cstr b)"

text \<open>\<open>memcpy(dst + off, src, n)\<close> on arrays that have the bytes.\<close>

definition memcpy :: "bytes \<Rightarrow> nat \<Rightarrow> bytes \<Rightarrow> nat \<Rightarrow> bytes" where
  "memcpy dst off src n = take off dst @ take n src @ drop (off + n) dst"

text \<open>\<open>sprintf("%02x", b)\<close>.\<close>

definition hex_digit :: "nat \<Rightarrow> byte" where
  "hex_digit n = (if n < 10 then of_nat (48 + n) else of_nat (87 + n))"

definition hex2 :: "byte \<Rightarrow> bytes" where
  "hex2 b = [hex_digit (unat b div 16), hex_digit (unat b mod 16)]"

text \<open>\<open>printf("%d", n)\<close> for \<open>n \<ge> 0\<close>.\<close>

fun dec :: "nat \<Rightarrow> bytes" where
  "dec n = (if n < 10 then [of_nat (48 + n)] else dec (n div 10) @ [of_nat (48 + n mod 10)])"

declare dec.simps [simp del]

section \<open>Lemmas on strings\<close>

lemma length_cstr_le: "length (cstr b) \<le> length b"
  by (simp add: cstr_def length_takeWhile_le)

lemma cstr_nonzero [simp]: "0 \<notin> set (cstr b)"
  by (auto simp: cstr_def dest: set_takeWhileD)

lemma cstr_id: "0 \<notin> set s \<Longrightarrow> cstr s = s"
  by (auto simp: cstr_def takeWhile_eq_all_conv)

lemma cstr_cstr [simp]: "cstr (cstr b) = cstr b"
  by (simp add: cstr_id)

lemma cstr_append_NUL: "0 \<notin> set s \<Longrightarrow> cstr (s @ 0 # r) = s"
  by (induction s) (auto simp: cstr_def)

lemma cstr_append_zeros: "0 \<notin> set s \<Longrightarrow> cstr (s @ replicate n 0) = s"
  by (cases n) (simp_all add: cstr_append_NUL cstr_id)

lemma cstr_Nil [simp]: "cstr [] = []"
  by (simp add: cstr_def)

lemma cstr_replicate [simp]: "cstr (replicate n 0) = []"
  using cstr_append_zeros [of "[]" n] by simp

lemma notin_take: "x \<notin> set xs \<Longrightarrow> x \<notin> set (take n xs)"
  by (auto dest: in_set_takeD)

lemma cstr_snprintf [cstr_simps]: "0 \<notin> set s \<Longrightarrow> cstr (snprintf dst n s) = take (n - 1) s"
  by (simp add: snprintf_def Let_def cstr_append_NUL notin_take)

lemma length_snprintf [simp]:
  "0 < n \<Longrightarrow> n \<le> length dst \<Longrightarrow> length (snprintf dst n s) = length dst"
  by (auto simp: snprintf_def Let_def min_def)

lemma cstr_strncat [cstr_simps]: "cstr (strncat dst src n) = cstr dst @ take n (cstr src)"
  using cstr_append_NUL [of "cstr dst @ take n (cstr src)"]
  by (simp add: strncat_def Let_def notin_take)

lemma length_strncat [simp]:
  "length (cstr dst) + n < length dst \<Longrightarrow> length (strncat dst src n) = length dst"
  by (auto simp: strncat_def Let_def min_def)

lemma length_strncpy [simp]: "n \<le> length dst \<Longrightarrow> length (strncpy dst src n) = length dst"
  by (simp add: strncpy_def Let_def)

lemma strncpy_terminated:
  "Suc n = length dst \<Longrightarrow> (strncpy dst src n)[n := 0] =
     take n (cstr src) @ replicate (Suc n - min n (length (cstr src))) 0"
proof -
  assume n: "Suc n = length dst"
  let ?s = "take n (cstr src)"
  have "strncpy dst src n = (?s @ replicate (n - length ?s) 0) @ drop n dst"
    by (simp add: strncpy_def Let_def)
  moreover have "length (?s @ replicate (n - length ?s) 0) = n" by simp
  moreover obtain x where "drop n dst = [x]"
    using n by (metis (no_types) Cons_nth_drop_Suc drop_all lessI order_refl)
  ultimately have "(strncpy dst src n)[n := 0] = (?s @ replicate (n - length ?s) 0) @ [0]"
    by (metis list_update_length)
  also have "\<dots> = ?s @ replicate (Suc (n - length ?s)) 0"
    by (simp add: replicate_append_same)
  also have "Suc (n - length ?s) = Suc n - min n (length (cstr src))"
    by (auto simp: min_def Suc_diff_le)
  finally show ?thesis .
qed

lemma cstr_strncpy [cstr_simps]:
  "Suc n = length dst \<Longrightarrow> cstr ((strncpy dst src n)[n := 0]) = take n (cstr src)"
  by (simp add: strncpy_terminated cstr_append_zeros notin_take)

lemma take_strlen: "take (strlen b) b = cstr b"
  unfolding strlen_def cstr_def by (rule takeWhile_eq_take [symmetric])

lemma strlen_le: "strlen b \<le> length b"
  by (simp add: strlen_def length_cstr_le)

lemma cstr_cut: "cstr (m @ 0 # r) = cstr m"
  by (induction m) (auto simp: cstr_def)

lemma cstr_terminated: "length rest = length m \<Longrightarrow> 0 < length m \<Longrightarrow> cstr ((m @ rest)[length m := 0]) = cstr m"
  by (cases rest) (auto simp: cstr_cut list_update_append)

lemma length_hex2 [simp]: "length (hex2 b) = 2"
  by (simp add: hex2_def)

lemma unat_byte_less [simp]: "unat (b :: byte) < 256"
  using unsigned_less [of b, where 'a = nat] by simp

lemma unat_hex_digit: "n < 16 \<Longrightarrow> unat (hex_digit n) = (if n < 10 then 48 + n else 87 + n)"
  by (simp add: hex_digit_def unat_of_nat del: of_nat_add)

lemma hex_digit_nonzero: "n < 16 \<Longrightarrow> hex_digit n \<noteq> 0"
  using unat_hex_digit [of n] by (auto split: if_splits)

lemma hex2_nonzero [simp]: "0 \<notin> set (hex2 b)"
proof -
  have "unat b div 16 < 16" using unat_byte_less [of b] by linarith
  then show ?thesis
    using hex_digit_nonzero [of "unat b div 16"] hex_digit_nonzero [of "unat b mod 16"]
    by (simp add: hex2_def)
qed

lemma hex_digit_inj: "m < 16 \<Longrightarrow> n < 16 \<Longrightarrow> hex_digit m = hex_digit n \<Longrightarrow> m = n"
proof -
  assume m: "m < 16" and n: "n < 16" and h: "hex_digit m = hex_digit n"
  have "(if m < 10 then 48 + m else 87 + m) = (if n < 10 then 48 + n else 87 + n)"
    using unat_hex_digit [OF m] unat_hex_digit [OF n] by (simp only: h)
  then show "m = n" by (simp split: if_split_asm)
qed

lemma hex2_inj: "hex2 a = hex2 b \<Longrightarrow> a = b"
proof -
  assume h: "hex2 a = hex2 b"
  have "unat a div 16 < 16" "unat b div 16 < 16"
    using unat_byte_less [of a] unat_byte_less [of b] by linarith+
  then have "unat a div 16 = unat b div 16" "unat a mod 16 = unat b mod 16"
    using h by (auto simp: hex2_def intro: hex_digit_inj)
  then have "unat a = unat b" by (metis mult_div_mod_eq)
  then show "a = b" by (simp add: word_unat_eq_iff)
qed

lemma dec_nonzero: "0 \<notin> set (dec n)"
proof (induction n rule: dec.induct)
  case (1 n)
  have "(of_nat (48 + n mod 10) :: byte) \<noteq> 0"
    by (simp add: word_unat_eq_iff unat_of_nat del: of_nat_add)
  moreover have "n < 10 \<Longrightarrow> (of_nat (48 + n) :: byte) \<noteq> 0"
    by (simp add: word_unat_eq_iff unat_of_nat del: of_nat_add)
  ultimately show ?case
    using 1 by (subst dec.simps) auto
qed

section \<open>Lemmas on memory\<close>

lemma length_memcpy [simp]:
  "n \<le> length src \<Longrightarrow> off + n \<le> length dst \<Longrightarrow> length (memcpy dst off src n) = length dst"
  by (simp add: memcpy_def)

lemma memcpy_full [layout_simps]:
  "length p = off \<Longrightarrow> length src = n \<Longrightarrow> n \<le> length d \<Longrightarrow>
     memcpy (p @ d) off src n = (p @ src) @ drop n d"
  by (simp add: memcpy_def)

lemma memcpy_0 [layout_simps]:
  "length src = n \<Longrightarrow> memcpy d 0 src n = src @ drop n d"
  by (simp add: memcpy_def)

end
