(* ===== verification/Gmp_Integer.thy ===== *)
theory Gmp_Integer
  imports C_Prelude
begin

unbundle bit_operations_syntax

text \<open>
  The part of the vendored GMP (\<open>gmp-6.3.0/\<close>, built by \<open>install_gmp.sh\<close>) that stores
  integers and turns them into bytes and back: the \<open>mpz_t\<close> structure, \<open>mpz_init\<close>,
  \<open>mpz_init2\<close>, \<open>mpz_set_ui\<close>, \<open>mpz_export\<close> and \<open>mpz_import\<close>.  The key exchange
  sends every Diffie-Hellman value through these two conversions.

  Configuration, as in \<open>gmp.h\<close> and \<open>config.h\<close> of the repository: 64-bit limbs, no nail
  bits, little-endian host.  An \<open>mpz_t\<close> is the record \<open>mpz\<close>; \<open>PTR\<close> lists the limbs in
  use, least significant first (the allocated but unused limbs cannot be observed).
\<close>

section \<open>Limbs and numbers\<close>

record mpz =
  ALLOC :: nat
  SIZ :: int
  PTR :: "limb list"

fun limbs_val :: "limb list \<Rightarrow> nat" where
  "limbs_val [] = 0"
| "limbs_val (x # xs) = unat x + 2 ^ 64 * limbs_val xs"

definition mpz_abs :: "mpz \<Rightarrow> nat" where
  "mpz_abs z = limbs_val (PTR z)"

definition mpz_int :: "mpz \<Rightarrow> int" where
  "mpz_int z = (if SIZ z < 0 then - int (mpz_abs z) else int (mpz_abs z))"

text \<open>The representation invariant every GMP function keeps: no leading zero limb.\<close>

definition mpz_wf :: "mpz \<Rightarrow> bool" where
  "mpz_wf z \<longleftrightarrow> length (PTR z) = nat \<bar>SIZ z\<bar> \<and> (PTR z \<noteq> [] \<longrightarrow> last (PTR z) \<noteq> 0)"

definition ABSIZ :: "mpz \<Rightarrow> nat" where
  "ABSIZ z = nat \<bar>SIZ z\<bar>"

definition BITS_TO_LIMBS :: "nat \<Rightarrow> nat" where
  "BITS_TO_LIMBS n = (n + (64 - 1)) div 64"

definition MPZ_NEWALLOC :: "mpz \<Rightarrow> nat \<Rightarrow> mpz" where
  "MPZ_NEWALLOC z n = (if n > ALLOC z then z\<lparr>ALLOC := n\<rparr> else z)"

fun MPN_NORMALIZE :: "limb list \<Rightarrow> nat \<Rightarrow> nat" where
  "MPN_NORMALIZE dst 0 = 0"
| "MPN_NORMALIZE dst (Suc n) = (if dst ! n \<noteq> 0 then Suc n else MPN_NORMALIZE dst n)"

text \<open>\<open>SIZ(z) = n\<close> for limbs already stored at \<open>PTR(z)\<close>.\<close>

definition set_limbs :: "mpz \<Rightarrow> limb list \<Rightarrow> nat \<Rightarrow> mpz" where
  "set_limbs z xs n = z\<lparr>SIZ := int n, PTR := take n xs\<rparr>"

section \<open>Initialisation\<close>

definition mpz_init :: mpz where
  "mpz_init = \<lparr>ALLOC = 0, SIZ = 0, PTR = []\<rparr>"

definition mpz_init2 :: "nat \<Rightarrow> mpz" where
  "mpz_init2 bits = (let b = bits - (if bits \<noteq> 0 then 1 else 0)
     in \<lparr>ALLOC = 1 + b div 64, SIZ = 0, PTR = []\<rparr>)"

definition mpz_set_ui :: "mpz \<Rightarrow> limb \<Rightarrow> mpz" where
  "mpz_set_ui dest val =
     set_limbs (MPZ_NEWALLOC dest 1) [val] (if val \<noteq> 0 then 1 else 0)"

section \<open>Export to bytes\<close>

fun clz_from :: "nat \<Rightarrow> limb \<Rightarrow> nat" where
  "clz_from 0 x = 0"
| "clz_from (Suc n) x = (if bit x n then 0 else Suc (clz_from n x))"

definition count_leading_zeros :: "limb \<Rightarrow> nat" where
  "count_leading_zeros x = clz_from 64 x"

definition MPN_SIZEINBASE_2EXP :: "limb list \<Rightarrow> nat \<Rightarrow> nat \<Rightarrow> nat" where
  "MPN_SIZEINBASE_2EXP ptr sz base2exp =
     (let cnt = count_leading_zeros (ptr ! (sz - 1)); totbits = sz * 64 - cnt
      in (totbits + base2exp - 1) div base2exp)"

definition HOST_ENDIAN :: int where
  "HOST_ENDIAN = -1"

text \<open>The bytes of a number, least significant first; the \<open>n\<close> lowest ones.\<close>

fun le_bytes :: "nat \<Rightarrow> nat \<Rightarrow> bytes" where
  "le_bytes 0 v = []"
| "le_bytes (Suc n) v = of_nat v # le_bytes n (v div 256)"

definition be_bytes :: "nat \<Rightarrow> nat \<Rightarrow> bytes" where
  "be_bytes n v = rev (le_bytes n v)"

text \<open>A limb in the memory of the little-endian host, and byte-swapped.\<close>

definition limb_mem :: "limb \<Rightarrow> bytes" where
  "limb_mem x = le_bytes 8 (unat x)"

definition bswap_mem :: "limb \<Rightarrow> bytes" where
  "bswap_mem x = rev (limb_mem x)"

text \<open>
  The loop state of \<open>mpz_export\<close>: the buffer, the write position \<open>dp\<close>, the partly
  consumed \<open>limb\<close> with its \<open>lbits\<close> valid bits, and the limbs from \<open>zp\<close> to \<open>zend\<close>.
\<close>

record export_state =
  ex_data :: bytes
  ex_dp :: int
  ex_limb :: limb
  ex_lbits :: nat
  ex_zp :: "limb list"

definition EXTRACT :: "nat \<Rightarrow> (limb \<Rightarrow> limb) \<Rightarrow> export_state \<Rightarrow> export_state" where
  "EXTRACT N MASK s =
     (if ex_lbits s \<ge> N
      then s\<lparr>ex_data := (ex_data s)[nat (ex_dp s) := ucast (MASK (ex_limb s))],
             ex_limb := drop_bit N (ex_limb s),
             ex_lbits := ex_lbits s - N\<rparr>
      else let newlimb = (case ex_zp s of [] \<Rightarrow> 0 | x # _ \<Rightarrow> x)
           in s\<lparr>ex_data := (ex_data s)[nat (ex_dp s) :=
                    ucast (MASK (ex_limb s OR push_bit (ex_lbits s) newlimb))],
                ex_limb := drop_bit (N - ex_lbits s) newlimb,
                ex_lbits := ex_lbits s + (64 - N),
                ex_zp := (case ex_zp s of [] \<Rightarrow> [] | _ # r \<Rightarrow> r)\<rparr>)"

definition move_dp :: "int \<Rightarrow> export_state \<Rightarrow> export_state" where
  "move_dp d s = s\<lparr>ex_dp := ex_dp s + d\<rparr>"

definition put_zero :: "export_state \<Rightarrow> export_state" where
  "put_zero s = s\<lparr>ex_data := (ex_data s)[nat (ex_dp s) := 0]\<rparr>"

fun export_whole_bytes :: "int \<Rightarrow> nat \<Rightarrow> export_state \<Rightarrow> export_state" where
  "export_whole_bytes endian 0 s = s"
| "export_whole_bytes endian (Suc j) s =
     export_whole_bytes endian j (move_dp (- endian) (EXTRACT 8 (\<lambda>x. x) s))"

fun export_fill :: "int \<Rightarrow> nat \<Rightarrow> export_state \<Rightarrow> export_state" where
  "export_fill endian 0 s = s"
| "export_fill endian (Suc j) s = export_fill endian j (move_dp (- endian) (put_zero s))"

definition export_word ::
  "nat \<Rightarrow> int \<Rightarrow> nat \<Rightarrow> nat \<Rightarrow> int \<Rightarrow> export_state \<Rightarrow> export_state" where
  "export_word sz endian wbytes wbits woffset s =
     (let s1 = export_whole_bytes endian wbytes s;
          (s2, j) = (if wbits \<noteq> 0
                     then (move_dp (- endian) (EXTRACT wbits (\<lambda>x. x AND mask wbits) s1), wbytes + 1)
                     else (s1, wbytes));
          s3 = export_fill endian (sz - j) s2
      in move_dp woffset s3)"

fun export_words ::
  "nat \<Rightarrow> int \<Rightarrow> nat \<Rightarrow> nat \<Rightarrow> int \<Rightarrow> nat \<Rightarrow> export_state \<Rightarrow> export_state" where
  "export_words sz endian wbytes wbits woffset 0 s = s"
| "export_words sz endian wbytes wbits woffset (Suc i) s =
     export_words sz endian wbytes wbits woffset i
       (export_word sz endian wbytes wbits woffset s)"

text \<open>
  \<open>mpz_export(data, &count, order, size, endian, nail, z)\<close> with \<open>data\<close> a buffer of the
  caller; \<open>align\<close> is its address modulo the limb size.  The result is the buffer and the
  number of words written.  The function writes \<open>count * size\<close> bytes: a smaller buffer is
  overrun.
\<close>

definition mpz_export ::
  "bytes \<Rightarrow> nat \<Rightarrow> int \<Rightarrow> nat \<Rightarrow> int \<Rightarrow> nat \<Rightarrow> mpz \<Rightarrow> (bytes \<times> nat) result" where
  "mpz_export data align order sz endian nail z =
     (if SIZ z = 0 then Inr (data, 0)
      else let zsize = ABSIZ z; zp = PTR z; numb = 8 * sz - nail;
               count = MPN_SIZEINBASE_2EXP zp zsize numb;
               endian = (if endian = 0 then HOST_ENDIAN else endian)
      in if length data < count * sz then Inl (Undefined OutOfBounds)
      else if nail = 0 \<and> sz = 8 \<and> align = 0
      then let limbs = take count zp;
               limbs = (if order = -1 then limbs else rev limbs);
               mem = concat (map (if endian = HOST_ENDIAN then limb_mem else bswap_mem) limbs)
           in Inr (mem @ drop (count * sz) data, count)
      else let wbytes = numb div 8; wbits = numb mod 8;
               woffset = (if endian \<ge> 0 then int sz else - int sz)
                       + (if order < 0 then int sz else - int sz);
               dp = (if order \<ge> 0 then (int count - 1) * int sz else 0)
                  + (if endian \<ge> 0 then int sz - 1 else 0);
               s = export_words sz endian wbytes wbits woffset count
                     \<lparr>ex_data = data, ex_dp = dp, ex_limb = 0, ex_lbits = 0, ex_zp = zp\<rparr>
           in Inr (ex_data s, count))"

section \<open>Import from bytes\<close>

record import_state =
  im_dp :: int
  im_limb :: limb
  im_lbits :: nat
  im_zp :: "limb list"

definition ACCUMULATE :: "nat \<Rightarrow> limb \<Rightarrow> import_state \<Rightarrow> import_state" where
  "ACCUMULATE N b s =
     (let limb = im_limb s OR push_bit (im_lbits s) b; lbits = im_lbits s + N
      in if lbits \<ge> 64
         then s\<lparr>im_zp := im_zp s @ [limb], im_lbits := lbits - 64,
                im_limb := drop_bit (N - (lbits - 64)) b\<rparr>
         else s\<lparr>im_limb := limb, im_lbits := lbits\<rparr>)"

fun import_whole_bytes :: "bytes \<Rightarrow> int \<Rightarrow> nat \<Rightarrow> import_state \<Rightarrow> import_state" where
  "import_whole_bytes data endian 0 s = s"
| "import_whole_bytes data endian (Suc j) s =
     (let b = ucast (data ! nat (im_dp s))
      in import_whole_bytes data endian j (ACCUMULATE 8 b (s\<lparr>im_dp := im_dp s - endian\<rparr>)))"

definition import_word ::
  "bytes \<Rightarrow> int \<Rightarrow> nat \<Rightarrow> nat \<Rightarrow> int \<Rightarrow> import_state \<Rightarrow> import_state" where
  "import_word data endian wbytes wbits woffset s =
     (let s1 = import_whole_bytes data endian wbytes s;
          s2 = (if wbits \<noteq> 0
                then let b = ucast (data ! nat (im_dp s1)) AND mask wbits
                     in ACCUMULATE wbits b (s1\<lparr>im_dp := im_dp s1 - endian\<rparr>)
                else s1)
      in s2\<lparr>im_dp := im_dp s2 + woffset\<rparr>)"

fun import_words ::
  "bytes \<Rightarrow> int \<Rightarrow> nat \<Rightarrow> nat \<Rightarrow> int \<Rightarrow> nat \<Rightarrow> import_state \<Rightarrow> import_state" where
  "import_words data endian wbytes wbits woffset 0 s = s"
| "import_words data endian wbytes wbits woffset (Suc i) s =
     import_words data endian wbytes wbits woffset i
       (import_word data endian wbytes wbits woffset s)"

text \<open>The limbs the aligned fast path reads from memory.\<close>

definition mem_limb :: "bytes \<Rightarrow> limb" where
  "mem_limb bs = of_nat (fold (\<lambda>b v. unat b + 256 * v) (rev bs) 0)"

fun mem_limbs :: "nat \<Rightarrow> bytes \<Rightarrow> limb list" where
  "mem_limbs 0 bs = []"
| "mem_limbs (Suc n) bs = mem_limb (take 8 bs) # mem_limbs n (drop 8 bs)"

definition bswap_limb :: "limb \<Rightarrow> limb" where
  "bswap_limb x = mem_limb (bswap_mem x)"

definition mpz_import ::
  "mpz \<Rightarrow> nat \<Rightarrow> nat \<Rightarrow> int \<Rightarrow> nat \<Rightarrow> int \<Rightarrow> nat \<Rightarrow> bytes \<Rightarrow> mpz result" where
  "mpz_import z count align order sz endian nail data =
     (if length data < count * sz then Inl (Undefined OutOfBounds)
      else let zsize = BITS_TO_LIMBS (count * (8 * sz - nail));
               z = MPZ_NEWALLOC z zsize;
               endian = (if endian = 0 then HOST_ENDIAN else endian);
               zp = (if nail = 0 \<and> sz = 8 \<and> align = 0
                 then let ls = mem_limbs count data;
                          ls = (if order = -1 then ls else rev ls)
                      in if endian = HOST_ENDIAN then ls else map bswap_limb ls
                 else let numb = sz * 8 - nail; wbytes = numb div 8; wbits = numb mod 8;
                          wo = int ((numb + 7) div 8);
                          woffset = (if endian \<ge> 0 then wo else - wo)
                                  + (if order < 0 then int sz else - int sz);
                          dp = (if order \<ge> 0 then (int count - 1) * int sz else 0)
                             + (if endian \<ge> 0 then int sz - 1 else 0);
                          s = import_words data endian wbytes wbits woffset count
                                \<lparr>im_dp = dp, im_limb = 0, im_lbits = 0, im_zp = []\<rparr>
                      in if im_lbits s \<noteq> 0 then im_zp s @ [im_limb s] else im_zp s)
           in Inr (set_limbs z zp (MPN_NORMALIZE zp zsize)))"


section \<open>Values of limb and byte lists\<close>

fun le_val :: "bytes \<Rightarrow> nat" where
  "le_val [] = 0"
| "le_val (b # bs) = unat b + 256 * le_val bs"

definition be_val :: "bytes \<Rightarrow> nat" where
  "be_val bs = le_val (rev bs)"

text \<open>The number of significant bytes of a number.\<close>

fun nbytes :: "nat \<Rightarrow> nat" where
  "nbytes v = (if v = 0 then 0 else Suc (nbytes (v div 256)))"

declare nbytes.simps [simp del]

lemma unat_limb_less [simp]: "unat (x :: limb) < 2 ^ 64"
  using unsigned_less [of x, where 'a = nat] by simp

lemmas unat_limb_less' = unat_limb_less [simplified]

lemma limbs_val_append:
  "limbs_val (xs @ ys) = limbs_val xs + 2 ^ (64 * length xs) * limbs_val ys"
  by (induction xs) (simp_all add: algebra_simps power_add)

lemma limbs_val_less: "limbs_val xs < 2 ^ (64 * length xs)"
proof (induction xs)
  case Nil
  then show ?case by simp
next
  case (Cons x xs)
  have "unat x + 2 ^ 64 * limbs_val xs < 2 ^ 64 + 2 ^ 64 * limbs_val xs"
    using unat_limb_less [of x] by (simp only: add_less_cancel_right)
  also have "\<dots> = 2 ^ 64 * Suc (limbs_val xs)" by simp
  also have "\<dots> \<le> 2 ^ 64 * 2 ^ (64 * length xs)"
    using Cons.IH by (intro mult_le_mono2) simp
  finally show ?case by (simp add: power_add)
qed

lemma length_le_bytes [simp]: "length (le_bytes n v) = n"
  by (induction n arbitrary: v) simp_all

lemma length_be_bytes [simp]: "length (be_bytes n v) = n"
  by (simp add: be_bytes_def)

lemma le_val_le_bytes: "le_val (le_bytes n v) = v mod 256 ^ n"
proof (induction n arbitrary: v)
  case 0
  then show ?case by simp
next
  case (Suc n)
  have "le_val (le_bytes (Suc n) v) = v mod 256 + 256 * (v div 256 mod 256 ^ n)"
    by (simp add: Suc.IH unat_of_nat)
  also have "\<dots> = v mod (256 * 256 ^ n)"
    by (simp add: mod_mult2_eq)
  finally show ?case by simp
qed

lemma be_val_be_bytes: "be_val (be_bytes n v) = v mod 256 ^ n"
  by (simp add: be_val_def be_bytes_def le_val_le_bytes)

lemma be_val_zeros: "be_val (replicate n 0) = 0"
proof -
  have "le_val (replicate n 0) = 0" by (induction n) simp_all
  then show ?thesis by (simp add: be_val_def)
qed

lemma le_val_append: "le_val (xs @ ys) = le_val xs + 256 ^ length xs * le_val ys"
  by (induction xs) (simp_all add: algebra_simps)

lemma be_val_append: "be_val (xs @ ys) = be_val xs * 256 ^ length ys + be_val ys"
  by (simp add: be_val_def le_val_append)

lemma le_val_less: "le_val bs < 256 ^ length bs"
proof (induction bs)
  case Nil
  then show ?case by simp
next
  case (Cons b bs)
  have "unat b + 256 * le_val bs < 256 * Suc (le_val bs)"
    using unat_byte_less [of b] by simp
  also have "\<dots> \<le> 256 * 256 ^ length bs"
    using Cons.IH by (intro mult_le_mono2) simp
  finally show ?case by simp
qed

lemma be_val_less: "be_val bs < 256 ^ length bs"
  using le_val_less [of "rev bs"] by (simp add: be_val_def)

lemma le_bytes_le_val: "le_bytes (length bs) (le_val bs) = bs"
proof (induction bs)
  case Nil
  then show ?case by simp
next
  case (Cons b bs)
  have "unat (of_nat (unat b + 256 * le_val bs) :: byte) = unat b"
    by (simp add: unat_of_nat del: of_nat_add of_nat_mult)
  then have "of_nat (unat b + 256 * le_val bs) = b" by (rule unsigned_word_eqI)
  moreover have "(unat b + 256 * le_val bs) div 256 = le_val bs"
    using unat_byte_less [of b] by simp
  ultimately show ?case by (simp add: Cons.IH)
qed

lemma be_bytes_be_val: "length bs = n \<Longrightarrow> be_bytes n (be_val bs) = bs"
  using le_bytes_le_val [of "rev bs"] by (simp add: be_bytes_def be_val_def)

lemma nbytes_0 [simp]: "nbytes 0 = 0"
  by (simp add: nbytes.simps)

lemma nbytes_bounds: "0 < v \<Longrightarrow> 0 < nbytes v \<and> 256 ^ (nbytes v - 1) \<le> v \<and> v < 256 ^ nbytes v"
proof (induction v rule: nbytes.induct)
  case (1 v)
  show ?case
  proof (cases "v < 256")
    case True
    then show ?thesis using 1 by (simp add: nbytes.simps [of v] nbytes.simps [of 0])
  next
    case False
    let ?n = "nbytes (v div 256)"
    have IH: "0 < ?n" "256 ^ (?n - 1) \<le> v div 256" "v div 256 < 256 ^ ?n"
      using 1 False by (auto simp: div_greater_zero_iff)
    have "nbytes v = Suc ?n" using 1 by (simp add: nbytes.simps [of v])
    moreover have "256 ^ ?n \<le> v"
    proof -
      have "256 ^ ?n = 256 * 256 ^ (?n - 1)" using IH(1) by (cases ?n) simp_all
      also have "\<dots> \<le> 256 * (v div 256)" using IH(2) by simp
      also have "\<dots> \<le> v" by simp
      finally show ?thesis .
    qed
    moreover have "v < 256 * 256 ^ ?n" using IH(3) by (simp add: div_less_iff_less_mult mult.commute)
    ultimately show ?thesis by simp
  qed
qed

lemma nbytes_unique:
  assumes "256 ^ k \<le> v" and "v < 256 ^ Suc k"
  shows "nbytes v = Suc k"
proof -
  have v: "0 < v" using assms(1) by (meson gr0I less_le_trans not_less0 zero_less_numeral zero_less_power)
  note b = nbytes_bounds [OF v]
  have "nbytes v - 1 < Suc k"
    using b assms(2) by (metis le_less_trans one_less_numeral_iff power_less_imp_less_exp semiring_norm(76))
  moreover have "k < nbytes v"
    using b assms(1) by (metis le_less_trans one_less_numeral_iff power_less_imp_less_exp semiring_norm(76))
  ultimately show ?thesis by simp
qed

section \<open>Leading zeros and the number of words\<close>

lemma clz_from_le: "clz_from n x \<le> n"
  by (induction n) auto

lemma clz_from_spec:
  "take_bit n (unat x) \<noteq> 0 \<Longrightarrow>
     clz_from n x < n \<and> 2 ^ (n - 1 - clz_from n x) \<le> take_bit n (unat x)
     \<and> take_bit n (unat x) < 2 ^ (n - clz_from n x)"
proof (induction n)
  case 0
  then show ?case by simp
next
  case (Suc n)
  have split: "take_bit (Suc n) (unat x) = take_bit n (unat x) + (if bit x n then 2 ^ n else 0)"
    by (simp add: take_bit_Suc_from_most bit_unsigned_iff)
  have lt: "take_bit n (unat x) < 2 ^ n" by simp
  show ?case
  proof (cases "bit x n")
    case True
    then show ?thesis using split lt by simp
  next
    case False
    then show ?thesis using Suc split by simp
  qed
qed

lemma count_leading_zeros_bounds:
  assumes "x \<noteq> 0"
  shows "count_leading_zeros x < 64 \<and> 2 ^ (63 - count_leading_zeros x) \<le> unat x
    \<and> unat x < 2 ^ (64 - count_leading_zeros x)"
proof -
  have "take_bit 64 (unat x) = unat x"
    by (rule take_bit_nat_eq_self) (rule unat_limb_less)
  moreover have "unat x \<noteq> 0" using assms by (simp add: unat_eq_0)
  ultimately show ?thesis
    using clz_from_spec [of 64 x] by (simp add: count_leading_zeros_def)
qed

text \<open>Bounds of the value of a normalised limb list by its bit length.\<close>

lemma limbs_bits:
  assumes "xs \<noteq> []" and "last xs \<noteq> 0"
  defines "t \<equiv> length xs * 64 - count_leading_zeros (last xs)"
  shows "0 < t \<and> 2 ^ (t - 1) \<le> limbs_val xs \<and> limbs_val xs < 2 ^ t"
proof -
  obtain ys y where xs: "xs = ys @ [y]" using assms(1) by (cases xs rule: rev_cases) auto
  let ?c = "count_leading_zeros y"
  have c: "?c < 64" "2 ^ (63 - ?c) \<le> unat y" "unat y < 2 ^ (64 - ?c)"
    using count_leading_zeros_bounds [of y] assms(2) xs by auto
  have t: "t = 64 * length ys + (64 - ?c)" using c(1) by (simp add: t_def xs)
  have val: "limbs_val xs = limbs_val ys + 2 ^ (64 * length ys) * unat y"
    by (simp add: xs limbs_val_append)
  have "limbs_val xs < 2 ^ (64 * length ys) * Suc (unat y)"
    using limbs_val_less [of ys] by (simp add: val)
  also have "\<dots> \<le> 2 ^ (64 * length ys) * 2 ^ (64 - ?c)"
    using c(3) by (intro mult_le_mono2) simp
  finally have "limbs_val xs < 2 ^ t" by (simp add: t power_add)
  moreover have "2 ^ (t - 1) \<le> limbs_val xs"
  proof -
    have "t - 1 = 64 * length ys + (63 - ?c)" using c(1) t by simp
    then have "2 ^ (t - 1) = (2 ^ (64 * length ys) * 2 ^ (63 - ?c) :: nat)"
      by (simp add: power_add)
    also have "\<dots> \<le> 2 ^ (64 * length ys) * unat y" using c(2) by simp
    finally show ?thesis by (simp add: val)
  qed
  ultimately show ?thesis using c(1) t by simp
qed

lemma sizeinbase_bytes:
  assumes "xs \<noteq> []" and "last xs \<noteq> 0"
  shows "MPN_SIZEINBASE_2EXP xs (length xs) 8 = nbytes (limbs_val xs)"
proof -
  define t where "t = length xs * 64 - count_leading_zeros (last xs)"
  have t: "0 < t" "2 ^ (t - 1) \<le> limbs_val xs" "limbs_val xs < 2 ^ t"
    using limbs_bits [OF assms] by (simp_all add: t_def)
  define k where "k = (t - 1) div 8"
  have size: "MPN_SIZEINBASE_2EXP xs (length xs) 8 = Suc k"
    using assms(1) t(1) by (simp add: MPN_SIZEINBASE_2EXP_def Let_def k_def t_def last_conv_nth)
  have "(256::nat) ^ k = 2 ^ (8 * k)" by (simp add: power_mult)
  also have "\<dots> \<le> 2 ^ (t - 1)" by (intro power_increasing) (simp_all add: k_def)
  finally have "256 ^ k \<le> limbs_val xs" using t(2) by simp
  moreover have "limbs_val xs < 256 ^ Suc k"
  proof -
    have "t \<le> 8 * Suc k" using t(1) by (simp add: k_def)
    then have "(2::nat) ^ t \<le> 2 ^ (8 * Suc k)" by (intro power_increasing) simp_all
    also have "\<dots> = 256 ^ Suc k" by (simp only: power_mult) simp
    finally show ?thesis using t(3) by simp
  qed
  ultimately show ?thesis using nbytes_unique size by simp
qed

section \<open>Correctness of the byte conversions\<close>

text \<open>What is still to be written: the value of the buffered bits and the remaining limbs.\<close>

definition export_inv :: "export_state \<Rightarrow> nat \<Rightarrow> bool" where
  "export_inv s v \<longleftrightarrow> 8 dvd ex_lbits s \<and> ex_lbits s < 64 \<and> unat (ex_limb s) < 2 ^ ex_lbits s
     \<and> v = unat (ex_limb s) + 2 ^ ex_lbits s * limbs_val (ex_zp s)"

lemma byte_of_nat_eqI: "unat b = v mod 256 \<Longrightarrow> b = (of_nat v :: byte)"
  by (simp add: word_unat_eq_iff unat_of_nat)

lemma unat_ucast_byte: "unat (ucast (x :: limb) :: byte) = unat x mod 256"
  by (simp add: unsigned_ucast_eq take_bit_eq_mod)

lemma unat_drop_bit_limb: "unat (drop_bit n (x :: limb)) = unat x div 2 ^ n"
  by (simp only: unat_drop_bit_eq) (simp add: drop_bit_eq_div)

lemma EXTRACT_8:
  assumes "export_inv s v"
  shows "export_inv (EXTRACT 8 (\<lambda>x. x) s) (v div 256)"
    and "ex_data (EXTRACT 8 (\<lambda>x. x) s) = (ex_data s)[nat (ex_dp s) := of_nat v]"
    and "ex_dp (EXTRACT 8 (\<lambda>x. x) s) = ex_dp s"
proof -
  let ?l = "ex_lbits s" and ?x = "ex_limb s" and ?z = "ex_zp s"
  have inv: "8 dvd ?l" "?l < 64" "unat ?x < 2 ^ ?l" "v = unat ?x + 2 ^ ?l * limbs_val ?z"
    using assms by (auto simp: export_inv_def)
  show "ex_dp (EXTRACT 8 (\<lambda>x. x) s) = ex_dp s"
    by (simp add: EXTRACT_def Let_def)
  show "export_inv (EXTRACT 8 (\<lambda>x. x) s) (v div 256)"
  proof (cases "8 \<le> ?l")
    case True
    then have "(2::nat) ^ ?l = 256 * 2 ^ (?l - 8)"
      using power_add [of "2::nat" 8 "?l - 8"] by simp
    then show ?thesis
      using True inv
      by (auto simp: export_inv_def EXTRACT_def unat_drop_bit_limb dvd_diff_nat
          div_mult_self1 algebra_simps div_less_iff_less_mult mult.commute)
  next
    case False
    then have l: "?l = 0" using inv(1) by (auto elim: dvdE)
    then show ?thesis
      using inv False
      by (cases ?z)
        (auto simp: export_inv_def EXTRACT_def Let_def unat_drop_bit_limb
          div_less_iff_less_mult div_mult_self2 add.commute unat_limb_less')
  qed
  have "ucast (if 8 \<le> ?l then ?x else ?x OR push_bit ?l (case ?z of [] \<Rightarrow> 0 | x # _ \<Rightarrow> x))
      = (of_nat v :: byte)"
  proof (cases "8 \<le> ?l")
    case True
    then have "(2::nat) ^ ?l = 256 * 2 ^ (?l - 8)"
      using power_add [of "2::nat" 8 "?l - 8"] by simp
    then have "v mod 256 = unat ?x mod 256" by (simp add: inv(4) mult.assoc)
    then show ?thesis using True by (simp add: byte_of_nat_eqI unat_ucast_byte)
  next
    case False
    then have l: "?l = 0" using inv(1) by (auto elim: dvdE)
    then have x: "?x = 0" using inv(3) by (simp add: unat_eq_0)
    show ?thesis
    proof (cases ?z)
      case Nil
      then show ?thesis using l x inv(4) by simp
    next
      case (Cons y r)
      have "(unat y + 2 ^ 64 * limbs_val r) mod 256 = unat y mod 256"
        using mod_mult_self1 [of "unat y" "2 ^ 56 * limbs_val r" 256] by (simp add: mult.commute)
      then have "ucast y = (of_nat v :: byte)"
        using l x inv(4) Cons by (intro byte_of_nat_eqI) (simp add: unat_ucast_byte)
      then show ?thesis
        using l x Cons by simp
    qed
  qed
  then show "ex_data (EXTRACT 8 (\<lambda>x. x) s) = (ex_data s)[nat (ex_dp s) := of_nat v]"
    by (auto simp: EXTRACT_def Let_def split: if_splits)
qed

lemma be_bytes_Suc: "be_bytes (Suc n) v = be_bytes n (v div 256) @ [of_nat v]"
  by (simp add: be_bytes_def)

lemma export_words_1:
  assumes "export_inv s v" and "ex_dp s = int n - 1" and "n \<le> length (ex_data s)"
  shows "ex_data (export_words 1 1 1 0 0 n s) = be_bytes n v @ drop n (ex_data s)"
  using assms
proof (induction n arbitrary: s v)
  case 0
  then show ?case by (simp add: be_bytes_def)
next
  case (Suc n)
  let ?s = "EXTRACT 8 (\<lambda>x. x) s"
  have dp: "nat (ex_dp s) = n" using Suc.prems(2) by simp
  have step: "export_word 1 1 1 0 0 s = move_dp (- 1) ?s"
    by (simp add: export_word_def Let_def move_dp_def)
  have "ex_data (export_words 1 1 1 0 0 n (move_dp (- 1) ?s))
      = be_bytes n (v div 256) @ drop n (ex_data (move_dp (- 1) ?s))"
    using Suc.prems EXTRACT_8 [OF Suc.prems(1)]
    by (intro Suc.IH) (simp_all add: move_dp_def export_inv_def)
  also have "ex_data (move_dp (- 1) ?s) = (ex_data s)[n := of_nat v]"
    using EXTRACT_8(2) [OF Suc.prems(1)] dp by (simp add: move_dp_def)
  also have "drop n ((ex_data s)[n := of_nat v]) = of_nat v # drop (Suc n) (ex_data s)"
    using Suc.prems(3) by (simp add: drop_update_swap Cons_nth_drop_Suc [symmetric])
  finally show ?case by (simp only: export_words.simps step be_bytes_Suc) simp
qed

text \<open>
  The call \<open>mpz_export(buf, NULL, 1, 1, 1, 0, z)\<close> of the key exchange: the significant bytes,
  most significant first, at the \<^emph>\<open>start\<close> of the buffer; the rest of the buffer is left
  as it was.
\<close>

lemma mpz_export_bytes:
  assumes "mpz_wf z"
  shows "mpz_export data align 1 1 1 0 z =
    (if length data < nbytes (mpz_abs z) then Inl (Undefined OutOfBounds)
     else Inr (be_bytes (nbytes (mpz_abs z)) (mpz_abs z) @ drop (nbytes (mpz_abs z)) data,
               nbytes (mpz_abs z)))"
proof (cases "SIZ z = 0")
  case True
  then have "mpz_abs z = 0" using assms by (simp add: mpz_wf_def mpz_abs_def)
  then show ?thesis using True by (simp add: mpz_export_def be_bytes_def)
next
  case False
  then have ne: "PTR z \<noteq> []" and l: "length (PTR z) = ABSIZ z" and "last (PTR z) \<noteq> 0"
    using assms by (auto simp: mpz_wf_def ABSIZ_def)
  then have cnt: "MPN_SIZEINBASE_2EXP (PTR z) (ABSIZ z) 8 = nbytes (mpz_abs z)"
    using sizeinbase_bytes [of "PTR z"] by (simp add: mpz_abs_def)
  let ?s = "\<lparr>ex_data = data, ex_dp = int (nbytes (mpz_abs z)) - 1, ex_limb = 0, ex_lbits = 0,
    ex_zp = PTR z\<rparr>"
  have "export_inv ?s (mpz_abs z)" by (simp add: export_inv_def mpz_abs_def)
  then have "nbytes (mpz_abs z) \<le> length data \<Longrightarrow>
      ex_data (export_words 1 1 1 0 0 (nbytes (mpz_abs z)) ?s)
        = be_bytes (nbytes (mpz_abs z)) (mpz_abs z) @ drop (nbytes (mpz_abs z)) data"
    using export_words_1 [of ?s "mpz_abs z" "nbytes (mpz_abs z)"] by simp
  then show ?thesis
    using False by (simp add: mpz_export_def Let_def cnt)
qed

lemmas mpz_export_1 = mpz_export_bytes [unfolded One_nat_def]

text \<open>What has been read: \<open>v\<close> is the value of the \<open>k\<close> bytes consumed so far.\<close>

definition import_inv :: "import_state \<Rightarrow> nat \<Rightarrow> nat \<Rightarrow> bool" where
  "import_inv s v k \<longleftrightarrow> im_lbits s < 64 \<and> unat (im_limb s) < 2 ^ im_lbits s
     \<and> 64 * length (im_zp s) + im_lbits s = 8 * k
     \<and> v = limbs_val (im_zp s) + 2 ^ (64 * length (im_zp s)) * unat (im_limb s)"

lemma unat_or_disjoint:
  assumes "unat (x :: limb) < 2 ^ n" and "unat b < 256" and "n + 8 \<le> 64"
  shows "unat (x OR push_bit n b) = unat x + 2 ^ n * unat b"
proof -
  have lt: "2 ^ n * unat b < 2 ^ 64"
  proof -
    have "2 ^ n * unat b < 2 ^ n * 2 ^ 8" using assms(2) by simp
    also have "\<dots> = 2 ^ (n + 8)" by (simp add: power_add)
    also have "\<dots> \<le> 2 ^ 64" using assms(3) by (intro power_increasing) simp_all
    finally show ?thesis .
  qed
  have "unat (push_bit n b) = take_bit 64 (2 ^ n * unat b)"
    by (simp only: unsigned_push_bit_eq) (simp add: push_bit_eq_mult mult.commute)
  also have "\<dots> = push_bit n (unat b)"
    using lt by (simp add: take_bit_nat_eq_self push_bit_eq_mult mult.commute del: power_numeral)
  finally have "unat (x OR push_bit n b) = unat x OR push_bit n (unat b)"
    by (simp add: unsigned_or_eq)
  also have "\<dots> = unat x + push_bit n (unat b)"
  proof (rule disjunctive_add [symmetric])
    fix i
    have "take_bit n (unat x) = unat x" using assms(1) by (rule take_bit_nat_eq_self)
    then have "n \<le> i \<Longrightarrow> \<not> bit (unat x) i" by (metis bit_take_bit_iff leD)
    then show "\<not> bit (unat x) i \<or> \<not> bit (push_bit n (unat b)) i"
      by (auto simp: bit_push_bit_iff)
  qed
  finally show ?thesis by (simp add: push_bit_eq_mult mult.commute)
qed

lemma ACCUMULATE_8:
  assumes "import_inv s v k" and "unat b < 256"
  shows "import_inv (ACCUMULATE 8 b s) (v + 256 ^ k * unat b) (Suc k)"
    and "im_dp (ACCUMULATE 8 b s) = im_dp s"
proof -
  show "im_dp (ACCUMULATE 8 b s) = im_dp s" by (simp add: ACCUMULATE_def Let_def)
  let ?l = "im_lbits s" and ?n = "length (im_zp s)"
  have inv: "?l < 64" "unat (im_limb s) < 2 ^ ?l" "64 * ?n + ?l = 8 * k"
    "v = limbs_val (im_zp s) + 2 ^ (64 * ?n) * unat (im_limb s)"
    using assms(1) by (auto simp: import_inv_def)
  have "8 dvd ?l" using inv(3) by presburger
  then have l8: "?l + 8 \<le> 64" using inv(1) by presburger
  have sum: "unat (im_limb s OR push_bit ?l b) = unat (im_limb s) + 2 ^ ?l * unat b"
    using inv(2) assms(2) l8 by (rule unat_or_disjoint)
  have pow: "(256::nat) ^ k = 2 ^ (64 * ?n) * 2 ^ ?l"
    using inv(3) by (simp add: power_mult [of 2 8] flip: power_add)
  have val: "v + 256 ^ k * unat b
      = limbs_val (im_zp s) + 2 ^ (64 * ?n) * unat (im_limb s OR push_bit ?l b)"
    by (simp add: inv(4) sum pow algebra_simps)
  have less: "unat (im_limb s OR push_bit ?l b) < 2 ^ (?l + 8)"
  proof -
    have "unat (im_limb s) + 2 ^ ?l * unat b < 2 ^ ?l * Suc (unat b)" using inv(2) by simp
    also have "\<dots> \<le> 2 ^ ?l * 2 ^ 8" using assms(2) by (intro mult_le_mono2) simp
    finally show ?thesis by (simp add: sum power_add)
  qed
  show "import_inv (ACCUMULATE 8 b s) (v + 256 ^ k * unat b) (Suc k)"
  proof (cases "?l + 8 = 64")
    case True
    then have "drop_bit 8 b = 0"
      using assms(2) by (simp add: word_unat_eq_iff unat_drop_bit_limb)
    then show ?thesis
      using True inv val by (simp add: import_inv_def ACCUMULATE_def Let_def limbs_val_append)
  next
    case False
    then show ?thesis
      using l8 inv val less by (simp add: import_inv_def ACCUMULATE_def Let_def)
  qed
qed

lemma be_val_take_Suc:
  "n < length bs \<Longrightarrow> be_val (take (Suc n) bs) = 256 * be_val (take n bs) + unat (bs ! n)"
  by (simp add: take_Suc_conv_app_nth be_val_append) (simp add: be_val_def)

lemma import_words_1:
  assumes "import_inv s v k" and "im_dp s = int n - 1" and "n \<le> length data"
  shows "import_inv (import_words data 1 1 0 0 n s) (v + 256 ^ k * be_val (take n data)) (k + n)"
  using assms
proof (induction n arbitrary: s v k)
  case 0
  then show ?case by (simp add: be_val_def)
next
  case (Suc n)
  let ?b = "data ! n"
  let ?s = "ACCUMULATE 8 (ucast ?b) (s\<lparr>im_dp := im_dp s - 1\<rparr>)"
  have step: "import_word data 1 1 0 0 s = ?s"
    using Suc.prems(2) by (simp add: import_word_def Let_def)
  have b: "unat (ucast ?b :: limb) = unat ?b"
    by (simp add: unsigned_ucast_eq take_bit_nat_eq_self less_trans [OF unat_byte_less])
  have "import_inv (s\<lparr>im_dp := im_dp s - 1\<rparr>) v k"
    using Suc.prems(1) by (simp add: import_inv_def)
  then have "import_inv ?s (v + 256 ^ k * unat ?b) (Suc k)" and "im_dp ?s = int n - 1"
    using ACCUMULATE_8 [of "s\<lparr>im_dp := im_dp s - 1\<rparr>" v k "ucast ?b"] b Suc.prems(2) by simp_all
  then have "import_inv (import_words data 1 1 0 0 n ?s)
      (v + 256 ^ k * unat ?b + 256 ^ Suc k * be_val (take n data)) (Suc k + n)"
    using Suc.prems(3) by (intro Suc.IH) simp_all
  moreover have "v + 256 ^ k * unat ?b + 256 ^ Suc k * be_val (take n data)
      = v + 256 ^ k * be_val (take (Suc n) data)"
    using Suc.prems(3) by (simp add: be_val_take_Suc algebra_simps)
  ultimately show ?case by (simp only: import_words.simps step) simp
qed

lemma MPN_NORMALIZE_spec:
  assumes "n \<le> length xs"
  shows "MPN_NORMALIZE xs n \<le> n \<and> limbs_val (take (MPN_NORMALIZE xs n) xs) = limbs_val (take n xs)
    \<and> (MPN_NORMALIZE xs n > 0 \<longrightarrow> xs ! (MPN_NORMALIZE xs n - 1) \<noteq> 0)"
  using assms
  by (induction n) (auto simp: take_Suc_conv_app_nth limbs_val_append)

lemma set_limbs_normalized:
  fixes z :: mpz
  assumes "n = length xs"
  defines "z' \<equiv> set_limbs z xs (MPN_NORMALIZE xs n)"
  shows "mpz_wf z'" and "mpz_abs z' = limbs_val xs" and "0 \<le> SIZ z'"
proof -
  let ?m = "MPN_NORMALIZE xs n"
  have m: "?m \<le> length xs" "limbs_val (take ?m xs) = limbs_val xs" "?m > 0 \<Longrightarrow> xs ! (?m - 1) \<noteq> 0"
    using MPN_NORMALIZE_spec [of n xs] assms(1) by auto
  have "take ?m xs \<noteq> [] \<Longrightarrow> last (take ?m xs) \<noteq> 0"
    using m(1,3) by (auto simp: last_conv_nth)
  then show "mpz_wf z'" and "mpz_abs z' = limbs_val xs" and "0 \<le> SIZ z'"
    using m(1,2) by (simp_all add: z'_def mpz_wf_def mpz_abs_def set_limbs_def)
qed

text \<open>
  The call \<open>mpz_import(z, count, 1, 1, 1, 0, buf)\<close>: all \<open>count\<close> bytes count, most
  significant first.
\<close>

lemma mpz_import_bytes:
  assumes "count \<le> length data"
  obtains z' where "mpz_import z count align 1 1 1 0 data = Inr z'"
    and "mpz_wf z'" and "mpz_abs z' = be_val (take count data)" and "0 \<le> SIZ z'"
proof -
  let ?init = "\<lparr>im_dp = int count - 1, im_limb = 0, im_lbits = 0, im_zp = []\<rparr>"
  let ?s = "import_words data 1 1 0 0 count ?init"
  let ?zp = "if im_lbits ?s \<noteq> 0 then im_zp ?s @ [im_limb ?s] else im_zp ?s"
  let ?n = "BITS_TO_LIMBS (count * 8)"
  have "import_inv ?init 0 0" by (simp add: import_inv_def)
  from import_words_1 [OF this _ assms]
  have inv: "import_inv ?s (be_val (take count data)) count" by simp
  then have "limbs_val ?zp = be_val (take count data)"
    by (auto simp: import_inv_def limbs_val_append)
  moreover have "?n = length ?zp"
    using inv by (auto simp: import_inv_def BITS_TO_LIMBS_def)
  moreover have "mpz_import z count align 1 1 1 0 data
      = Inr (set_limbs (MPZ_NEWALLOC z ?n) ?zp (MPN_NORMALIZE ?zp ?n))"
    using assms by (simp add: mpz_import_def Let_def)
  ultimately show ?thesis
    using set_limbs_normalized [of ?n ?zp "MPZ_NEWALLOC z ?n"] that by simp
qed

lemma mpz_import_1:
  "count \<le> length data \<Longrightarrow> \<exists>z'. mpz_import z count align 1 (Suc 0) 1 0 data = Inr z'
     \<and> mpz_wf z' \<and> mpz_abs z' = be_val (take count data) \<and> 0 \<le> SIZ z'"
  by (rule mpz_import_bytes [where z = z and align = align, unfolded One_nat_def]) auto

lemma mpz_wf_sign: "mpz_wf z \<Longrightarrow> 0 \<le> SIZ z \<Longrightarrow> 0 < mpz_abs z \<Longrightarrow> 0 < SIZ z"
  by (cases "SIZ z = 0") (auto simp: mpz_wf_def mpz_abs_def)

lemma mpz_wf_pos: "mpz_wf z \<Longrightarrow> 0 < SIZ z \<Longrightarrow> 0 < mpz_abs z"
proof -
  assume z: "mpz_wf z" "0 < SIZ z"
  then obtain xs x where p: "PTR z = xs @ [x]" "x \<noteq> 0"
    by (cases "PTR z" rule: rev_cases) (auto simp: mpz_wf_def)
  then have "0 < unat x" by (simp add: unat_gt_0)
  then show "0 < mpz_abs z" by (simp add: p(1) mpz_abs_def limbs_val_append)
qed

lemma mpz_wf_size_32:
  assumes "mpz_wf z" and "mpz_abs z < 256 ^ 256"
  shows "ABSIZ z \<le> 32"
proof (cases "PTR z = []")
  case False
  then obtain xs x where p: "PTR z = xs @ [x]" "x \<noteq> 0"
    using assms(1) by (cases "PTR z" rule: rev_cases) (auto simp: mpz_wf_def)
  have "1 \<le> unat x" using p(2) by (simp add: Suc_le_eq unat_gt_0)
  then have "2 ^ (64 * length xs) * 1 \<le> 2 ^ (64 * length xs) * unat x" by (rule mult_le_mono2)
  also have "\<dots> \<le> mpz_abs z" by (simp add: mpz_abs_def p(1) limbs_val_append)
  also have "\<dots> < 256 ^ 256" by (rule assms(2))
  also have "(256 :: nat) ^ 256 = (2 ^ 8) ^ 256" by simp
  also have "\<dots> = 2 ^ 2048" by (simp only: power_mult [symmetric]) simp
  finally have "(2::nat) ^ (64 * length xs) < 2 ^ 2048" by (simp only: mult_1_right)
  then have "64 * length xs < 2048" by (rule power_less_imp_less_exp [rotated]) simp
  then show ?thesis using assms(1) p(1) by (simp add: mpz_wf_def ABSIZ_def)
qed (use assms(1) in \<open>simp add: mpz_wf_def ABSIZ_def\<close>)

lemma mpz_wf_size: "mpz_wf z \<Longrightarrow> mpz_abs z < 256 ^ 256 \<Longrightarrow> ABSIZ z < 2 ^ 31"
  using mpz_wf_size_32 [of z] by simp

lemma mpz_wf_init2: "mpz_wf (mpz_init2 n)" "mpz_wf mpz_init"
  by (simp_all add: mpz_wf_def mpz_init2_def mpz_init_def Let_def)

lemma mpz_set_ui_spec:
  "mpz_wf (mpz_set_ui z v)" "mpz_abs (mpz_set_ui z v) = unat v" "0 \<le> SIZ (mpz_set_ui z v)"
  by (simp_all add: mpz_wf_def mpz_abs_def mpz_set_ui_def set_limbs_def)

section \<open>Round trip through a buffer of the key exchange\<close>

text \<open>Numbers of exactly \<open>n\<close> significant bytes fill an \<open>n\<close>-byte buffer.\<close>

lemma mpz_export_fills:
  assumes "mpz_wf z" and "nbytes (mpz_abs z) = n" and "length buf = n"
  shows "mpz_export buf align 1 (Suc 0) 1 0 z = Inr (be_bytes n (mpz_abs z), n)"
  using assms by (simp add: mpz_export_1)

text \<open>
  The bytes of a shorter number are shifted: the receiver reads the number times a power
  of 256 plus whatever the buffer held.
\<close>

lemma export_import_value:
  assumes "mpz_wf z" and "nbytes (mpz_abs z) \<le> length buf"
    and "mpz_export buf align 1 1 1 0 z = Inr (buf', c)"
  shows "length buf' = length buf" and "be_val buf' =
    mpz_abs z * 256 ^ (length buf - nbytes (mpz_abs z)) + be_val (drop (nbytes (mpz_abs z)) buf)"
proof -
  let ?n = "nbytes (mpz_abs z)"
  have b: "buf' = be_bytes ?n (mpz_abs z) @ drop ?n buf"
    using assms by (auto simp: mpz_export_1 split: if_splits)
  have "mpz_abs z < 256 ^ ?n" using nbytes_bounds [of "mpz_abs z"] by (cases "mpz_abs z = 0") simp_all
  then have "be_val (be_bytes ?n (mpz_abs z)) = mpz_abs z" by (simp add: be_val_be_bytes)
  then show "be_val buf' = mpz_abs z * 256 ^ (length buf - ?n) + be_val (drop ?n buf)"
    by (simp add: b be_val_append)
  show "length buf' = length buf" using assms(2) by (simp add: b)
qed

end
