(* ===== verification/Gmp_Random.thy ===== *)
theory Gmp_Random
  imports Gmp_Integer
begin

unbundle bit_operations_syntax

text \<open>
  The random numbers of the key exchange: GMP's Mersenne Twister (\<open>rand/randmt.c\<close>,
  \<open>rand/randmts.c\<close>) and \<open>mpz_urandomb\<close>.  The generator state is the record \<open>rng\<close>, the
  structure \<open>gmp_rand_mt_struct\<close>; every function that draws numbers takes it and returns
  the new one.  \<open>gmp_randinit_mt\<close> loads the default state, \<open>gmp_randseed_ui\<close> replaces it
  by one computed from the seed.

  Inside the seeding the \<open>mpz_t\<close> temporaries are natural numbers: they stay non-negative,
  and the calls on them (\<open>mpz_mul\<close>, \<open>mpz_tdiv_q_2exp\<close>, \<open>mpz_addmul_ui\<close>, \<open>mpz_mod\<close>, ...)
  are the arithmetic operations they compute.
\<close>

type_synonym u32 = "32 word"

record rng =
  mt :: "u32 list"
  mti :: nat

definition MT_N :: nat where "MT_N = 624"
definition MT_M :: nat where "MT_M = 397"
definition WARM_UP :: nat where "WARM_UP = 2000"
definition MATRIX_A :: u32 where "MATRIX_A = 0x9908B0DF"
definition MASK_1 :: u32 where "MASK_1 = 0x9D2C5680"
definition MASK_2 :: u32 where "MASK_2 = 0xEFC60000"

section \<open>The generator\<close>

definition default_state :: "u32 list" where
  "default_state =
    [0xD247B233, 0x9E5AA8F1, 0x0FFA981B, 0x9DCB0980, 0x74200F2B, 0xA576D044, 0xE9F05ADF, 0x1538BFF5,
     0x59818BBF, 0xCF9E58D8, 0x09FCE032, 0x6A1C663F, 0x5116E78A, 0x69B3E0FA, 0x6D92D665, 0xD0A8BE98,
     0xF669B734, 0x41AC1B68, 0x630423F1, 0x4B8D6B8A, 0xC2C46DD7, 0x5680747D, 0x43703E8F, 0x3B6103D2,
     0x49E5EB3F, 0xCBDAB4C1, 0x9C988E23, 0x747BEE0B, 0x9111E329, 0x9F031B5A, 0xECCA71B9, 0x2AFE4EF8,
     0x8421C7ED, 0xAC89AFF1, 0xAED90DF3, 0x2DD74F01, 0x14906A13, 0x75873FA9, 0xFF83F877, 0x5028A0C9,
     0x11B4C41D, 0x7CAEDBC4, 0x8672D0A7, 0x48A7C109, 0x8320E59F, 0xBC0B3D5F, 0x75A30886, 0xF9E0D128,
     0x41AF7580, 0x239BB94D, 0xC67A3C81, 0x74EEBD6E, 0xBC02B53C, 0x727EA449, 0x6B8A2806, 0x5853B0DA,
     0xBDE032F4, 0xCE234885, 0x320D6145, 0x48CC053F, 0x00DBC4D2, 0xD55A2397, 0xE1059B6F, 0x1C3E05D1,
     0x09657C64, 0xD07CB661, 0x6E982E34, 0x6DD1D777, 0xEDED1071, 0xD79DFD65, 0xF816DDCE, 0xB6FAF1E4,
     0x1C771074, 0x311835BD, 0x18F952F7, 0xF8F40350, 0x4ECED354, 0x7C8AC12B, 0x31A9994D, 0x4FD47747,
     0xDC227A23, 0x6DFAFDDF, 0x6796E748, 0x0C6F634F, 0xF992FA1D, 0x4CF670C9, 0x067DFD31, 0xA7A3E1A5,
     0x8CD7D9DF, 0x972CCB34, 0x67C82156, 0xD548F6A8, 0x045CEC21, 0xF3240BFB, 0xDEF656A7, 0x43DE08C5,
     0xDAD1F92F, 0x3726C56B, 0x1409F19A, 0x942FD147, 0xB926749C, 0xADDC31B8, 0x53D0D869, 0xD1BA52FE,
     0x6722DF8C, 0x22D95A74, 0x7DC1B52A, 0x1DEC6FD5, 0x7262874D, 0x0A725DC9, 0xE6A8193D, 0xA052835A,
     0xDC9AD928, 0xE59EBB90, 0x70DBA9FF, 0xD612749D, 0x5A5A638C, 0x6086EC37, 0x2A579709, 0x1449EA3A,
     0xBC8E3C06, 0x2F900666, 0xFBE74FD1, 0x6B35B911, 0xF8335008, 0xEF1E979D, 0x738AB29D, 0xA2DC0FDC,
     0x7696305D, 0xF5429DAC, 0x8C41813B, 0x8073E02E, 0xBEF83CCD, 0x7B50A95A, 0x05EE5862, 0x00829ECE,
     0x8CA1958C, 0xBE4EA2E2, 0x4293BB73, 0x656F7B23, 0x417316D8, 0x4467D7CF, 0x2200E63B, 0x109050C8,
     0x814CBE47, 0x36B1D4A8, 0x36AF9305, 0x308327B3, 0xEBCD7344, 0xA738DE27, 0x5A10C399, 0x4142371D,
     0x64A18528, 0x0B31E8B2, 0x641057B9, 0x6AFC363B, 0x108AD953, 0x9D4DA234, 0x0C2D9159, 0x1C8A1A1F,
     0x310C66BA, 0x87AA1070, 0xDAC832FF, 0x0A433422, 0x7AF15812, 0x2D8D9BD0, 0x995A25E9, 0x25326CAC,
     0xA34384DB, 0x4C8421CC, 0x4F0315EC, 0x29E8649E, 0xA7732D6F, 0x2E94D3E3, 0x7D98A340, 0x397C4D74,
     0x659DB4DE, 0x747D4E9A, 0xD9DB8435, 0x4659DBE9, 0x313E6DC5, 0x29D104DC, 0x9F226CBA, 0x452F18B0,
     0xD0BC5068, 0x844CA299, 0x782B294E, 0x4AE2EB7B, 0xA4C475F8, 0x70A81311, 0x4B3E8BCC, 0x7E20D4BA,
     0xABCA33C9, 0x57BE2960, 0x44F9B419, 0x2E567746, 0x72EB757A, 0x102CC0E8, 0xB07F32B9, 0xD0DABD59,
     0xBA85AD6B, 0xF3E20667, 0x98D77D81, 0x197AFA47, 0x518EE9AC, 0xE10CE5A2, 0x01CF2C2A, 0xD3A3AF3D,
     0x16DDFD65, 0x669232F8, 0x1C50A301, 0xB93D9151, 0x9354D3F4, 0x847D79D0, 0xD5FE2EC6, 0x1F7B0610,
     0xFA6B90A5, 0xC5879041, 0x2E7DC05E, 0x423F1F32, 0xEF623DDB, 0x49C13280, 0x98714E92, 0xC7B6E4AD,
     0xC4318466, 0x0737F312, 0x4D3C003F, 0x9ACC1F1F, 0x5F1C926D, 0x085FA771, 0x185A83A2, 0xF9AA159D,
     0x0B0B0132, 0xF98E7A43, 0xCD9EBDBE, 0x0190CB29, 0x10D93FB6, 0x3B8A4D97, 0x66A65A41, 0xE43E766F,
     0x77BE3C41, 0xB9686364, 0xCB36994D, 0x6846A287, 0x567E77F7, 0x36178DD8, 0xBDE6B1F2, 0xB6EFDC64,
     0x82950324, 0x42053F47, 0xC09BE51C, 0x0942D762, 0x35F92C7F, 0x367DEC61, 0x6EE3D983, 0xDBAAF78A,
     0x265D2C47, 0x8EB4BF5C, 0x33B232D7, 0xB0137E77, 0x373C39A7, 0x8D2B2E76, 0xC7510F01, 0x50F9E032,
     0x7B1FDDDB, 0x724C2AAE, 0xB10ECB31, 0xCCA3D1B8, 0x7F0BCF10, 0x4254BBBD, 0xE3F93B97, 0x2305039B,
     0x53120E22, 0x1A2F3B9A, 0x0FDDBD97, 0x0118561E, 0x0A798E13, 0x9E0B3ACD, 0xDB6C9F15, 0xF512D0A2,
     0x9E8C3A28, 0xEE2184AE, 0x0051EC2F, 0x2432F74F, 0xB0AA66EA, 0x55128D88, 0xF7D83A38, 0x4DAE8E82,
     0x3FDC98D6, 0x5F0BD341, 0x7244BE1D, 0xC7B48E78, 0x2D473053, 0x43892E20, 0xBA0F1F2A, 0x524D4895,
     0x2E10BCB1, 0x4C372D81, 0x5C3E50CD, 0xCF61CC2E, 0x931709AB, 0x81B3AEFC, 0x39E9405E, 0x7FFE108C,
     0x4FBB3FF8, 0x06ABE450, 0x7F5BF51E, 0xA4E3CDFD, 0xDB0F6C6F, 0x159A1227, 0x3B9FED55, 0xD20B6F7F,
     0xFBE9CC83, 0x64856619, 0xBF52B8AF, 0x9D7006B0, 0x71165BC6, 0xAE324AEE, 0x29D27F2C, 0x794C2086,
     0x74445CE2, 0x782915CC, 0xD4CE6886, 0x3289AE7C, 0x53DEF297, 0x4185F7ED, 0x88B72400, 0x3C09DC11,
     0xBCE3AAB6, 0x6A75934A, 0xB267E399, 0x000DF1BF, 0x193BA5E2, 0xFA3E1977, 0x179E14F6, 0x1EEDE298,
     0x691F0B06, 0xB84F78AC, 0xC1C15316, 0xFFFF3AD6, 0x0B457383, 0x518CD612, 0x05A00F3E, 0xD5B7D275,
     0x4C5ECCD7, 0xE02CD0BE, 0x5558E9F2, 0x0C89BBF0, 0xA3D96227, 0x2832D2B2, 0xF667B897, 0xD4556554,
     0xF9D2F01F, 0xFA1E3FAE, 0x52C2E1EE, 0xE5451F31, 0x7E849729, 0xDABDB67A, 0x54BF5E7E, 0xF831C271,
     0x5F1A17E3, 0x9D140AFE, 0x92741C47, 0x48CFABCE, 0x9CBBE477, 0x9C3EE57F, 0xB07D4C39, 0xCC21BCE2,
     0x697708B1, 0x58DA2A6B, 0x2370DB16, 0x6E641948, 0xACC5BD52, 0x868F24CC, 0xCA1DB0F5, 0x4CADA492,
     0x3F443E54, 0xC4A4D5E9, 0xF00AD670, 0xE93C86E0, 0xFE90651A, 0xDDE532A3, 0xA66458DF, 0xAB7D7151,
     0x0E2E775F, 0xC9109F99, 0x8D96D59F, 0x73CEF14C, 0xC74E88E9, 0x02712DC0, 0x04F41735, 0x2E5914A2,
     0x59F4B2FB, 0x0287FC83, 0x80BC0343, 0xF6B32559, 0xC74178D4, 0xF1D99123, 0x383CCC07, 0xACC0637D,
     0x0863A548, 0xA6FCAC85, 0x2A13EFF0, 0xAF2EEDB1, 0x41E72750, 0xE0C6B342, 0x5DA22B46, 0x635559E0,
     0xD2EA40AC, 0x10AA98C0, 0x19096497, 0x112C542B, 0x2C85040C, 0xA868E7D0, 0x6E260188, 0xF596D390,
     0xC3BB5D7A, 0x7A2AA937, 0xDFD15032, 0x6780AE3B, 0xDB5F9CD8, 0x8BD266B0, 0x7744AF12, 0xB463B1B0,
     0x589629C9, 0xE30DBC6E, 0x880F5569, 0x209E6E16, 0x9DECA50C, 0x02987A57, 0xBED3EA57, 0xD3A678AA,
     0x70DD030D, 0x0CFD9C5D, 0x92A18E99, 0xF5740619, 0x7F6F0A7D, 0x134CAF9A, 0x70F5BAE4, 0x23DCA7B5,
     0x4D788FCD, 0xC7F07847, 0xBCF77DA1, 0x9071D568, 0xFC627EA1, 0xAE004B77, 0x66B54BCB, 0x7EF2DAAC,
     0xDCD5AC30, 0xB9BDF730, 0x505A97A7, 0x9D881FD3, 0xADB796CC, 0x94A1D202, 0x97535D7F, 0x31EC20C0,
     0xB1887A98, 0xC1475069, 0xA6F73AF3, 0x71E4E067, 0x46A569DE, 0xD2ADE430, 0x6F0762C7, 0xF50876F4,
     0x53510542, 0x03741C3E, 0x53502224, 0xD8E54D60, 0x3C44AB1A, 0x34972B46, 0x74BFA89D, 0xD7D768E0,
     0x37E605DC, 0xE13D1BDF, 0x5051C421, 0xB9E057BE, 0xB717A14C, 0xA1730C43, 0xB99638BE, 0xB5D5F36D,
     0xE960D9EA, 0x6B1388D3, 0xECB6D3B6, 0xBDBE8B83, 0x2E29AFC5, 0x764D71EC, 0x4B8F4F43, 0xC21DDC00,
     0xA63F657F, 0x82678130, 0xDBF535AC, 0xA594FC58, 0x942686BC, 0xBD9B657B, 0x4A0F9B61, 0x44FF184F,
     0x38E10A2F, 0x61910626, 0x5E247636, 0x7106D137, 0xC62802F0, 0xBD1D1F00, 0x7CC0DCB2, 0xED634909,
     0xDC13B24E, 0x9799C499, 0xD77E3D6A, 0x14773B68, 0x967A4FB7, 0x35EECFB1, 0x2A5110B8, 0xE2F0AF94,
     0x9D09DEA5, 0x20255D27, 0x5771D34B, 0xE1089EE4, 0x246F330B, 0x8F7CAEE5, 0xD3064712, 0x75CAFBEE,
     0xB94F7028, 0xED953666, 0x5D1975B4, 0x5AF81271, 0x13BE2025, 0x85194659, 0x30805331, 0xEC9D46C0,
     0xBC027C36, 0x2AF84188, 0xC2141B80, 0xC02B1E4A, 0x04D36177, 0xFC50E9D7, 0x39CE79DA, 0x917E0A00,
     0xEF7A0BF4, 0xA98BD8D1, 0x19424DD2, 0x9439DF1F, 0xC42AF746, 0xADDBE83E, 0x85221F0D, 0x45563E90,
     0x9095EC52, 0x77887B25, 0x8AE46064, 0xBD43B71A, 0xBB541956, 0x7366CF9D, 0xEE8E1737, 0xB5A727C9,
     0x5076B3E7, 0xFC70BACA, 0xCE135B75, 0xC4E91AA3, 0xF0341911, 0x53430C3F, 0x886B0824, 0x6BB5B8B7,
     0x33E21254, 0xF193B456, 0x5B09617F, 0x215FFF50, 0x48D97EF1, 0x356479AB, 0x6EA9DDC4, 0x0D352746,
     0xA2F5CE43, 0xB226A1B3, 0x1329EA3C, 0x7A337CC2, 0xB5CCE13D, 0x563E3B5B, 0x534E8E8F, 0x561399C9,
     0xE1596392, 0xB0F03125, 0x4586645B, 0x1F371847, 0x94EAABD1, 0x41F97EDD, 0xE3E5A39B, 0x71C774E2,
     0x507296F4, 0x5960133B, 0x7852C494, 0x3F5B2691, 0xA3F87774, 0x5A7AF89E, 0x17DA3F28, 0xE9D9516D,
     0xFCC1C1D5, 0xE4618628, 0x04081047, 0xD8E4DB5F, 0xDC380416, 0x8C4933E2, 0x95074D53, 0xB1B0032D,
     0xCC8102EA, 0x71641243, 0x98D6EB6A, 0x90FEC945, 0xA0914345, 0x6FAB037D, 0x70F49C4D, 0x05BF5B0E,
     0x927AAF7F, 0xA1940F61, 0xFEE0756F, 0xF815369F, 0x5C00253B, 0xF2B9762F, 0x4AEB3CCC, 0x1069F386,
     0xFBA4E7B9, 0x70332665, 0x6BCA810E, 0x85AB8058, 0xAE4B2B2F, 0x9D120712, 0xBEE8EACB, 0x776A1112]"

text \<open>\<open>(y >> 1) ^ ((y & 0x01) != 0 ? MATRIX_A : 0)\<close> for the joined word \<open>y\<close>.\<close>

definition twist :: "u32 \<Rightarrow> u32 \<Rightarrow> u32" where
  "twist u v = (let y = (u AND 0x80000000) OR (v AND 0x7FFFFFFF)
     in drop_bit 1 y XOR (if y AND 1 \<noteq> 0 then MATRIX_A else 0))"

definition mt_recalc_buffer :: "u32 list \<Rightarrow> u32 list" where
  "mt_recalc_buffer m =
     (let m1 = fold (\<lambda>kk m. m[kk := m ! (kk + MT_M) XOR twist (m ! kk) (m ! (kk + 1))])
                 [0 ..< MT_N - MT_M] m;
          m2 = fold (\<lambda>kk m. m[kk := m ! (kk - (MT_N - MT_M)) XOR twist (m ! kk) (m ! (kk + 1))])
                 [MT_N - MT_M ..< MT_N - 1] m1
      in m2[MT_N - 1 := m2 ! (MT_M - 1) XOR twist (m2 ! (MT_N - 1)) (m2 ! 0)])"

definition temper :: "u32 \<Rightarrow> u32" where
  "temper y0 =
     (let y1 = y0 XOR drop_bit 11 y0;
          y2 = y1 XOR (push_bit 7 y1 AND MASK_1);
          y3 = y2 XOR (push_bit 15 y2 AND MASK_2)
      in y3 XOR drop_bit 18 y3)"

definition NEXT_RANDOM :: "rng \<Rightarrow> u32 \<times> rng" where
  "NEXT_RANDOM s =
     (let s1 = (if mti s \<ge> MT_N then \<lparr>mt = mt_recalc_buffer (mt s), mti = 0\<rparr> else s)
      in (temper (mt s1 ! mti s1), s1\<lparr>mti := mti s1 + 1\<rparr>))"

text \<open>\<open>y & ~(ULONG_MAX << rbits)\<close>.\<close>

definition low_bits :: "u32 \<Rightarrow> nat \<Rightarrow> limb" where
  "low_bits y rbits = ucast y AND NOT (push_bit rbits (- 1))"

fun randget_limbs :: "nat \<Rightarrow> rng \<Rightarrow> limb list \<times> rng" where
  "randget_limbs 0 s = ([], s)"
| "randget_limbs (Suc n) s =
     (let (y0, s1) = NEXT_RANDOM s;
          (y1, s2) = NEXT_RANDOM s1;
          (ls, s3) = randget_limbs n s2
      in ((ucast y0 OR push_bit 32 (ucast y1)) # ls, s3))"

text \<open>The 64-bit branch of \<open>__gmp_randget_mt\<close>: the limbs stored at \<open>dest\<close>.\<close>

definition randget_mt :: "rng \<Rightarrow> nat \<Rightarrow> limb list \<times> rng" where
  "randget_mt s nbits =
     (let nlimbs = nbits div 64; rbits = nbits mod 64; (ls, s1) = randget_limbs nlimbs s
      in if rbits = 0 then (ls, s1)
         else if rbits < 32
         then let (y, s2) = NEXT_RANDOM s1 in (ls @ [low_bits y rbits], s2)
         else let (y, s2) = NEXT_RANDOM s1
              in if rbits > 32
                 then let (y', s3) = NEXT_RANDOM s2
                      in (ls @ [ucast y OR push_bit 32 (low_bits y' (rbits - 32))], s3)
                 else (ls @ [ucast y], s2))"

definition randinit_mt_noseed :: rng where
  "randinit_mt_noseed = \<lparr>mt = default_state, mti = WARM_UP mod MT_N\<rparr>"

definition gmp_randinit_mt :: rng where
  "gmp_randinit_mt = randinit_mt_noseed"

section \<open>Seeding\<close>

definition SEED_BITS :: nat where "SEED_BITS = 19937"

lemma small_less_SEED: "k \<le> 19937 \<Longrightarrow> n < 2 ^ k \<Longrightarrow> (n :: nat) < 2 ^ SEED_BITS"
  unfolding SEED_BITS_def by (erule less_le_trans) (rule power_increasing, simp_all)

text \<open>The loop at the label \<open>reduce\<close>: fold the bits above 19937 back in.\<close>

function mangle_reduce :: "nat \<Rightarrow> nat" where
  "mangle_reduce r =
     (let t = r div 2 ^ SEED_BITS
      in if t = 0 then r else mangle_reduce (r mod 2 ^ SEED_BITS + t * 20023))"
  by pat_completeness auto
termination
proof (relation "measure id")
  fix r t :: nat
  assume t: "t = r div 2 ^ SEED_BITS" "t \<noteq> 0"
  have "t * 20023 < t * 2 ^ SEED_BITS"
    using t(2) small_less_SEED [of 15 20023] by simp
  then have "r mod 2 ^ SEED_BITS + t * 20023 < r mod 2 ^ SEED_BITS + t * 2 ^ SEED_BITS" by simp
  also have "\<dots> = r" using div_mult_mod_eq [of r "2 ^ SEED_BITS"] by (simp add: t(1))
  finally show "(r mod 2 ^ SEED_BITS + t * 20023, r) \<in> measure id" by simp
qed simp

declare mangle_reduce.simps [simp del]

text \<open>
  The \<open>do ... while (bit != 0)\<close> loop with \<open>bit = 2 ^ k\<close>: square, reduce, and where the
  exponent \<open>e\<close> has the bit, multiply by the base and reduce again.
\<close>

fun mangle_loop :: "nat \<Rightarrow> nat \<Rightarrow> nat \<Rightarrow> nat \<Rightarrow> nat" where
  "mangle_loop b e 0 r = r"
| "mangle_loop b e (Suc k) r =
     (let r1 = mangle_reduce (r * r);
          r2 = (if bit e k then mangle_reduce (r1 * b) else r1)
      in mangle_loop b e k r2)"

definition mangle_seed :: "nat \<Rightarrow> nat" where
  "mangle_seed r = mangle_loop r 0x40118124 30 r"

fun nat_limbs :: "nat \<Rightarrow> limb list" where
  "nat_limbs v = (if v = 0 then [] else of_nat v # nat_limbs (v div 2 ^ 64))"

declare nat_limbs.simps [simp del]

definition mpz_of_nat :: "nat \<Rightarrow> mpz" where
  "mpz_of_nat v = (let ls = nat_limbs v in \<lparr>ALLOC = length ls, SIZ = int (length ls), PTR = ls\<rparr>)"

definition word_mem :: "u32 \<Rightarrow> bytes" where
  "word_mem w = le_bytes 4 (unat w)"

fun mem_words :: "nat \<Rightarrow> bytes \<Rightarrow> u32 list" where
  "mem_words 0 bs = []"
| "mem_words (Suc n) bs = of_nat (le_val (take 4 bs)) # mem_words n (drop 4 bs)"

definition randseed_mt :: "rng \<Rightarrow> nat \<Rightarrow> rng result" where
  "randseed_mt p seed =
     (let seed1 = mangle_seed (seed mod (2 ^ SEED_BITS - 20027) + 2);
          mt0 = (if bit seed1 19936 then 0x80000000 else 0);
          seed1 = unset_bit (SEED_BITS - 1) seed1;
          area = concat (map word_mem (tl (mt p)))
      in bindE (mpz_export area 4 (-1) 4 0 0 (mpz_of_nat seed1)) (\<lambda>(area', cnt).
         let m = mt0 # take cnt (mem_words (MT_N - 1) area') @ replicate (MT_N - (cnt + 1)) 0
         in Inr \<lparr>mt = (mt_recalc_buffer ^^ (WARM_UP div MT_N)) m, mti = WARM_UP mod MT_N\<rparr>))"

definition gmp_randseed_ui :: "rng \<Rightarrow> limb \<Rightarrow> rng result" where
  "gmp_randseed_ui s seed = randseed_mt s (unat seed)"

section \<open>Random integers\<close>

definition mpz_urandomb :: "mpz \<Rightarrow> rng \<Rightarrow> nat \<Rightarrow> mpz \<times> rng" where
  "mpz_urandomb rop rstate nbits =
     (let sz = BITS_TO_LIMBS nbits;
          rop = MPZ_NEWALLOC rop sz;
          (rp, rstate') = randget_mt rstate nbits
      in (set_limbs rop rp (MPN_NORMALIZE rp sz), rstate'))"

section \<open>The buffer follows the Mersenne Twister recurrence\<close>

definition rng_wf :: "rng \<Rightarrow> bool" where
  "rng_wf s \<longleftrightarrow> length (mt s) = MT_N \<and> mti s \<le> MT_N"

lemma fold_update_length:
  "length (fold (\<lambda>kk m. m[kk := f kk m]) ks m) = length m"
  by (induction ks arbitrary: m) simp_all

lemma length_mt_recalc_buffer [simp]: "length (mt_recalc_buffer m) = length m"
  by (simp add: mt_recalc_buffer_def Let_def fold_update_length)

text \<open>A loop that updates position \<open>kk\<close> in iteration \<open>kk\<close>, position by position.\<close>

lemma fold_update_nth:
  fixes f :: "nat \<Rightarrow> 'a list \<Rightarrow> 'a"
  assumes "a \<le> n" and "n \<le> length m"
  defines "F \<equiv> \<lambda>n. fold (\<lambda>kk m. m[kk := f kk m]) [a ..< n] m"
  shows "i < length m \<Longrightarrow> F n ! i = (if a \<le> i \<and> i < n then f i (F i) else m ! i)"
  using assms(1,2)
proof (induction n rule: dec_induct)
  case base
  then show ?case by (auto simp: F_def)
next
  case (step n)
  have "F (Suc n) = (F n)[n := f n (F n)]"
    using step.hyps by (simp add: F_def)
  moreover have "length (F n) = length m" by (simp add: F_def fold_update_length)
  ultimately show ?case using step by (auto simp: nth_list_update less_Suc_eq)
qed

definition recalc1 :: "u32 list \<Rightarrow> nat \<Rightarrow> u32 list" where
  "recalc1 m n = fold (\<lambda>kk m. m[kk := m ! (kk + MT_M) XOR twist (m ! kk) (m ! (kk + 1))]) [0 ..< n] m"

definition recalc2 :: "u32 list \<Rightarrow> nat \<Rightarrow> u32 list" where
  "recalc2 m n = fold (\<lambda>kk m. m[kk := m ! (kk - (MT_N - MT_M)) XOR twist (m ! kk) (m ! (kk + 1))])
     [MT_N - MT_M ..< n] m"

lemma recalc1_nth:
  assumes "length m = MT_N" and "n \<le> MT_N - MT_M" and "i < MT_N"
  shows "recalc1 m n ! i = (if i < n then m ! (i + MT_M) XOR twist (m ! i) (m ! (i + 1)) else m ! i)"
  using assms
proof (induction i arbitrary: n rule: less_induct)
  case (less i)
  have upd: "recalc1 m n ! j =
      (if j < n then recalc1 m j ! (j + MT_M) XOR twist (recalc1 m j ! j) (recalc1 m j ! (j + 1)) else m ! j)"
    if "n \<le> MT_N - MT_M" "j < MT_N" for n j
    using fold_update_nth [of 0 n m j "\<lambda>kk m. m ! (kk + MT_M) XOR twist (m ! kk) (m ! (kk + 1))"]
      that less.prems(1) by (simp add: recalc1_def MT_N_def MT_M_def)
  have same: "recalc1 m i ! j = m ! j" if "i \<le> j" "j < MT_N" "i < n" for j
    using upd [of i j] that less.prems by simp
  show ?case
    using upd [of n i] same [of i] same [of "i + 1"] same [of "i + MT_M"] less.prems
    by (auto simp: MT_N_def MT_M_def)
qed

lemma recalc2_nth:
  assumes "length m = MT_N" and "n \<le> MT_N - 1" and "i < MT_N" and "MT_N - MT_M \<le> n"
  shows "recalc2 m n ! i = (if MT_N - MT_M \<le> i \<and> i < n
    then recalc2 m n ! (i - (MT_N - MT_M)) XOR twist (m ! i) (m ! (i + 1)) else m ! i)"
proof -
  let ?a = "MT_N - MT_M"
  have upd: "recalc2 m n ! j =
      (if ?a \<le> j \<and> j < n
       then recalc2 m j ! (j - ?a) XOR twist (recalc2 m j ! j) (recalc2 m j ! (j + 1)) else m ! j)"
    if "?a \<le> n" "n \<le> MT_N - 1" "j < MT_N" for n j
    using fold_update_nth [of ?a n m j "\<lambda>kk m. m ! (kk - ?a) XOR twist (m ! kk) (m ! (kk + 1))"]
      that assms(1) by (simp add: recalc2_def)
  have same: "recalc2 m i ! j = m ! j" if "i \<le> j" "j < MT_N" "?a \<le> i" "i < n" for j
    using upd [of i j] that assms by simp
  have stable: "recalc2 m i ! j = recalc2 m n ! j" if "j < i" "?a \<le> i" "i \<le> n" for j
    using upd [of i j] upd [of n j] that assms by auto
  show ?thesis
    using upd [of n i] same [of i] same [of "i + 1"] stable [of "i - ?a"] assms
    by (auto simp: MT_N_def MT_M_def)
qed

lemma mt_recalc_buffer_alt:
  "mt_recalc_buffer m =
     (let m2 = recalc2 (recalc1 m (MT_N - MT_M)) (MT_N - 1)
      in m2[MT_N - 1 := m2 ! (MT_M - 1) XOR twist (m2 ! (MT_N - 1)) (m2 ! 0)])"
  by (simp add: mt_recalc_buffer_def recalc1_def recalc2_def Let_def)

text \<open>
  Concatenated buffers satisfy the defining recurrence of MT19937,
  \<open>x(k + 624) = x(k + 397) xor twist(x(k), x(k + 1))\<close>.
\<close>

lemma mt_recurrence:
  assumes "length m = MT_N" and "k < MT_N"
  shows "(m @ mt_recalc_buffer m) ! (k + MT_N) =
    (m @ mt_recalc_buffer m) ! (k + MT_M)
      XOR twist ((m @ mt_recalc_buffer m) ! k) ((m @ mt_recalc_buffer m) ! (k + 1))"
proof -
  let ?a = "MT_N - MT_M"
  define m1 where "m1 = recalc1 m ?a"
  define m2 where "m2 = recalc2 m1 (MT_N - 1)"
  define m3 where "m3 = mt_recalc_buffer m"
  have len: "length m1 = MT_N" "length m2 = MT_N" "length m3 = MT_N"
    using assms(1) by (simp_all add: m1_def m2_def m3_def recalc1_def recalc2_def fold_update_length)
  have m3: "m3 = m2[MT_N - 1 := m2 ! (MT_M - 1) XOR twist (m2 ! (MT_N - 1)) (m2 ! 0)]"
    by (simp add: m3_def mt_recalc_buffer_alt Let_def m1_def m2_def)
  have n1: "m1 ! i = (if i < ?a then m ! (i + MT_M) XOR twist (m ! i) (m ! (i + 1)) else m ! i)"
    if "i < MT_N" for i
    using recalc1_nth [OF assms(1) _ that, of ?a] by (simp add: m1_def)
  have n2: "m2 ! i = (if ?a \<le> i \<and> i < MT_N - 1
      then m2 ! (i - ?a) XOR twist (m1 ! i) (m1 ! (i + 1)) else m1 ! i)" if "i < MT_N" for i
    using recalc2_nth [OF len(1) _ that, of "MT_N - 1"] by (simp add: m2_def MT_N_def MT_M_def)
  have n3: "m3 ! i = (if i = MT_N - 1 then m2 ! (MT_M - 1) XOR twist (m2 ! (MT_N - 1)) (m2 ! 0)
      else m2 ! i)" if "i < MT_N" for i
    using that len(2) by (auto simp: m3)
  have app: "(m @ m3) ! j = (if j < MT_N then m ! j else m3 ! (j - MT_N))" for j
    using assms(1) by (simp add: nth_append)
  consider "k < ?a" | "?a \<le> k" "k < MT_N - 1" | "k = MT_N - 1"
    using assms(2) by linarith
  then have "m3 ! k = (m @ m3) ! (k + MT_M) XOR twist (m ! k) ((m @ m3) ! (k + 1))"
  proof cases
    case 1
    then show ?thesis
      using n3 [of k] n2 [of k] n1 [of k] app [of "k + MT_M"] app [of "k + 1"]
      by (simp add: MT_N_def MT_M_def)
  next
    case 2
    then have "m3 ! (k - ?a) = m2 ! (k - ?a)"
      using n3 [of "k - ?a"] by (auto simp: MT_N_def MT_M_def)
    with 2 show ?thesis
      using n3 [of k] n2 [of k] n1 [of k] n1 [of "k + 1"]
        app [of "k + MT_M"] app [of "k + 1"]
      by (simp add: MT_N_def MT_M_def)
  next
    case 3
    then show ?thesis
      using n3 [of k] n3 [of 0] n3 [of "MT_M - 1"] n2 [of k] n1 [of k]
        app [of "k + MT_M"] app [of "k + 1"]
      by (simp add: MT_N_def MT_M_def)
  qed
  then show ?thesis
    using assms(2) app [of k] app [of "k + MT_N"] unfolding m3_def by simp
qed

section \<open>Range of the random integers\<close>

lemma rng_wf_NEXT_RANDOM: "rng_wf s \<Longrightarrow> NEXT_RANDOM s = (y, s') \<Longrightarrow> rng_wf s'"
  by (auto simp: NEXT_RANDOM_def rng_wf_def Let_def MT_N_def split: if_splits)

lemma rng_wf_randget_limbs: "rng_wf s \<Longrightarrow> randget_limbs n s = (ls, s') \<Longrightarrow> rng_wf s'"
  by (induction n arbitrary: s ls s')
    (auto simp: Let_def split: prod.splits, metis rng_wf_NEXT_RANDOM)

lemma rng_wf_randget_mt: "rng_wf s \<Longrightarrow> randget_mt s n = (ls, s') \<Longrightarrow> rng_wf s'"
  by (auto simp: randget_mt_def Let_def split: prod.splits if_splits)
    (metis rng_wf_randget_limbs rng_wf_NEXT_RANDOM)+

lemma length_randget_limbs: "randget_limbs n s = (ls, s') \<Longrightarrow> length ls = n"
  by (induction n arbitrary: s ls s') (auto simp: Let_def split: prod.splits)

lemma length_randget_mt: "randget_mt s n = (ls, s') \<Longrightarrow> length ls = BITS_TO_LIMBS n"
proof -
  assume r: "randget_mt s n = (ls, s')"
  have "BITS_TO_LIMBS n = (if n mod 64 = 0 then n div 64 else Suc (n div 64))"
  proof -
    define q r where "q = n div 64" and "r = n mod 64"
    have n: "n = 64 * q + r" and "r < 64" by (simp_all add: q_def r_def)
    then have "(n + 63) div 64 = (if r = 0 then q else Suc q)"
      by (auto intro!: div_nat_eqI)
    then show ?thesis by (simp add: BITS_TO_LIMBS_def q_def r_def)
  qed
  then show ?thesis
    using r by (auto simp: randget_mt_def Let_def split: prod.splits if_splits dest: length_randget_limbs)
qed

lemma low_bits_take: "low_bits y r = take_bit r (ucast y)"
  unfolding low_bits_def by (rule bit_word_eqI) (auto simp: bit_simps)

lemma unat_low_bits: "unat (low_bits y r) < 2 ^ r"
  by (simp add: low_bits_take unsigned_take_bit_eq)

lemma unat_less_bits: "(\<And>i. bit (w :: limb) i \<Longrightarrow> i < r) \<Longrightarrow> unat w < 2 ^ r"
proof -
  assume "\<And>i. bit w i \<Longrightarrow> i < r"
  then have "w = take_bit r w" by (intro bit_word_eqI) (auto simp: bit_take_bit_iff)
  then show ?thesis by (metis take_bit_nat_less_exp unsigned_take_bit_eq)
qed

lemma bit_u32: "bit (y :: u32) i \<Longrightarrow> i < 32"
  using bit_imp_le_length [of y i] by simp

lemma unat_ucast32: "unat (ucast (y :: u32) :: limb) < 2 ^ 32"
  by (rule unat_less_bits) (auto simp: bit_ucast_iff dest: bit_u32)

lemma unat_top_limb:
  assumes "32 < r" and "r < 64"
  shows "unat (ucast (y :: u32) OR push_bit 32 (low_bits y' (r - 32))) < 2 ^ r"
proof (rule unat_less_bits)
  fix i
  assume "bit (ucast y OR push_bit 32 (low_bits y' (r - 32)) :: limb) i"
  then consider "bit y i" | "32 \<le> i" "i - 32 < r - 32"
    by (auto simp: bit_or_iff bit_ucast_iff bit_push_bit_iff low_bits_take bit_take_bit_iff)
  then show "i < r" using assms bit_u32 [of y i] by cases auto
qed

lemma limbs_val_snoc_less:
  assumes "unat x < 2 ^ r"
  shows "limbs_val (ls @ [x]) < 2 ^ (64 * length ls + r)"
proof -
  have "limbs_val (ls @ [x]) < 2 ^ (64 * length ls) * Suc (unat x)"
    using limbs_val_less [of ls] by (simp add: limbs_val_append)
  also have "\<dots> \<le> 2 ^ (64 * length ls) * 2 ^ r"
    using assms by (intro mult_le_mono2) simp
  finally show ?thesis by (simp add: power_add)
qed

lemma randget_mt_less: "randget_mt s n = (ls, s') \<Longrightarrow> limbs_val ls < 2 ^ n"
proof -
  assume r: "randget_mt s n = (ls, s')"
  obtain ls0 s1 where l0: "randget_limbs (n div 64) s = (ls0, s1)" by fastforce
  have len: "length ls0 = n div 64" using l0 by (rule length_randget_limbs)
  have n: "64 * (n div 64) + n mod 64 = n" by simp
  consider "n mod 64 = 0" "ls = ls0" | x where "n mod 64 \<noteq> 0" "ls = ls0 @ [x]" "unat x < 2 ^ (n mod 64)"
    using r l0 unat_low_bits unat_top_limb [of "n mod 64"] unat_ucast32
    by (auto simp: randget_mt_def Let_def split: prod.splits if_splits)
  then show ?thesis
  proof cases
    case 1
    then show ?thesis using limbs_val_less [of ls0] len n by simp
  next
    case 2
    then show ?thesis using limbs_val_snoc_less [of x "n mod 64" ls0] len n by simp
  qed
qed

lemma mpz_urandomb_spec:
  assumes "mpz_urandomb z s n = (z', s')"
  shows "mpz_wf z'" and "mpz_abs z' < 2 ^ n" and "0 \<le> SIZ z'" and "rng_wf s \<Longrightarrow> rng_wf s'"
proof -
  obtain rp where rp: "randget_mt s n = (rp, s')"
    and z': "z' = set_limbs (MPZ_NEWALLOC z (BITS_TO_LIMBS n)) rp (MPN_NORMALIZE rp (BITS_TO_LIMBS n))"
    using assms by (auto simp: mpz_urandomb_def Let_def split: prod.splits)
  have len: "BITS_TO_LIMBS n = length rp" using length_randget_mt [OF rp] by simp
  show "mpz_wf z'" and "0 \<le> SIZ z'"
    using set_limbs_normalized [OF len, of "MPZ_NEWALLOC z (BITS_TO_LIMBS n)"] z' by simp_all
  show "mpz_abs z' < 2 ^ n"
    using set_limbs_normalized(2) [OF len, of "MPZ_NEWALLOC z (BITS_TO_LIMBS n)"] z'
      randget_mt_less [OF rp] by simp
  show "rng_wf s \<Longrightarrow> rng_wf s'" using rng_wf_randget_mt [OF _ rp] by simp
qed

lemma rng_wf_init: "rng_wf gmp_randinit_mt"
proof -
  have "length default_state = 624" unfolding default_state_def by simp
  then show ?thesis
    by (simp add: rng_wf_def gmp_randinit_mt_def randinit_mt_noseed_def MT_N_def WARM_UP_def)
qed

section \<open>The seed is a power modulo 2 ^ 19937 - 20023\<close>

lemma mangle_reduce_spec:
  "mangle_reduce r < 2 ^ SEED_BITS \<and> mangle_reduce r mod (2 ^ SEED_BITS - 20023) = r mod (2 ^ SEED_BITS - 20023)"
proof (induction r rule: mangle_reduce.induct)
  case (1 r)
  let ?P = "2 ^ SEED_BITS :: nat" and ?t = "r div 2 ^ SEED_BITS"
  have big: "20023 < ?P" using small_less_SEED [of 15 20023] by simp
  show ?case
  proof (cases "?t = 0")
    case True
    then have "r < ?P" by (simp add: div_eq_0_iff)
    then show ?thesis using True by (simp add: mangle_reduce.simps [of r])
  next
    case False
    have "r = r mod ?P + ?t * (20023 + (?P - 20023))"
      using big div_mult_mod_eq [of r ?P] by (simp add: mult.commute)
    then have "r mod (?P - 20023) = (r mod ?P + ?t * 20023) mod (?P - 20023)"
      by (metis add.assoc distrib_left mod_mult_self1 mult.commute)
    moreover have "mangle_reduce r = mangle_reduce (r mod ?P + ?t * 20023)"
      using False by (subst mangle_reduce.simps) (simp add: Let_def)
    ultimately show ?thesis using 1 [OF refl False] by simp
  qed
qed

lemma mangle_loop_spec:
  fixes b r :: nat
  assumes "r mod P = b ^ x mod P" and "P = 2 ^ SEED_BITS - 20023" and "r < 2 ^ SEED_BITS"
  shows "mangle_loop b e k r mod P = b ^ (x * 2 ^ k + take_bit k e) mod P
    \<and> mangle_loop b e k r < 2 ^ SEED_BITS"
  using assms(1,3)
proof (induction k arbitrary: r x)
  case 0
  then show ?case by simp
next
  case (Suc k)
  let ?q = "mangle_reduce (r * r)"
  let ?r = "if bit e k then mangle_reduce (?q * b) else ?q"
  let ?y = "2 * x + of_bool (bit e k)"
  have sq: "?q mod P = b ^ (2 * x) mod P"
    using mangle_reduce_spec [of "r * r"] Suc.prems assms(2)
    by (metis mod_mult_eq mult_2 power_add)
  then have "?r mod P = b ^ ?y mod P"
    using mangle_reduce_spec [of "?q * b"] assms(2)
    by (auto simp: power_add mult.commute) (metis mod_mult_right_eq mult.commute)
  moreover have "?r < 2 ^ SEED_BITS" using mangle_reduce_spec by simp
  ultimately have "mangle_loop b e k ?r mod P = b ^ (?y * 2 ^ k + take_bit k e) mod P
      \<and> mangle_loop b e k ?r < 2 ^ SEED_BITS"
    by (rule Suc.IH)
  moreover have "?y * 2 ^ k + take_bit k e = x * 2 ^ Suc k + take_bit (Suc k) e"
    by (simp add: take_bit_Suc_from_most algebra_simps)
  ultimately show ?case by (simp add: Let_def)
qed

lemma mangle_seed_power:
  assumes "r < 2 ^ SEED_BITS"
  shows "mangle_seed r mod (2 ^ SEED_BITS - 20023) = r ^ 1074888996 mod (2 ^ SEED_BITS - 20023)"
    and "mangle_seed r < 2 ^ SEED_BITS"
proof -
  have "(1 * 2 ^ 30 + take_bit 30 0x40118124 :: nat) = 1074888996"
    by (simp add: take_bit_eq_mod)
  then show "mangle_seed r mod (2 ^ SEED_BITS - 20023) = r ^ 1074888996 mod (2 ^ SEED_BITS - 20023)"
    and "mangle_seed r < 2 ^ SEED_BITS"
    using mangle_loop_spec [of r "2 ^ SEED_BITS - 20023" r 1 "0x40118124" 30] assms
    unfolding mangle_seed_def by (simp_all only: power_one_right)
qed

end
