(* ===== verification/World.thy ===== *)
theory World
  imports Gmp_Random
begin

text \<open>
  What a process of the system finds outside its own source code: the sockets, the files,
  OpenSSL, the big-integer routines it calls through \<open>gmp.h\<close>, the allocator and the contents
  of memory it has not written yet.

  OpenSSL, the kernel and the C library are not part of the repository.  They are fields
  of the record \<open>ext\<close>, an argument of every definition that calls them; what the theorems
  need of them is stated below as named predicates over that record (\<open>evp_gcm_ok\<close>,
  \<open>signature_ok\<close>, \<open>gmp_ok\<close>, \<open>memory_ok\<close>, \<open>resources_ok\<close>), each the documented behaviour of the calls.
\<close>

section \<open>Sockets\<close>

text \<open>
  A connected stream socket.  \<open>rx\<close> is what the next calls of \<open>recv\<close> will find: segments
  as the network delivers them, a receive error, or \<open>Silent\<close>: the peer keeps the connection
  open and sends nothing more.  The sockets are blocking, so a \<open>recv\<close> that meets \<open>Silent\<close> waits
  for ever, the fault \<open>Waiting\<close>.  When \<open>rx\<close> is empty the peer has closed the connection.  \<open>tx\<close>
  collects the buffers that \<open>send\<close> accepted.  After \<open>close\<close> nothing can be received any more
  (the sources treat the results 0 and -1 of \<open>recv\<close> alike).
\<close>

datatype rx_event = Seg bytes | RxError | Silent

record sock =
  rx :: "rx_event list"
  tx :: "bytes list"
  is_open :: bool

definition recv :: "sock \<Rightarrow> nat \<Rightarrow> (int \<times> bytes \<times> sock) result" where
  "recv s n =
     (case rx s of
        [] \<Rightarrow> Inr (0, [], s)
      | Silent # r \<Rightarrow> Inl Waiting
      | RxError # r \<Rightarrow> Inr (-1, [], s\<lparr>rx := r\<rparr>)
      | Seg b # r \<Rightarrow>
          if length b \<le> n then Inr (int (length b), b, s\<lparr>rx := r\<rparr>)
          else Inr (int n, take n b, s\<lparr>rx := Seg (drop n b) # r\<rparr>))"

definition send :: "sock \<Rightarrow> bytes \<Rightarrow> sock" where
  "send s b = s\<lparr>tx := tx s @ [b]\<rparr>"

definition close :: "sock \<Rightarrow> sock" where
  "close s = s\<lparr>rx := [], is_open := False\<rparr>"

text \<open>Every \<open>recv\<close> that returns makes progress; the measure of the message loops.\<close>

fun rx_size :: "rx_event list \<Rightarrow> nat" where
  "rx_size [] = 0"
| "rx_size (RxError # r) = Suc (rx_size r)"
| "rx_size (Silent # r) = Suc (rx_size r)"
| "rx_size (Seg b # r) = Suc (length b + rx_size r)"

lemma recv_decreases:
  "recv s n = Inr (m, b, s') \<Longrightarrow> 0 < n \<Longrightarrow> rx s \<noteq> [] \<Longrightarrow> rx_size (rx s') < rx_size (rx s)"
  by (auto simp: recv_def split: list.splits rx_event.splits if_splits)

lemma recv_length: "recv s n = Inr (m, b, s') \<Longrightarrow> length b = nat m \<and> nat m \<le> n \<and> tx s' = tx s"
  by (auto simp: recv_def split: list.splits rx_event.splits if_splits)

lemma recv_closed: "rx s = [] \<Longrightarrow> recv s n = Inr (0, [], s)"
  by (simp add: recv_def)

lemma recv_Silent: "recv s n = Inl f \<longleftrightarrow> f = Waiting \<and> (\<exists>r. rx s = Silent # r)"
  by (auto simp: recv_def split: list.splits rx_event.splits if_splits)

lemma recv_Seg [simp]:
  "rx s = Seg b # r \<Longrightarrow> length b \<le> n \<Longrightarrow> recv s n = Inr (int (length b), b, s\<lparr>rx := r\<rparr>)"
  by (simp add: recv_def)

text \<open>
  What a peer can do so that the calls with a buffer of \<open>n\<close> bytes have only proper messages to
  work on: it is never silent, and no call gets the 32 bytes of an empty message.  A \<open>recv\<close> takes
  at most \<open>n\<close> bytes of a segment, so these are the segments whose length leaves 32 modulo \<open>n\<close>.
\<close>

definition empty_message :: "nat \<Rightarrow> rx_event list \<Rightarrow> bool" where
  "empty_message n evs \<longleftrightarrow> (\<exists>b. Seg b \<in> set evs \<and> length b mod n = 32)"

definition orderly :: "nat \<Rightarrow> rx_event list \<Rightarrow> bool" where
  "orderly n evs \<longleftrightarrow> Silent \<notin> set evs \<and> \<not> empty_message n evs"

lemma recv_events:
  assumes "recv s n = Inr (m, b, s')"
  shows "Silent \<in> set (rx s') \<longrightarrow> Silent \<in> set (rx s)"
    and "empty_message n (rx s') \<longrightarrow> empty_message n (rx s)"
    and "32 < n \<longrightarrow> m = 32 \<longrightarrow> empty_message n (rx s)"
proof -
  have "n \<le> k \<Longrightarrow> (k - n) mod n = k mod n" for k :: nat by (simp add: le_mod_geq)
  then show "empty_message n (rx s') \<longrightarrow> empty_message n (rx s)"
    using assms unfolding empty_message_def
    by (auto simp: recv_def split: list.splits rx_event.splits if_splits) blast+
  show "Silent \<in> set (rx s') \<longrightarrow> Silent \<in> set (rx s)"
    using assms by (auto simp: recv_def split: list.splits rx_event.splits if_splits)
  show "32 < n \<longrightarrow> m = 32 \<longrightarrow> empty_message n (rx s)"
    using assms by (fastforce simp: empty_message_def recv_def split: list.splits rx_event.splits if_splits)
qed

lemma send_sel [simp]: "rx (send s b) = rx s" "tx (send s b) = tx s @ [b]"
  by (simp_all add: send_def)

lemma rx_close [simp]: "rx (close s) = []" "tx (close s) = tx s"
  by (simp_all add: close_def)

text \<open>
  The outcome of a \<open>send\<close>, whose result the sources ignore: the buffer is accepted; an error is
  returned and nothing is sent; the peer is gone and \<open>SIGPIPE\<close> ends the process; the peer does not
  read and the call waits.
\<close>

datatype send_outcome = Accepted | SendError | PipeSignal | Blocked

definition send_result :: "send_outcome \<Rightarrow> sock \<Rightarrow> bytes \<Rightarrow> sock result" where
  "send_result x s b = (case x of
      Accepted \<Rightarrow> Inr (send s b)
    | SendError \<Rightarrow> Inr s
    | PipeSignal \<Rightarrow> Inl BrokenPipe
    | Blocked \<Rightarrow> Inl Waiting)"

lemma send_result_Accepted [simp]: "send_result Accepted s b = Inr (send s b)"
  by (simp add: send_result_def)

section \<open>Start-up\<close>

text \<open>The outcomes of \<open>accept\<close> are a list, \<open>None\<close> for a failure; these are the connections.\<close>

definition accepted :: "sock option list \<Rightarrow> sock list" where
  "accepted cs = map the (filter (\<lambda>c. c \<noteq> None) cs)"

lemma accepted_simps [simp]:
  "accepted [] = []" "accepted (None # cs) = accepted cs" "accepted (Some s # cs) = s # accepted cs"
  by (simp_all add: accepted_def)

text \<open>
  What a process observes while it starts: the results of \<open>socket\<close>, \<open>bind\<close> and \<open>listen\<close>
  and the clock it seeds its generator with.
\<close>

record startup =
  socket_result :: int
  bind_result :: int
  listen_result :: int
  start_time :: limb

section \<open>The record of external functions\<close>

record ('ctx, 'md, 'key) ext =
  SHA256 :: "bytes \<Rightarrow> bytes"
  cipher_ctx_new :: "'ctx option"
  encrypt_init :: "'ctx \<Rightarrow> bool \<Rightarrow> bytes option \<Rightarrow> bytes option \<Rightarrow> int \<times> 'ctx"
  decrypt_init :: "'ctx \<Rightarrow> bool \<Rightarrow> bytes option \<Rightarrow> bytes option \<Rightarrow> int \<times> 'ctx"
  ctrl_set_ivlen :: "'ctx \<Rightarrow> nat \<Rightarrow> int \<times> 'ctx"
  encrypt_aad :: "'ctx \<Rightarrow> bytes \<Rightarrow> int \<times> 'ctx"
  decrypt_aad :: "'ctx \<Rightarrow> bytes \<Rightarrow> int \<times> 'ctx"
  encrypt_update :: "'ctx \<Rightarrow> bytes \<Rightarrow> int \<times> bytes \<times> 'ctx"
  decrypt_update :: "'ctx \<Rightarrow> bytes \<Rightarrow> int \<times> bytes \<times> 'ctx"
  encrypt_final :: "'ctx \<Rightarrow> int \<times> bytes \<times> 'ctx"
  decrypt_final :: "'ctx \<Rightarrow> int \<times> bytes \<times> 'ctx"
  ctrl_get_tag :: "'ctx \<Rightarrow> nat \<Rightarrow> int \<times> bytes"
  ctrl_set_tag :: "'ctx \<Rightarrow> bytes \<Rightarrow> int \<times> 'ctx"
  kdf_available :: bool
  kdf_set_params :: "(string \<times> bytes) list \<Rightarrow> int"
  kdf_derive :: "(string \<times> bytes) list \<Rightarrow> nat \<Rightarrow> int \<times> bytes"
  PEM_read_PrivateKey :: "bytes \<Rightarrow> bytes \<Rightarrow> 'key option"
  PEM_read_PUBKEY :: "bytes \<Rightarrow> 'key option"
  PEM_write_bio_PUBKEY :: "'key \<Rightarrow> bytes"
  md_ctx_new :: "'md option"
  digest_sign_init :: "'md \<Rightarrow> 'key \<Rightarrow> int \<times> 'md"
  digest_sign_update :: "'md \<Rightarrow> bytes \<Rightarrow> int \<times> 'md"
  digest_sign_length :: "'md \<Rightarrow> int \<times> nat"
  digest_sign_final :: "'md \<Rightarrow> int \<times> bytes \<times> 'md"
  digest_verify_init :: "'md \<Rightarrow> 'key \<Rightarrow> int \<times> 'md"
  digest_verify_update :: "'md \<Rightarrow> bytes \<Rightarrow> int \<times> 'md"
  digest_verify_final :: "'md \<Rightarrow> bytes \<Rightarrow> int"
  read_file :: "string \<Rightarrow> bytes option"
  uninit :: "string \<Rightarrow> nat \<Rightarrow> bytes"
  mem_available :: "string \<Rightarrow> nat \<Rightarrow> bytes \<Rightarrow> bool"
  send_status :: "sock \<Rightarrow> bytes \<Rightarrow> send_outcome"
  gmp_powm :: "mpz \<Rightarrow> mpz \<Rightarrow> mpz \<Rightarrow> mpz result"
  gmp_nextprime :: "mpz \<Rightarrow> mpz"

text \<open>
  \<open>encrypt_init c True None None\<close> is \<open>EVP_EncryptInit_ex(c, EVP_aes_256_gcm(), NULL, NULL,
  NULL)\<close> and \<open>encrypt_init c False (Some key) (Some iv)\<close> the later call with \<open>NULL\<close> for the
  cipher; \<open>encrypt_aad\<close> is \<open>EVP_EncryptUpdate\<close> with a \<open>NULL\<close> output.  Each returns the
  status code the C function returns.  \<open>digest_sign_length\<close> is \<open>EVP_DigestSignFinal\<close> with a \<open>NULL\<close>
  buffer, which asks for the length of the signature.  \<open>uninit v n\<close> is what the \<open>n\<close> bytes of the
  uninitialised array \<open>v\<close> happen to contain.  \<open>mem_available v n b\<close> says whether the \<open>malloc\<close> of
  \<open>n\<close> bytes for \<open>v\<close> succeeds in the call that works on the bytes \<open>b\<close>, and \<open>send_status\<close> what
  becomes of a \<open>send\<close>.
\<close>

definition transmit :: "('c, 'm, 'k) ext \<Rightarrow> sock \<Rightarrow> bytes \<Rightarrow> sock result" where
  "transmit E s b = send_result (send_status E s b) s b"

section \<open>What is known of it\<close>

definition memory_ok :: "('c, 'm, 'k) ext \<Rightarrow> bool" where
  "memory_ok E \<longleftrightarrow> (\<forall>v n. length (uninit E v n) = n)"

text \<open>The good case, apart from which the theorems about robustness look: no \<open>malloc\<close> and no
  \<open>send\<close> fails.\<close>

definition resources_ok :: "('c, 'm, 'k) ext \<Rightarrow> bool" where
  "resources_ok E \<longleftrightarrow> (\<forall>v n b. mem_available E v n b) \<and> (\<forall>s b. send_status E s b = Accepted)"

lemma resources_ok_simps:
  assumes "resources_ok E"
  shows "mem_available E v n b" and "transmit E s b = Inr (send s b)"
  using assms by (simp_all add: resources_ok_def transmit_def)

text \<open>The reasons for which a process that talks to the peers \<open>evs\<close> can stop.\<close>

fun explained :: "('c, 'm, 'k) ext \<Rightarrow> rx_event list \<Rightarrow> fault \<Rightarrow> bool" where
  "explained E evs Waiting \<longleftrightarrow> Silent \<in> set evs \<or> (\<exists>s b. send_status E s b = Blocked)"
| "explained E evs BrokenPipe \<longleftrightarrow> (\<exists>s b. send_status E s b = PipeSignal)"
| "explained E evs (Undefined ZeroArraySize) \<longleftrightarrow> empty_message 2080 evs"
| "explained E evs (Undefined NullPointer) \<longleftrightarrow> (\<exists>v n b. \<not> mem_available E v n b)"
| "explained E evs f \<longleftrightarrow> False"

lemma explained_orderly: "resources_ok E \<Longrightarrow> orderly 2080 evs \<Longrightarrow> \<not> explained E evs f"
  by (cases "(E, evs, f)" rule: explained.cases) (auto simp: resources_ok_def orderly_def)

lemma transmit_cases:
  "(\<exists>s' q. transmit E s b = Inr s' \<and> rx s' = rx s \<and> tx s' = tx s @ q) \<or> (\<exists>f. transmit E s b = Inl f \<and> explained E evs f)"
  by (cases "send_status E s b") (auto simp: transmit_def send_result_def)

text \<open>
  The states an AES-256-GCM context goes through, by the EVP manual: cipher chosen, IV
  length set, key and IV set, additional data given, data processed, finalised.
\<close>

datatype gcm_state =
    Fresh
  | Chosen
  | IvLen nat
  | Keyed bytes bytes
  | Aad bytes bytes bytes
  | Data bytes bytes bytes bytes
  | Tagged bytes bytes bytes bytes bytes
  | Final bytes bytes bytes bytes

definition gcm_encrypt_ok ::
  "('c, 'm, 'k) ext \<Rightarrow> ('c \<Rightarrow> gcm_state) \<Rightarrow> (bytes \<Rightarrow> bytes \<Rightarrow> bytes \<Rightarrow> bytes) \<Rightarrow>
   (bytes \<Rightarrow> bytes \<Rightarrow> bytes \<Rightarrow> bytes \<Rightarrow> bytes) \<Rightarrow> bool" where
  "gcm_encrypt_ok E st ctr tagf \<longleftrightarrow>
     (\<exists>c. cipher_ctx_new E = Some c \<and> st c = Fresh)
   \<and> (\<forall>c. st c = Fresh \<longrightarrow> (\<exists>c'. encrypt_init E c True None None = (1, c') \<and> st c' = Chosen))
   \<and> (\<forall>c n. st c = Chosen \<longrightarrow> (\<exists>c'. ctrl_set_ivlen E c n = (1, c') \<and> st c' = IvLen n))
   \<and> (\<forall>c key iv. st c = IvLen (length iv) \<longrightarrow> length key = 32 \<longrightarrow>
        (\<exists>c'. encrypt_init E c False (Some key) (Some iv) = (1, c') \<and> st c' = Keyed key iv))
   \<and> (\<forall>c key iv a. st c = Keyed key iv \<longrightarrow>
        (\<exists>c'. encrypt_aad E c a = (1, c') \<and> st c' = Aad key iv a))
   \<and> (\<forall>c key iv a p. st c = Aad key iv a \<longrightarrow>
        (\<exists>c'. encrypt_update E c p = (1, ctr key iv p, c') \<and> st c' = Data key iv a (ctr key iv p)))
   \<and> (\<forall>c key iv a d. st c = Data key iv a d \<longrightarrow>
        (\<exists>c'. encrypt_final E c = (1, [], c') \<and> st c' = Final key iv a d))
   \<and> (\<forall>c key iv a d. st c = Final key iv a d \<longrightarrow> ctrl_get_tag E c 16 = (1, tagf key iv a d))"

definition gcm_decrypt_ok ::
  "('c, 'm, 'k) ext \<Rightarrow> ('c \<Rightarrow> gcm_state) \<Rightarrow> (bytes \<Rightarrow> bytes \<Rightarrow> bytes \<Rightarrow> bytes) \<Rightarrow>
   (bytes \<Rightarrow> bytes \<Rightarrow> bytes \<Rightarrow> bytes \<Rightarrow> bytes) \<Rightarrow> bool" where
  "gcm_decrypt_ok E st ctr tagf \<longleftrightarrow>
     (\<exists>c. cipher_ctx_new E = Some c \<and> st c = Fresh)
   \<and> (\<forall>c. st c = Fresh \<longrightarrow> (\<exists>c'. decrypt_init E c True None None = (1, c') \<and> st c' = Chosen))
   \<and> (\<forall>c n. st c = Chosen \<longrightarrow> (\<exists>c'. ctrl_set_ivlen E c n = (1, c') \<and> st c' = IvLen n))
   \<and> (\<forall>c key iv. st c = IvLen (length iv) \<longrightarrow> length key = 32 \<longrightarrow>
        (\<exists>c'. decrypt_init E c False (Some key) (Some iv) = (1, c') \<and> st c' = Keyed key iv))
   \<and> (\<forall>c key iv a. st c = Keyed key iv \<longrightarrow>
        (\<exists>c'. decrypt_aad E c a = (1, c') \<and> st c' = Aad key iv a))
   \<and> (\<forall>c key iv a d. st c = Aad key iv a \<longrightarrow>
        (\<exists>c'. decrypt_update E c d = (1, ctr key iv d, c') \<and> st c' = Data key iv a d))
   \<and> (\<forall>c key iv a d t. st c = Data key iv a d \<longrightarrow>
        (\<exists>c'. ctrl_set_tag E c t = (1, c') \<and> st c' = Tagged key iv a d t))
   \<and> (\<forall>c key iv a d t. st c = Tagged key iv a d t \<longrightarrow>
        (\<exists>r c'. decrypt_final E c = (r, [], c') \<and> (0 < r \<longleftrightarrow> t = tagf key iv a d)))"

text \<open>
  GCM as SP 800-38D has it: a keystream XORed onto the data, which keeps the length and
  undoes itself, and a 16-byte tag over the additional data and the ciphertext.
\<close>

definition gcm_ok ::
  "(bytes \<Rightarrow> bytes \<Rightarrow> bytes \<Rightarrow> bytes) \<Rightarrow> (bytes \<Rightarrow> bytes \<Rightarrow> bytes \<Rightarrow> bytes \<Rightarrow> bytes) \<Rightarrow> bool" where
  "gcm_ok ctr tagf \<longleftrightarrow>
     (\<forall>key iv p. ctr key iv (ctr key iv p) = p \<and> length (ctr key iv p) = length p)
   \<and> (\<forall>key iv a d. length (tagf key iv a d) = 16)"

definition evp_gcm_ok ::
  "('c, 'm, 'k) ext \<Rightarrow> ('c \<Rightarrow> gcm_state) \<Rightarrow> (bytes \<Rightarrow> bytes \<Rightarrow> bytes \<Rightarrow> bytes) \<Rightarrow>
   (bytes \<Rightarrow> bytes \<Rightarrow> bytes \<Rightarrow> bytes \<Rightarrow> bytes) \<Rightarrow> bool" where
  "evp_gcm_ok E st ctr tagf \<longleftrightarrow>
     gcm_encrypt_ok E st ctr tagf \<and> gcm_decrypt_ok E st ctr tagf \<and> gcm_ok ctr tagf"

text \<open>HKDF derives the number of bytes asked for.\<close>

definition kdf_ok :: "('c, 'm, 'k) ext \<Rightarrow> bool" where
  "kdf_ok E \<longleftrightarrow> kdf_available E \<and> (\<forall>ps. 0 < kdf_set_params E ps)
     \<and> (\<forall>ps n. \<exists>k. kdf_derive E ps n = (1, k) \<and> length k = n)"

text \<open>
  The states of a digest context, by the EVP manual: fresh, signing or verifying with a key the
  data given so far.  A signature is a function \<open>sg\<close> of the key and the data (RSA with PKCS 1
  padding, the default), the verdict a function \<open>vf\<close> of the key, the data and the signature.
\<close>

datatype 'key md_state =
    MdFresh
  | Signing 'key bytes
  | Verifying 'key bytes

definition evp_sign_ok ::
  "('c, 'm, 'k) ext \<Rightarrow> ('m \<Rightarrow> 'k md_state) \<Rightarrow> ('k \<Rightarrow> bytes \<Rightarrow> bytes) \<Rightarrow> bool" where
  "evp_sign_ok E md sg \<longleftrightarrow>
     (\<exists>c. md_ctx_new E = Some c \<and> md c = MdFresh)
   \<and> (\<forall>c k. md c = MdFresh \<longrightarrow> (\<exists>c'. digest_sign_init E c k = (1, c') \<and> md c' = Signing k []))
   \<and> (\<forall>c k d x. md c = Signing k d \<longrightarrow>
        (\<exists>c'. digest_sign_update E c x = (1, c') \<and> md c' = Signing k (d @ x)))
   \<and> (\<forall>c k d. md c = Signing k d \<longrightarrow> digest_sign_length E c = (1, length (sg k d))
        \<and> (\<exists>c'. digest_sign_final E c = (1, sg k d, c')))"

definition evp_verify_ok ::
  "('c, 'm, 'k) ext \<Rightarrow> ('m \<Rightarrow> 'k md_state) \<Rightarrow> ('k \<Rightarrow> bytes \<Rightarrow> bytes \<Rightarrow> int) \<Rightarrow> bool" where
  "evp_verify_ok E md vf \<longleftrightarrow>
     (\<exists>c. md_ctx_new E = Some c \<and> md c = MdFresh)
   \<and> (\<forall>c k. md c = MdFresh \<longrightarrow> (\<exists>c'. digest_verify_init E c k = (1, c') \<and> md c' = Verifying k []))
   \<and> (\<forall>c k d x. md c = Verifying k d \<longrightarrow>
        (\<exists>c'. digest_verify_update E c x = (1, c') \<and> md c' = Verifying k (d @ x)))
   \<and> (\<forall>c k d s. md c = Verifying k d \<longrightarrow> digest_verify_final E c s = vf k d s)"

text \<open>
  The RSA-2048 key pair: a signature has 256 bytes, and the public key that
  \<open>PEM_write_bio_PUBKEY\<close> prints, which is never the empty text, verifies it.
\<close>

definition signature_ok :: "('c, 'm, 'k) ext \<Rightarrow> 'k \<Rightarrow> bool" where
  "signature_ok E sk \<longleftrightarrow> PEM_write_bio_PUBKEY E sk \<noteq> [] \<and>
     (\<exists>md sg vf pk. evp_sign_ok E md sg \<and> evp_verify_ok E md vf
        \<and> PEM_read_PUBKEY E (PEM_write_bio_PUBKEY E sk) = Some pk
        \<and> (\<forall>d. length (sg sk d) = 256 \<and> vf pk d (sg sk d) = 1))"

text \<open>
  The two GMP routines reached through the record: \<open>mpz_powm\<close> on a positive modulus, whose number
  of limbs is an \<open>int\<close>, and a non-negative base and exponent, and \<open>mpz_nextprime\<close> on numbers of
  fewer than \<open>2 ^ 26\<close> bits, for which the index of its sieve fits an \<open>int\<close>.
\<close>

definition powm_ok :: "('c, 'm, 'k) ext \<Rightarrow> bool" where
  "powm_ok E \<longleftrightarrow> (\<forall>b e m. mpz_wf b \<longrightarrow> mpz_wf e \<longrightarrow> mpz_wf m \<longrightarrow>
     0 \<le> SIZ b \<longrightarrow> 0 \<le> SIZ e \<longrightarrow> 0 < SIZ m \<longrightarrow> ABSIZ m < 2 ^ 31 \<longrightarrow>
     (\<exists>r. gmp_powm E b e m = Inr r \<and> mpz_wf r \<and> 0 \<le> SIZ r
        \<and> mpz_abs r = mpz_abs b ^ mpz_abs e mod mpz_abs m))"

definition nextprime_ok :: "('c, 'm, 'k) ext \<Rightarrow> bool" where
  "nextprime_ok E \<longleftrightarrow> (\<forall>z. mpz_wf z \<longrightarrow> 0 \<le> SIZ z \<longrightarrow> ABSIZ z < 2 ^ 20 \<longrightarrow>
     mpz_wf (gmp_nextprime E z) \<and> 0 < SIZ (gmp_nextprime E z)
     \<and> mpz_abs z < mpz_abs (gmp_nextprime E z))"

definition gmp_ok :: "('c, 'm, 'k) ext \<Rightarrow> bool" where
  "gmp_ok E \<longleftrightarrow> powm_ok E \<and> nextprime_ok E"

end
