(* ===== verification/Example_World.thy ===== *)
theory Example_World
  imports World
begin

unbundle bit_operations_syntax

text \<open>
  A concrete environment that meets every assumption made of the outside world, used to
  show that the hypotheses of the theorems can hold together and to evaluate the model on
  concrete inputs.  It stands for no real implementation: the cipher XORs a constant, the
  tag and the signature are prefixes, the modular power is computed on the numbers.
\<close>

definition toy_ctr :: "bytes \<Rightarrow> bytes \<Rightarrow> bytes \<Rightarrow> bytes" where
  "toy_ctr key iv p = map (\<lambda>b. b XOR 0x5A) p"

definition toy_tag :: "bytes \<Rightarrow> bytes \<Rightarrow> bytes \<Rightarrow> bytes \<Rightarrow> bytes" where
  "toy_tag key iv a d = take 16 (d @ replicate 16 7)"

definition toy_sign :: "bytes \<Rightarrow> bytes \<Rightarrow> bytes" where
  "toy_sign k d = take 256 (k @ d @ replicate 256 1)"

definition toy_key :: bytes where
  "toy_key = str ''key''"

fun toy_init :: "gcm_state \<Rightarrow> bool \<Rightarrow> bytes option \<Rightarrow> bytes option \<Rightarrow> int \<times> gcm_state" where
  "toy_init Fresh True None None = (1, Chosen)"
| "toy_init (IvLen n) False (Some key) (Some iv) =
     (if n = length iv \<and> length key = 32 then (1, Keyed key iv) else (0, IvLen n))"
| "toy_init c _ _ _ = (0, c)"

fun toy_ivlen :: "gcm_state \<Rightarrow> nat \<Rightarrow> int \<times> gcm_state" where
  "toy_ivlen Chosen n = (1, IvLen n)"
| "toy_ivlen c n = (0, c)"

fun toy_aad :: "gcm_state \<Rightarrow> bytes \<Rightarrow> int \<times> gcm_state" where
  "toy_aad (Keyed key iv) a = (1, Aad key iv a)"
| "toy_aad c a = (0, c)"

fun toy_encrypt :: "gcm_state \<Rightarrow> bytes \<Rightarrow> int \<times> bytes \<times> gcm_state" where
  "toy_encrypt (Aad key iv a) p = (1, toy_ctr key iv p, Data key iv a (toy_ctr key iv p))"
| "toy_encrypt c p = (0, [], c)"

fun toy_decrypt :: "gcm_state \<Rightarrow> bytes \<Rightarrow> int \<times> bytes \<times> gcm_state" where
  "toy_decrypt (Aad key iv a) d = (1, toy_ctr key iv d, Data key iv a d)"
| "toy_decrypt c p = (0, [], c)"

fun toy_encrypt_final :: "gcm_state \<Rightarrow> int \<times> bytes \<times> gcm_state" where
  "toy_encrypt_final (Data key iv a d) = (1, [], Final key iv a d)"
| "toy_encrypt_final c = (0, [], c)"

fun toy_get_tag :: "gcm_state \<Rightarrow> nat \<Rightarrow> int \<times> bytes" where
  "toy_get_tag (Final key iv a d) n = (1, toy_tag key iv a d)"
| "toy_get_tag c n = (0, [])"

fun toy_set_tag :: "gcm_state \<Rightarrow> bytes \<Rightarrow> int \<times> gcm_state" where
  "toy_set_tag (Data key iv a d) t = (1, Tagged key iv a d t)"
| "toy_set_tag c t = (0, c)"

fun toy_decrypt_final :: "gcm_state \<Rightarrow> int \<times> bytes \<times> gcm_state" where
  "toy_decrypt_final (Tagged key iv a d t) =
     (if t = toy_tag key iv a d then (1, [], Final key iv a d) else (0, [], Fresh))"
| "toy_decrypt_final c = (0, [], c)"

fun toy_sign_init :: "bytes md_state \<Rightarrow> bytes \<Rightarrow> int \<times> bytes md_state" where
  "toy_sign_init MdFresh k = (1, Signing k [])"
| "toy_sign_init c k = (0, c)"

fun toy_md_update :: "bytes md_state \<Rightarrow> bytes \<Rightarrow> int \<times> bytes md_state" where
  "toy_md_update (Signing k d) x = (1, Signing k (d @ x))"
| "toy_md_update (Verifying k d) x = (1, Verifying k (d @ x))"
| "toy_md_update c x = (0, c)"

fun toy_sign_length :: "bytes md_state \<Rightarrow> int \<times> nat" where
  "toy_sign_length (Signing k d) = (1, length (toy_sign k d))"
| "toy_sign_length c = (0, 0)"

fun toy_sign_final :: "bytes md_state \<Rightarrow> int \<times> bytes \<times> bytes md_state" where
  "toy_sign_final (Signing k d) = (1, toy_sign k d, MdFresh)"
| "toy_sign_final c = (0, [], c)"

fun toy_verify_init :: "bytes md_state \<Rightarrow> bytes \<Rightarrow> int \<times> bytes md_state" where
  "toy_verify_init MdFresh k = (1, Verifying k [])"
| "toy_verify_init c k = (0, c)"

fun toy_verify_final :: "bytes md_state \<Rightarrow> bytes \<Rightarrow> int" where
  "toy_verify_final (Verifying k d) s = (if s = toy_sign k d then 1 else 0)"
| "toy_verify_final c s = -1"

definition toy_powm :: "mpz \<Rightarrow> mpz \<Rightarrow> mpz \<Rightarrow> mpz result" where
  "toy_powm b e m = (if SIZ m = 0 then Inl ExitFailure
     else Inr (mpz_of_nat (mpz_abs b ^ mpz_abs e mod mpz_abs m)))"

text \<open>The modulus of the example handshake, \<open>5 ^ 881 + 5\<close>: not a prime, which nothing needs.\<close>

definition toy_modulus :: nat where
  "toy_modulus = 5 ^ 881 + 5"

definition toy_nextprime :: "mpz \<Rightarrow> mpz" where
  "toy_nextprime z = mpz_of_nat (if mpz_abs z < toy_modulus then toy_modulus else mpz_abs z + 1)"

definition toy_ext :: "(gcm_state, bytes md_state, bytes) ext" where
  "toy_ext = \<lparr>
     SHA256 = (\<lambda>x. take 32 (x @ replicate 32 3)),
     cipher_ctx_new = Some Fresh,
     encrypt_init = toy_init, decrypt_init = toy_init, ctrl_set_ivlen = toy_ivlen,
     encrypt_aad = toy_aad, decrypt_aad = toy_aad,
     encrypt_update = toy_encrypt, decrypt_update = toy_decrypt,
     encrypt_final = toy_encrypt_final, decrypt_final = toy_decrypt_final,
     ctrl_get_tag = toy_get_tag, ctrl_set_tag = toy_set_tag,
     kdf_available = True, kdf_set_params = (\<lambda>ps. 1),
     kdf_derive = (\<lambda>ps n. (1, take n (concat (map snd ps) @ replicate n 0))),
     PEM_read_PrivateKey = (\<lambda>f pw. Some f), PEM_read_PUBKEY = Some,
     PEM_write_bio_PUBKEY = (\<lambda>k. k),
     md_ctx_new = Some MdFresh,
     digest_sign_init = toy_sign_init, digest_sign_update = toy_md_update,
     digest_sign_length = toy_sign_length, digest_sign_final = toy_sign_final,
     digest_verify_init = toy_verify_init, digest_verify_update = toy_md_update,
     digest_verify_final = toy_verify_final,
     read_file = (\<lambda>f. Some toy_key), uninit = (\<lambda>v n. replicate n 0xAA),
     mem_available = (\<lambda>v n b. True), send_status = (\<lambda>s b. Accepted),
     gmp_powm = toy_powm, gmp_nextprime = toy_nextprime\<rparr>"

section \<open>It meets the assumptions\<close>

lemma limbs_val_nat_limbs: "limbs_val (nat_limbs v) = v"
proof (induction v rule: nat_limbs.induct)
  case (1 v)
  show ?case
  proof (cases "v = 0")
    case False
    have "unat (of_nat v :: limb) = v mod 2 ^ 64" by (simp add: unat_of_nat)
    then show ?thesis
      using 1 [OF False] False div_mult_mod_eq [of v "2 ^ 64"] by (subst nat_limbs.simps) simp
  qed (simp add: nat_limbs.simps [of 0])
qed

lemma last_nat_limbs: "v \<noteq> 0 \<Longrightarrow> nat_limbs v \<noteq> [] \<and> last (nat_limbs v) \<noteq> 0"
proof (induction v rule: nat_limbs.induct)
  case (1 v)
  show ?case
  proof (cases "v div 2 ^ 64 = 0")
    case True
    then have "v < 2 ^ 64" by (simp add: div_eq_0_iff)
    then have "(of_nat v :: limb) \<noteq> 0" using 1(2) by (simp add: word_unat_eq_iff unat_of_nat)
    moreover have "nat_limbs v = [of_nat v]"
      using 1(2) True by (subst nat_limbs.simps) (simp add: nat_limbs.simps [of 0])
    ultimately show ?thesis by simp
  next
    case False
    then show ?thesis using 1 by (subst (1 2) nat_limbs.simps) simp
  qed
qed

lemma mpz_of_nat_spec [simp]:
  "mpz_wf (mpz_of_nat v)" "mpz_abs (mpz_of_nat v) = v" "0 \<le> SIZ (mpz_of_nat v)"
  "0 < SIZ (mpz_of_nat v) \<longleftrightarrow> 0 < v"
  using last_nat_limbs [of v] limbs_val_nat_limbs [of v]
  by (cases "v = 0";
      auto simp: mpz_of_nat_def mpz_wf_def mpz_abs_def Let_def nat_limbs.simps [of 0])+

lemma toy_memory_ok: "memory_ok toy_ext"
  by (simp add: memory_ok_def toy_ext_def)

lemma toy_gcm_ok: "gcm_ok toy_ctr toy_tag"
proof -
  have "(b XOR 0x5A) XOR 0x5A = (b :: byte)" for b by (simp add: xor.assoc)
  then have "map (\<lambda>b. (b XOR 0x5A) XOR 0x5A) p = (p :: bytes)" for p by (intro map_idI) simp
  then show ?thesis by (auto simp: gcm_ok_def toy_ctr_def toy_tag_def o_def min_def)
qed

lemma toy_evp_gcm_ok: "evp_gcm_ok toy_ext id toy_ctr toy_tag"
  using toy_gcm_ok
  by (simp add: evp_gcm_ok_def gcm_encrypt_ok_def gcm_decrypt_ok_def toy_ext_def)

lemma toy_kdf_ok: "kdf_ok toy_ext"
  by (auto simp: kdf_ok_def toy_ext_def min_def)

lemma toy_powm_ok: "powm_ok toy_ext"
  by (auto simp: powm_ok_def toy_ext_def toy_powm_def)

lemma toy_nextprime_ok: "nextprime_ok toy_ext"
  by (auto simp: nextprime_ok_def toy_ext_def toy_nextprime_def)

lemma toy_resources_ok: "resources_ok toy_ext"
  by (simp add: resources_ok_def toy_ext_def)

lemma toy_evp_sign_ok: "evp_sign_ok toy_ext id toy_sign"
  by (simp add: evp_sign_ok_def toy_ext_def)

lemma toy_evp_verify_ok: "evp_verify_ok toy_ext id (\<lambda>k d s. if s = toy_sign k d then 1 else 0)"
  by (simp add: evp_verify_ok_def toy_ext_def)

lemma toy_signature_ok: "signature_ok toy_ext toy_key"
proof -
  have "length (toy_sign toy_key d) = 256" for d by (simp add: toy_sign_def min_def)
  then show ?thesis unfolding signature_ok_def
    using toy_evp_sign_ok toy_evp_verify_ok
    by (intro conjI exI [of _ id] exI [of _ toy_sign] exI [of _ "\<lambda>k d s. if s = toy_sign k d then 1 else 0"]
        exI [of _ toy_key]) (simp_all add: toy_ext_def toy_key_def str_def)
qed

section \<open>Seeding the generator\<close>

text \<open>
  \<open>gmp_randseed_ui\<close> returns for every seed: the exported number, of at most 19936 bits, fits the
  623 words of the state.
\<close>

lemma export_words_fit:
  assumes "mpz_wf z" and "mpz_abs z < 2 ^ (32 * k)" and "4 * k \<le> length data"
  shows "\<exists>r. mpz_export data 4 (-1) 4 0 0 z = Inr r"
proof (cases "SIZ z = 0")
  case True
  then show ?thesis by (simp add: mpz_export_def)
next
  case False
  then have ne: "PTR z \<noteq> []" and l: "length (PTR z) = ABSIZ z" and nz: "last (PTR z) \<noteq> 0"
    using assms(1) by (auto simp: mpz_wf_def ABSIZ_def)
  define t where "t = ABSIZ z * 64 - count_leading_zeros (last (PTR z))"
  have t: "0 < t" "2 ^ (t - 1) \<le> mpz_abs z"
    using limbs_bits [OF ne nz] by (simp_all add: t_def mpz_abs_def l)
  have "(2::nat) ^ (t - 1) < 2 ^ (32 * k)" using t(2) assms(2) by (rule le_less_trans)
  then have "t - 1 < 32 * k" by (rule power_less_imp_less_exp [rotated]) simp
  then have "(t + 31) div 32 \<le> k" using t(1) by linarith
  moreover have "MPN_SIZEINBASE_2EXP (PTR z) (ABSIZ z) 32 = (t + 31) div 32"
    using ne l by (simp add: MPN_SIZEINBASE_2EXP_def Let_def t_def last_conv_nth)
  ultimately show ?thesis using False assms(3) by (simp add: mpz_export_def Let_def)
qed

lemma unset_top_bit: "(x::nat) < 2 ^ Suc n \<Longrightarrow> unset_bit n x < 2 ^ n"
proof -
  assume "x < 2 ^ Suc n"
  then have "take_bit (Suc n) x = x" by (rule take_bit_nat_eq_self)
  then have "bit x i \<longleftrightarrow> i < Suc n \<and> bit x i" for i by (metis bit_take_bit_iff)
  then have "unset_bit n x = take_bit n x"
    by (intro bit_eqI) (auto simp: bit_take_bit_iff bit_unset_bit_iff less_Suc_eq)
  then show ?thesis by simp
qed

lemma gmp_randseed_ui_returns: "\<exists>g. gmp_randseed_ui gmp_randinit_mt t = Inr g"
proof -
  have len: "length (mt gmp_randinit_mt) = 624" using rng_wf_init by (simp add: rng_wf_def MT_N_def)
  have four: "length (le_bytes n v) = n" for n v by (induction n arbitrary: v) simp_all
  have "length (concat (map word_mem ws)) = 4 * length ws" for ws
    by (induction ws) (simp_all add: word_mem_def four)
  then have area: "4 * 623 \<le> length (concat (map word_mem (tl (mt gmp_randinit_mt))))" using len by simp
  define m where "m = unat t mod (2 ^ SEED_BITS - 20027) + 2"
  have "unat t < 2 ^ 64" by (rule unat_limb_less)
  with mod_less_eq_dividend have "unat t mod (2 ^ SEED_BITS - 20027) < 2 ^ 64" by (rule le_less_trans)
  then have "m < 2 ^ 65" unfolding m_def by simp
  then have seed: "m < 2 ^ SEED_BITS" by (rule small_less_SEED [rotated]) simp
  have s: "SEED_BITS = Suc 19936" "SEED_BITS - 1 = 19936" by (simp_all add: SEED_BITS_def)
  have "mangle_seed m < 2 ^ Suc 19936" using mangle_seed_power(2) [OF seed] unfolding s(1) .
  then have "unset_bit 19936 (mangle_seed m) < 2 ^ 19936" by (rule unset_top_bit)
  then have "unset_bit (SEED_BITS - 1) (mangle_seed m) < 2 ^ 19936" unfolding s(2) .
  moreover have "32 * 623 = (19936::nat)" by simp
  ultimately have "mpz_abs (mpz_of_nat (unset_bit (SEED_BITS - 1) (mangle_seed m))) < 2 ^ (32 * 623)"
    by (simp only: mpz_of_nat_spec)
  from export_words_fit [OF mpz_of_nat_spec(1) this area] obtain r where
    "mpz_export (concat (map word_mem (tl (mt gmp_randinit_mt)))) 4 (-1) 4 0 0
      (mpz_of_nat (unset_bit (SEED_BITS - 1) (mangle_seed m))) = Inr r" by blast
  then show ?thesis unfolding gmp_randseed_ui_def randseed_mt_def Let_def m_def [symmetric]
    by (simp add: split_beta)
qed

section \<open>Generator states that yield given numbers\<close>

definition rng_of :: "u32 list \<Rightarrow> rng" where
  "rng_of ws = \<lparr>mt = ws @ replicate (MT_N - length ws) 0, mti = 0\<rparr>"

lemma temper_0 [simp]: "temper 0 = 0"
  by (simp add: temper_def)

lemma NEXT_RANDOM_within: "mti s < MT_N \<Longrightarrow> NEXT_RANDOM s = (temper (mt s ! mti s), s\<lparr>mti := mti s + 1\<rparr>)"
  by (simp add: NEXT_RANDOM_def)

lemma randget_limbs_zero:
  assumes "mti s + 2 * n \<le> MT_N" and "\<And>i. mti s \<le> i \<Longrightarrow> i < mti s + 2 * n \<Longrightarrow> mt s ! i = 0"
  shows "randget_limbs n s = (replicate n 0, s\<lparr>mti := mti s + 2 * n\<rparr>)"
  using assms
proof (induction n arbitrary: s)
  case 0
  then show ?case by simp
next
  case (Suc n)
  let ?s = "s\<lparr>mti := mti s + 2\<rparr>"
  have "NEXT_RANDOM s = (0, s\<lparr>mti := mti s + 1\<rparr>)"
    and "NEXT_RANDOM (s\<lparr>mti := mti s + 1\<rparr>) = (0, ?s)"
    using Suc.prems(1) Suc.prems(2) [of "mti s"] Suc.prems(2) [of "mti s + 1"]
    by (simp_all add: NEXT_RANDOM_within)
  moreover have "randget_limbs n ?s = (replicate n 0, ?s\<lparr>mti := mti ?s + 2 * n\<rparr>)"
    using Suc.prems by (intro Suc.IH) simp_all
  ultimately show ?case by simp
qed

lemma mpz_urandomb_first_word:
  assumes "mti s + 64 \<le> MT_N" and "\<And>i. mti s < i \<Longrightarrow> i < mti s + 64 \<Longrightarrow> mt s ! i = 0"
  shows "mpz_abs (fst (mpz_urandomb z s 2048)) = unat (temper (mt s ! mti s))"
    and "snd (mpz_urandomb z s 2048) = s\<lparr>mti := mti s + 64\<rparr>"
proof -
  let ?s = "s\<lparr>mti := mti s + 2\<rparr>" and ?w = "temper (mt s ! mti s)"
  have "NEXT_RANDOM s = (?w, s\<lparr>mti := mti s + 1\<rparr>)"
    and "NEXT_RANDOM (s\<lparr>mti := mti s + 1\<rparr>) = (0, ?s)"
    using assms(1) assms(2) [of "mti s + 1"] by (simp_all add: NEXT_RANDOM_within)
  moreover have "randget_limbs 31 ?s = (replicate 31 0, ?s\<lparr>mti := mti ?s + 2 * 31\<rparr>)"
    using assms by (intro randget_limbs_zero) simp_all
  ultimately have "randget_limbs (Suc 31) s = (ucast ?w # replicate 31 0, s\<lparr>mti := mti s + 64\<rparr>)"
    by (simp add: numeral_eq_Suc)
  then have r: "randget_mt s 2048 = (ucast ?w # replicate 31 0, s\<lparr>mti := mti s + 64\<rparr>)"
    by (simp add: randget_mt_def)
  then have u: "mpz_urandomb z s 2048 = (let rp = ucast ?w # replicate 31 0 in
      set_limbs (MPZ_NEWALLOC z 32) rp (MPN_NORMALIZE rp 32), s\<lparr>mti := mti s + 64\<rparr>)"
    by (simp add: mpz_urandomb_def BITS_TO_LIMBS_def Let_def)
  have "limbs_val (replicate n 0) = 0" for n by (induction n) simp_all
  moreover have "unat (ucast ?w :: limb) = unat ?w"
    by (simp add: unsigned_ucast_eq take_bit_nat_eq_self less_trans [OF unsigned_less [where 'a = nat]])
  moreover have "(32::nat) = length (ucast ?w # replicate 31 (0::limb))" by simp
  from set_limbs_normalized(2) [OF this, of "MPZ_NEWALLOC z 32"]
  have "mpz_abs (fst (mpz_urandomb z s 2048)) = limbs_val (ucast ?w # replicate 31 0)"
    by (simp add: u Let_def)
  ultimately show "mpz_abs (fst (mpz_urandomb z s 2048)) = unat ?w" by simp
  show "snd (mpz_urandomb z s 2048) = s\<lparr>mti := mti s + 64\<rparr>" by (simp add: u)
qed

end
