(* ===== verification/Gmp_Properties.thy ===== *)
theory Gmp_Properties
  imports Example_World
begin

text \<open>
  What the big-integer and random-number routines promise to the program: the byte
  conversions of \<open>mpz_export\<close> and \<open>mpz_import\<close> are inverse on numbers that fill the
  buffer and only on those, the Mersenne Twister follows its recurrence, the numbers
  drawn stay in range, and seeding raises the seed to a fixed power.
\<close>

section \<open>Byte conversions\<close>

text \<open>
  C11.  A number of exactly 256 significant bytes survives the trip through a 256-byte field:
  \<open>mpz_export\<close> fills the buffer, whatever it held, and \<open>mpz_import\<close> of the 256 bytes gives
  the number back.
\<close>

theorem export_import_roundtrip:
  assumes "mpz_wf z" and "nbytes (mpz_abs z) = 256" and "length buf = 256"
  shows "\<exists>buf' z'. mpz_export buf 0 1 1 1 0 z = Inr (buf', 256) \<and> length buf' = 256
    \<and> mpz_import (mpz_init2 2048) 256 0 1 1 1 0 buf' = Inr z' \<and> mpz_wf z' \<and> mpz_abs z' = mpz_abs z"
proof -
  have v: "mpz_abs z < 256 ^ 256" using nbytes_bounds [of "mpz_abs z"] assms(2) by (cases "mpz_abs z = 0") auto
  obtain z' where "mpz_import (mpz_init2 2048) 256 0 1 (Suc 0) 1 0 (be_bytes 256 (mpz_abs z)) = Inr z'"
    "mpz_wf z'" "mpz_abs z' = be_val (be_bytes 256 (mpz_abs z))"
    using mpz_import_1 [of 256 "be_bytes 256 (mpz_abs z)" "mpz_init2 2048" 0] by auto
  then show ?thesis
    using mpz_export_fills [OF assms] v by (simp add: be_val_be_bytes)
qed

lemma nbytes_power: "nbytes (256 ^ n) = Suc n"
  by (rule nbytes_unique) simp_all

text \<open>C11, witness: the number \<open>256 ^ 255\<close> and a buffer of zeros.\<close>

theorem export_import_roundtrip_witness:
  "\<exists>buf' z'. mpz_export (replicate 256 0) 0 1 1 1 0 (mpz_of_nat (256 ^ 255)) = Inr (buf', 256) \<and> length buf' = 256
    \<and> mpz_import (mpz_init2 2048) 256 0 1 1 1 0 buf' = Inr z' \<and> mpz_wf z'
    \<and> mpz_abs z' = mpz_abs (mpz_of_nat (256 ^ 255))"
proof (rule export_import_roundtrip)
  have "Suc 255 = 256" by simp
  then show "nbytes (mpz_abs (mpz_of_nat (256 ^ 255))) = 256" by (simp only: mpz_of_nat_spec nbytes_power)
qed (rule mpz_of_nat_spec, rule length_replicate)

text \<open>
  C35.  A shorter number does not survive it: \<open>mpz_export\<close> puts its bytes at the start of the
  buffer, and the receiver, who imports all 256, reads a larger number that depends on
  what the buffer held before.
\<close>

theorem short_number_misread:
  assumes "mpz_wf z" and "0 < mpz_abs z" and "nbytes (mpz_abs z) < 256" and "length buf = 256"
  shows "\<exists>buf' z'. mpz_export buf 0 1 1 1 0 z = Inr (buf', nbytes (mpz_abs z))
    \<and> mpz_import (mpz_init2 2048) 256 0 1 1 1 0 buf' = Inr z'
    \<and> mpz_abs z' = mpz_abs z * 256 ^ (256 - nbytes (mpz_abs z)) + be_val (drop (nbytes (mpz_abs z)) buf)
    \<and> mpz_abs z < mpz_abs z'"
proof -
  let ?n = "nbytes (mpz_abs z)"
  have n: "?n \<le> length buf" using assms(3,4) by simp
  obtain buf' where e: "mpz_export buf 0 1 1 1 0 z = Inr (buf', ?n)"
    using mpz_export_bytes [OF assms(1)] n by simp
  note v = export_import_value [OF assms(1) n e]
  obtain z' where i: "mpz_import (mpz_init2 2048) 256 0 1 1 1 0 buf' = Inr z'" "mpz_abs z' = be_val buf'"
    using mpz_import_1 [of 256 buf' "mpz_init2 2048" 0] v(1) assms(4) by auto
  obtain k where "256 - ?n = Suc k" using assms(3) by (cases "256 - ?n") auto
  then have "mpz_abs z * 256 ^ 1 \<le> mpz_abs z * 256 ^ (256 - ?n)"
    by (intro mult_left_mono power_increasing) simp_all
  moreover have "mpz_abs z < mpz_abs z * 256 ^ 1" using assms(2) by simp
  ultimately have "mpz_abs z < mpz_abs z * 256 ^ (256 - ?n)" by (rule less_le_trans [rotated])
  then have "mpz_abs z < mpz_abs z'" using v(2) i(2) assms(4) by (simp only: trans_less_add1)
  then show ?thesis using e i v(2) assms(4) by simp
qed

text \<open>C35, witness: the number 7 and a buffer of zeros.\<close>

theorem short_number_misread_witness:
  "\<exists>buf' z'. mpz_export (replicate 256 0) 0 1 1 1 0 (mpz_of_nat 7) = Inr (buf', nbytes (mpz_abs (mpz_of_nat 7)))
    \<and> mpz_import (mpz_init2 2048) 256 0 1 1 1 0 buf' = Inr z'
    \<and> mpz_abs z' = mpz_abs (mpz_of_nat 7) * 256 ^ (256 - nbytes (mpz_abs (mpz_of_nat 7)))
        + be_val (drop (nbytes (mpz_abs (mpz_of_nat 7))) (replicate 256 0))
    \<and> mpz_abs (mpz_of_nat 7) < mpz_abs z'"
proof (rule short_number_misread)
  have "nbytes 7 = Suc 0" by (rule nbytes_unique) simp_all
  then show "nbytes (mpz_abs (mpz_of_nat 7)) < 256" by simp
qed simp_all

section \<open>Random numbers\<close>

text \<open>
  C21.  The buffer computed by \<open>mt_recalc_buffer\<close> continues the state by the recurrence of the
  Mersenne Twister, although it is computed in place.
\<close>

theorem mersenne_twister_recurrence:
  assumes "length m = MT_N" and "k < MT_N"
  shows "(m @ mt_recalc_buffer m) ! (k + MT_N) =
    (m @ mt_recalc_buffer m) ! (k + MT_M)
      XOR twist ((m @ mt_recalc_buffer m) ! k) ((m @ mt_recalc_buffer m) ! (k + 1))"
  by (rule mt_recurrence [OF assms])

text \<open>C21, witness: the all-zero state.\<close>

theorem mersenne_twister_recurrence_witness:
  "(replicate MT_N 0 @ mt_recalc_buffer (replicate MT_N 0)) ! (5 + MT_N) =
    (replicate MT_N 0 @ mt_recalc_buffer (replicate MT_N 0)) ! (5 + MT_M)
      XOR twist ((replicate MT_N 0 @ mt_recalc_buffer (replicate MT_N 0)) ! 5)
        ((replicate MT_N 0 @ mt_recalc_buffer (replicate MT_N 0)) ! (5 + 1))"
  by (rule mersenne_twister_recurrence) (simp_all add: MT_N_def)

text \<open>
  C22.  \<open>mpz_urandomb\<close> yields a well-formed non-negative number below \<open>2 ^ n\<close> and keeps the
  generator well formed, in every state the generator can be in.
\<close>

theorem urandomb_in_range:
  "mpz_wf (fst (mpz_urandomb z s n)) \<and> 0 \<le> SIZ (fst (mpz_urandomb z s n))
    \<and> mpz_abs (fst (mpz_urandomb z s n)) < 2 ^ n
    \<and> (rng_wf s \<longrightarrow> rng_wf (snd (mpz_urandomb z s n)))"
  using mpz_urandomb_spec [of z s n "fst (mpz_urandomb z s n)" "snd (mpz_urandomb z s n)"] by simp

text \<open>C22, witness: the freshly initialised generator.\<close>

theorem urandomb_in_range_witness: "rng_wf (snd (mpz_urandomb mpz_init gmp_randinit_mt 2048))"
  using urandomb_in_range [of mpz_init gmp_randinit_mt 2048] rng_wf_init by blast

text \<open>
  C24.  The seed is mangled by raising it to the power 1074888996 modulo \<open>2 ^ 19937 - 20023\<close>, and
  the result fits the 624 words of the state.
\<close>

theorem seed_is_power:
  assumes "r < 2 ^ SEED_BITS"
  shows "mangle_seed r mod (2 ^ SEED_BITS - 20023) = r ^ 1074888996 mod (2 ^ SEED_BITS - 20023)
    \<and> mangle_seed r < 2 ^ SEED_BITS"
  using mangle_seed_power [OF assms] by simp

text \<open>C24, witness: the seed of 1 January 2025.\<close>

theorem seed_is_power_witness:
  "mangle_seed 1735689600 mod (2 ^ SEED_BITS - 20023) = 1735689600 ^ 1074888996 mod (2 ^ SEED_BITS - 20023)
    \<and> mangle_seed 1735689600 < 2 ^ SEED_BITS"
proof (rule seed_is_power)
  show "(1735689600 :: nat) < 2 ^ SEED_BITS" by (rule small_less_SEED [of 40]) simp_all
qed

end
