(* ===== verification/Gmp_Mpn.thy ===== *)
theory Gmp_Mpn
  imports Gmp_Integer
begin

unbundle bit_operations_syntax

text \<open>
  The limb layer of GMP that modular exponentiation rests on, from the portable C sources of
  \<open>mpn/generic/\<close> (64-bit limbs, no nail bits, no assembly routines): double-limb
  multiplication (\<open>longlong.h\<close>), addition, subtraction, multiplication by a limb, shifts,
  comparison, the schoolbook product and square, the inverse of a limb modulo \<open>2 ^ 64\<close> and
  the Montgomery reductions \<open>mpn_redc_1\<close> and \<open>mpn_redc_2\<close>.

  A limb vector \<open>{p, n}\<close> is the list of its limbs, least significant first; a routine
  returns the vector it writes and the carry it returns.  Each operation has one lemma that
  gives its result as an equation between the values \<open>limbs_val\<close> of the vectors.
\<close>

section \<open>Double-limb product\<close>

definition ll_lowpart :: "limb \<Rightarrow> limb" where
  "ll_lowpart t = t AND (2 ^ 32 - 1)"

definition ll_highpart :: "limb \<Rightarrow> limb" where
  "ll_highpart t = drop_bit 32 t"

definition umul_ppmm :: "limb \<Rightarrow> limb \<Rightarrow> limb \<times> limb" where
  "umul_ppmm u v =
     (let ul = ll_lowpart u; uh = ll_highpart u; vl = ll_lowpart v; vh = ll_highpart v;
        x0 = ul * vl; x1 = ul * vh; x2 = uh * vl; x3 = uh * vh;
        x1 = x1 + ll_highpart x0;
        x1 = x1 + x2;
        x3 = (if x1 < x2 then x3 + 2 ^ 32 else x3)
      in (x3 + ll_highpart x1, push_bit 32 x1 + ll_lowpart x0))"

section \<open>Addition, subtraction, multiplication by a limb\<close>

fun add_n_loop :: "limb \<Rightarrow> limb list \<Rightarrow> limb list \<Rightarrow> limb list \<times> limb" where
  "add_n_loop cy (ul # up) (vl # vp) =
     (let sl = ul + vl; cy1 = of_bool (sl < ul); rl = sl + cy; cy2 = of_bool (rl < sl);
        (rp, c) = add_n_loop (cy1 OR cy2) up vp
      in (rl # rp, c))"
| "add_n_loop cy _ _ = ([], cy)"

definition mpn_add_n :: "limb list \<Rightarrow> limb list \<Rightarrow> limb list \<times> limb" where
  "mpn_add_n up vp = add_n_loop 0 up vp"

fun sub_n_loop :: "limb \<Rightarrow> limb list \<Rightarrow> limb list \<Rightarrow> limb list \<times> limb" where
  "sub_n_loop cy (ul # up) (vl # vp) =
     (let sl = ul - vl; cy1 = of_bool (sl > ul); rl = sl - cy; cy2 = of_bool (rl > sl);
        (rp, c) = sub_n_loop (cy1 OR cy2) up vp
      in (rl # rp, c))"
| "sub_n_loop cy _ _ = ([], cy)"

definition mpn_sub_n :: "limb list \<Rightarrow> limb list \<Rightarrow> limb list \<times> limb" where
  "mpn_sub_n up vp = sub_n_loop 0 up vp"

fun mul_1_loop :: "limb \<Rightarrow> limb list \<Rightarrow> limb \<Rightarrow> limb list \<times> limb" where
  "mul_1_loop cl (ul # up) vl =
     (let (hpl, lpl) = umul_ppmm ul vl;
        lpl = lpl + cl;
        cl' = of_bool (lpl < cl) + hpl;
        (rp, c) = mul_1_loop cl' up vl
      in (lpl # rp, c))"
| "mul_1_loop cl [] vl = ([], cl)"

definition mpn_mul_1 :: "limb list \<Rightarrow> limb \<Rightarrow> limb list \<times> limb" where
  "mpn_mul_1 up vl = mul_1_loop 0 up vl"

fun addmul_1_loop :: "limb \<Rightarrow> limb list \<Rightarrow> limb list \<Rightarrow> limb \<Rightarrow> limb list \<times> limb" where
  "addmul_1_loop crec (r0 # rp) (u0 # up) v0 =
     (let (p1, p0) = umul_ppmm u0 v0;
        p0 = r0 + p0;
        c = of_bool (r0 > p0);
        p1 = p1 + c;
        r0' = p0 + crec;
        c = of_bool (p0 > r0');
        (rs, cy) = addmul_1_loop (p1 + c) rp up v0
      in (r0' # rs, cy))"
| "addmul_1_loop crec _ _ v0 = ([], crec)"

text \<open>\<open>mpn_addmul_1 rp up v0\<close> updates the first \<open>length up\<close> limbs at \<open>rp\<close>.\<close>

definition mpn_addmul_1 :: "limb list \<Rightarrow> limb list \<Rightarrow> limb \<Rightarrow> limb list \<times> limb" where
  "mpn_addmul_1 rp up v0 =
     (let (rs, cy) = addmul_1_loop 0 rp up v0 in (rs @ drop (length up) rp, cy))"

section \<open>Lemmas on carries\<close>

text \<open>The limb base as a constant of its own keeps the arithmetic symbolic.\<close>

definition BB :: nat where
  "BB = 2 ^ 64"

lemma BB_pos [simp]: "0 < BB" and BB_gt1: "1 < BB" and BB_neq_0 [simp]: "BB \<noteq> 0"
  by (simp_all add: BB_def)

lemma BB_power: "2 ^ (64 * n) = BB ^ n"
  by (simp only: BB_def power_mult)

lemma limbs_val_Cons [simp]: "limbs_val (x # xs) = unat x + BB * limbs_val xs"
  by (simp add: BB_def)

declare limbs_val.simps(2) [simp del]

lemma limbs_val_lt: "limbs_val xs < BB ^ length xs"
  using limbs_val_less [of xs] by (simp only: BB_power)

lemma limbs_val_app: "limbs_val (xs @ ys) = limbs_val xs + BB ^ length xs * limbs_val ys"
  by (simp only: limbs_val_append BB_power)

lemma unat_lt_BB: "unat (x :: limb) < BB"
  using unat_limb_less [of x] by (simp only: BB_def)

lemma unat_plus_limb: "unat (a + b :: limb) = (unat a + unat b) mod BB"
  by (simp add: unat_word_ariths BB_def)

lemma unat_times_limb: "unat (a * b :: limb) = unat a * unat b mod BB"
  by (simp add: unat_word_ariths BB_def)

lemma unat_add_carry: "unat (a + b :: limb) + BB * of_bool (a + b < a) = unat a + unat b"
proof (cases "unat a + unat b < BB")
  case True
  then show ?thesis by (simp add: unat_plus_limb word_less_nat_alt)
next
  case False
  then have "(unat a + unat b) mod BB = unat a + unat b - BB"
    using unat_lt_BB [of a] unat_lt_BB [of b] by (simp add: mod_if)
  moreover have "unat a + unat b - BB < unat a" using False unat_lt_BB [of b] by linarith
  ultimately show ?thesis using False by (simp add: unat_plus_limb word_less_nat_alt)
qed

lemma unat_sub_borrow: "unat (a :: limb) + BB * of_bool (a < a - b) = unat (a - b) + unat b"
  using unat_add_carry [of "a - b" b] by simp

lemma of_bool_or [simp]: "(of_bool P OR of_bool Q :: limb) = of_bool (P \<or> Q)"
  by (cases P; cases Q) simp_all

lemma unat_of_bool_limb [simp]: "unat (of_bool P :: limb) = of_bool P"
  by (cases P) simp_all

lemma limb_add_step:
  fixes a b :: limb
  shows "unat (a + b + of_bool c) + BB * of_bool (a + b < a \<or> a + b + of_bool c < a + b)
    = unat a + unat b + of_bool c"
proof -
  have n: "\<not> (a + b < a \<and> a + b + of_bool c < a + b)"
  proof
    assume as: "a + b < a \<and> a + b + of_bool c < a + b"
    have "unat (a + b) + 1 < BB"
      using unat_add_carry [of a b] as unat_lt_BB [of a] unat_lt_BB [of b] by simp
    then show False
      using unat_add_carry [of "a + b" "of_bool c"] as by (cases c) simp_all
  qed
  then show ?thesis
    using unat_add_carry [of "a + b" "of_bool c"] unat_add_carry [of a b] by (auto simp: of_bool_def)
qed

lemma limb_sub_step:
  fixes a b :: limb
  shows "unat a + BB * of_bool (a < a - b \<or> a - b < a - b - of_bool c)
    = unat (a - b - of_bool c) + unat b + of_bool c"
proof -
  have n: "\<not> (a < a - b \<and> a - b < a - b - of_bool c)"
  proof
    assume as: "a < a - b \<and> a - b < a - b - of_bool c"
    have "0 < unat (a - b)"
      using unat_sub_borrow [of a b] as unat_lt_BB [of b] by simp
    then show False
      using unat_sub_borrow [of "a - b" "of_bool c"] as unat_lt_BB [of "a - b - of_bool c"]
      by (cases c) simp_all
  qed
  then show ?thesis
    using unat_sub_borrow [of "a - b" "of_bool c"] unat_sub_borrow [of a b] by (auto simp: of_bool_def)
qed

lemma limbs_val_step:
  assumes "unat x + BB * c1 = s" and "limbs_val xs + BB ^ n * c = S + c1"
  shows "limbs_val (x # xs) + BB ^ Suc n * c = s + BB * S"
proof -
  have "limbs_val (x # xs) + BB ^ Suc n * c = unat x + BB * (limbs_val xs + BB ^ n * c)"
    by (simp add: algebra_simps)
  also have "\<dots> = (unat x + BB * c1) + BB * S" unfolding assms(2) by (simp add: algebra_simps)
  finally show ?thesis unfolding assms(1) .
qed

lemma add_n_loop_spec:
  assumes "length up = length vp" and "add_n_loop (of_bool b) up vp = (rp, c)"
  shows "length rp = length up" and "c = 0 \<or> c = 1"
    and "limbs_val rp + BB ^ length up * unat c = limbs_val up + limbs_val vp + of_bool b"
proof -
  have "length rp = length up \<and> (c = 0 \<or> c = 1)
    \<and> limbs_val rp + BB ^ length up * unat c = limbs_val up + limbs_val vp + of_bool b"
    using assms
  proof (induction up vp arbitrary: b rp rule: list_induct2)
    case (Cons u up v vp)
    let ?c = "u + v < u \<or> u + v + of_bool b < u + v"
    obtain rs where r: "add_n_loop (of_bool ?c) up vp = (rs, c)" "rp = (u + v + of_bool b) # rs"
      using Cons.prems by (auto simp: Let_def split: prod.splits)
    show ?case
      using r(2) Cons.IH [OF r(1)] limbs_val_step [OF limb_add_step, of rs "length up" "unat c" "limbs_val up + limbs_val vp" u v b]
      by (simp add: algebra_simps)
  qed (auto simp: of_bool_def)
  then show "length rp = length up" "c = 0 \<or> c = 1"
    "limbs_val rp + BB ^ length up * unat c = limbs_val up + limbs_val vp + of_bool b"
    by auto
qed

lemma sub_n_loop_spec:
  assumes "length up = length vp" and "sub_n_loop (of_bool b) up vp = (rp, c)"
  shows "length rp = length up" and "c = 0 \<or> c = 1"
    and "limbs_val rp + limbs_val vp + of_bool b = limbs_val up + BB ^ length up * unat c"
proof -
  have "length rp = length up \<and> (c = 0 \<or> c = 1)
    \<and> limbs_val rp + limbs_val vp + of_bool b = limbs_val up + BB ^ length up * unat c"
    using assms
  proof (induction up vp arbitrary: b rp rule: list_induct2)
    case (Cons u up v vp)
    let ?c = "u < u - v \<or> u - v < u - v - of_bool b"
    obtain rs where r: "sub_n_loop (of_bool ?c) up vp = (rs, c)" "rp = (u - v - of_bool b) # rs"
      using Cons.prems by (auto simp: Let_def split: prod.splits)
    have IH: "length rs = length up" "c = 0 \<or> c = 1"
      "limbs_val rs + limbs_val vp + of_bool ?c = limbs_val up + BB ^ length up * unat c"
      using Cons.IH [OF r(1)] by auto
    have "limbs_val rp + limbs_val (v # vp) + of_bool b
        = unat (u - v - of_bool b) + unat v + of_bool b + BB * (limbs_val rs + limbs_val vp)"
      by (simp add: r(2) algebra_simps)
    also have "\<dots> = unat u + BB * (limbs_val rs + limbs_val vp + of_bool ?c)"
      unfolding limb_sub_step [symmetric] by (simp add: algebra_simps)
    also have "\<dots> = limbs_val (u # up) + BB ^ length (u # up) * unat c"
      unfolding IH(3) by (simp add: algebra_simps)
    finally show ?case using IH(1,2) r(2) by simp
  qed (auto simp: of_bool_def)
  then show "length rp = length up" "c = 0 \<or> c = 1"
    "limbs_val rp + limbs_val vp + of_bool b = limbs_val up + BB ^ length up * unat c"
    by auto
qed

lemma mpn_add_n_spec:
  assumes "length up = length vp" and "mpn_add_n up vp = (rp, c)"
  shows "length rp = length up" and "c = 0 \<or> c = 1"
    and "limbs_val rp + BB ^ length up * unat c = limbs_val up + limbs_val vp"
  using add_n_loop_spec [of up vp False rp c] assms by (simp_all add: mpn_add_n_def)

lemma mpn_sub_n_spec:
  assumes "length up = length vp" and "mpn_sub_n up vp = (rp, c)"
  shows "length rp = length up" and "c = 0 \<or> c = 1"
    and "limbs_val rp + limbs_val vp = limbs_val up + BB ^ length up * unat c"
  using sub_n_loop_spec [of up vp False rp c] assms by (simp_all add: mpn_sub_n_def)

section \<open>The double-limb product\<close>

definition HB :: nat where
  "HB = 2 ^ 32"

lemma HB_pos [simp]: "0 < HB" and BB_halves: "BB = HB * HB"
  by (simp_all add: HB_def BB_def)

lemma unat_ll_lowpart: "unat (ll_lowpart t) = unat t mod HB"
proof -
  have "ll_lowpart t = take_bit 32 t"
    by (simp only: ll_lowpart_def take_bit_eq_mask mask_eq_exp_minus_1)
  then have "unat (ll_lowpart t) = take_bit 32 (unat t)" by (simp only: unsigned_take_bit_eq)
  then show ?thesis by (simp only: take_bit_eq_mod HB_def)
qed

lemma unat_ll_highpart: "unat (ll_highpart t) = unat t div HB"
  by (simp add: ll_highpart_def unat_drop_bit_limb HB_def)

lemma half_less: "unat (ll_lowpart x) < HB" "unat (ll_highpart x) < HB"
  using unat_lt_BB [of x]
  by (simp_all add: unat_ll_lowpart unat_ll_highpart less_mult_imp_div_less BB_halves)

lemma half_mult_less:
  assumes "a < h" and "b < (h :: nat)"
  shows "a * b + (h - 1) < h * h"
proof -
  obtain k where k: "h = Suc k" using assms by (cases h) auto
  have "a * b \<le> k * k" using assms k by (intro mult_le_mono) auto
  then show ?thesis using k by simp
qed

lemma unat_half_mult:
  assumes "unat x < HB" and "unat y < HB"
  shows "unat (x * y :: limb) = unat x * unat y"
  using half_mult_less [OF assms] by (simp add: unat_times_limb BB_halves)

lemma umul_ppmm_arith:
  fixes h :: nat
  assumes "t + (h * h) * c = b * d' + e div h + b' * d" and "e = b * d"
  shows "(b' * d' + c * h + t div h) * (h * h) + ((t mod h) * h + e mod h) = (b' * h + b) * (d' * h + d)"
proof -
  obtain q r q' r' where d: "t div h = q" "t mod h = r" "e div h = q'" "e mod h = r'" by blast
  have t: "t = q * h + r" "e = q' * h + r'" using d by (metis div_mult_mod_eq)+
  have "(b' * d' + c * h + q) * (h * h) + (r * h + r') = b' * d' * (h * h) + (t + h * h * c) * h + r'"
    unfolding t by (simp add: algebra_simps)
  also have "t + h * h * c = b * d' + q' + b' * d" using assms(1) d by simp
  also have "b' * d' * (h * h) + (b * d' + q' + b' * d) * h + r'
      = b' * d' * (h * h) + (b * d' + b' * d) * h + b * d"
    using t(2) assms(2) by (simp add: algebra_simps)
  finally show ?thesis unfolding d by (simp add: algebra_simps)
qed

lemma mod_mult_add_less: "0 < h \<Longrightarrow> (x mod h) * h + y mod h < h * (h :: nat)"
proof -
  assume h: "0 < h"
  then have "(x mod h) * h + y mod h < Suc (x mod h) * h" by simp
  also have "\<dots> \<le> h * h" using h by (intro mult_le_mono1) (simp add: Suc_leI)
  finally show ?thesis .
qed

lemma umul_ppmm_spec:
  assumes "umul_ppmm u v = (p1, p0)"
  shows "unat p1 * BB + unat p0 = unat u * unat v"
proof -
  let ?ul = "ll_lowpart u" and ?uh = "ll_highpart u" and ?vl = "ll_lowpart v" and ?vh = "ll_highpart v"
  define x1 where "x1 = ?ul * ?vh + ll_highpart (?ul * ?vl)"
  define t where "t = x1 + ?uh * ?vl"
  define c :: nat where "c = of_bool (t < ?uh * ?vl)"
  note ex = unat_half_mult [OF half_less(1) half_less(1)] unat_half_mult [OF half_less(1) half_less(2)]
    unat_half_mult [OF half_less(2) half_less(1)] unat_half_mult [OF half_less(2) half_less(2)]
  have "unat ?ul * unat ?vh + unat (ll_highpart (?ul * ?vl)) < BB"
    using half_mult_less [OF half_less(1) half_less(2), of u v] half_less(2) [of "?ul * ?vl"]
    unfolding BB_halves by linarith
  then have x1: "unat x1 = unat ?ul * unat ?vh + unat ?ul * unat ?vl div HB"
    by (simp add: x1_def unat_plus_limb unat_ll_highpart [of "?ul * ?vl"] ex)
  have t: "unat t + HB * HB * c = unat ?ul * unat ?vh + unat ?ul * unat ?vl div HB + unat ?uh * unat ?vl"
    using unat_add_carry [of "?uh * ?vl" x1] x1 ex by (simp add: t_def c_def add.commute BB_halves)
  have uv: "unat ?uh * HB + unat ?ul = unat u" "unat ?vh * HB + unat ?vl = unat v"
    by (simp_all add: unat_ll_lowpart unat_ll_highpart)
  have eq: "(unat ?uh * unat ?vh + c * HB + unat t div HB) * BB
      + (unat t mod HB * HB + unat ?ul * unat ?vl mod HB) = unat u * unat v"
    using umul_ppmm_arith [OF t refl] by (simp only: uv BB_halves)
  have p: "p1 = (if t < ?uh * ?vl then ?uh * ?vh + 2 ^ 32 else ?uh * ?vh) + ll_highpart t"
    "p0 = push_bit 32 t + ll_lowpart (?ul * ?vl)"
    using assms by (auto simp: umul_ppmm_def Let_def t_def x1_def)
  have "unat u * unat v < BB * BB" by (intro mult_strict_mono unat_lt_BB) simp_all
  then have "(unat ?uh * unat ?vh + c * HB + unat t div HB) * BB < BB * BB" using eq by linarith
  then have "unat ?uh * unat ?vh + c * HB + unat t div HB < BB" by simp
  then have "unat p1 = unat ?uh * unat ?vh + c * HB + unat t div HB"
    by (cases "t < ?uh * ?vl") (simp_all add: p unat_plus_limb unat_ll_highpart [of t] c_def ex HB_def mod_add_left_eq)
  moreover have "unat (push_bit 32 t) = unat t mod HB * HB"
  proof -
    have "unat (push_bit 32 t) = unat t * HB mod BB"
      by (simp add: push_bit_eq_mult unat_times_limb HB_def)
    then show ?thesis by (simp add: BB_halves mult_mod_left)
  qed
  then have "unat p0 = unat t mod HB * HB + unat ?ul * unat ?vl mod HB"
    using mod_mult_add_less [OF HB_pos, of "unat t" "unat ?ul * unat ?vl"]
    by (simp add: p unat_plus_limb unat_ll_lowpart [of "?ul * ?vl"] ex BB_halves)
  ultimately show ?thesis using eq by simp
qed

section \<open>Multiplication by a limb\<close>

lemma unat_plus_small: "unat a + unat b < BB \<Longrightarrow> unat (a + b :: limb) = unat a + unat b"
  by (simp add: unat_plus_limb)

lemma limb_mult_bound:
  assumes "a < BB" and "b < BB" and "c < BB" and "d < BB"
  shows "a * b + c + d < BB * BB"
proof -
  obtain k where k: "BB = Suc k" using BB_pos by (cases BB) auto
  have "a * b \<le> k * k" "c \<le> k" "d \<le> k" using assms k by (auto intro: mult_le_mono)
  moreover have "BB * BB = k * k + k + k + 1" unfolding k by simp
  ultimately show ?thesis by linarith
qed

lemma high_limb_bound: "y + BB * x = z \<Longrightarrow> z < BB * BB \<Longrightarrow> x < BB"
  by (metis le_add2 nat_mult_less_cancel1 order_le_less_trans BB_pos)

lemma mul_1_step:
  assumes "umul_ppmm u v = (h, l)"
  shows "unat (l + c) + BB * unat (of_bool (l + c < c) + h) = unat u * unat v + unat c"
proof -
  have l: "unat (l + c) + BB * of_bool (l + c < c) = unat l + unat c"
    using unat_add_carry [of c l] by (simp add: add.commute)
  have eq: "unat (l + c) + BB * (of_bool (l + c < c) + unat h) = unat u * unat v + unat c"
    using l umul_ppmm_spec [OF assms] by (simp add: algebra_simps)
  have "of_bool (l + c < c) + unat h < BB"
    using high_limb_bound [OF eq] limb_mult_bound [OF unat_lt_BB [of u] unat_lt_BB [of v] unat_lt_BB [of c] BB_pos]
    by simp
  then show ?thesis using eq unat_plus_small [of "of_bool (l + c < c)" h] by simp
qed

lemma mul_1_loop_spec:
  assumes "mul_1_loop cl up v = (rp, c)"
  shows "length rp = length up" and "limbs_val rp + BB ^ length up * unat c = limbs_val up * unat v + unat cl"
proof -
  have "length rp = length up \<and> limbs_val rp + BB ^ length up * unat c = limbs_val up * unat v + unat cl"
    using assms
  proof (induction up arbitrary: cl rp)
    case (Cons u up)
    obtain h l where p: "umul_ppmm u v = (h, l)" by fastforce
    obtain rs where r: "mul_1_loop (of_bool (l + cl < cl) + h) up v = (rs, c)" "rp = (l + cl) # rs"
      using Cons.prems p by (auto simp: Let_def split: prod.splits)
    show ?case
      using r(2) Cons.IH [OF r(1)] limbs_val_step [OF mul_1_step [OF p], of rs "length up" "unat c" "limbs_val up * unat v" cl]
      by (simp add: algebra_simps)
  qed simp
  then show "length rp = length up" "limbs_val rp + BB ^ length up * unat c = limbs_val up * unat v + unat cl"
    by auto
qed

lemma mpn_mul_1_spec:
  assumes "mpn_mul_1 up v = (rp, c)"
  shows "length rp = length up" and "limbs_val rp + BB ^ length up * unat c = limbs_val up * unat v"
  using mul_1_loop_spec [of 0 up v rp c] assms by (simp_all add: mpn_mul_1_def)

lemma addmul_1_step:
  assumes "umul_ppmm u v = (p1, p0)"
  shows "unat (r + p0 + c) + BB * unat (p1 + of_bool (r + p0 < r) + of_bool (r + p0 + c < r + p0))
    = unat r + unat u * unat v + unat c"
proof -
  let ?c1 = "r + p0 < r" and ?c2 = "r + p0 + c < r + p0"
  have eq: "unat (r + p0 + c) + BB * (unat p1 + of_bool ?c1 + of_bool ?c2) = unat r + unat u * unat v + unat c"
    using unat_add_carry [of r p0] unat_add_carry [of "r + p0" c] umul_ppmm_spec [OF assms]
    by (simp add: algebra_simps)
  have "unat p1 + of_bool ?c1 + of_bool ?c2 < BB"
    using high_limb_bound [OF eq] limb_mult_bound [OF unat_lt_BB [of u] unat_lt_BB [of v] unat_lt_BB [of r] unat_lt_BB [of c]]
    by (simp add: add.commute add.left_commute)
  then show ?thesis
    using eq unat_plus_small [of p1 "of_bool ?c1"] unat_plus_small [of "p1 + of_bool ?c1" "of_bool ?c2"] by simp
qed

lemma addmul_1_loop_spec:
  assumes "length rp = length up" and "addmul_1_loop crec rp up v = (rs, c)"
  shows "length rs = length up"
    and "limbs_val rs + BB ^ length up * unat c = limbs_val rp + limbs_val up * unat v + unat crec"
proof -
  have "length rs = length up
    \<and> limbs_val rs + BB ^ length up * unat c = limbs_val rp + limbs_val up * unat v + unat crec"
    using assms
  proof (induction rp up arbitrary: crec rs rule: list_induct2)
    case (Cons r rp u up)
    obtain p1 p0 where p: "umul_ppmm u v = (p1, p0)" by fastforce
    obtain rs' where r: "addmul_1_loop (p1 + of_bool (r + p0 < r) + of_bool (r + p0 + crec < r + p0)) rp up v = (rs', c)"
      "rs = (r + p0 + crec) # rs'"
      using Cons.prems p by (auto simp: Let_def split: prod.splits)
    show ?case
      using r(2) Cons.hyps Cons.IH [OF r(1)]
        limbs_val_step [OF addmul_1_step [OF p], of rs' "length up" "unat c" "limbs_val rp + limbs_val up * unat v" r crec]
      by (simp add: algebra_simps)
  qed simp
  then show "length rs = length up"
    "limbs_val rs + BB ^ length up * unat c = limbs_val rp + limbs_val up * unat v + unat crec" by auto
qed

text \<open>With more limbs at \<open>rp\<close> than the \<open>n\<close> the loop visits, the rest stays as it is.\<close>

lemma addmul_1_loop_take: "addmul_1_loop c rp up v = addmul_1_loop c (take (length up) rp) up v"
  by (induction c rp up v rule: addmul_1_loop.induct) (auto simp: Let_def split: prod.splits)

lemma mpn_addmul_1_spec:
  assumes "length up \<le> length rp" and "mpn_addmul_1 rp up v = (rs, c)"
  shows "length rs = length rp" and "drop (length up) rs = drop (length up) rp"
    and "limbs_val rs + BB ^ length up * unat c = limbs_val rp + limbs_val up * unat v"
    and "limbs_val (take (length up) rs) + BB ^ length up * unat c
      = limbs_val (take (length up) rp) + limbs_val up * unat v"
proof -
  obtain r1 where r: "addmul_1_loop 0 (take (length up) rp) up v = (r1, c)" "rs = r1 @ drop (length up) rp"
    using assms(2) addmul_1_loop_take [of 0 rp up v] by (auto simp: mpn_addmul_1_def split: prod.splits)
  have s: "length r1 = length up"
    "limbs_val r1 + BB ^ length up * unat c = limbs_val (take (length up) rp) + limbs_val up * unat v"
    using addmul_1_loop_spec [OF _ r(1)] assms(1) by simp_all
  show "length rs = length rp" "drop (length up) rs = drop (length up) rp"
    "limbs_val (take (length up) rs) + BB ^ length up * unat c
      = limbs_val (take (length up) rp) + limbs_val up * unat v"
    using s r(2) assms(1) by simp_all
  have "limbs_val rp = limbs_val (take (length up) rp) + BB ^ length up * limbs_val (drop (length up) rp)"
    using limbs_val_app [of "take (length up) rp" "drop (length up) rp"] assms(1) by simp
  then show "limbs_val rs + BB ^ length up * unat c = limbs_val rp + limbs_val up * unat v"
    using s r(2) by (simp add: limbs_val_app)
qed

section \<open>Schoolbook product\<close>

text \<open>
  \<open>rp\<close> holds the \<open>un\<close> limbs from the current position on; the carry is stored above them,
  and the lowest limb is final when the position moves on.
\<close>

fun mul_basecase_loop :: "limb list \<Rightarrow> limb list \<Rightarrow> limb list \<Rightarrow> limb list" where
  "mul_basecase_loop rp up [] = rp"
| "mul_basecase_loop rp up (v # vp) =
     (let (rs, cy) = mpn_addmul_1 rp up v; rs = rs @ [cy]
      in hd rs # mul_basecase_loop (tl rs) up vp)"

definition mpn_mul_basecase :: "limb list \<Rightarrow> limb list \<Rightarrow> limb list" where
  "mpn_mul_basecase up vp =
     (let (rs, cy) = mpn_mul_1 up (hd vp); rs = rs @ [cy]
      in hd rs # mul_basecase_loop (tl rs) up (tl vp))"

lemma limbs_val_snoc: "limbs_val (xs @ [c]) = limbs_val xs + BB ^ length xs * unat c"
  by (simp add: limbs_val_app)

lemma mul_basecase_loop_spec:
  assumes "length rp = length up"
  shows "length (mul_basecase_loop rp up vp) = length up + length vp
    \<and> limbs_val (mul_basecase_loop rp up vp) = limbs_val rp + limbs_val up * limbs_val vp"
  using assms
proof (induction vp arbitrary: rp)
  case (Cons v vp)
  obtain rs cy where a: "mpn_addmul_1 rp up v = (rs, cy)" by fastforce
  have l: "length rs = length up"
    and e: "limbs_val rs + BB ^ length up * unat cy = limbs_val rp + limbs_val up * unat v"
    using mpn_addmul_1_spec [OF _ a] Cons.prems by simp_all
  obtain x xs where x: "rs @ [cy] = x # xs" by (cases "rs @ [cy]") auto
  have lx: "length xs = length up" using l arg_cong [OF x, of length] by simp
  have "unat x + BB * limbs_val xs = limbs_val rp + limbs_val up * unat v"
    using arg_cong [OF x, of limbs_val] l e by (simp add: limbs_val_snoc)
  then show ?case using Cons.IH [OF lx] a x lx by (simp add: algebra_simps)
qed simp

lemma mpn_mul_basecase_spec:
  assumes "vp \<noteq> []"
  shows "length (mpn_mul_basecase up vp) = length up + length vp"
    and "limbs_val (mpn_mul_basecase up vp) = limbs_val up * limbs_val vp"
proof -
  obtain v vs where v: "vp = v # vs" using assms by (cases vp) auto
  obtain rs cy where a: "mpn_mul_1 up v = (rs, cy)" by fastforce
  note m = mpn_mul_1_spec [OF a]
  obtain x xs where x: "rs @ [cy] = x # xs" by (cases "rs @ [cy]") auto
  have lx: "length xs = length up" using m(1) arg_cong [OF x, of length] by simp
  have "unat x + BB * limbs_val xs = limbs_val up * unat v"
    using arg_cong [OF x, of limbs_val] m by (simp add: limbs_val_snoc)
  then show "limbs_val (mpn_mul_basecase up vp) = limbs_val up * limbs_val vp"
    "length (mpn_mul_basecase up vp) = length up + length vp"
    using mul_basecase_loop_spec [OF lx] a x v by (simp_all add: mpn_mul_basecase_def algebra_simps)
qed

section \<open>Montgomery reduction\<close>

text \<open>
  The loop of \<open>mpn_redc_1\<close> from the current \<open>up\<close> on: each turn clears the lowest limb, puts
  the carry there and moves on.  It leaves the carries (below \<open>up\<close>) and the upper half.
\<close>

fun redc_1_loop :: "nat \<Rightarrow> limb list \<Rightarrow> limb list \<Rightarrow> limb \<Rightarrow> limb list \<times> limb list" where
  "redc_1_loop 0 up mp invm = ([], up)"
| "redc_1_loop (Suc j) up mp invm =
     (let (us, cy) = mpn_addmul_1 up mp (hd up * invm);
        (lo, hi) = redc_1_loop j (tl us) mp invm
      in (cy # lo, hi))"

definition mpn_redc_1 :: "limb list \<Rightarrow> limb list \<Rightarrow> limb \<Rightarrow> limb list \<times> limb" where
  "mpn_redc_1 up mp invm =
     (let (lo, hi) = redc_1_loop (length mp) up mp invm in mpn_add_n hi lo)"

lemma limbs_val_hd: "xs \<noteq> [] \<Longrightarrow> limbs_val xs mod BB = unat (hd xs)"
  using unat_lt_BB by (cases xs) simp_all

lemma redc_limb_zero:
  fixes u0 :: limb
  assumes "(unat u0 + m0 * unat (u0 * invm)) mod BB = r" and "(m0 * unat invm + 1) mod BB = 0"
  shows "r = 0"
proof -
  have "r = (unat u0 + m0 * (unat u0 * unat invm)) mod BB"
    unfolding assms(1) [symmetric] unat_times_limb by (rule mod_add_cong [OF refl mod_mult_right_eq])
  also have "\<dots> = unat u0 * (m0 * unat invm + 1) mod BB" by (simp add: algebra_simps)
  also have "\<dots> = unat u0 * ((m0 * unat invm + 1) mod BB) mod BB" by (simp add: mod_mult_right_eq)
  finally show ?thesis using assms(2) by simp
qed

lemma redc_1_loop_spec:
  assumes "(limbs_val mp * unat invm + 1) mod BB = 0" and "mp \<noteq> []"
    and "length mp + j \<le> length up" and "redc_1_loop j up mp invm = (lo, hi)"
  shows "length lo = j \<and> length hi = length up - j
    \<and> (\<exists>Q < BB ^ j. BB ^ j * limbs_val hi + BB ^ length mp * limbs_val lo = limbs_val up + limbs_val mp * Q)"
  using assms(3,4)
proof (induction j arbitrary: up lo)
  case 0
  then show ?case by auto
next
  case (Suc j)
  let ?q = "hd up * invm"
  obtain us cy where a: "mpn_addmul_1 up mp ?q = (us, cy)" by fastforce
  obtain lo' where r: "redc_1_loop j (tl us) mp invm = (lo', hi)" "lo = cy # lo'"
    using Suc.prems(2) a by (auto simp: Let_def split: prod.splits)
  note sp = mpn_addmul_1_spec [OF _ a]
  have l: "length us = length up"
    and e: "limbs_val us + BB ^ length mp * unat cy = limbs_val up + limbs_val mp * unat ?q"
    using sp Suc.prems(1) by simp_all
  have ne: "us \<noteq> []" "up \<noteq> []" using l Suc.prems(1) by auto
  have "unat (hd us) = (limbs_val us + BB ^ length mp * unat cy) mod BB"
    using limbs_val_hd [OF ne(1)] assms(2) by (cases mp) (simp_all add: mult.assoc)
  also have "\<dots> = (unat (hd up) + limbs_val mp * unat ?q) mod BB"
    unfolding e limbs_val_hd [OF ne(2), symmetric] by (simp add: mod_simps)
  finally have "hd us = 0"
    using redc_limb_zero [OF _ assms(1), of "hd up"] by (simp add: unat_eq_zero)
  then have us: "limbs_val us = BB * limbs_val (tl us)" using ne(1) by (cases us) simp_all
  obtain Q where Q: "Q < BB ^ j" "length lo' = j" "length hi = length (tl us) - j"
    "BB ^ j * limbs_val hi + BB ^ length mp * limbs_val lo' = limbs_val (tl us) + limbs_val mp * Q"
  proof -
    have "length mp + j \<le> length (tl us)" using l Suc.prems(1) by simp
    from that Suc.IH [OF this r(1)] show ?thesis by blast
  qed
  have "BB ^ Suc j * limbs_val hi + BB ^ length mp * limbs_val lo
      = BB * (BB ^ j * limbs_val hi + BB ^ length mp * limbs_val lo') + BB ^ length mp * unat cy"
    by (simp add: r(2) algebra_simps)
  also have "\<dots> = limbs_val up + limbs_val mp * (unat ?q + BB * Q)"
    unfolding Q(4) using e us by (simp add: algebra_simps)
  finally have "BB ^ Suc j * limbs_val hi + BB ^ length mp * limbs_val lo
      = limbs_val up + limbs_val mp * (unat ?q + BB * Q)" .
  moreover have "unat ?q + BB * Q < BB ^ Suc j"
  proof -
    have "unat ?q + BB * Q < BB * Suc Q" using unat_lt_BB [of ?q] by simp
    also have "\<dots> \<le> BB * BB ^ j" using Q(1) by (intro mult_le_mono2) simp
    finally show ?thesis by simp
  qed
  ultimately show ?case using Q(2,3) r(2) l by auto
qed

lemma mpn_redc_1_spec:
  assumes "(limbs_val mp * unat invm + 1) mod BB = 0" and "mp \<noteq> []"
    and "length up = 2 * length mp" and "mpn_redc_1 up mp invm = (rp, cy)"
  shows "length rp = length mp \<and> (cy = 0 \<or> cy = 1) \<and> (\<exists>Q < BB ^ length mp.
    BB ^ length mp * (limbs_val rp + BB ^ length mp * unat cy) = limbs_val up + limbs_val mp * Q)"
proof -
  obtain lo hi where r: "redc_1_loop (length mp) up mp invm = (lo, hi)" "mpn_add_n hi lo = (rp, cy)"
    using assms(4) by (auto simp: mpn_redc_1_def split: prod.splits)
  note sp = redc_1_loop_spec [OF assms(1,2) _ r(1)]
  have l: "length lo = length mp" "length hi = length mp" using sp assms(3) by auto
  have add: "length rp = length mp" "cy = 0 \<or> cy = 1"
    "limbs_val rp + BB ^ length mp * unat cy = limbs_val hi + limbs_val lo"
    using mpn_add_n_spec [OF _ r(2)] l by auto
  show ?thesis unfolding add(3) using add(1,2) sp assms(3) by (auto simp: algebra_simps)
qed

section \<open>The inverse of a limb\<close>

definition binvert_limb_table :: "nat list" where
  "binvert_limb_table =
    [0x01, 0xAB, 0xCD, 0xB7, 0x39, 0xA3, 0xC5, 0xEF,
     0xF1, 0x1B, 0x3D, 0xA7, 0x29, 0x13, 0x35, 0xDF,
     0xE1, 0x8B, 0xAD, 0x97, 0x19, 0x83, 0xA5, 0xCF,
     0xD1, 0xFB, 0x1D, 0x87, 0x09, 0xF3, 0x15, 0xBF,
     0xC1, 0x6B, 0x8D, 0x77, 0xF9, 0x63, 0x85, 0xAF,
     0xB1, 0xDB, 0xFD, 0x67, 0xE9, 0xD3, 0xF5, 0x9F,
     0xA1, 0x4B, 0x6D, 0x57, 0xD9, 0x43, 0x65, 0x8F,
     0x91, 0xBB, 0xDD, 0x47, 0xC9, 0xB3, 0xD5, 0x7F,
     0x81, 0x2B, 0x4D, 0x37, 0xB9, 0x23, 0x45, 0x6F,
     0x71, 0x9B, 0xBD, 0x27, 0xA9, 0x93, 0xB5, 0x5F,
     0x61, 0x0B, 0x2D, 0x17, 0x99, 0x03, 0x25, 0x4F,
     0x51, 0x7B, 0x9D, 0x07, 0x89, 0x73, 0x95, 0x3F,
     0x41, 0xEB, 0x0D, 0xF7, 0x79, 0xE3, 0x05, 0x2F,
     0x31, 0x5B, 0x7D, 0xE7, 0x69, 0x53, 0x75, 0x1F,
     0x21, 0xCB, 0xED, 0xD7, 0x59, 0xC3, 0xE5, 0x0F,
     0x11, 0x3B, 0x5D, 0xC7, 0x49, 0x33, 0x55, 0xFF]"

definition binvert_limb :: "limb \<Rightarrow> limb" where
  "binvert_limb n =
     (let inv = of_nat (binvert_limb_table ! unat (drop_bit 1 n AND 0x7F));
        inv = 2 * inv - inv * inv * n;
        inv = 2 * inv - inv * inv * n;
        inv = 2 * inv - inv * inv * n
      in inv)"

fun inverses_from :: "nat \<Rightarrow> nat list \<Rightarrow> bool" where
  "inverses_from i [] \<longleftrightarrow> True"
| "inverses_from i (t # ts) \<longleftrightarrow> t * (2 * i + 1) mod 256 = 1 \<and> inverses_from (i + 1) ts"

lemma inverses_from_nth:
  "inverses_from i ts \<Longrightarrow> k < length ts \<Longrightarrow> ts ! k * (2 * (i + k) + 1) mod 256 = 1"
proof (induction i ts arbitrary: k rule: inverses_from.induct)
  case (2 i t ts)
  then show ?case using "2.IH" [of "k - 1"] by (cases k) auto
qed simp

lemma binvert_table_checked: "inverses_from 0 binvert_limb_table" "length binvert_limb_table = 128"
  by (simp_all add: binvert_limb_table_def)

lemma newton_step:
  fixes inv n e :: limb
  assumes "inv * n = 1 + e"
  shows "(2 * inv - inv * inv * n) * n = 1 + - (e * e)"
proof -
  have "(2 * inv - inv * inv * n) * n = 2 * (inv * n) - (inv * n) * (inv * n)" by (simp add: algebra_simps)
  also have "\<dots> = 1 + - (e * e)" unfolding assms by (simp add: algebra_simps)
  finally show ?thesis .
qed

lemma binvert_limb_inverse:
  assumes "odd (unat n)"
  shows "binvert_limb n * n = 1"
proof -
  define i where "i = unat n div 2 mod 128"
  have i: "unat (drop_bit 1 n AND 0x7F) = i"
  proof -
    have "drop_bit 1 n AND 0x7F = take_bit 7 (drop_bit 1 n)" by (simp add: take_bit_eq_mask mask_numeral)
    then have "unat (drop_bit 1 n AND 0x7F) = take_bit 7 (unat n div 2 ^ 1)"
      by (simp only: unsigned_take_bit_eq unat_drop_bit_limb)
    then show ?thesis by (simp add: i_def take_bit_eq_mod)
  qed
  let ?t = "binvert_limb_table ! i"
  have "?t * (2 * i + 1) mod 256 = 1"
    using inverses_from_nth [OF binvert_table_checked(1), of i] binvert_table_checked(2) by (simp add: i_def)
  moreover have "unat n mod 256 = 2 * i + 1"
    using mod_mult2_eq [of "unat n" 2 128] assms by (simp add: i_def odd_iff_mod_2_eq_one)
  ultimately have "?t * unat n mod 256 = 1" using mod_mult_right_eq [of ?t "unat n" 256] by simp
  then obtain k where "?t * unat n = 256 * k + 1" by (metis mult_div_mod_eq)
  then have "of_nat (?t * unat n) = (of_nat (256 * k + 1) :: limb)" by (rule arg_cong)
  then have "of_nat ?t * n = 1 + 256 * of_nat k" by simp
  note steps = newton_step [OF newton_step [OF newton_step [OF this]]]
  have "binvert_limb n * n = 1 + - ((256 * of_nat k) ^ 8)"
    using steps by (simp only: binvert_limb_def Let_def i) (simp add: eval_nat_numeral)
  also have "(256 * of_nat k :: limb) ^ 8 = 256 ^ 8 * of_nat k ^ 8" by (rule power_mult_distrib)
  also have "(256 :: limb) ^ 8 = 0" by simp
  finally show ?thesis by simp
qed

text \<open>\<open>- binvert_limb\<close> is what \<open>mpn_redc_1\<close> asks for.\<close>

lemma binvert_limb_redc:
  assumes "odd (limbs_val mp)" and "mp \<noteq> []"
  shows "(limbs_val mp * unat (- binvert_limb (hd mp)) + 1) mod BB = 0"
proof -
  have hd: "limbs_val mp mod BB = unat (hd mp)" by (rule limbs_val_hd [OF assms(2)])
  have "even BB" by (simp add: BB_def)
  then have "odd (unat (hd mp))" using assms(1) unfolding hd [symmetric] by (simp add: dvd_mod_iff)
  then have "hd mp * - binvert_limb (hd mp) + 1 = 0"
    using binvert_limb_inverse [of "hd mp"] by (simp add: mult.commute)
  then have "unat (hd mp * - binvert_limb (hd mp) + 1) = 0" by simp
  then have "(unat (hd mp) * unat (- binvert_limb (hd mp)) + 1) mod BB = 0"
    unfolding unat_plus_limb unat_times_limb by (simp add: mod_simps)
  moreover have "(limbs_val mp * unat (- binvert_limb (hd mp)) + 1) mod BB
      = (limbs_val mp mod BB * unat (- binvert_limb (hd mp)) + 1) mod BB"
    by (rule mod_add_cong [OF mod_mult_left_eq [symmetric] refl])
  ultimately show ?thesis unfolding hd by (rule trans [rotated])
qed
end
