(* ===== verification/Gmp_Square.thy ===== *)
theory Gmp_Square
  imports Gmp_Mpn
begin

unbundle bit_operations_syntax

text \<open>
  The rest of the limb routines that exponentiation calls: shifts (\<open>mpn/generic/lshift.c\<close>,
  \<open>rshift.c\<close>), comparison and the addition and subtraction of vectors of different lengths
  (the inline functions of \<open>gmp.h\<close>), and the schoolbook square (\<open>sqr_basecase.c\<close>), which
  computes the products off the diagonal once and doubles them.
\<close>

section \<open>Definitions\<close>

text \<open>The loop of \<open>mpn_lshift\<close> walks down from the most significant limb.\<close>

fun lshift_loop :: "nat \<Rightarrow> limb \<Rightarrow> limb list \<Rightarrow> limb list" where
  "lshift_loop cnt high_limb [] = [high_limb]"
| "lshift_loop cnt high_limb (low_limb # us) =
     (high_limb OR drop_bit (64 - cnt) low_limb) # lshift_loop cnt (push_bit cnt low_limb) us"

definition mpn_lshift :: "limb list \<Rightarrow> nat \<Rightarrow> limb list \<times> limb" where
  "mpn_lshift up cnt =
     (let low_limb = last up
      in (rev (lshift_loop cnt (push_bit cnt low_limb) (rev (butlast up))), drop_bit (64 - cnt) low_limb))"

fun rshift_loop :: "nat \<Rightarrow> limb \<Rightarrow> limb list \<Rightarrow> limb list" where
  "rshift_loop cnt low_limb [] = [low_limb]"
| "rshift_loop cnt low_limb (high_limb # us) =
     (low_limb OR push_bit (64 - cnt) high_limb) # rshift_loop cnt (drop_bit cnt high_limb) us"

definition mpn_rshift :: "limb list \<Rightarrow> nat \<Rightarrow> limb list \<times> limb" where
  "mpn_rshift up cnt =
     (let high_limb = hd up
      in (rshift_loop cnt (drop_bit cnt high_limb) (tl up), push_bit (64 - cnt) high_limb))"

fun cmp_loop :: "limb list \<Rightarrow> limb list \<Rightarrow> int" where
  "cmp_loop (x # xs) (y # ys) = (if x \<noteq> y then if x > y then 1 else -1 else cmp_loop xs ys)"
| "cmp_loop _ _ = 0"

definition mpn_cmp :: "limb list \<Rightarrow> limb list \<Rightarrow> int" where
  "mpn_cmp xp yp = cmp_loop (rev xp) (rev yp)"

text \<open>
  \<open>__GMPN_AORS\<close>: after the common part the carry runs up the longer operand until it is
  absorbed; then the rest is copied.
\<close>

fun add_carry_loop :: "limb list \<Rightarrow> limb list \<times> limb" where
  "add_carry_loop [] = ([], 1)"
| "add_carry_loop (x # xs) =
     (let w = x + 1
      in if w = 0 then let (ws, c) = add_carry_loop xs in (w # ws, c) else (w # xs, 0))"

definition mpn_add :: "limb list \<Rightarrow> limb list \<Rightarrow> limb list \<times> limb" where
  "mpn_add xp yp =
     (let n = length yp; (w, c) = (if n = 0 then ([], 0) else mpn_add_n (take n xp) yp);
        (ws, c) = (if c \<noteq> 0 then add_carry_loop (drop n xp) else (drop n xp, 0))
      in (w @ ws, c))"

fun sub_borrow_loop :: "limb list \<Rightarrow> limb list \<times> limb" where
  "sub_borrow_loop [] = ([], 1)"
| "sub_borrow_loop (x # xs) =
     (let w = x - 1
      in if x = 0 then let (ws, c) = sub_borrow_loop xs in (w # ws, c) else (w # xs, 0))"

definition mpn_sub :: "limb list \<Rightarrow> limb list \<Rightarrow> limb list \<times> limb" where
  "mpn_sub xp yp =
     (let n = length yp; (w, c) = (if n = 0 then ([], 0) else mpn_sub_n (take n xp) yp);
        (ws, c) = (if c \<noteq> 0 then sub_borrow_loop (drop n xp) else (drop n xp, 0))
      in (w @ ws, c))"

section \<open>Shifts\<close>

lemma unat_push_bit_limb: "unat (push_bit cnt x :: limb) = unat x * 2 ^ cnt mod BB"
proof -
  have "unat (push_bit cnt x :: limb) = take_bit 64 (push_bit cnt (unat x))"
    by (simp only: unsigned_push_bit_eq) simp
  then show ?thesis by (simp only: take_bit_eq_mod push_bit_eq_mult BB_def)
qed

lemma shift_split:
  assumes "cnt \<le> 64"
  shows "unat (x :: limb) * 2 ^ cnt = unat (push_bit cnt x) + BB * unat (drop_bit (64 - cnt) x)"
proof -
  have BB: "BB = 2 ^ cnt * 2 ^ (64 - cnt)" using assms by (simp add: BB_def flip: power_add)
  have "unat x * 2 ^ cnt div BB = unat x div 2 ^ (64 - cnt)"
    unfolding BB by (simp add: mult.commute [of "unat x"] div_mult2_eq)
  then show ?thesis
    using mod_mult_div_eq [of "unat x * 2 ^ cnt" BB] by (simp add: unat_push_bit_limb unat_drop_bit_limb)
qed

lemma unat_or_shifted:
  fixes h l :: limb
  assumes "2 ^ k dvd unat h" and "unat l < 2 ^ k"
  shows "unat (h OR l) = unat h + unat l"
proof -
  have "unat (h OR l) = unat h OR unat l" by (rule unsigned_or_eq)
  also have "\<dots> = unat h + unat l"
  proof (rule disjunctive_add [symmetric])
    fix n
    have l: "take_bit k (unat l) = unat l" using assms(2) by (rule take_bit_nat_eq_self)
    obtain q where "unat h = 2 ^ k * q" using assms(1) by blast
    then have "unat h = push_bit k q" by (simp add: push_bit_eq_mult mult.commute)
    then show "\<not> bit (unat h) n \<or> \<not> bit (unat l) n"
      using bit_take_bit_iff [of k "unat l" n] unfolding l by (auto simp: bit_push_bit_iff)
  qed
  finally show ?thesis .
qed

lemma lshift_loop_spec:
  assumes "cnt \<le> 64"
  shows "limbs_val (rev (lshift_loop cnt (push_bit cnt x) us))
      + BB ^ Suc (length us) * unat (drop_bit (64 - cnt) x) = limbs_val (rev (x # us)) * 2 ^ cnt"
proof (induction us arbitrary: x)
  case Nil
  then show ?case using shift_split [OF assms, of x] by simp
next
  case (Cons y us)
  have BB: "BB = 2 ^ cnt * 2 ^ (64 - cnt)" using assms by (simp add: BB_def flip: power_add)
  have "2 ^ cnt dvd unat (push_bit cnt x)"
    unfolding unat_push_bit_limb BB by (simp add: mult.commute [of "unat x"] mult_mod_right [symmetric])
  moreover have "unat (drop_bit (64 - cnt) y) < 2 ^ cnt"
    using unat_lt_BB [of y] unfolding BB by (simp add: unat_drop_bit_limb less_mult_imp_div_less mult.commute)
  ultimately have o: "unat (push_bit cnt x OR drop_bit (64 - cnt) y)
      = unat (push_bit cnt x) + unat (drop_bit (64 - cnt) y)" by (rule unat_or_shifted)
  have len: "length (lshift_loop cnt h us) = Suc (length us)" for h by (induction us arbitrary: h) simp_all
  have "limbs_val (rev (lshift_loop cnt (push_bit cnt x) (y # us)))
      + BB ^ Suc (length (y # us)) * unat (drop_bit (64 - cnt) x)
    = (limbs_val (rev (lshift_loop cnt (push_bit cnt y) us)) + BB ^ Suc (length us) * unat (drop_bit (64 - cnt) y))
      + BB ^ Suc (length us) * (unat (push_bit cnt x) + BB * unat (drop_bit (64 - cnt) x))"
    by (simp add: limbs_val_snoc len o algebra_simps)
  also have "\<dots> = limbs_val (rev (x # y # us)) * 2 ^ cnt"
    unfolding Cons.IH shift_split [OF assms, symmetric] by (simp add: limbs_val_app algebra_simps)
  finally show ?case .
qed

lemma length_lshift_loop: "length (lshift_loop cnt h us) = Suc (length us)"
  by (induction us arbitrary: h) simp_all

lemma mpn_lshift_spec:
  assumes "cnt \<le> 64" and "up \<noteq> []" and "mpn_lshift up cnt = (rp, c)"
  shows "length rp = length up" and "limbs_val rp + BB ^ length up * unat c = limbs_val up * 2 ^ cnt"
proof -
  obtain us x where up: "up = us @ [x]" using assms(2) by (cases up rule: rev_cases) auto
  then have r: "rp = rev (lshift_loop cnt (push_bit cnt x) (rev us))" "c = drop_bit (64 - cnt) x"
    using assms(3) by (simp_all add: mpn_lshift_def)
  then show "length rp = length up" using up by (simp add: length_lshift_loop)
  show "limbs_val rp + BB ^ length up * unat c = limbs_val up * 2 ^ cnt"
    using lshift_loop_spec [OF assms(1), of x "rev us"] unfolding r up by simp
qed

lemma rshift_loop_spec:
  assumes "cnt \<le> 64"
  shows "length (rshift_loop cnt (drop_bit cnt x) us) = Suc (length us)
    \<and> limbs_val (rshift_loop cnt (drop_bit cnt x) us) = limbs_val (x # us) div 2 ^ cnt"
proof (induction us arbitrary: x)
  case Nil
  then show ?case by (simp add: unat_drop_bit_limb)
next
  case (Cons y us)
  have BB: "BB = 2 ^ cnt * 2 ^ (64 - cnt)" using assms by (simp add: BB_def flip: power_add)
  have d: "2 ^ (64 - cnt) dvd unat (push_bit (64 - cnt) y)"
    unfolding unat_push_bit_limb BB
    by (simp add: mult.commute [of "unat y"] mult.commute [of "2 ^ cnt"] mult_mod_right [symmetric])
  moreover have "unat (drop_bit cnt x) < 2 ^ (64 - cnt)"
    using unat_lt_BB [of x] unfolding BB by (simp add: unat_drop_bit_limb less_mult_imp_div_less mult.commute)
  ultimately have o: "unat (push_bit (64 - cnt) y OR drop_bit cnt x)
      = unat (push_bit (64 - cnt) y) + unat (drop_bit cnt x)" by (rule unat_or_shifted)
  have s: "unat y * 2 ^ (64 - cnt) = unat (push_bit (64 - cnt) y) + BB * unat (drop_bit cnt y)"
    using shift_split [of "64 - cnt" y] assms by simp
  have "limbs_val (x # y # us) div 2 ^ cnt = (unat x + 2 ^ cnt * (2 ^ (64 - cnt) * limbs_val (y # us))) div 2 ^ cnt"
    by (simp add: BB mult.assoc)
  also have "\<dots> = unat x div 2 ^ cnt + 2 ^ (64 - cnt) * limbs_val (y # us)" by simp
  also have "2 ^ (64 - cnt) * limbs_val (y # us) = unat y * 2 ^ (64 - cnt) + BB * (2 ^ (64 - cnt) * limbs_val us)"
    by (simp add: algebra_simps)
  also have "\<dots> = unat (push_bit (64 - cnt) y) + BB * (unat y div 2 ^ cnt + 2 ^ (64 - cnt) * limbs_val us)"
    unfolding s by (simp add: unat_drop_bit_limb algebra_simps)
  also have "unat y div 2 ^ cnt + 2 ^ (64 - cnt) * limbs_val us = limbs_val (y # us) div 2 ^ cnt"
    by (simp add: BB mult.assoc)
  finally show ?case using Cons.IH [of y] by (simp add: o or.commute [of "drop_bit cnt x"] unat_drop_bit_limb)
qed

lemma mpn_rshift_spec:
  assumes "cnt \<le> 64" and "up \<noteq> []" and "mpn_rshift up cnt = (rp, c)"
  shows "length rp = length up" and "limbs_val rp = limbs_val up div 2 ^ cnt"
  using rshift_loop_spec [OF assms(1), of "hd up" "tl up"] assms(2,3)
  by (auto simp: mpn_rshift_def Let_def)

section \<open>Comparison\<close>

lemma cmp_loop_spec:
  assumes "length xs = length ys"
  shows "cmp_loop xs ys = (if limbs_val (rev xs) < limbs_val (rev ys) then - 1
    else if limbs_val (rev xs) = limbs_val (rev ys) then 0 else 1)"
  using assms
proof (induction xs ys rule: list_induct2)
  case (Cons x xs y ys)
  have b: "limbs_val (rev xs) < BB ^ length xs" "limbs_val (rev ys) < BB ^ length xs"
    using limbs_val_lt [of "rev xs"] limbs_val_lt [of "rev ys"] Cons.hyps by simp_all
  have gap: "limbs_val (rev us) + BB ^ length xs * unat u < limbs_val (rev vs) + BB ^ length xs * unat v"
    if "u < v" "limbs_val (rev us) < BB ^ length xs" for u v :: limb and us vs
  proof -
    have "BB ^ length xs * Suc (unat u) \<le> BB ^ length xs * unat v"
      using that(1) by (intro mult_le_mono2) (simp add: Suc_leI word_less_nat_alt)
    then show ?thesis using that(2) by simp
  qed
  show ?case
  proof (cases "x = y")
    case True
    then show ?thesis using Cons.IH Cons.hyps by (simp add: limbs_val_snoc)
  next
    case False
    then consider "x < y" | "y < x" by (metis neqE)
    then show ?thesis
    proof cases
      case 1
      then show ?thesis using gap [OF 1 b(1), of ys] Cons.hyps by (auto simp: limbs_val_snoc)
    next
      case 2
      then show ?thesis using gap [OF 2 b(2), of xs] Cons.hyps by (auto simp: limbs_val_snoc)
    qed
  qed
qed simp

lemma mpn_cmp_ge: "length xp = length yp \<Longrightarrow> 0 \<le> mpn_cmp xp yp \<longleftrightarrow> limbs_val yp \<le> limbs_val xp"
  by (simp add: mpn_cmp_def cmp_loop_spec)

section \<open>Operands of different lengths\<close>

lemma unat_plus1: "unat (x + 1 :: limb) + BB * of_bool (x + 1 = 0) = unat x + 1"
proof -
  have "x + 1 < x \<longleftrightarrow> x + 1 = 0"
  proof
    assume "x + 1 < x"
    then have "unat (x + 1) = 0" using unat_add_carry [of x 1] unat_lt_BB [of x] by simp
    then show "x + 1 = 0" by (simp only: unat_eq_zero)
  next
    assume "x + 1 = 0"
    then show "x + 1 < x" by (metis add_0 word_neq_0_conv zero_neq_one)
  qed
  then show ?thesis using unat_add_carry [of x 1] by simp
qed

lemma add_carry_loop_spec:
  assumes "add_carry_loop xs = (ws, c)"
  shows "length ws = length xs \<and> (c = 0 \<or> c = 1) \<and> limbs_val ws + BB ^ length xs * unat c = limbs_val xs + 1"
  using assms
proof (induction xs arbitrary: ws)
  case (Cons x xs)
  show ?case
  proof (cases "x + 1 = 0")
    case True
    obtain vs where v: "add_carry_loop xs = (vs, c)" "ws = 0 # vs"
      using Cons.prems True by (auto simp: Let_def split: prod.splits)
    then show ?thesis
      using Cons.IH [OF v(1)] unat_plus1 [of x] True
        limbs_val_step [of "x + 1" 1 "unat x + 1" vs "length xs" "unat c" "limbs_val xs"] by simp
  next
    case False
    then show ?thesis using Cons.prems unat_plus1 [of x] by (auto simp: Let_def)
  qed
qed simp

lemma unat_minus1: "unat (x - 1 :: limb) + 1 = unat x + BB * of_bool (x = 0)"
  using unat_plus1 [of "x - 1"] by simp

lemma sub_borrow_loop_spec:
  assumes "sub_borrow_loop xs = (ws, c)"
  shows "length ws = length xs \<and> (c = 0 \<or> c = 1) \<and> limbs_val ws + 1 = limbs_val xs + BB ^ length xs * unat c"
  using assms
proof (induction xs arbitrary: ws)
  case (Cons x xs)
  show ?case
  proof (cases "x = 0")
    case True
    obtain vs where v: "sub_borrow_loop xs = (vs, c)" "ws = (0 - 1) # vs"
      using Cons.prems True by (auto simp: Let_def split: prod.splits)
    have IH: "length vs = length xs" "c = 0 \<or> c = 1" "limbs_val vs + 1 = limbs_val xs + BB ^ length xs * unat c"
      using Cons.IH [OF v(1)] by auto
    have "limbs_val ws + 1 = BB * (limbs_val vs + 1)" using unat_minus1 [of 0] by (simp add: v(2))
    then show ?thesis unfolding IH(3) using IH(1,2) v(2) True by (simp add: algebra_simps)
  next
    case False
    then show ?thesis using Cons.prems unat_minus1 [of x] by (auto simp: Let_def)
  qed
qed simp

lemma limbs_val_split: "n \<le> length xs \<Longrightarrow> limbs_val xs = limbs_val (take n xs) + BB ^ n * limbs_val (drop n xs)"
  using limbs_val_app [of "take n xs" "drop n xs"] by simp

lemma mpn_add_spec:
  assumes "length yp \<le> length xp" and "mpn_add xp yp = (w, c)"
  shows "length w = length xp" and "limbs_val w + BB ^ length xp * unat c = limbs_val xp + limbs_val yp"
proof -
  let ?n = "length yp"
  define t where "t = (if ?n = 0 then ([], 0) else mpn_add_n (take ?n xp) yp)"
  obtain w0 c0 where t: "t = (w0, c0)" by fastforce
  have l: "length w0 = ?n \<and> (c0 = 0 \<or> c0 = 1)
      \<and> limbs_val w0 + BB ^ ?n * unat c0 = limbs_val (take ?n xp) + limbs_val yp"
    using t assms(1) mpn_add_n_spec [of "take ?n xp" yp w0 c0] by (auto simp: t_def split: if_splits)
  obtain w1 where w: "w = w0 @ w1"
    "(if c0 \<noteq> 0 then add_carry_loop (drop ?n xp) else (drop ?n xp, 0)) = (w1, c)"
    using assms(2) t unfolding mpn_add_def Let_def t_def [symmetric] by (auto split: prod.splits)
  have h: "length w1 = length xp - ?n
      \<and> limbs_val w1 + BB ^ (length xp - ?n) * unat c = limbs_val (drop ?n xp) + unat c0"
    using w(2) l add_carry_loop_spec [of "drop ?n xp" w1 c] by (auto split: if_splits)
  show "length w = length xp" using l h w(1) assms(1) by simp
  have "limbs_val w + BB ^ length xp * unat c
      = limbs_val w0 + BB ^ ?n * (limbs_val w1 + BB ^ (length xp - ?n) * unat c)"
    using l assms(1) by (simp add: w(1) limbs_val_app algebra_simps flip: power_add)
  also have "\<dots> = (limbs_val w0 + BB ^ ?n * unat c0) + BB ^ ?n * limbs_val (drop ?n xp)"
    using h by (simp add: algebra_simps)
  finally show "limbs_val w + BB ^ length xp * unat c = limbs_val xp + limbs_val yp"
    using l limbs_val_split [OF assms(1)] by simp
qed

lemma mpn_sub_spec:
  assumes "length yp \<le> length xp" and "mpn_sub xp yp = (w, c)"
  shows "length w = length xp" and "limbs_val w + limbs_val yp = limbs_val xp + BB ^ length xp * unat c"
proof -
  let ?n = "length yp"
  define t where "t = (if ?n = 0 then ([], 0) else mpn_sub_n (take ?n xp) yp)"
  obtain w0 c0 where t: "t = (w0, c0)" by fastforce
  have l: "length w0 = ?n \<and> (c0 = 0 \<or> c0 = 1)
      \<and> limbs_val w0 + limbs_val yp = limbs_val (take ?n xp) + BB ^ ?n * unat c0"
    using t assms(1) mpn_sub_n_spec [of "take ?n xp" yp w0 c0] by (auto simp: t_def split: if_splits)
  obtain w1 where w: "w = w0 @ w1"
    "(if c0 \<noteq> 0 then sub_borrow_loop (drop ?n xp) else (drop ?n xp, 0)) = (w1, c)"
    using assms(2) t unfolding mpn_sub_def Let_def t_def [symmetric] by (auto split: prod.splits)
  have h: "length w1 = length xp - ?n
      \<and> limbs_val w1 + unat c0 = limbs_val (drop ?n xp) + BB ^ (length xp - ?n) * unat c"
    using w(2) l sub_borrow_loop_spec [of "drop ?n xp" w1 c] by (auto split: if_splits)
  show "length w = length xp" using l h w(1) assms(1) by simp
  have "limbs_val w + limbs_val yp + BB ^ ?n * unat c0
      = (limbs_val w0 + limbs_val yp) + BB ^ ?n * (limbs_val w1 + unat c0)"
    using l by (simp add: w(1) limbs_val_app algebra_simps)
  also have "\<dots> = limbs_val xp + BB ^ length xp * unat c + BB ^ ?n * unat c0"
    unfolding limbs_val_split [OF assms(1)] using h l assms(1) by (simp add: algebra_simps flip: power_add)
  finally show "limbs_val w + limbs_val yp = limbs_val xp + BB ^ length xp * unat c" by simp
qed

section \<open>The schoolbook square\<close>

fun MPN_SQR_DIAGONAL :: "limb list \<Rightarrow> limb list" where
  "MPN_SQR_DIAGONAL [] = []"
| "MPN_SQR_DIAGONAL (u # up) = (let (hi, lpl) = umul_ppmm u u in lpl # hi # MPN_SQR_DIAGONAL up)"

text \<open>\<open>tp\<close> is shifted left by one bit and added to the squares from the second limb on.\<close>

definition MPN_SQR_DIAG_ADDLSH1 :: "limb list \<Rightarrow> limb list \<Rightarrow> limb list" where
  "MPN_SQR_DIAG_ADDLSH1 tp up =
     (let rp = MPN_SQR_DIAGONAL up; m = 2 * length up - 2;
        (tp, cy) = mpn_lshift tp 1;
        (rs, c) = mpn_add_n (take m (tl rp)) tp
      in hd rp # rs @ [last rp + (cy + c)])"

text \<open>
  \<open>tp\<close> holds the limbs from \<open>tp + 2 * i - 2\<close> on that are already stored, and the second
  argument the operand from \<open>up[i - 1]\<close> on; two limbs of \<open>tp\<close> are final in each turn.
\<close>

fun sqr_offdiag_loop :: "limb list \<Rightarrow> limb list \<Rightarrow> limb list" where
  "sqr_offdiag_loop tp [] = tp"
| "sqr_offdiag_loop tp (u # us) =
     (if us = [] then tp
      else let (ts, cy) = mpn_addmul_1 tp us u; ts = ts @ [cy]
        in take 2 ts @ sqr_offdiag_loop (drop 2 ts) us)"

definition mpn_sqr_basecase :: "limb list \<Rightarrow> limb list" where
  "mpn_sqr_basecase up =
     (if length up = 1 then let (hi, lpl) = umul_ppmm (hd up) (hd up) in [lpl, hi]
      else let (ts, cy) = mpn_mul_1 (tl up) (hd up); ts = ts @ [cy];
          tp = take 2 ts @ sqr_offdiag_loop (drop 2 ts) (tl up)
        in MPN_SQR_DIAG_ADDLSH1 tp up)"

fun diag_val :: "limb list \<Rightarrow> nat" where
  "diag_val [] = 0"
| "diag_val (u # us) = unat u * unat u + BB * (BB * diag_val us)"

fun offdiag_val :: "limb list \<Rightarrow> nat" where
  "offdiag_val [] = 0"
| "offdiag_val (u # us) = unat u * limbs_val us + BB * (BB * offdiag_val us)"

lemma square_split: "limbs_val us * limbs_val us = diag_val us + 2 * BB * offdiag_val us"
proof (induction us)
  case (Cons u us)
  have "limbs_val (u # us) * limbs_val (u # us)
      = unat u * unat u + 2 * BB * (unat u * limbs_val us) + BB * BB * (limbs_val us * limbs_val us)"
    by (simp add: algebra_simps)
  then show ?case unfolding Cons.IH by (simp add: algebra_simps)
qed simp

lemma MPN_SQR_DIAGONAL_spec:
  "length (MPN_SQR_DIAGONAL up) = 2 * length up \<and> limbs_val (MPN_SQR_DIAGONAL up) = diag_val up"
proof (induction up)
  case (Cons u up)
  obtain h l where p: "umul_ppmm u u = (h, l)" by fastforce
  then show ?case using Cons.IH umul_ppmm_spec [OF p] by (simp add: algebra_simps)
qed simp

lemma sqr_offdiag_loop_spec:
  assumes "length tp = length us"
  shows "length (sqr_offdiag_loop tp (u # us)) = 2 * length us
    \<and> limbs_val (sqr_offdiag_loop tp (u # us)) = limbs_val tp + offdiag_val (u # us)"
  using assms
proof (induction us arbitrary: u tp)
  case (Cons w us)
  obtain ts cy where a: "mpn_addmul_1 tp (w # us) u = (ts, cy)" by fastforce
  note sp = mpn_addmul_1_spec [OF _ a]
  have l: "length ts = Suc (length us)"
    and e: "limbs_val (ts @ [cy]) = limbs_val tp + limbs_val (w # us) * unat u"
    using sp Cons.prems by (simp_all add: limbs_val_snoc)
  define t where "t = ts @ [cy]"
  have lt: "length t = Suc (Suc (length us))" using l by (simp add: t_def)
  have IH: "length (sqr_offdiag_loop (drop 2 t) (w # us)) = 2 * length us"
    "limbs_val (sqr_offdiag_loop (drop 2 t) (w # us)) = limbs_val (drop 2 t) + offdiag_val (w # us)"
    using Cons.IH [of "drop 2 t" w] lt by simp_all
  have t2: "length (take 2 t) = 2" using lt by simp
  have s: "limbs_val t = limbs_val (take 2 t) + BB ^ 2 * limbs_val (drop 2 t)"
    using lt by (intro limbs_val_split) simp
  have r: "sqr_offdiag_loop tp (u # w # us) = take 2 t @ sqr_offdiag_loop (drop 2 t) (w # us)"
    using a by (simp add: Let_def t_def del: take_append drop_append)
  have "limbs_val (sqr_offdiag_loop tp (u # w # us)) = limbs_val t + BB ^ 2 * offdiag_val (w # us)"
    unfolding r limbs_val_app t2 IH(2) s by (simp add: algebra_simps)
  then have "limbs_val (sqr_offdiag_loop tp (u # w # us)) = limbs_val tp + offdiag_val (u # w # us)"
    unfolding t_def e by (simp add: algebra_simps power2_eq_square)
  moreover have "length (sqr_offdiag_loop tp (u # w # us)) = 2 * length (w # us)"
    unfolding r using IH(1) t2 by simp
  ultimately show ?case by simp
qed simp

lemma MPN_SQR_DIAG_ADDLSH1_spec:
  assumes "2 \<le> length up" and "length tp = 2 * length up - 2" and "limbs_val tp = offdiag_val up"
  shows "length (MPN_SQR_DIAG_ADDLSH1 tp up) = 2 * length up"
    and "limbs_val (MPN_SQR_DIAG_ADDLSH1 tp up) = limbs_val up * limbs_val up"
proof -
  define m where "m = 2 * length up - 2"
  define rp where "rp = MPN_SQR_DIAGONAL up"
  have rp: "length rp = Suc (Suc m)" "limbs_val rp = diag_val up"
    using MPN_SQR_DIAGONAL_spec [of up] assms(1) by (simp_all add: rp_def m_def)
  obtain r0 mid top where r: "rp = r0 # mid @ [top]" "length mid = m"
    using rp(1) by (cases rp; cases "tl rp" rule: rev_cases) auto
  obtain tp' cy where t: "mpn_lshift tp 1 = (tp', cy)" by fastforce
  have tl: "length tp' = m" "limbs_val tp' + BB ^ m * unat cy = offdiag_val up * 2"
    using mpn_lshift_spec [OF _ _ t] assms by (cases "tp = []"; auto simp: m_def)+
  obtain rs c where a: "mpn_add_n mid tp' = (rs, c)" by fastforce
  have al: "length rs = m" "limbs_val rs + BB ^ m * unat c = limbs_val mid + limbs_val tp'"
    using mpn_add_n_spec [OF _ a] r(2) tl(1) by auto
  have res: "MPN_SQR_DIAG_ADDLSH1 tp up = r0 # rs @ [top + (cy + c)]"
    using r t a by (simp add: MPN_SQR_DIAG_ADDLSH1_def Let_def flip: rp_def m_def)
  then show "length (MPN_SQR_DIAG_ADDLSH1 tp up) = 2 * length up"
    using al(1) assms(1) by (simp add: m_def)
  have dv: "unat r0 + BB * (limbs_val mid + BB ^ m * unat top) = diag_val up"
    using rp(2) r by (simp add: limbs_val_snoc)
  have tot: "unat r0 + BB * limbs_val rs + BB ^ Suc m * (unat top + unat cy + unat c) = limbs_val up * limbs_val up"
  proof -
    have "unat r0 + BB * limbs_val rs + BB ^ Suc m * (unat top + unat cy + unat c)
        = unat r0 + BB * (limbs_val rs + BB ^ m * unat c) + BB ^ Suc m * (unat top + unat cy)"
      by (simp add: algebra_simps)
    also have "\<dots> = (unat r0 + BB * (limbs_val mid + BB ^ m * unat top)) + BB * (limbs_val tp' + BB ^ m * unat cy)"
      unfolding al(2) by (simp add: algebra_simps)
    finally show ?thesis unfolding dv tl(2) square_split by (simp add: algebra_simps)
  qed
  have "limbs_val up * limbs_val up < BB ^ length up * BB ^ length up"
    by (intro mult_strict_mono limbs_val_lt) simp_all
  also have "\<dots> = BB ^ Suc (Suc m)"
    using assms(1) unfolding power_add [symmetric] by (intro arg_cong [of _ _ "(^) BB"]) (simp add: m_def)
  also have "\<dots> = BB ^ Suc m * BB" by simp
  finally have "BB ^ Suc m * (unat top + unat cy + unat c) < BB ^ Suc m * BB" using tot by linarith
  then have "unat top + unat cy + unat c < BB" by simp
  then have "unat (top + (cy + c)) = unat top + unat cy + unat c" by (simp add: unat_plus_limb add.assoc)
  then show "limbs_val (MPN_SQR_DIAG_ADDLSH1 tp up) = limbs_val up * limbs_val up"
    using tot by (simp add: res limbs_val_snoc al(1) algebra_simps)
qed

lemma mpn_sqr_basecase_spec:
  assumes "up \<noteq> []"
  shows "length (mpn_sqr_basecase up) = 2 * length up"
    and "limbs_val (mpn_sqr_basecase up) = limbs_val up * limbs_val up"
proof -
  have "length (mpn_sqr_basecase up) = 2 * length up
    \<and> limbs_val (mpn_sqr_basecase up) = limbs_val up * limbs_val up"
  proof (cases "length up = 1")
    case True
    then obtain u where u: "up = [u]" by (auto simp: length_Suc_conv)
    obtain h l where p: "umul_ppmm u u = (h, l)" by fastforce
    then show ?thesis using umul_ppmm_spec [OF p] by (simp add: mpn_sqr_basecase_def u algebra_simps)
  next
    case False
    then obtain u w us where u: "up = u # w # us" using assms by (cases up; cases "tl up") auto
    obtain ts cy where a: "mpn_mul_1 (w # us) u = (ts, cy)" by fastforce
    define t where "t = ts @ [cy]"
    have l: "length t = Suc (Suc (length us))" "limbs_val t = limbs_val (w # us) * unat u"
      using mpn_mul_1_spec [OF a] by (simp_all add: t_def limbs_val_snoc)
    let ?tp = "take 2 t @ sqr_offdiag_loop (drop 2 t) (w # us)"
    have o: "length (sqr_offdiag_loop (drop 2 t) (w # us)) = 2 * length us"
      "limbs_val (sqr_offdiag_loop (drop 2 t) (w # us)) = limbs_val (drop 2 t) + offdiag_val (w # us)"
      using sqr_offdiag_loop_spec [of "drop 2 t" us w] l(1) by simp_all
    have t2: "length (take 2 t) = 2" using l by simp
    have s: "limbs_val t = limbs_val (take 2 t) + BB ^ 2 * limbs_val (drop 2 t)"
      using l by (intro limbs_val_split) simp
    have "limbs_val ?tp = limbs_val t + BB ^ 2 * offdiag_val (w # us)"
      unfolding limbs_val_app t2 o(2) s by (simp add: algebra_simps)
    then have "limbs_val ?tp = offdiag_val up"
      unfolding l(2) u by (simp add: algebra_simps power2_eq_square)
    moreover have "length ?tp = 2 * length up - 2" using o(1) t2 u by simp
    moreover have "mpn_sqr_basecase up = MPN_SQR_DIAG_ADDLSH1 ?tp up"
      using a by (simp add: mpn_sqr_basecase_def u Let_def t_def del: take_append drop_append sqr_offdiag_loop.simps)
    ultimately show ?thesis using MPN_SQR_DIAG_ADDLSH1_spec [of up ?tp] u by simp
  qed
  then show "length (mpn_sqr_basecase up) = 2 * length up"
    "limbs_val (mpn_sqr_basecase up) = limbs_val up * limbs_val up" by auto
qed
end
