(* ===== verification/Gmp_Redc.thy ===== *)
theory Gmp_Redc
  imports Gmp_Square
begin

text \<open>
  Montgomery reduction as \<open>mpn/generic/powm.c\<close> uses it: the macros \<open>MPN_REDC_0\<close>,
  \<open>MPN_REDC_1\<close>, \<open>MPN_REDC_2\<close> over \<open>umul_ppmm\<close>, \<open>mpn_redc_1\<close> and \<open>mpn_redc_2\<close>
  (\<open>mpn/generic/redc_2.c\<close>, which clears two limbs at a time).  All of them deliver
  \<open>redc_result\<close>.
\<close>

section \<open>Two limbs at a time\<close>

definition mpn_addmul_2 :: "limb list \<Rightarrow> limb list \<Rightarrow> limb \<Rightarrow> limb \<Rightarrow> limb list \<times> limb" where
  "mpn_addmul_2 rp up v0 v1 =
     (let (r1, c) = mpn_addmul_1 rp up v0;
        r1 = r1[length up := c];
        (r2, c2) = mpn_addmul_1 (tl r1) up v1
      in (hd r1 # r2, c2))"

definition umul2low :: "limb \<Rightarrow> limb \<Rightarrow> limb \<Rightarrow> limb \<Rightarrow> limb \<times> limb" where
  "umul2low uh ul vh vl = (let (ph, pl) = umul_ppmm ul vl in (ph + ul * vh + uh * vl, pl))"

text \<open>\<open>k\<close> turns of the loop of \<open>mpn_redc_2\<close>; the two carries stay below the new \<open>up\<close>.\<close>

fun redc_2_loop :: "nat \<Rightarrow> limb list \<Rightarrow> limb list \<Rightarrow> limb list \<Rightarrow> limb list \<times> limb list" where
  "redc_2_loop 0 up mp mip = ([], up)"
| "redc_2_loop (Suc k) up mp mip =
     (let n = length mp;
        (q1, q0) = umul2low (mip ! 1) (mip ! 0) (up ! 1) (up ! 0);
        upn = up ! n;
        (us, c) = mpn_addmul_2 up mp q0 q1;
        up0 = us ! n;
        us = us[n := upn];
        (lo, hi) = redc_2_loop k (drop 2 us) mp mip
      in (up0 # c # lo, hi))"

definition mpn_redc_2 :: "limb list \<Rightarrow> limb list \<Rightarrow> limb list \<Rightarrow> limb list \<times> limb" where
  "mpn_redc_2 up mp mip =
     (let n = length mp;
        (lo1, up) = (if odd n
          then let (us, cy) = mpn_addmul_1 up mp (up ! 0 * mip ! 0) in ([cy], tl us)
          else ([], up));
        (lo2, hi) = redc_2_loop (n div 2) up mp mip
      in mpn_add_n hi (lo1 @ lo2))"

lemma mpn_addmul_2_spec:
  assumes "length up < length rp" and "mpn_addmul_2 rp up v0 v1 = (rs, c)"
  shows "length rs = length rp" and "drop (Suc (length up)) rs = drop (Suc (length up)) rp"
    and "limbs_val (take (Suc (length up)) rs) + BB ^ Suc (length up) * unat c
      = limbs_val (take (length up) rp) + limbs_val up * (unat v0 + BB * unat v1)"
proof -
  let ?n = "length up"
  obtain r1 c1 where a: "mpn_addmul_1 rp up v0 = (r1, c1)" by fastforce
  note s1 = mpn_addmul_1_spec [OF less_imp_le [OF assms(1)] a]
  define r1' where "r1' = r1[?n := c1]"
  have t1: "take (Suc ?n) r1' = take ?n r1 @ [c1]"
    using s1(1) assms(1) by (simp add: r1'_def take_Suc_conv_app_nth)
  have d1: "drop (Suc ?n) r1' = drop (Suc ?n) rp"
    using arg_cong [OF s1(2), of "drop 1"] by (simp add: r1'_def)
  have l1: "length r1' = length rp" using s1(1) by (simp add: r1'_def)
  then obtain x xs where x: "r1' = x # xs" using assms(1) by (cases r1') auto
  obtain r2 where b: "mpn_addmul_1 xs up v1 = (r2, c)" "rs = x # r2"
    using assms(2) a x by (auto simp: mpn_addmul_2_def r1'_def Let_def split: prod.splits)
  have "?n \<le> length xs" using l1 x assms(1) by simp
  note s2 = mpn_addmul_1_spec [OF this b(1)]
  show "length rs = length rp" using s2(1) b(2) l1 x by simp
  show "drop (Suc ?n) rs = drop (Suc ?n) rp" using s2(2) b(2) d1 x by simp
  have "limbs_val (take (Suc ?n) rs) + BB ^ Suc ?n * unat c
      = unat x + BB * (limbs_val (take ?n r2) + BB ^ ?n * unat c)"
    by (simp add: b(2) algebra_simps)
  also have "\<dots> = limbs_val (take (Suc ?n) r1') + BB * (limbs_val up * unat v1)"
    unfolding s2(4) by (simp add: x algebra_simps)
  also have "limbs_val (take (Suc ?n) r1') = limbs_val (take ?n rp) + limbs_val up * unat v0"
    unfolding t1 using s1(1,4) assms(1) by (simp add: limbs_val_snoc)
  finally show "limbs_val (take (Suc ?n) rs) + BB ^ Suc ?n * unat c
      = limbs_val (take ?n rp) + limbs_val up * (unat v0 + BB * unat v1)" by (simp add: algebra_simps)
qed

lemma umul2low_spec:
  assumes "umul2low uh ul vh vl = (ph, pl)"
  shows "unat pl + BB * unat ph = (unat ul + BB * unat uh) * (unat vl + BB * unat vh) mod (BB * BB)"
proof -
  obtain h where p: "umul_ppmm ul vl = (h, pl)" "ph = h + ul * vh + uh * vl"
    using assms by (auto simp: umul2low_def split: prod.splits)
  let ?s = "unat h + unat ul * unat vh + unat uh * unat vl"
  have "unat ph = ?s mod BB" unfolding p(2) unat_plus_limb unat_times_limb by (simp add: mod_simps)
  moreover have "(unat ul + BB * unat uh) * (unat vl + BB * unat vh)
      = (unat pl + BB * ?s) + BB * BB * (unat uh * unat vh)"
    using umul_ppmm_spec [OF p(1)] by (simp add: algebra_simps)
  moreover have "(unat pl + BB * ?s) mod (BB * BB) = unat pl + BB * (?s mod BB)"
    using unat_lt_BB [of pl] by (simp add: mod_mult2_eq)
  ultimately show ?thesis by simp
qed

lemma redc_multiple:
  fixes t m mi K :: nat
  assumes "(m * mi + 1) mod K = 0"
  shows "(t + m * (t * mi mod K)) mod K = 0"
proof -
  have "(t + m * (t * mi mod K)) mod K = (t + m * (t * mi)) mod K"
    by (rule mod_add_cong [OF refl mod_mult_right_eq])
  also have "\<dots> = t * (m * mi + 1) mod K" by (simp add: algebra_simps)
  also have "\<dots> = t * ((m * mi + 1) mod K) mod K" by (rule mod_mult_right_eq [symmetric])
  finally show ?thesis using assms by simp
qed

lemma limbs_val_mod: "k \<le> length xs \<Longrightarrow> limbs_val xs mod BB ^ k = limbs_val (take k xs)"
  using limbs_val_split [of k xs] limbs_val_lt [of "take k xs"] by simp

lemma limbs_val_take2: "2 \<le> length xs \<Longrightarrow> limbs_val (take 2 xs) = unat (xs ! 0) + BB * unat (xs ! 1)"
  by (cases xs; cases "tl xs") (auto simp: numeral_2_eq_2)

lemma redc_2_turn:
  assumes inv: "(limbs_val mp * (unat (mip ! 0) + BB * unat (mip ! 1)) + 1) mod (BB * BB) = 0"
    and n: "2 \<le> length mp" "length mp < length up"
    and q: "umul2low (mip ! 1) (mip ! 0) (up ! 1) (up ! 0) = (q1, q0)"
    and a: "mpn_addmul_2 up mp q0 q1 = (us, c)"
  shows "length (us[length mp := up ! length mp]) = length up"
    and "BB ^ 2 * limbs_val (drop 2 (us[length mp := up ! length mp]))
        + BB ^ length mp * (unat (us ! length mp) + BB * unat c)
      = limbs_val up + limbs_val mp * (unat q0 + BB * unat q1)"
proof -
  let ?n = "length mp"
  define vs where "vs = us[?n := up ! ?n]"
  note s = mpn_addmul_2_spec [OF n(2) a]
  have l: "length us = length up" "length vs = length up" using s(1) by (simp_all add: vs_def)
  then show "length (us[?n := up ! ?n]) = length up" by (simp add: vs_def)
  have tk: "take (Suc ?n) us = take ?n us @ [us ! ?n]" using l n(2) by (simp add: take_Suc_conv_app_nth)
  have tv: "take ?n vs = take ?n us" by (simp add: vs_def)
  have dv: "drop ?n vs = drop ?n up"
  proof -
    have "drop ?n vs = up ! ?n # drop (Suc ?n) us" using l n(2) by (simp add: vs_def Cons_nth_drop_Suc [symmetric])
    then show ?thesis using s(2) n(2) by (simp add: Cons_nth_drop_Suc)
  qed
  have sv: "limbs_val vs = limbs_val (take ?n vs) + BB ^ ?n * limbs_val (drop ?n vs)"
    using l n(2) by (intro limbs_val_split) simp
  have "limbs_val vs + BB ^ ?n * (unat (us ! ?n) + BB * unat c)
      = (limbs_val (take (Suc ?n) us) + BB ^ Suc ?n * unat c) + BB ^ ?n * limbs_val (drop ?n up)"
    unfolding sv tk tv dv using l n(2) by (simp add: limbs_val_snoc algebra_simps)
  also have "\<dots> = limbs_val up + limbs_val mp * (unat q0 + BB * unat q1)"
    unfolding s(3) using limbs_val_split [of ?n up] n(2) by simp
  finally have e: "limbs_val vs + BB ^ ?n * (unat (us ! ?n) + BB * unat c)
      = limbs_val up + limbs_val mp * (unat q0 + BB * unat q1)" .
  let ?x = "unat (up ! 0) + BB * unat (up ! 1)" and ?i = "unat (mip ! 0) + BB * unat (mip ! 1)"
  have l2: "limbs_val up mod BB ^ 2 = ?x"
    using limbs_val_mod [of 2 up] limbs_val_take2 [of up] n by simp
  have "(limbs_val up + limbs_val mp * (unat q0 + BB * unat q1)) mod BB ^ 2
      = (limbs_val up mod BB ^ 2 + limbs_val mp * (unat q0 + BB * unat q1)) mod BB ^ 2"
    by (rule mod_add_left_eq [symmetric])
  also have "\<dots> = (?x + limbs_val mp * (?x * ?i mod (BB * BB))) mod (BB * BB)"
    unfolding l2 umul2low_spec [OF q] mult.commute [of ?i ?x] by (simp only: power2_eq_square)
  also have "\<dots> = 0" by (rule redc_multiple [OF inv])
  finally have "(limbs_val vs + BB ^ ?n * (unat (us ! ?n) + BB * unat c)) mod BB ^ 2 = 0" unfolding e .
  moreover have "BB ^ ?n = BB ^ 2 * BB ^ (?n - 2)" by (metis le_add_diff_inverse power_add n(1))
  ultimately have "limbs_val vs mod BB ^ 2 = 0" by (simp add: mult.assoc)
  then have "limbs_val vs = BB ^ 2 * limbs_val (drop 2 vs)"
    using limbs_val_split [of 2 vs] limbs_val_mod [of 2 vs] l n by simp
  then show "BB ^ 2 * limbs_val (drop 2 (us[?n := up ! ?n])) + BB ^ ?n * (unat (us ! ?n) + BB * unat c)
      = limbs_val up + limbs_val mp * (unat q0 + BB * unat q1)" using e by (simp add: vs_def)
qed

lemma two_limb_less: "unat (a :: limb) + BB * unat (b :: limb) < BB * BB"
proof -
  have "unat a + BB * unat b < BB * Suc (unat b)" using unat_lt_BB [of a] by simp
  also have "\<dots> \<le> BB * BB" using unat_lt_BB [of b] by (intro mult_le_mono2) simp
  finally show ?thesis .
qed

lemma redc_2_loop_spec:
  assumes inv: "(limbs_val mp * (unat (mip ! 0) + BB * unat (mip ! 1)) + 1) mod (BB * BB) = 0"
    and n: "2 \<le> length mp"
    and "length up = length mp + 2 * k" and "redc_2_loop k up mp mip = (lo, hi)"
  shows "length lo = 2 * k \<and> length hi = length mp
    \<and> (\<exists>Q < BB ^ (2 * k). BB ^ (2 * k) * limbs_val hi + BB ^ length mp * limbs_val lo = limbs_val up + limbs_val mp * Q)"
  using assms(3,4)
proof (induction k arbitrary: up lo)
  case 0
  then show ?case by auto
next
  case (Suc k)
  let ?n = "length mp"
  obtain q1 q0 where q: "umul2low (mip ! 1) (mip ! 0) (up ! 1) (up ! 0) = (q1, q0)" by fastforce
  obtain us c where a: "mpn_addmul_2 up mp q0 q1 = (us, c)" by fastforce
  define vs where "vs = us[?n := up ! ?n]"
  obtain lo' where r: "redc_2_loop k (drop 2 vs) mp mip = (lo', hi)" "lo = us ! ?n # c # lo'"
    using Suc.prems(2) q a by (auto simp: Let_def vs_def split: prod.splits)
  have n2: "?n < length up" using Suc.prems(1) by simp
  note t = redc_2_turn [OF inv n n2 q a, folded vs_def]
  obtain Q where Q: "Q < BB ^ (2 * k)" "length lo' = 2 * k" "length hi = ?n"
    "BB ^ (2 * k) * limbs_val hi + BB ^ ?n * limbs_val lo' = limbs_val (drop 2 vs) + limbs_val mp * Q"
    using Suc.IH [OF _ r(1)] t(1) Suc.prems(1) by auto
  have p: "BB ^ (2 * Suc k) = BB ^ 2 * BB ^ (2 * k)" by (simp flip: power_add)
  have "BB ^ (2 * Suc k) * limbs_val hi + BB ^ ?n * limbs_val lo
      = BB ^ 2 * (BB ^ (2 * k) * limbs_val hi + BB ^ ?n * limbs_val lo') + BB ^ ?n * (unat (us ! ?n) + BB * unat c)"
    unfolding p by (simp add: r(2) algebra_simps power2_eq_square)
  also have "\<dots> = (BB ^ 2 * limbs_val (drop 2 vs) + BB ^ ?n * (unat (us ! ?n) + BB * unat c))
      + limbs_val mp * (BB ^ 2 * Q)"
    unfolding Q(4) by (simp add: algebra_simps)
  also have "\<dots> = limbs_val up + limbs_val mp * ((unat q0 + BB * unat q1) + BB ^ 2 * Q)"
    unfolding t(2) by (simp add: algebra_simps)
  finally have "BB ^ (2 * Suc k) * limbs_val hi + BB ^ ?n * limbs_val lo
      = limbs_val up + limbs_val mp * ((unat q0 + BB * unat q1) + BB ^ 2 * Q)" .
  moreover have "(unat q0 + BB * unat q1) + BB ^ 2 * Q < BB ^ (2 * Suc k)"
  proof -
    have "(unat q0 + BB * unat q1) + BB ^ 2 * Q < BB ^ 2 * Suc Q"
      using two_limb_less [of q0 q1] by (simp add: power2_eq_square)
    also have "\<dots> \<le> BB ^ 2 * BB ^ (2 * k)" using Q(1) by (intro mult_le_mono2) simp
    finally show ?thesis unfolding p .
  qed
  ultimately show ?case using Q(2,3) r(2) by auto
qed

lemma mpn_redc_2_spec:
  assumes inv: "(limbs_val mp * (unat (mip ! 0) + BB * unat (mip ! 1)) + 1) mod (BB * BB) = 0"
    and n: "2 \<le> length mp" and l: "length up = 2 * length mp" and r: "mpn_redc_2 up mp mip = (rp, cy)"
  shows "length rp = length mp \<and> (cy = 0 \<or> cy = 1) \<and> (\<exists>Q < BB ^ length mp.
    BB ^ length mp * (limbs_val rp + BB ^ length mp * unat cy) = limbs_val up + limbs_val mp * Q)"
proof -
  let ?n = "length mp" and ?j = "length mp mod 2"
  have ne: "mp \<noteq> []" "up \<noteq> []" using n l by auto
  have inv1: "(limbs_val mp * unat (mip ! 0) + 1) mod BB = 0"
  proof -
    have "BB dvd limbs_val mp * (unat (mip ! 0) + BB * unat (mip ! 1)) + 1"
      using inv by (metis dvd_mult_left mod_0_imp_dvd)
    then have "BB dvd (limbs_val mp * unat (mip ! 0) + 1) + BB * (limbs_val mp * unat (mip ! 1))"
      by (simp add: algebra_simps)
    then show ?thesis by (metis dvd_add_left_iff dvd_imp_mod_0 dvd_triv_left)
  qed
  obtain lo1 up1 lo2 hi where f: "redc_1_loop ?j up mp (mip ! 0) = (lo1, up1)"
    "redc_2_loop (?n div 2) up1 mp mip = (lo2, hi)" "mpn_add_n hi (lo1 @ lo2) = (rp, cy)"
    using r ne(2) by (cases "odd ?n") (auto simp: mpn_redc_2_def Let_def odd_iff_mod_2_eq_one even_iff_mod_2_eq_zero
        hd_conv_nth split: prod.splits)
  have j: "?j < 2" "?n = ?j + 2 * (?n div 2)" by simp_all
  obtain Q1 where s1: "length lo1 = ?j" "length up1 = ?n + 2 * (?n div 2)" "Q1 < BB ^ ?j"
    "BB ^ ?j * limbs_val up1 + BB ^ ?n * limbs_val lo1 = limbs_val up + limbs_val mp * Q1"
  proof -
    have le: "?n + ?j \<le> length up" using j n l by linarith
    have "length up - ?j = ?n + 2 * (?n div 2)" using j(2) l by linarith
    with that redc_1_loop_spec [OF inv1 ne(1) le f(1)] show ?thesis by (metis (no_types, lifting))
  qed
  obtain Q2 where s2: "length lo2 = 2 * (?n div 2)" "length hi = ?n" "Q2 < BB ^ (2 * (?n div 2))"
    "BB ^ (2 * (?n div 2)) * limbs_val hi + BB ^ ?n * limbs_val lo2 = limbs_val up1 + limbs_val mp * Q2"
    using redc_2_loop_spec [OF inv n s1(2) f(2)] by auto
  have add: "length rp = ?n" "cy = 0 \<or> cy = 1"
    "limbs_val rp + BB ^ ?n * unat cy = limbs_val hi + limbs_val (lo1 @ lo2)"
    using mpn_add_n_spec [OF _ f(3)] s1(1) s2(1,2) j by auto
  have p: "BB ^ ?n = BB ^ ?j * BB ^ (2 * (?n div 2))" by (metis j(2) power_add)
  have "BB ^ ?n * (limbs_val rp + BB ^ ?n * unat cy)
      = BB ^ ?n * limbs_val hi + BB ^ ?n * limbs_val lo1 + BB ^ ?n * (BB ^ ?j * limbs_val lo2)"
    unfolding add(3) by (simp add: limbs_val_app s1(1) algebra_simps)
  also have "\<dots> = BB ^ ?j * (BB ^ (2 * (?n div 2)) * limbs_val hi + BB ^ ?n * limbs_val lo2) + BB ^ ?n * limbs_val lo1"
    unfolding distrib_left mult.assoc [symmetric] p [symmetric] by (simp add: algebra_simps)
  also have "\<dots> = limbs_val up + limbs_val mp * (Q1 + BB ^ ?j * Q2)"
    unfolding s2(4) using s1(4) by (simp add: algebra_simps)
  finally have "BB ^ ?n * (limbs_val rp + BB ^ ?n * unat cy) = limbs_val up + limbs_val mp * (Q1 + BB ^ ?j * Q2)" .
  moreover have "Q1 + BB ^ ?j * Q2 < BB ^ ?n"
  proof -
    have "Q1 + BB ^ ?j * Q2 < BB ^ ?j * Suc Q2" using s1(3) by simp
    also have "\<dots> \<le> BB ^ ?n" unfolding p using s2(3) by (intro mult_le_mono2) simp
    finally show ?thesis .
  qed
  ultimately show ?thesis using add(1,2) by blast
qed

section \<open>The macros of powm.c\<close>

definition MPN_REDC_0 :: "limb \<Rightarrow> limb \<Rightarrow> limb \<Rightarrow> limb \<Rightarrow> limb" where
  "MPN_REDC_0 u1 u0 m0 invm =
     (let (p1, dummy) = umul_ppmm m0 (u0 * invm);
        r0 = u1 - p1
      in if u1 < p1 then r0 + m0 else r0)"

definition MPN_REDC_1 :: "limb list \<Rightarrow> limb list \<Rightarrow> limb \<Rightarrow> limb list" where
  "MPN_REDC_1 up mp invm =
     (let (rp, cy) = mpn_redc_1 up mp invm in if cy \<noteq> 0 then fst (mpn_sub_n rp mp) else rp)"

definition MPN_REDC_2 :: "limb list \<Rightarrow> limb list \<Rightarrow> limb list \<Rightarrow> limb list" where
  "MPN_REDC_2 up mp mip =
     (let (rp, cy) = mpn_redc_2 up mp mip in if cy \<noteq> 0 then fst (mpn_sub_n rp mp) else rp)"

text \<open>
  What a Montgomery reduction of \<open>t\<close> modulo \<open>m\<close> with radix \<open>R\<close> delivers: a value below the
  radix that is \<open>t / R\<close> modulo \<open>m\<close> and at most \<open>(t + m * (R - 1)) / R\<close>.
\<close>

definition redc_result :: "nat \<Rightarrow> nat \<Rightarrow> nat \<Rightarrow> nat \<Rightarrow> bool" where
  "redc_result m R t r \<longleftrightarrow> r < R \<and> r * R mod m = t mod m \<and> r * R \<le> t + m * (R - 1)"

lemma redc_close:
  assumes l: "length rp = length mp" and cy: "cy = 0 \<or> cy = 1" and Q: "Q < BB ^ length mp"
    and e: "BB ^ length mp * (limbs_val rp + BB ^ length mp * unat cy) = t + limbs_val mp * Q"
    and t: "t < BB ^ length mp * BB ^ length mp"
  shows "length (if cy \<noteq> 0 then fst (mpn_sub_n rp mp) else rp) = length mp"
    and "redc_result (limbs_val mp) (BB ^ length mp) t (limbs_val (if cy \<noteq> 0 then fst (mpn_sub_n rp mp) else rp))"
proof -
  define R where "R = BB ^ length mp"
  define m where "m = limbs_val mp"
  have R: "0 < R" "m < R" using limbs_val_lt [of mp] by (simp_all add: R_def m_def)
  obtain rs b where s: "mpn_sub_n rp mp = (rs, b)" by fastforce
  note sp = mpn_sub_n_spec [OF l s]
  show "length (if cy \<noteq> 0 then fst (mpn_sub_n rp mp) else rp) = length mp" using sp l s by simp
  have Qm: "m * Q \<le> m * (R - 1)" using Q by (intro mult_le_mono2) (simp add: R_def)
  have e': "R * (limbs_val rp + R * unat cy) = t + m * Q" using e by (simp add: R_def m_def)
  show "redc_result (limbs_val mp) (BB ^ length mp) t (limbs_val (if cy \<noteq> 0 then fst (mpn_sub_n rp mp) else rp))"
  proof (cases "cy = 0")
    case True
    have "limbs_val rp * R = t + m * Q" using e' True by (simp add: mult.commute)
    moreover have "limbs_val rp < R" using limbs_val_lt [of rp] l by (simp add: R_def)
    ultimately show ?thesis using Qm True by (simp add: redc_result_def flip: R_def m_def)
  next
    case False
    then have c1: "cy = 1" using cy by simp
    have "R * (limbs_val rp + R) < R * (R + m)"
    proof -
      have "R * (limbs_val rp + R) \<le> t + m * (R - 1)" using e' c1 Qm by simp
      also have "\<dots> < R * R + m * R" using t R by (simp add: R_def add_less_le_mono)
      finally show ?thesis by (simp add: algebra_simps)
    qed
    then have lt: "limbs_val rp < m" by simp
    have "b = 1"
      using sp(2,3) lt limbs_val_lt [of rs] sp(1) l by (auto simp: m_def)
    then have rs: "limbs_val rs + m = limbs_val rp + R" using sp(3) l by (simp add: m_def R_def)
    have "(limbs_val rs + m) * R = t + m * Q" unfolding rs using e' c1 by (simp add: algebra_simps)
    then have x: "limbs_val rs * R + m * R = t + m * Q" by (simp add: algebra_simps)
    have "limbs_val rs * R mod m = (limbs_val rs * R + m * R) mod m" by simp
    then have "limbs_val rs * R mod m = t mod m" unfolding x by simp
    moreover have "limbs_val rs < R" using rs lt R by linarith
    moreover have "limbs_val rs * R \<le> t + m * (R - 1)" using x Qm by linarith
    ultimately show ?thesis using c1 s by (simp add: redc_result_def flip: R_def m_def)
  qed
qed

lemma limbs_val_lt2: "length up = 2 * n \<Longrightarrow> limbs_val up < BB ^ n * BB ^ n"
  using limbs_val_lt [of up] by (simp add: mult_2 power_add)

lemma MPN_REDC_1_spec:
  assumes "(limbs_val mp * unat invm + 1) mod BB = 0" and "mp \<noteq> []" and "length up = 2 * length mp"
  shows "length (MPN_REDC_1 up mp invm) = length mp"
    and "redc_result (limbs_val mp) (BB ^ length mp) (limbs_val up) (limbs_val (MPN_REDC_1 up mp invm))"
proof -
  obtain rp cy where r: "mpn_redc_1 up mp invm = (rp, cy)" by fastforce
  obtain Q where Q: "length rp = length mp" "cy = 0 \<or> cy = 1" "Q < BB ^ length mp"
    "BB ^ length mp * (limbs_val rp + BB ^ length mp * unat cy) = limbs_val up + limbs_val mp * Q"
    using mpn_redc_1_spec [OF assms r] by blast
  show "length (MPN_REDC_1 up mp invm) = length mp"
    "redc_result (limbs_val mp) (BB ^ length mp) (limbs_val up) (limbs_val (MPN_REDC_1 up mp invm))"
    using redc_close [OF Q limbs_val_lt2 [OF assms(3)]] r by (simp_all add: MPN_REDC_1_def)
qed

lemma MPN_REDC_2_spec:
  assumes "(limbs_val mp * (unat (mip ! 0) + BB * unat (mip ! 1)) + 1) mod (BB * BB) = 0"
    and "2 \<le> length mp" and "length up = 2 * length mp"
  shows "length (MPN_REDC_2 up mp mip) = length mp"
    and "redc_result (limbs_val mp) (BB ^ length mp) (limbs_val up) (limbs_val (MPN_REDC_2 up mp mip))"
proof -
  obtain rp cy where r: "mpn_redc_2 up mp mip = (rp, cy)" by fastforce
  obtain Q where Q: "length rp = length mp" "cy = 0 \<or> cy = 1" "Q < BB ^ length mp"
    "BB ^ length mp * (limbs_val rp + BB ^ length mp * unat cy) = limbs_val up + limbs_val mp * Q"
    using mpn_redc_2_spec [OF assms r] by blast
  show "length (MPN_REDC_2 up mp mip) = length mp"
    "redc_result (limbs_val mp) (BB ^ length mp) (limbs_val up) (limbs_val (MPN_REDC_2 up mp mip))"
    using redc_close [OF Q limbs_val_lt2 [OF assms(3)]] r by (simp_all add: MPN_REDC_2_def)
qed

lemma MPN_REDC_0_spec:
  assumes "invm * m0 = 1"
  shows "redc_result (unat m0) BB (unat u0 + BB * unat u1) (unat (MPN_REDC_0 u1 u0 m0 invm))"
proof -
  define q where "q = u0 * invm"
  obtain p1 d where p: "umul_ppmm m0 q = (p1, d)" by fastforce
  have eq: "unat p1 * BB + unat d = unat m0 * unat q" by (rule umul_ppmm_spec [OF p])
  have m0: "m0 \<noteq> 0" using assms by auto
  have "unat d = unat (m0 * q)"
    using arg_cong [OF eq, of "\<lambda>x. x mod BB"] unat_lt_BB [of d] by (simp add: unat_times_limb)
  moreover have "m0 * q = u0 * (invm * m0)" by (simp only: q_def mult.commute mult.left_commute)
  ultimately have d: "d = u0" using assms by (simp add: word_unat_eq_iff)
  have p1: "unat p1 < unat m0"
  proof -
    have "unat p1 * BB \<le> unat m0 * unat q" using eq by linarith
    also have "\<dots> < unat m0 * BB" using m0 unat_lt_BB [of q] by (simp add: unat_gt_0)
    finally show ?thesis by simp
  qed
  show ?thesis
  proof (cases "u1 < p1")
    case False
    have r: "MPN_REDC_0 u1 u0 m0 invm = u1 - p1" using False p by (simp add: MPN_REDC_0_def q_def)
    have u: "unat (u1 - p1) + unat p1 = unat u1" using False by (simp add: unat_sub_if' word_le_nat_alt not_less)
    have e: "unat (u1 - p1) * BB + unat m0 * unat q = unat u0 + BB * unat u1"
      using eq d by (simp add: u [symmetric] algebra_simps)
    have "unat (u1 - p1) * BB mod unat m0 = (unat (u1 - p1) * BB + unat m0 * unat q) mod unat m0" by simp
    then show ?thesis unfolding redc_result_def r using e unat_lt_BB [of "u1 - p1"] by simp
  next
    case True
    have r: "MPN_REDC_0 u1 u0 m0 invm = u1 - p1 + m0" using True p by (simp add: MPN_REDC_0_def q_def)
    have "u1 - p1 + m0 = m0 - (p1 - u1)" by simp
    then have "unat (u1 - p1 + m0) = unat m0 - (unat p1 - unat u1)"
      using True p1 by (simp only: unat_sub_if' word_less_nat_alt) auto
    then have u: "unat (u1 - p1 + m0) + unat p1 = unat m0 + unat u1" "unat (u1 - p1 + m0) < unat m0"
      using True p1 by (auto simp: word_less_nat_alt)
    have e: "unat (u1 - p1 + m0) * BB + unat m0 * unat q = unat u0 + BB * unat u1 + unat m0 * BB"
    proof -
      have "unat (u1 - p1 + m0) * BB + unat m0 * unat q = (unat (u1 - p1 + m0) + unat p1) * BB + unat u0"
        using eq d by (simp add: algebra_simps)
      then show ?thesis unfolding u(1) by (simp add: algebra_simps)
    qed
    have "unat (u1 - p1 + m0) * BB mod unat m0 = (unat (u1 - p1 + m0) * BB + unat m0 * unat q) mod unat m0" by simp
    then have "unat (u1 - p1 + m0) * BB mod unat m0 = (unat u0 + BB * unat u1) mod unat m0" unfolding e by simp
    moreover have "unat q \<noteq> 0"
    proof
      assume "unat q = 0"
      then have "unat p1 = 0" using eq by simp
      then show False using True by (simp add: word_less_nat_alt)
    qed
    then have "unat m0 * BB \<le> unat m0 * unat q + unat m0 * (BB - 1)"
      by (simp flip: distrib_left) linarith
    then have "unat (u1 - p1 + m0) * BB \<le> unat u0 + BB * unat u1 + unat m0 * (BB - 1)" using e by linarith
    ultimately show ?thesis unfolding redc_result_def r using u(2) unat_lt_BB [of m0] by linarith
  qed
qed

text \<open>A high limb below the modulus gives a canonical result.\<close>

lemma MPN_REDC_0_less:
  assumes "u1 < m0"
  shows "MPN_REDC_0 u1 u0 m0 invm < m0"
proof -
  obtain p1 d where p: "umul_ppmm m0 (u0 * invm) = (p1, d)" by fastforce
  have "unat p1 * BB \<le> unat m0 * unat (u0 * invm)" using umul_ppmm_spec [OF p] by linarith
  also have "\<dots> < unat m0 * BB" using assms unat_lt_BB by (intro mult_strict_left_mono) (auto simp: unat_gt_0)
  finally have p1: "unat p1 < unat m0" by simp
  show ?thesis
  proof (cases "u1 < p1")
    case False
    have "unat (u1 - p1) \<le> unat u1" using False by (simp add: unat_sub_if' word_le_nat_alt not_less)
    then show ?thesis using False p assms by (simp add: MPN_REDC_0_def word_less_nat_alt)
  next
    case True
    have "u1 - p1 + m0 = m0 - (p1 - u1)" by simp
    then have "unat (u1 - p1 + m0) = unat m0 - (unat p1 - unat u1)"
      using True p1 by (simp only: unat_sub_if' word_less_nat_alt) auto
    then show ?thesis using True p p1 by (simp add: MPN_REDC_0_def word_less_nat_alt)
  qed
qed

end
