(* ===== verification/Gmp_Config.thy ===== *)
theory Gmp_Config
  imports Gmp_Mpn
begin

text \<open>
  How GMP was configured: the thresholds of \<open>gmp-mparam.h\<close> by which the routines of the limb
  layer choose an algorithm from the size of their operands.  The other fields are the algorithms
  for large operands (Toom-Cook and FFT products, division) that are not modelled.
\<close>

datatype toom = Toom22 | Toom32 | Toom33 | Toom42 | Toom43 | Toom44 | Toom53 | Toom63 | Toom6h | Toom8h

datatype toom_sqr = Toom2_sqr | Toom3_sqr | Toom4_sqr | Toom6_sqr | Toom8_sqr

record mpn_cfg =
  WANT_REDC_2 :: bool
  REDC_1_TO_REDC_2_THRESHOLD :: nat
  REDC_2_TO_REDC_N_THRESHOLD :: nat
  REDC_1_TO_REDC_N_THRESHOLD :: nat
  MUL_TOOM22_THRESHOLD :: nat
  MUL_TOOM33_THRESHOLD :: nat
  MUL_TOOM44_THRESHOLD :: nat
  MUL_TOOM6H_THRESHOLD :: nat
  MUL_TOOM8H_THRESHOLD :: nat
  MUL_FFT_THRESHOLD :: nat
  MUL_TOOM32_TO_TOOM43_THRESHOLD :: nat
  MUL_TOOM32_TO_TOOM53_THRESHOLD :: nat
  MUL_TOOM42_TO_TOOM53_THRESHOLD :: nat
  MUL_TOOM42_TO_TOOM63_THRESHOLD :: nat
  SQR_BASECASE_THRESHOLD :: nat
  SQR_TOOM2_THRESHOLD :: nat
  SQR_TOOM3_THRESHOLD :: nat
  SQR_TOOM4_THRESHOLD :: nat
  SQR_TOOM6_THRESHOLD :: nat
  SQR_TOOM8_THRESHOLD :: nat
  SQR_FFT_THRESHOLD :: nat
  MULLO_BASECASE_THRESHOLD :: nat
  MULLO_DC_THRESHOLD :: nat
  MULLO_MUL_N_THRESHOLD :: nat
  SQRLO_BASECASE_THRESHOLD :: nat
  SQRLO_DC_THRESHOLD :: nat
  SQRLO_SQR_THRESHOLD :: nat
  MOD_1_NORM_THRESHOLD :: nat
  MOD_1_UNNORM_THRESHOLD :: nat
  MOD_1N_TO_MOD_1_1_THRESHOLD :: nat
  MOD_1U_TO_MOD_1_1_THRESHOLD :: nat
  BINV_NEWTON_THRESHOLD :: nat
  DC_BDIV_Q_THRESHOLD :: nat
  toom_mul :: "toom \<Rightarrow> limb list \<Rightarrow> limb list \<Rightarrow> limb list"
  toom_square :: "toom_sqr \<Rightarrow> limb list \<Rightarrow> limb list"
  mpn_fft_mul :: "limb list \<Rightarrow> limb list \<Rightarrow> limb list"
  mpn_mulmod_bnm1_next_size :: "nat \<Rightarrow> nat"
  mpn_mulmod_bnm1 :: "nat \<Rightarrow> limb list \<Rightarrow> limb list \<Rightarrow> limb list"
  mpn_dcpi1_bdiv_q :: "limb list \<Rightarrow> limb list \<Rightarrow> limb \<Rightarrow> limb list"
  large_mod_1 :: "limb list \<Rightarrow> limb \<Rightarrow> limb"
  mpn_tdiv_qr :: "limb list \<Rightarrow> limb list \<Rightarrow> limb list \<times> limb list"
  mpz_invert :: "mpz \<Rightarrow> mpz \<Rightarrow> mpz option"

definition MP_SIZE_T_MAX :: nat where
  "MP_SIZE_T_MAX = 2 ^ 63 - 1"

definition ABOVE_THRESHOLD :: "nat \<Rightarrow> nat \<Rightarrow> bool" where
  "ABOVE_THRESHOLD sz thresh \<longleftrightarrow> thresh = 0 \<or> \<not> thresh = MP_SIZE_T_MAX \<and> sz \<ge> thresh"

definition BELOW_THRESHOLD :: "nat \<Rightarrow> nat \<Rightarrow> bool" where
  "BELOW_THRESHOLD sz thresh \<longleftrightarrow> \<not> ABOVE_THRESHOLD sz thresh"

lemma not_below: "\<not> BELOW_THRESHOLD sz t \<Longrightarrow> t = 0 \<or> t \<le> sz"
  by (auto simp: BELOW_THRESHOLD_def ABOVE_THRESHOLD_def)

lemma not_below_ge: "\<not> BELOW_THRESHOLD sz t \<Longrightarrow> k \<le> t \<Longrightarrow> 0 < k \<Longrightarrow> k \<le> sz"
  using not_below [of sz t] by linarith

end
