(* ===== verification/Gmp_Mul.thy ===== *)
theory Gmp_Mul
  imports Gmp_Square Gmp_Config
begin

unbundle bit_operations_syntax

text \<open>
  Products and squares of vectors of any size: \<open>mpn_mul_n\<close> (\<open>mpn/generic/mul_n.c\<close>), \<open>mpn_sqr\<close>
  (\<open>sqr.c\<close>) and \<open>mpn_mul\<close> (\<open>mul.c\<close>), which choose by the sizes of the operands between the schoolbook
  method and the Toom-Cook and FFT routines, and which cut a long operand into blocks.

  The Toom-Cook routines are fields of the configuration; each is required to give the product only
  for the sizes its own assertions admit (\<open>toom_area\<close>), so that the lemmas show that the ladders
  of comparisons never call a routine outside its area.
\<close>

section \<open>Definitions\<close>

definition mpn_incr_u :: "limb list \<Rightarrow> limb \<Rightarrow> limb list" where
  "mpn_incr_u p incr =
     (case p of [] \<Rightarrow> []
      | y # ys \<Rightarrow> let x = y + incr in x # (if x < incr then fst (add_carry_loop ys) else ys))"

definition mpn_mul_n :: "mpn_cfg \<Rightarrow> limb list \<Rightarrow> limb list \<Rightarrow> limb list" where
  "mpn_mul_n cfg a b =
     (let n = length a
      in if BELOW_THRESHOLD n (MUL_TOOM22_THRESHOLD cfg) then mpn_mul_basecase a b
         else if BELOW_THRESHOLD n (MUL_TOOM33_THRESHOLD cfg) then toom_mul cfg Toom22 a b
         else if BELOW_THRESHOLD n (MUL_TOOM44_THRESHOLD cfg) then toom_mul cfg Toom33 a b
         else if BELOW_THRESHOLD n (MUL_TOOM6H_THRESHOLD cfg) then toom_mul cfg Toom44 a b
         else if BELOW_THRESHOLD n (MUL_TOOM8H_THRESHOLD cfg) then toom_mul cfg Toom6h a b
         else if BELOW_THRESHOLD n (MUL_FFT_THRESHOLD cfg) then toom_mul cfg Toom8h a b
         else mpn_fft_mul cfg a b)"

definition mpn_sqr :: "mpn_cfg \<Rightarrow> limb list \<Rightarrow> limb list" where
  "mpn_sqr cfg a =
     (let n = length a
      in if BELOW_THRESHOLD n (SQR_BASECASE_THRESHOLD cfg) then mpn_mul_basecase a a
         else if BELOW_THRESHOLD n (SQR_TOOM2_THRESHOLD cfg) then mpn_sqr_basecase a
         else if BELOW_THRESHOLD n (SQR_TOOM3_THRESHOLD cfg) then toom_square cfg Toom2_sqr a
         else if BELOW_THRESHOLD n (SQR_TOOM4_THRESHOLD cfg) then toom_square cfg Toom3_sqr a
         else if BELOW_THRESHOLD n (SQR_TOOM6_THRESHOLD cfg) then toom_square cfg Toom4_sqr a
         else if BELOW_THRESHOLD n (SQR_TOOM8_THRESHOLD cfg) then toom_square cfg Toom6_sqr a
         else if BELOW_THRESHOLD n (SQR_FFT_THRESHOLD cfg) then toom_square cfg Toom8_sqr a
         else mpn_fft_mul cfg a a)"

definition MUL_BASECASE_MAX_UN :: nat where
  "MUL_BASECASE_MAX_UN = 500"

definition TOOM44_OK :: "nat \<Rightarrow> nat \<Rightarrow> bool" where
  "TOOM44_OK an bn \<longleftrightarrow> 12 + 3 * an < 4 * bn"

text \<open>The product \<open>ws\<close> of the next block is added where its low \<open>vn\<close> limbs overlap what is there.\<close>

definition add_block :: "limb list \<Rightarrow> limb list \<Rightarrow> nat \<Rightarrow> limb list" where
  "add_block prodp ws vn =
     (let k = length prodp - vn; (s, cy) = mpn_add_n (drop k prodp) (take vn ws)
      in take k prodp @ s @ mpn_incr_u (drop vn ws) cy)"

text \<open>The three loops over blocks differ in the size of a block, its product and the test.\<close>

function mul_blocks ::
  "(limb list \<Rightarrow> limb list) \<Rightarrow> nat \<Rightarrow> (nat \<Rightarrow> bool) \<Rightarrow> nat \<Rightarrow> limb list \<Rightarrow> limb list \<Rightarrow> limb list \<times> limb list" where
  "mul_blocks mul sz again vn prodp up =
     (if again (length up) \<and> 0 < sz \<and> up \<noteq> []
      then mul_blocks mul sz again vn (add_block prodp (mul (take sz up)) vn) (drop sz up)
      else (prodp, up))"
  by pat_completeness auto
termination by (relation "measure (\<lambda>(mul, sz, again, vn, prodp, up). length up)") auto

declare mul_blocks.simps [simp del]

definition toom_x2 :: "nat \<Rightarrow> nat \<Rightarrow> toom" where
  "toom_x2 un vn = (if 4 * un < 5 * vn then Toom22 else if 4 * un < 7 * vn then Toom32 else Toom42)"

definition toom_x3 :: "mpn_cfg \<Rightarrow> nat \<Rightarrow> nat \<Rightarrow> toom" where
  "toom_x3 cfg un vn =
     (if 6 * un < 7 * vn then Toom33
      else if 2 * un < 3 * vn
      then (if BELOW_THRESHOLD vn (MUL_TOOM32_TO_TOOM43_THRESHOLD cfg) then Toom32 else Toom43)
      else if 6 * un < 11 * vn
      then (if 4 * un < 7 * vn
            then (if BELOW_THRESHOLD vn (MUL_TOOM32_TO_TOOM53_THRESHOLD cfg) then Toom32 else Toom53)
            else (if BELOW_THRESHOLD vn (MUL_TOOM42_TO_TOOM53_THRESHOLD cfg) then Toom42 else Toom53))
      else (if BELOW_THRESHOLD vn (MUL_TOOM42_TO_TOOM63_THRESHOLD cfg) then Toom42 else Toom63))"

lemma mul_blocks_length: "length (snd (mul_blocks mul sz again vn prodp up)) \<le> length up"
proof (induction mul sz again vn prodp up rule: mul_blocks.induct)
  case (1 mul sz again vn prodp up)
  then show ?case by (subst mul_blocks.simps) (auto intro: le_trans)
qed

lemma mul_blocks_rest: "(p, y) = mul_blocks mul sz again vn q (drop k up) \<Longrightarrow> length y \<le> length up - k"
  using mul_blocks_length [of mul sz again vn q "drop k up"] by (metis length_drop snd_conv)

function mpn_mul :: "mpn_cfg \<Rightarrow> limb list \<Rightarrow> limb list \<Rightarrow> limb list" where
  "mpn_mul cfg up vp =
     (let un = length up; vn = length vp
      in if BELOW_THRESHOLD un (MUL_TOOM22_THRESHOLD cfg) then mpn_mul_basecase up vp
         else if un = vn then mpn_mul_n cfg up vp
         else if vn < MUL_TOOM22_THRESHOLD cfg
         then if un \<le> MUL_BASECASE_MAX_UN \<or> vn = 1 then mpn_mul_basecase up vp
              else let (prodp, up) = mul_blocks (\<lambda>u. mpn_mul_basecase u vp) MUL_BASECASE_MAX_UN
                       (\<lambda>un. un > MUL_BASECASE_MAX_UN) vn
                       (mpn_mul_basecase (take MUL_BASECASE_MAX_UN up) vp) (drop MUL_BASECASE_MAX_UN up);
                     ws = (if length up > vn then mpn_mul_basecase up vp else mpn_mul_basecase vp up)
                   in add_block prodp ws vn
         else if BELOW_THRESHOLD vn (MUL_TOOM33_THRESHOLD cfg)
         then if un \<ge> 3 * vn
              then let (prodp, up) = mul_blocks (\<lambda>u. toom_mul cfg Toom42 u vp) (2 * vn) (\<lambda>un. un \<ge> 3 * vn) vn
                       (toom_mul cfg Toom42 (take (2 * vn) up) vp) (drop (2 * vn) up);
                     ws = toom_mul cfg (toom_x2 (length up) vn) up vp
                   in add_block prodp ws vn
              else toom_mul cfg (toom_x2 un vn) up vp
         else if BELOW_THRESHOLD ((un + vn) div 2) (MUL_FFT_THRESHOLD cfg)
              \<or> BELOW_THRESHOLD (3 * vn) (MUL_FFT_THRESHOLD cfg)
         then if BELOW_THRESHOLD vn (MUL_TOOM44_THRESHOLD cfg) \<or> \<not> TOOM44_OK un vn
              then if 2 * un \<ge> 5 * vn \<and> 0 < vn
                   then let k = (if BELOW_THRESHOLD vn (MUL_TOOM42_TO_TOOM63_THRESHOLD cfg) then Toom42 else Toom63);
                          (prodp, up) = mul_blocks (\<lambda>u. toom_mul cfg k u vp) (2 * vn) (\<lambda>un. 2 * un \<ge> 5 * vn) vn
                            (toom_mul cfg k (take (2 * vn) up) vp) (drop (2 * vn) up);
                          ws = (if length up < vn then mpn_mul cfg vp up else mpn_mul cfg up vp)
                        in add_block prodp ws vn
                   else toom_mul cfg (toom_x3 cfg un vn) up vp
              else toom_mul cfg
                     (if BELOW_THRESHOLD vn (MUL_TOOM6H_THRESHOLD cfg) then Toom44
                      else if BELOW_THRESHOLD vn (MUL_TOOM8H_THRESHOLD cfg) then Toom6h else Toom8h) up vp
         else if un \<ge> 8 * vn \<and> 0 < vn
         then let (prodp, up) = mul_blocks (\<lambda>u. mpn_fft_mul cfg u vp) (3 * vn) (\<lambda>un. 2 * un \<ge> 7 * vn) vn
                  (mpn_fft_mul cfg (take (3 * vn) up) vp) (drop (3 * vn) up);
                ws = (if length up < vn then mpn_mul cfg vp up else mpn_mul cfg up vp)
              in add_block prodp ws vn
         else mpn_fft_mul cfg up vp)"
  by pat_completeness auto
termination
proof (relation "measure (\<lambda>(cfg, up, vp). length up)")
qed (auto dest!: mul_blocks_rest simp flip: length_greater_0_conv)

declare mpn_mul.simps [simp del]

section \<open>What the large routines promise\<close>

text \<open>The operand sizes that the assertions of the Toom-Cook routines admit.\<close>

fun toom_area :: "toom \<Rightarrow> nat \<Rightarrow> nat \<Rightarrow> bool" where
  "toom_area Toom22 an bn \<longleftrightarrow> bn \<le> an \<and> 2 \<le> an \<and> an - an div 2 < bn"
| "toom_area Toom32 an bn \<longleftrightarrow> bn + 2 \<le> an \<and> an + 6 \<le> 3 * bn"
| "toom_area Toom33 an bn \<longleftrightarrow> (let n = (an + 2) div 3 in bn \<le> an \<and> 2 * n < bn)"
| "toom_area Toom42 an bn \<longleftrightarrow>
     (let n = (if an \<ge> 2 * bn then (an + 3) div 4 else (bn + 1) div 2)
      in 3 * n < an \<and> an \<le> 4 * n \<and> n < bn \<and> bn \<le> 2 * n)"
| "toom_area Toom43 an bn \<longleftrightarrow>
     (let n = 1 + (if 3 * an \<ge> 4 * bn then (an - 1) div 4 else (bn - 1) div 3)
      in 3 * n < an \<and> an \<le> 4 * n \<and> 2 * n < bn \<and> bn \<le> 3 * n \<and> 5 * n + 5 \<le> an + bn)"
| "toom_area Toom44 an bn \<longleftrightarrow> (let n = (an + 3) div 4 in bn \<le> an \<and> 3 * n < bn)"
| "toom_area Toom53 an bn \<longleftrightarrow>
     (let n = 1 + (if 3 * an \<ge> 5 * bn then (an - 1) div 5 else (bn - 1) div 3)
      in 4 * n < an \<and> an \<le> 5 * n \<and> 2 * n < bn \<and> bn \<le> 3 * n)"
| "toom_area Toom63 an bn \<longleftrightarrow>
     (let n = 1 + (if an \<ge> 2 * bn then (an - 1) div 6 else (bn - 1) div 3)
      in bn \<le> an \<and> 5 * n < an \<and> an \<le> 6 * n \<and> 2 * n < bn \<and> bn \<le> 3 * n
        \<and> 8 * n \<le> an + bn \<and> 7 * n + 4 < an + bn \<and> 2 < n)"
| "toom_area Toom6h an bn \<longleftrightarrow> bn \<le> an \<and> 42 \<le> bn \<and> an * 3 < bn * 8"
| "toom_area Toom8h an bn \<longleftrightarrow> bn \<le> an \<and> 86 \<le> bn \<and> an \<le> bn * 4"

fun toom_sqr_area :: "toom_sqr \<Rightarrow> nat \<Rightarrow> bool" where
  "toom_sqr_area Toom2_sqr an \<longleftrightarrow> 2 \<le> an"
| "toom_sqr_area Toom3_sqr an \<longleftrightarrow> 2 * ((an + 2) div 3) < an"
| "toom_sqr_area Toom4_sqr an \<longleftrightarrow> 3 * ((an + 3) div 4) < an"
| "toom_sqr_area Toom6_sqr an \<longleftrightarrow> 18 \<le> an \<and> 5 * (1 + (an - 1) div 6) < an"
| "toom_sqr_area Toom8_sqr an \<longleftrightarrow> 40 \<le> an \<and> 7 * (1 + (an - 1) div 8) + 2 \<le> an"

definition mul_ok :: "mpn_cfg \<Rightarrow> bool" where
  "mul_ok cfg \<longleftrightarrow>
     (\<forall>k a b. toom_area k (length a) (length b) \<longrightarrow>
        length (toom_mul cfg k a b) = length a + length b \<and> limbs_val (toom_mul cfg k a b) = limbs_val a * limbs_val b)
   \<and> (\<forall>k a. toom_sqr_area k (length a) \<longrightarrow>
        length (toom_square cfg k a) = 2 * length a \<and> limbs_val (toom_square cfg k a) = limbs_val a * limbs_val a)
   \<and> (\<forall>a b. b \<noteq> [] \<longrightarrow> length b \<le> length a \<longrightarrow>
        length (mpn_fft_mul cfg a b) = length a + length b \<and> limbs_val (mpn_fft_mul cfg a b) = limbs_val a * limbs_val b)
   \<and> 8 \<le> MUL_TOOM22_THRESHOLD cfg \<and> 17 \<le> MUL_TOOM33_THRESHOLD cfg \<and> 17 \<le> MUL_TOOM44_THRESHOLD cfg
   \<and> 42 \<le> MUL_TOOM6H_THRESHOLD cfg \<and> 86 \<le> MUL_TOOM8H_THRESHOLD cfg
   \<and> 40 \<le> MUL_TOOM42_TO_TOOM63_THRESHOLD cfg
   \<and> 2 \<le> SQR_TOOM2_THRESHOLD cfg \<and> 5 \<le> SQR_TOOM3_THRESHOLD cfg \<and> 10 \<le> SQR_TOOM4_THRESHOLD cfg
   \<and> 26 \<le> SQR_TOOM6_THRESHOLD cfg \<and> 65 \<le> SQR_TOOM8_THRESHOLD cfg"

lemma mul_okD:
  assumes "mul_ok cfg"
  shows "toom_area k (length a) (length b) \<Longrightarrow>
      length (toom_mul cfg k a b) = length a + length b \<and> limbs_val (toom_mul cfg k a b) = limbs_val a * limbs_val b"
    and "toom_sqr_area ks (length a) \<Longrightarrow>
      length (toom_square cfg ks a) = 2 * length a \<and> limbs_val (toom_square cfg ks a) = limbs_val a * limbs_val a"
    and "b \<noteq> [] \<Longrightarrow> length b \<le> length a \<Longrightarrow>
      length (mpn_fft_mul cfg a b) = length a + length b \<and> limbs_val (mpn_fft_mul cfg a b) = limbs_val a * limbs_val b"
  using assms unfolding mul_ok_def by blast+

lemma mul_ok_thresholds:
  assumes "mul_ok cfg"
  shows "8 \<le> MUL_TOOM22_THRESHOLD cfg" "17 \<le> MUL_TOOM33_THRESHOLD cfg" "17 \<le> MUL_TOOM44_THRESHOLD cfg"
    "42 \<le> MUL_TOOM6H_THRESHOLD cfg" "86 \<le> MUL_TOOM8H_THRESHOLD cfg" "40 \<le> MUL_TOOM42_TO_TOOM63_THRESHOLD cfg"
    "2 \<le> SQR_TOOM2_THRESHOLD cfg" "5 \<le> SQR_TOOM3_THRESHOLD cfg" "10 \<le> SQR_TOOM4_THRESHOLD cfg"
    "26 \<le> SQR_TOOM6_THRESHOLD cfg" "65 \<le> SQR_TOOM8_THRESHOLD cfg"
  using assms unfolding mul_ok_def by blast+

text \<open>Equal sizes.\<close>

lemma toom_area_equal:
  "8 \<le> n \<Longrightarrow> toom_area Toom22 n n" "17 \<le> n \<Longrightarrow> toom_area Toom33 n n" "17 \<le> n \<Longrightarrow> toom_area Toom44 n n"
  "42 \<le> n \<Longrightarrow> toom_area Toom6h n n" "86 \<le> n \<Longrightarrow> toom_area Toom8h n n"
  by (simp_all add: Let_def)

lemma toom_sqr_area_from:
  "2 \<le> n \<Longrightarrow> toom_sqr_area Toom2_sqr n" "5 \<le> n \<Longrightarrow> toom_sqr_area Toom3_sqr n" "10 \<le> n \<Longrightarrow> toom_sqr_area Toom4_sqr n"
  "26 \<le> n \<Longrightarrow> toom_sqr_area Toom6_sqr n" "65 \<le> n \<Longrightarrow> toom_sqr_area Toom8_sqr n"
  by simp_all+

text \<open>Unequal sizes: the ladders of \<open>mpn_mul\<close>.\<close>

lemma pred_div_bounds:
  fixes n k :: nat
  assumes "0 < n" and "0 < k"
  shows "k * ((n - 1) div k) + 1 \<le> n" and "n \<le> k * ((n - 1) div k) + k"
proof -
  have "n - 1 = k * ((n - 1) div k) + (n - 1) mod k" "(n - 1) mod k < k" using assms(2) by simp_all
  then show "k * ((n - 1) div k) + 1 \<le> n" "n \<le> k * ((n - 1) div k) + k" using assms(1) by linarith+
qed

lemma toom_area_42:
  assumes "8 \<le> vn" and "7 * vn \<le> 4 * un" and "un < 3 * vn"
  shows "toom_area Toom42 un vn"
proof (cases "2 * vn \<le> un")
  case True
  define q where "q = (un + 3) div 4"
  have "un \<le> 4 * q" "4 * q \<le> un + 3" using div_mult_mod_eq [of "un + 3" 4] unfolding q_def by linarith+
  then show ?thesis
    using True assms unfolding toom_area.simps Let_def if_P [OF True] q_def [symmetric] add_mult_distrib2 by (intro conjI; linarith)
next
  case False
  define q where "q = (vn + 1) div 2"
  have "vn \<le> 2 * q" "2 * q \<le> vn + 1" using div_mult_mod_eq [of "vn + 1" 2] unfolding q_def by linarith+
  then show ?thesis
    using False assms unfolding toom_area.simps Let_def if_not_P [OF False] q_def [symmetric] by (intro conjI; linarith)
qed

lemma toom_area_43:
  assumes "17 \<le> vn" and "7 * vn \<le> 6 * un" and "2 * un < 3 * vn"
  shows "toom_area Toom43 un vn"
proof (cases "4 * vn \<le> 3 * un")
  case True
  define q where "q = (un - 1) div 4"
  have "4 * q + 1 \<le> un" "un \<le> 4 * q + 4" using pred_div_bounds [of un 4] assms by (simp_all add: q_def)
  then show ?thesis using True assms unfolding toom_area.simps Let_def if_P [OF True] q_def [symmetric] add_mult_distrib2 by (intro conjI; linarith)
next
  case False
  define q where "q = (vn - 1) div 3"
  have "3 * q + 1 \<le> vn" "vn \<le> 3 * q + 3" using pred_div_bounds [of vn 3] assms by (simp_all add: q_def)
  then show ?thesis using False assms unfolding toom_area.simps Let_def if_not_P [OF False] q_def [symmetric] add_mult_distrib2 by (intro conjI; linarith)
qed

lemma toom_area_53:
  assumes "17 \<le> vn" and "3 * vn \<le> 2 * un" and "6 * un < 11 * vn"
  shows "toom_area Toom53 un vn"
proof (cases "5 * vn \<le> 3 * un")
  case True
  define q where "q = (un - 1) div 5"
  have "5 * q + 1 \<le> un" "un \<le> 5 * q + 5" using pred_div_bounds [of un 5] assms by (simp_all add: q_def)
  then show ?thesis using True assms unfolding toom_area.simps Let_def if_P [OF True] q_def [symmetric] add_mult_distrib2 by (intro conjI; linarith)
next
  case False
  define q where "q = (vn - 1) div 3"
  have "3 * q + 1 \<le> vn" "vn \<le> 3 * q + 3" using pred_div_bounds [of vn 3] assms by (simp_all add: q_def)
  then show ?thesis using False assms unfolding toom_area.simps Let_def if_not_P [OF False] q_def [symmetric] add_mult_distrib2 by (intro conjI; linarith)
qed

lemma toom_area_63:
  assumes "40 \<le> vn" and "11 * vn \<le> 6 * un" and "2 * un < 5 * vn"
  shows "toom_area Toom63 un vn"
proof (cases "2 * vn \<le> un")
  case True
  define q where "q = (un - 1) div 6"
  have "6 * q + 1 \<le> un" "un \<le> 6 * q + 6" using pred_div_bounds [of un 6] assms by (simp_all add: q_def)
  then show ?thesis using True assms unfolding toom_area.simps Let_def if_P [OF True] q_def [symmetric] add_mult_distrib2 by (intro conjI; linarith)
next
  case False
  define q where "q = (vn - 1) div 3"
  have "3 * q + 1 \<le> vn" "vn \<le> 3 * q + 3" using pred_div_bounds [of vn 3] assms by (simp_all add: q_def)
  then show ?thesis using False assms unfolding toom_area.simps Let_def if_not_P [OF False] q_def [symmetric] add_mult_distrib2 by (intro conjI; linarith)
qed

lemma toom_area_x2:
  assumes "8 \<le> vn" and "vn \<le> un" and "un < 3 * vn"
  shows "toom_area (toom_x2 un vn) un vn"
proof -
  consider "4 * un < 5 * vn" | "\<not> 4 * un < 5 * vn" "4 * un < 7 * vn" | "\<not> 4 * un < 5 * vn" "\<not> 4 * un < 7 * vn" by blast
  then show ?thesis
  proof cases
    case 3
    then show ?thesis using toom_area_42 [of vn un] assms by (simp add: toom_x2_def del: toom_area.simps)
  qed (use assms in \<open>simp_all add: toom_x2_def\<close>)
qed

lemma toom_area_42_63:
  assumes "40 \<le> t" and "17 \<le> vn" and "11 * vn \<le> 6 * un" and "2 * un < 5 * vn"
  shows "toom_area (if BELOW_THRESHOLD vn t then Toom42 else Toom63) un vn"
proof (cases "BELOW_THRESHOLD vn t")
  case True
  then show ?thesis using toom_area_42 [of vn un] assms by (simp del: toom_area.simps)
next
  case False
  then have "40 \<le> vn" using not_below [of vn t] assms(1) by linarith
  then show ?thesis using False toom_area_63 [of vn un] assms by (simp del: toom_area.simps)
qed

lemma toom_area_x3:
  assumes "40 \<le> MUL_TOOM42_TO_TOOM63_THRESHOLD cfg" and "17 \<le> vn" and "vn \<le> un" and "2 * un < 5 * vn"
  shows "toom_area (toom_x3 cfg un vn) un vn"
proof -
  have "toom_area Toom33 un vn" if "6 * un < 7 * vn" using that assms by (simp add: Let_def)
  moreover have "toom_area Toom32 un vn" if "7 * vn \<le> 6 * un" "4 * un < 7 * vn" using that assms by simp
  ultimately show ?thesis
    using toom_area_43 [of vn un] toom_area_53 [of vn un] toom_area_42 [of vn un] toom_area_42_63 [OF assms(1,2), of un] assms
    unfolding toom_x3_def by (auto simp del: toom_area.simps)
qed

section \<open>Blocks\<close>

lemma mpn_incr_u_spec:
  assumes "p \<noteq> []" and "limbs_val p + unat incr < BB ^ length p"
  shows "length (mpn_incr_u p incr) = length p" and "limbs_val (mpn_incr_u p incr) = limbs_val p + unat incr"
proof -
  obtain y ys where p: "p = y # ys" using assms(1) by (cases p) auto
  obtain ws c where w: "add_carry_loop ys = (ws, c)" by fastforce
  note a = add_carry_loop_spec [OF w]
  have x: "unat (y + incr) + BB * of_bool (y + incr < incr) = unat y + unat incr"
    using unat_add_carry [of incr y] by (simp add: add.commute)
  have "length (mpn_incr_u p incr) = length p \<and> limbs_val (mpn_incr_u p incr) = limbs_val p + unat incr"
  proof (cases "y + incr < incr")
    case True
    have e: "unat (y + incr) + BB * (limbs_val ws + BB ^ length ys * unat c) = limbs_val p + unat incr"
      using x True a by (simp add: p algebra_simps)
    have "c = 0"
    proof (rule ccontr)
      assume "c \<noteq> 0"
      then have "unat c = 1" using a by auto
      then have "BB ^ length p \<le> limbs_val p + unat incr" using e by (simp add: p algebra_simps)
      then show False using assms(2) by simp
    qed
    then show ?thesis using True w a e by (simp add: p mpn_incr_u_def Let_def)
  next
    case False
    then show ?thesis using x by (simp add: p mpn_incr_u_def Let_def)
  qed
  then show "length (mpn_incr_u p incr) = length p" "limbs_val (mpn_incr_u p incr) = limbs_val p + unat incr" by simp_all
qed

lemma add_block_spec:
  assumes "length prodp = k + vn" and "vn < length ws"
    and "limbs_val prodp + BB ^ k * limbs_val ws < BB ^ (k + length ws)"
  shows "length (add_block prodp ws vn) = k + length ws"
    and "limbs_val (add_block prodp ws vn) = limbs_val prodp + BB ^ k * limbs_val ws"
proof -
  let ?lo = "take k prodp" and ?hi = "drop k prodp" and ?l = "take vn ws" and ?h = "drop vn ws"
  obtain s cy where s: "mpn_add_n ?hi ?l = (s, cy)" by fastforce
  have len: "length ?hi = length ?l" using assms(1,2) by simp
  note a = mpn_add_n_spec [OF len s]
  have hl: "length ?hi = vn" using assms(1) by simp
  have prodp: "limbs_val prodp = limbs_val ?lo + BB ^ k * limbs_val ?hi"
    using limbs_val_app [of ?lo ?hi] assms(1) by simp
  have ws: "limbs_val ws = limbs_val ?l + BB ^ vn * limbs_val ?h"
    using limbs_val_app [of ?l ?h] assms(2) by (simp add: min_def)
  have tot: "limbs_val prodp + BB ^ k * limbs_val ws
      = limbs_val ?lo + BB ^ k * limbs_val s + BB ^ (k + vn) * (limbs_val ?h + unat cy)"
  proof -
    have "limbs_val ?hi + limbs_val ws = limbs_val s + BB ^ vn * (limbs_val ?h + unat cy)"
      using a(3) hl unfolding ws by (simp add: algebra_simps)
    then show ?thesis unfolding prodp by (simp add: power_add flip: distrib_left mult.assoc) (simp add: algebra_simps)
  qed
  have "limbs_val ?h + unat cy < BB ^ length ?h"
  proof (rule ccontr)
    assume "\<not> limbs_val ?h + unat cy < BB ^ length ?h"
    then have "BB ^ (k + vn) * BB ^ length ?h \<le> BB ^ (k + vn) * (limbs_val ?h + unat cy)" by (intro mult_le_mono2) simp
    then have "BB ^ (k + vn) * BB ^ length ?h \<le> limbs_val prodp + BB ^ k * limbs_val ws" unfolding tot by (rule trans_le_add2)
    moreover have "BB ^ (k + vn) * BB ^ length ?h = BB ^ (k + length ws)" using assms(2) by (simp flip: power_add)
    ultimately show False using assms(3) by simp
  qed
  then have i: "length (mpn_incr_u ?h cy) = length ?h" "limbs_val (mpn_incr_u ?h cy) = limbs_val ?h + unat cy"
    using mpn_incr_u_spec [of ?h cy] assms(2) by simp_all
  have blk: "add_block prodp ws vn = ?lo @ s @ mpn_incr_u ?h cy"
    using s assms(1) by (simp add: add_block_def Let_def)
  show "length (add_block prodp ws vn) = k + length ws" using blk i(1) a(1) hl assms(1,2) by simp
  show "limbs_val (add_block prodp ws vn) = limbs_val prodp + BB ^ k * limbs_val ws"
    unfolding tot blk using i(2) a(1) hl assms(1) by (simp add: limbs_val_app power_add algebra_simps)
qed

lemma mul_blocks_spec:
  assumes mul: "\<And>u. length u = sz \<Longrightarrow> length (mul u) = sz + vn \<and> limbs_val (mul u) = limbs_val u * V"
    and sz: "0 < sz" and V: "V < BB ^ vn"
    and again: "\<And>n. again n \<Longrightarrow> sz < n \<and> Q (n - sz)"
    and "length prodp = k + vn" and "limbs_val prodp = X * V" and "X < BB ^ k" and "Q (length up)" and "up \<noteq> []"
    and "mul_blocks mul sz again vn prodp up = (prodp', up')"
  shows "\<exists>k' X'. length prodp' = k' + vn \<and> limbs_val prodp' = X' * V \<and> X' < BB ^ k' \<and> k' + length up' = k + length up
    \<and> X' + BB ^ k' * limbs_val up' = X + BB ^ k * limbs_val up \<and> \<not> again (length up') \<and> Q (length up') \<and> up' \<noteq> []"
  using assms(5-10)
proof (induction "length up" arbitrary: k X prodp up rule: less_induct)
  case less
  show ?case
  proof (cases "again (length up)")
    case False
    then show ?thesis using less.prems by (subst (asm) mul_blocks.simps) auto
  next
    case True
    have n: "sz < length up" "Q (length up - sz)" using again [OF True] by simp_all
    let ?u = "take sz up" and ?r = "drop sz up"
    have m: "length (mul ?u) = sz + vn" "limbs_val (mul ?u) = limbs_val ?u * V" using mul [of ?u] n(1) by simp_all
    have up: "limbs_val up = limbs_val ?u + BB ^ sz * limbs_val ?r"
      using limbs_val_app [of ?u ?r] n(1) by (simp add: min_def)
    define X1 where "X1 = X + BB ^ k * limbs_val ?u"
    have "BB ^ k * Suc (limbs_val ?u) \<le> BB ^ k * BB ^ sz"
      using limbs_val_lt [of ?u] n(1) by (intro mult_le_mono2) (simp add: min_def Suc_leI)
    then have X1: "X1 < BB ^ (k + sz)" using less.prems(3) by (simp add: X1_def power_add)
    have v: "limbs_val prodp + BB ^ k * limbs_val (mul ?u) = X1 * V"
      using less.prems(2) m(2) by (simp add: X1_def algebra_simps)
    have "X1 * V < BB ^ (k + sz) * BB ^ vn" using X1 V by (intro mult_strict_mono) simp_all
    then have fits: "limbs_val prodp + BB ^ k * limbs_val (mul ?u) < BB ^ (k + length (mul ?u))"
      unfolding v m(1) by (simp add: power_add mult.assoc)
    have vn: "vn < length (mul ?u)" using m(1) sz by simp
    note b = add_block_spec [OF less.prems(1) vn fits, unfolded v m(1)]
    have run: "mul_blocks mul sz again vn (add_block prodp (mul ?u) vn) ?r = (prodp', up')"
      using less.prems(6) True sz less.prems(5) by (subst (asm) mul_blocks.simps) simp
    have "\<exists>k' X'. length prodp' = k' + vn \<and> limbs_val prodp' = X' * V \<and> X' < BB ^ k' \<and> k' + length up' = (k + sz) + length ?r
      \<and> X' + BB ^ k' * limbs_val up' = X1 + BB ^ (k + sz) * limbs_val ?r \<and> \<not> again (length up') \<and> Q (length up') \<and> up' \<noteq> []"
      using less.hyps [OF _ _ b(2) X1 _ _ run] b(1) n sz by simp
    moreover have "X1 + BB ^ (k + sz) * limbs_val ?r = X + BB ^ k * limbs_val up"
      unfolding up X1_def by (simp add: power_add algebra_simps)
    ultimately show ?thesis using n(1) by simp
  qed
qed

text \<open>The blocks and the last product together.\<close>

lemma mul_blocks_finish:
  assumes mul: "\<And>u. length u = sz \<Longrightarrow> length (mul u) = sz + length vp \<and> limbs_val (mul u) = limbs_val u * limbs_val vp"
    and sz: "0 < sz" "sz < length up"
    and again: "\<And>n. again n \<Longrightarrow> sz < n \<and> Q (n - sz)" and "Q (length up - sz)"
    and run: "mul_blocks mul sz again (length vp) (mul (take sz up)) (drop sz up) = (prodp, up')"
    and last: "\<And>ws. \<not> again (length up') \<Longrightarrow> Q (length up') \<Longrightarrow> up' \<noteq> [] \<Longrightarrow> length up' + sz \<le> length up \<Longrightarrow>
      length (final up') = length up' + length vp \<and> limbs_val (final up') = limbs_val up' * limbs_val vp"
  shows "length (add_block prodp (final up') (length vp)) = length up + length vp
    \<and> limbs_val (add_block prodp (final up') (length vp)) = limbs_val up * limbs_val vp"
proof -
  let ?u = "take sz up" and ?r = "drop sz up" and ?V = "limbs_val vp" and ?vn = "length vp"
  have u: "length ?u = sz" using sz by simp
  have up: "limbs_val up = limbs_val ?u + BB ^ sz * limbs_val ?r"
    using limbs_val_app [of ?u ?r] sz by (simp add: min_def)
  have "limbs_val ?u < BB ^ sz" using limbs_val_lt [of ?u] u by simp
  then obtain k X where k: "length prodp = k + ?vn" "limbs_val prodp = X * ?V" "X < BB ^ k" "k + length up' = length up"
      "X + BB ^ k * limbs_val up' = limbs_val up" "\<not> again (length up')" "Q (length up')" "up' \<noteq> []"
    using mul_blocks_spec [OF mul sz(1) limbs_val_lt [of vp] again _ _ _ _ _ run, of sz "limbs_val ?u"] mul [OF u] assms(5) sz(2)
    unfolding up by auto
  have "length up' + sz \<le> length up" using mul_blocks_rest [OF run [symmetric]] sz(2) by simp
  with last k(6-8) have f: "length (final up') = length up' + ?vn" "limbs_val (final up') = limbs_val up' * ?V" by blast+
  have v: "limbs_val prodp + BB ^ k * limbs_val (final up') = limbs_val up * ?V"
    using k(2) f(2) unfolding k(5) [symmetric] by (simp add: algebra_simps)
  have "limbs_val up * ?V < BB ^ (length up + ?vn)"
    using limbs_val_lt [of up] limbs_val_lt [of vp] by (simp add: power_add mult_strict_mono)
  then have fits: "limbs_val prodp + BB ^ k * limbs_val (final up') < BB ^ (k + length (final up'))"
    unfolding v f(1) using k(4) by (simp add: add.assoc [symmetric])
  have "?vn < length (final up')" using f(1) k(8) by simp
  from add_block_spec [OF k(1) this fits] show ?thesis unfolding v f(1) using k(4) by simp
qed

section \<open>Products and squares of any size\<close>

lemma mul_basecase_square:
  assumes "length a = length b" and "a \<noteq> []"
  shows "length (mpn_mul_basecase a b) = 2 * length a" and "limbs_val (mpn_mul_basecase a b) = limbs_val a * limbs_val b"
proof -
  have "b \<noteq> []" using assms by auto
  from mpn_mul_basecase_spec [OF this, of a] assms(1)
  show "length (mpn_mul_basecase a b) = 2 * length a" "limbs_val (mpn_mul_basecase a b) = limbs_val a * limbs_val b"
    by simp_all
qed

lemma mpn_mul_n_spec:
  assumes ok: "mul_ok cfg" and eq: "length a = length b" and ne: "a \<noteq> []"
  shows "length (mpn_mul_n cfg a b) = 2 * length a" and "limbs_val (mpn_mul_n cfg a b) = limbs_val a * limbs_val b"
proof -
  note t = mul_ok_thresholds [OF ok]
  have area: "length (toom_mul cfg k a b) = 2 * length a \<and> limbs_val (toom_mul cfg k a b) = limbs_val a * limbs_val b"
    if "toom_area k (length a) (length a)" for k
    using mul_okD(1) [OF ok, of k a b] that eq by simp
  have b: "b \<noteq> []" using eq ne by auto
  have "length (mpn_mul_n cfg a b) = 2 * length a \<and> limbs_val (mpn_mul_n cfg a b) = limbs_val a * limbs_val b"
    unfolding mpn_mul_n_def Let_def
    using area [OF toom_area_equal(1) [OF not_below_ge [OF _ t(1)]]] area [OF toom_area_equal(2) [OF not_below_ge [OF _ t(2)]]]
      area [OF toom_area_equal(3) [OF not_below_ge [OF _ t(3)]]] area [OF toom_area_equal(4) [OF not_below_ge [OF _ t(4)]]]
      area [OF toom_area_equal(5) [OF not_below_ge [OF _ t(5)]]] mul_basecase_square [OF eq ne] mul_okD(3) [OF ok b, of a] eq
    by simp
  then show "length (mpn_mul_n cfg a b) = 2 * length a" "limbs_val (mpn_mul_n cfg a b) = limbs_val a * limbs_val b" by simp_all
qed

lemma mpn_sqr_spec:
  assumes ok: "mul_ok cfg" and ne: "a \<noteq> []"
  shows "length (mpn_sqr cfg a) = 2 * length a" and "limbs_val (mpn_sqr cfg a) = limbs_val a * limbs_val a"
proof -
  note t = mul_ok_thresholds [OF ok]
  note area = mul_okD(2) [OF ok, of _ a]
  have "length (mpn_sqr cfg a) = 2 * length a \<and> limbs_val (mpn_sqr cfg a) = limbs_val a * limbs_val a"
    unfolding mpn_sqr_def Let_def
    using area [OF toom_sqr_area_from(1) [OF not_below_ge [OF _ t(7)]]] area [OF toom_sqr_area_from(2) [OF not_below_ge [OF _ t(8)]]]
      area [OF toom_sqr_area_from(3) [OF not_below_ge [OF _ t(9)]]] area [OF toom_sqr_area_from(4) [OF not_below_ge [OF _ t(10)]]]
      area [OF toom_sqr_area_from(5) [OF not_below_ge [OF _ t(11)]]] mul_basecase_square [OF refl ne] mpn_sqr_basecase_spec [OF ne]
      mul_okD(3) [OF ok ne, of a]
    by simp
  then show "length (mpn_sqr cfg a) = 2 * length a" "limbs_val (mpn_sqr cfg a) = limbs_val a * limbs_val a" by simp_all
qed

abbreviation is_product :: "limb list \<Rightarrow> limb list \<Rightarrow> limb list \<Rightarrow> bool" where
  "is_product r a b \<equiv> length r = length a + length b \<and> limbs_val r = limbs_val a * limbs_val b"

lemma is_product_commute: "is_product r a b \<Longrightarrow> is_product r b a"
  by (simp add: mult.commute add.commute)

lemma basecase_product: "b \<noteq> [] \<Longrightarrow> is_product (mpn_mul_basecase a b) a b"
  using mpn_mul_basecase_spec [of b a] by simp

lemma mpn_mul_spec_aux:
  assumes ok: "mul_ok cfg" and "vp \<noteq> []" and "length vp \<le> length up"
  shows "is_product (mpn_mul cfg up vp) up vp"
  using assms(2,3)
proof (induction "length up" arbitrary: up vp rule: less_induct)
  case less
  note t = mul_ok_thresholds [OF ok] and toom = mul_okD(1) [OF ok] and fft = mul_okD(3) [OF ok]
  let ?un = "length up" and ?vn = "length vp"
  have base: "is_product (mpn_mul_basecase u vp) u vp" for u using basecase_product [OF less.prems(1)] .
  have vn0: "0 < ?vn" using less.prems(1) by simp
  have rec: "is_product (if length u < ?vn then mpn_mul cfg vp u else mpn_mul cfg u vp) u vp"
    if "u \<noteq> []" "length u < ?un" "?vn < ?un" for u
  proof (cases "length u < ?vn")
    case True
    have "is_product (mpn_mul cfg vp u) vp u" using less.hyps [of vp u] that True by simp
    then have "is_product (mpn_mul cfg vp u) u vp" by (rule is_product_commute)
    then show ?thesis using True by simp
  next
    case False
    then show ?thesis using less.hyps [of u vp] that less.prems by simp
  qed
  note [simp del] = toom_area.simps
  show ?case
  proof (cases "BELOW_THRESHOLD ?un (MUL_TOOM22_THRESHOLD cfg) \<or> ?un = ?vn")
    case True
    note U = mpn_mul.simps [of cfg up vp, unfolded Let_def]
    have ne: "up \<noteq> []" using less.prems by auto
    show ?thesis
    proof (cases "BELOW_THRESHOLD ?un (MUL_TOOM22_THRESHOLD cfg)")
      case b: True
      show ?thesis unfolding U if_P [OF b] by (rule base)
    next
      case b: False
      then have eq: "?un = ?vn" using True by simp
      show ?thesis unfolding U if_not_P [OF b] if_P [OF eq] using mpn_mul_n_spec [OF ok eq ne] eq by simp
    qed
  next
    case False
    then have un: "\<not> BELOW_THRESHOLD ?un (MUL_TOOM22_THRESHOLD cfg)" "?un \<noteq> ?vn" "?vn < ?un" using less.prems(2) by auto
    note U = mpn_mul.simps [of cfg up vp, unfolded Let_def if_not_P [OF un(1)] if_not_P [OF un(2)]]
    show ?thesis
    proof (cases "?vn < MUL_TOOM22_THRESHOLD cfg")
      case v22: True
      note U1 = U [unfolded if_P [OF v22]]
      show ?thesis
      proof (cases "?un \<le> MUL_BASECASE_MAX_UN \<or> ?vn = 1")
        case True
        show ?thesis unfolding U1 if_P [OF True] by (rule base)
      next
        case False
        obtain prodp' up' where run: "mul_blocks (\<lambda>u. mpn_mul_basecase u vp) MUL_BASECASE_MAX_UN (\<lambda>un. un > MUL_BASECASE_MAX_UN) ?vn
            (mpn_mul_basecase (take MUL_BASECASE_MAX_UN up) vp) (drop MUL_BASECASE_MAX_UN up) = (prodp', up')" by fastforce
        have f: "is_product (if length u > ?vn then mpn_mul_basecase u vp else mpn_mul_basecase vp u) u vp" if "u \<noteq> []" for u
          using base [of u] is_product_commute [OF basecase_product [OF that]] by simp
        show ?thesis
          unfolding U1 if_not_P [OF False] run prod.case
          by (rule mul_blocks_finish [where Q = "\<lambda>n. True", OF _ _ _ _ _ run])
            (use False base f in \<open>auto simp: MUL_BASECASE_MAX_UN_def\<close>)
      qed
    next
      case v22: False
      then have vn8: "8 \<le> ?vn" using t(1) by linarith
      note U2 = U [unfolded if_not_P [OF v22]]
      show ?thesis
      proof (cases "BELOW_THRESHOLD ?vn (MUL_TOOM33_THRESHOLD cfg)")
        case v33: True
        note U3 = U2 [unfolded if_P [OF v33]]
        show ?thesis
        proof (cases "3 * ?vn \<le> ?un")
          case True
          obtain prodp' up' where run: "mul_blocks (\<lambda>u. toom_mul cfg Toom42 u vp) (2 * ?vn) (\<lambda>un. un \<ge> 3 * ?vn) ?vn
              (toom_mul cfg Toom42 (take (2 * ?vn) up) vp) (drop (2 * ?vn) up) = (prodp', up')" by fastforce
          have blk: "is_product (toom_mul cfg Toom42 u vp) u vp" if "length u = 2 * ?vn" for u
            using toom [of Toom42 u vp] toom_area_42 [of ?vn "2 * ?vn"] that vn8 vn0 by simp
          show ?thesis
            unfolding U3 if_P [OF True] run prod.case
            by (rule mul_blocks_finish [where Q = "\<lambda>n. ?vn \<le> n", OF _ _ _ _ _ run])
              (use True vn8 toom blk toom_area_x2 [OF vn8] in auto)
        next
          case False
          then show ?thesis
            unfolding U3 if_not_P [OF False] using toom [OF toom_area_x2 [OF vn8]] less.prems(2) by simp
        qed
      next
        case v33: False
        then have vn17: "17 \<le> ?vn" using not_below [of ?vn "MUL_TOOM33_THRESHOLD cfg"] t(2) by linarith
        note U3 = U2 [unfolded if_not_P [OF v33]]
        show ?thesis
        proof (cases "BELOW_THRESHOLD ((?un + ?vn) div 2) (MUL_FFT_THRESHOLD cfg) \<or> BELOW_THRESHOLD (3 * ?vn) (MUL_FFT_THRESHOLD cfg)")
          case fft: True
          note U4 = U3 [unfolded if_P [OF fft]]
          show ?thesis
          proof (cases "BELOW_THRESHOLD ?vn (MUL_TOOM44_THRESHOLD cfg) \<or> \<not> TOOM44_OK ?un ?vn")
            case v44: True
            note U5 = U4 [unfolded if_P [OF v44]]
            show ?thesis
            proof (cases "2 * ?un \<ge> 5 * ?vn \<and> 0 < ?vn")
              case True
              define k where "k = (if BELOW_THRESHOLD ?vn (MUL_TOOM42_TO_TOOM63_THRESHOLD cfg) then Toom42 else Toom63)"
              have area: "toom_area k (2 * ?vn) ?vn"
                unfolding k_def by (rule toom_area_42_63 [OF t(6) vn17]) (use vn0 in simp_all)
              obtain prodp' up' where run: "mul_blocks (\<lambda>u. toom_mul cfg k u vp) (2 * ?vn) (\<lambda>un. 2 * un \<ge> 5 * ?vn) ?vn
                  (toom_mul cfg k (take (2 * ?vn) up) vp) (drop (2 * ?vn) up) = (prodp', up')" by fastforce
              have blk: "is_product (toom_mul cfg k u vp) u vp" if "length u = 2 * ?vn" for u
                using toom [of k u vp] area that by simp
              show ?thesis
                unfolding U5 if_P [OF True] k_def [symmetric] run prod.case
                by (rule mul_blocks_finish [where Q = "\<lambda>n. True", OF _ _ _ _ _ run])
                  (use True vn8 blk un(3) rec in auto)
            next
              case False
              then have "2 * ?un < 5 * ?vn" using vn0 by simp
              then show ?thesis
                unfolding U5 if_not_P [OF False] using toom [OF toom_area_x3 [OF t(6) vn17 less.prems(2)]] by simp
            qed
          next
            case v44: False
            have "is_product (toom_mul cfg k up vp) up vp"
              if "k = (if BELOW_THRESHOLD ?vn (MUL_TOOM6H_THRESHOLD cfg) then Toom44
                  else if BELOW_THRESHOLD ?vn (MUL_TOOM8H_THRESHOLD cfg) then Toom6h else Toom8h)" for k
            proof -
              have ok44: "12 + 3 * ?un < 4 * ?vn" using v44 by (simp add: TOOM44_OK_def)
              have "toom_area Toom44 ?un ?vn"
                using ok44 less.prems(2) by (simp add: Let_def toom_area.simps)
              moreover have "toom_area Toom6h ?un ?vn" if "42 \<le> ?vn" using that ok44 less.prems(2) by (simp add: toom_area.simps)
              moreover have "toom_area Toom8h ?un ?vn" if "86 \<le> ?vn" using that ok44 less.prems(2) by (simp add: toom_area.simps)
              ultimately show ?thesis
                using that toom [of k up vp] not_below_ge [OF _ t(4), of ?vn] not_below_ge [OF _ t(5), of ?vn] by (auto split: if_splits)
            qed
            then show ?thesis unfolding U4 if_not_P [OF v44] by blast
          qed
        next
          case nofft: False
          note U4 = U3 [unfolded if_not_P [OF nofft]]
          show ?thesis
          proof (cases "8 * ?vn \<le> ?un \<and> 0 < ?vn")
            case True
            obtain prodp' up' where run: "mul_blocks (\<lambda>u. mpn_fft_mul cfg u vp) (3 * ?vn) (\<lambda>un. 2 * un \<ge> 7 * ?vn) ?vn
                (mpn_fft_mul cfg (take (3 * ?vn) up) vp) (drop (3 * ?vn) up) = (prodp', up')" by fastforce
            show ?thesis
              unfolding U4 if_P [OF True] run prod.case
              by (rule mul_blocks_finish [where Q = "\<lambda>n. True", OF _ _ _ _ _ run])
                (use True vn8 fft [OF less.prems(1)] un(3) rec in auto)
          next
            case False
            then show ?thesis unfolding U4 if_not_P [OF False] using fft [OF less.prems] by blast
          qed
        qed
      qed
    qed
  qed
qed

lemma mpn_mul_spec:
  assumes "mul_ok cfg" and "b \<noteq> []" and "length b \<le> length a"
  shows "length (mpn_mul cfg a b) = length a + length b" and "limbs_val (mpn_mul cfg a b) = limbs_val a * limbs_val b"
  using mpn_mul_spec_aux [OF assms] by simp_all

end
