(* ===== verification/Gmp_Mullo.thy ===== *)
theory Gmp_Mullo
  imports Gmp_Mul
begin

unbundle bit_operations_syntax

text \<open>
  Products and squares modulo a power of the limb base, the low halves only: \<open>mullo_basecase.c\<close>,
  \<open>mullo_n.c\<close>, \<open>sqrlo_basecase.c\<close> and \<open>sqrlo.c\<close> of \<open>mpn/generic/\<close>.
\<close>

section \<open>Definitions\<close>

text \<open>
  The schoolbook low product keeps the top limb of the result in \<open>h\<close>, to which the highest product
  of each row and the carry of the row are added; the rows get shorter by a limb each.
\<close>

fun mullo_loop :: "limb \<Rightarrow> limb list \<Rightarrow> limb list \<Rightarrow> limb list \<Rightarrow> limb list" where
  "mullo_loop h rp up [] = [h]"
| "mullo_loop h rp up (v0 # vp) =
     (let i = length rp; (rs, cy) = mpn_addmul_1 rp (take i up) v0; h = h + (up ! i * v0 + cy)
      in hd rs # mullo_loop h (tl rs) up vp)"

definition mpn_mullo_basecase :: "limb list \<Rightarrow> limb list \<Rightarrow> limb list" where
  "mpn_mullo_basecase up vp =
     (let n = length up; h = up ! 0 * vp ! (n - 1)
      in if n \<noteq> 1
         then let v0 = hd vp; (rs, cy) = mpn_mul_1 (take (n - 1) up) v0; h = h + (up ! (n - 1) * v0 + cy)
              in hd rs # mullo_loop h (tl rs) up (take (n - 2) (tl vp))
         else [h])"

text \<open>
  The products off the diagonal: in turn \<open>i\<close> the argument is the operand from limb \<open>i\<close> to limb
  \<open>n - i\<close>, whose first and last limb meet in the top limb of the result.
\<close>

fun sqrlo_offdiag_loop :: "limb \<Rightarrow> limb list \<Rightarrow> limb list \<Rightarrow> limb list" where
  "sqrlo_offdiag_loop cy tp us =
     (if length us > 2
      then let (ts, c) = mpn_addmul_1 tp (butlast (tl us)) (hd us); cy = cy + (hd us * last us + c)
           in take 2 ts @ sqrlo_offdiag_loop cy (drop 2 ts) (butlast (tl us))
      else [cy + (if length us = 2 then hd us * last us else 0)])"

declare sqrlo_offdiag_loop.simps [simp del]

definition MPN_SQRLO_DIAGONAL :: "limb list \<Rightarrow> limb list" where
  "MPN_SQRLO_DIAGONAL up =
     (let n = length up; nhalf = n div 2
      in MPN_SQR_DIAGONAL (take nhalf up) @ (if n mod 2 \<noteq> 0 then [up ! nhalf * up ! nhalf] else []))"

definition MPN_SQRLO_DIAG_ADDLSH1 :: "limb list \<Rightarrow> limb list \<Rightarrow> limb list" where
  "MPN_SQRLO_DIAG_ADDLSH1 tp up =
     (let rp = MPN_SQRLO_DIAGONAL up; tp = fst (mpn_lshift tp 1)
      in hd rp # fst (mpn_add_n (tl rp) tp))"

definition MAYBE_special_cases :: "mpn_cfg \<Rightarrow> bool" where
  "MAYBE_special_cases cfg \<longleftrightarrow> SQRLO_BASECASE_THRESHOLD cfg \<le> 2 \<and> SQRLO_DC_THRESHOLD cfg \<noteq> 0"

definition mpn_sqrlo_basecase :: "mpn_cfg \<Rightarrow> limb list \<Rightarrow> limb list" where
  "mpn_sqrlo_basecase cfg up =
     (let n = length up; ul = up ! 0
      in if MAYBE_special_cases cfg \<and> n \<le> 2
         then if n = 1 then [ul * ul]
              else let (hi, lo) = umul_ppmm ul ul; ul1 = up ! 1 in [lo, hi + ul * ul1 * 2]
         else let (ts, c) = mpn_mul_1 (butlast (tl up)) ul; cy = ul * last up + c;
                tp = take 2 ts @ sqrlo_offdiag_loop cy (drop 2 ts) (butlast (tl up))
              in MPN_SQRLO_DIAG_ADDLSH1 tp up)"

text \<open>Where to cut the operands of the recursive methods; the constants depend on how long products are made.\<close>

definition split_size :: "nat \<Rightarrow> nat \<Rightarrow> nat \<Rightarrow> nat \<Rightarrow> nat \<Rightarrow> nat \<Rightarrow> nat" where
  "split_size lo t2 t3 t4 t8 n =
     (if lo < t2 * 36 div (36 - 11) \<and> BELOW_THRESHOLD n (t2 * 36 div (36 - 11)) then n div 2
      else if lo < t3 * 36 div (36 - 11) \<and> BELOW_THRESHOLD n (t3 * 36 div (36 - 11)) then n * 11 div 36
      else if BELOW_THRESHOLD n (t4 * 40 div (40 - 9)) then n * 9 div 40
      else if BELOW_THRESHOLD n (t8 * 10 div 9) then n * 7 div 39
      else n div 10)"

definition mullo_split :: "mpn_cfg \<Rightarrow> nat \<Rightarrow> nat" where
  "mullo_split cfg = split_size (if MULLO_DC_THRESHOLD cfg = 0 then MULLO_BASECASE_THRESHOLD cfg else MULLO_DC_THRESHOLD cfg)
     (MUL_TOOM22_THRESHOLD cfg) (MUL_TOOM33_THRESHOLD cfg) (MUL_TOOM44_THRESHOLD cfg) (MUL_TOOM8H_THRESHOLD cfg)"

definition sqrlo_split :: "mpn_cfg \<Rightarrow> nat \<Rightarrow> nat" where
  "sqrlo_split cfg = split_size (if SQRLO_DC_THRESHOLD cfg = 0 then SQRLO_BASECASE_THRESHOLD cfg else SQRLO_DC_THRESHOLD cfg)
     (SQR_TOOM2_THRESHOLD cfg) (SQR_TOOM3_THRESHOLD cfg) (SQR_TOOM4_THRESHOLD cfg) (SQR_TOOM8_THRESHOLD cfg)"

text \<open>
  Below two limbs the routine is not defined (its first assertion); the parts are shorter than the
  whole, which the test \<open>length x < n\<close> makes visible to the recursion.
\<close>

function mpn_dc_mullo_n :: "mpn_cfg \<Rightarrow> limb list \<Rightarrow> limb list \<Rightarrow> limb list" where
  "mpn_dc_mullo_n cfg xp yp =
     (let n = length xp; n1 = mullo_split cfg n; n2 = n - n1
      in if n < 2 then []
         else let tp = mpn_mul_n cfg (take n2 xp) (take n2 yp);
             part = (\<lambda>x y. if BELOW_THRESHOLD n1 (MULLO_BASECASE_THRESHOLD cfg) then mpn_mul_basecase x y
               else if BELOW_THRESHOLD n1 (MULLO_DC_THRESHOLD cfg) then mpn_mullo_basecase x y
               else if length x < n then mpn_dc_mullo_n cfg x y else []);
             hi = fst (mpn_add_n (take n1 (drop n2 tp)) (take n1 (part (drop n2 xp) (take n1 yp))));
             hi = fst (mpn_add_n hi (take n1 (part (take n1 xp) (drop n2 yp))))
           in take n2 tp @ hi)"
  by pat_completeness auto
termination
  by (relation "measure (\<lambda>(cfg, xp, yp). length xp)") auto

declare mpn_dc_mullo_n.simps [simp del]

definition mpn_mullo_n :: "mpn_cfg \<Rightarrow> limb list \<Rightarrow> limb list \<Rightarrow> limb list" where
  "mpn_mullo_n cfg xp yp =
     (let n = length xp
      in if BELOW_THRESHOLD n (MULLO_BASECASE_THRESHOLD cfg) then take n (mpn_mul_basecase xp yp)
         else if BELOW_THRESHOLD n (MULLO_DC_THRESHOLD cfg) then mpn_mullo_basecase xp yp
         else if BELOW_THRESHOLD n (MULLO_MUL_N_THRESHOLD cfg) then mpn_dc_mullo_n cfg xp yp
         else take n (if MULLO_MUL_N_THRESHOLD cfg > MUL_FFT_THRESHOLD cfg then mpn_fft_mul cfg xp yp else mpn_mul_n cfg xp yp))"

definition mpn_dc_sqrlo :: "mpn_cfg \<Rightarrow> limb list \<Rightarrow> limb list" where
  "mpn_dc_sqrlo cfg xp =
     (let n = length xp; n1 = sqrlo_split cfg n; n2 = n - n1;
        tp = mpn_sqr cfg (take n2 xp);
        x1 = drop n2 xp; x0 = take n1 xp;
        p = (if BELOW_THRESHOLD n1 (MULLO_BASECASE_THRESHOLD cfg) then mpn_mul_basecase x1 x0
          else if BELOW_THRESHOLD n1 (MULLO_DC_THRESHOLD cfg) then mpn_mullo_basecase x1 x0
          else mpn_mullo_n cfg x1 x0);
        hi = fst (mpn_lshift (take n1 p) 1)
      in take n2 tp @ fst (mpn_add_n hi (take n1 (drop n2 tp))))"

text \<open>Without native assembly routines the low product is used for the shortest squares.\<close>

definition mpn_sqrlo :: "mpn_cfg \<Rightarrow> limb list \<Rightarrow> limb list" where
  "mpn_sqrlo cfg xp =
     (let n = length xp
      in if BELOW_THRESHOLD n (SQRLO_BASECASE_THRESHOLD cfg) then mpn_mullo_basecase xp xp
         else if BELOW_THRESHOLD n (SQRLO_DC_THRESHOLD cfg) then mpn_sqrlo_basecase cfg xp
         else if BELOW_THRESHOLD n (SQRLO_SQR_THRESHOLD cfg) then mpn_dc_sqrlo cfg xp
         else take n (if SQRLO_SQR_THRESHOLD cfg > SQR_FFT_THRESHOLD cfg then mpn_fft_mul cfg xp xp else mpn_sqr cfg xp))"

section \<open>The schoolbook low product\<close>

lemma cong_hd:
  fixes B :: nat
  assumes "a mod B ^ n = b mod B ^ n"
  shows "(x + B * a) mod B ^ Suc n = (x + B * b) mod B ^ Suc n"
proof -
  have "B * a mod B ^ Suc n = B * b mod B ^ Suc n" unfolding power_Suc mult_mod_right [symmetric] assms ..
  then show ?thesis by (rule mod_add_cong [OF refl])
qed

lemma mod_limb_power:
  assumes "unat (h :: limb) = x mod BB"
  shows "(a + BB ^ i * unat h) mod BB ^ Suc i = (a + BB ^ i * x) mod BB ^ Suc i"
  unfolding assms mult_mod_right power_Suc2 by (rule mod_add_right_eq)

lemma limbs_val_take_Suc: "i < length up \<Longrightarrow> limbs_val (take (Suc i) up) = limbs_val (take i up) + BB ^ i * unat (up ! i)"
  by (simp add: take_Suc_conv_app_nth limbs_val_app)

lemma limbs_val_take_mod: "limbs_val (take i up) mod BB ^ i = limbs_val up mod BB ^ i"
proof (cases "i \<le> length up")
  case True
  then have "length (take i up) = i" by simp
  then have "limbs_val up = limbs_val (take i up) + BB ^ i * limbs_val (drop i up)"
    using limbs_val_app [of "take i up" "drop i up"] by (simp only: append_take_drop_id)
  then show ?thesis by (simp only: mod_mult_self2)
qed simp

lemma mullo_loop_spec:
  assumes "length rp = length vp" and "length vp < length up"
  shows "length (mullo_loop h rp up vp) = Suc (length vp)
    \<and> limbs_val (mullo_loop h rp up vp) mod BB ^ Suc (length vp)
      = (limbs_val rp + BB ^ length vp * unat h + limbs_val up * limbs_val vp) mod BB ^ Suc (length vp)"
  using assms
proof (induction vp arbitrary: h rp)
  case Nil
  then show ?case by simp
next
  case (Cons v vp)
  let ?i = "length rp"
  obtain rs cy where r: "mpn_addmul_1 rp (take ?i up) v = (rs, cy)" by fastforce
  have li: "length (take ?i up) = ?i" using Cons.prems by simp
  have a: "length rs = ?i" "limbs_val rs + BB ^ ?i * unat cy = limbs_val rp + limbs_val (take ?i up) * unat v"
    using mpn_addmul_1_spec [OF _ r] li by simp_all
  define h' where "h' = h + (up ! ?i * v + cy)"
  obtain y ys where rs: "rs = y # ys" using a(1) Cons.prems(1) by (cases rs) auto
  have k: "?i = Suc (length vp)" "length ys = length vp" using Cons.prems(1) a(1) rs by simp_all
  have IH: "length (mullo_loop h' ys up vp) = Suc (length vp)"
    "limbs_val (mullo_loop h' ys up vp) mod BB ^ ?i = (limbs_val ys + BB ^ length vp * unat h' + limbs_val up * limbs_val vp) mod BB ^ ?i"
    using Cons.IH [of ys h'] Cons.prems k by simp_all
  have run: "mullo_loop h rp up (v # vp) = y # mullo_loop h' ys up vp" using r rs by (simp add: Let_def h'_def)
  have "unat h' = (unat h + (unat (up ! ?i) * unat v + unat cy)) mod BB"
    by (simp add: h'_def unat_plus_limb unat_times_limb mod_add_right_eq mod_add_left_eq)
  note h' = mod_limb_power [OF this, of _ ?i]
  have "limbs_val (y # mullo_loop h' ys up vp) mod BB ^ Suc ?i
      = (unat y + BB * (limbs_val ys + BB ^ length vp * unat h' + limbs_val up * limbs_val vp)) mod BB ^ Suc ?i"
    using cong_hd [OF IH(2), of "unat y"] by simp
  also have "unat y + BB * (limbs_val ys + BB ^ length vp * unat h' + limbs_val up * limbs_val vp)
      = (limbs_val rs + limbs_val up * (BB * limbs_val vp)) + BB ^ ?i * unat h'"
    unfolding rs k(1) by (simp add: algebra_simps)
  also have "\<dots> mod BB ^ Suc ?i = (limbs_val rs + limbs_val up * (BB * limbs_val vp)
      + BB ^ ?i * (unat h + (unat (up ! ?i) * unat v + unat cy))) mod BB ^ Suc ?i" by (rule h')
  also have "limbs_val rs + limbs_val up * (BB * limbs_val vp) + BB ^ ?i * (unat h + (unat (up ! ?i) * unat v + unat cy))
      = (limbs_val rp + BB ^ ?i * unat h + limbs_val up * (BB * limbs_val vp)) + limbs_val (take (Suc ?i) up) * unat v"
    using a(2) limbs_val_take_Suc [of ?i up] Cons.prems by (simp add: algebra_simps)
  also have "\<dots> mod BB ^ Suc ?i
      = ((limbs_val rp + BB ^ ?i * unat h + limbs_val up * (BB * limbs_val vp)) + limbs_val up * unat v) mod BB ^ Suc ?i"
    by (intro mod_add_cong refl mod_mult_cong limbs_val_take_mod)
  also have "(limbs_val rp + BB ^ ?i * unat h + limbs_val up * (BB * limbs_val vp)) + limbs_val up * unat v
      = limbs_val rp + BB ^ ?i * unat h + limbs_val up * limbs_val (v # vp)" by (simp add: algebra_simps)
  finally show ?case using IH(1) Cons.prems(1) unfolding run by simp
qed

lemma value_mod: "length r = n \<Longrightarrow> limbs_val r mod BB ^ n = x mod BB ^ n \<Longrightarrow> limbs_val r = x mod BB ^ n"
  using limbs_val_lt [of r] by simp

lemma mpn_mullo_basecase_spec:
  assumes eq: "length up = length vp" and ne: "up \<noteq> []"
  shows "length (mpn_mullo_basecase up vp) = length up"
    and "limbs_val (mpn_mullo_basecase up vp) = limbs_val up * limbs_val vp mod BB ^ length up"
proof -
  let ?n = "length up"
  have "length (mpn_mullo_basecase up vp) = ?n
    \<and> limbs_val (mpn_mullo_basecase up vp) mod BB ^ ?n = limbs_val up * limbs_val vp mod BB ^ ?n"
  proof (cases "?n = 1")
    case True
    then obtain u v where "up = [u]" "vp = [v]" using eq by (cases up; cases vp) auto
    then show ?thesis by (simp add: mpn_mullo_basecase_def Let_def unat_times_limb)
  next
    case False
    then obtain k where n: "?n = Suc (Suc k)" using ne by (metis One_nat_def length_0_conv not0_implies_Suc)
    obtain v ws where vp: "vp = v # ws" "length ws = Suc k" using eq n by (cases vp) auto
    then obtain vs w where ws: "ws = vs @ [w]" "length vs = k" by (cases ws rule: rev_cases) auto
    let ?u = "take (Suc k) up"
    obtain rs cy where r: "mpn_mul_1 ?u v = (rs, cy)" by fastforce
    have a: "length rs = Suc k" "limbs_val rs + BB ^ Suc k * unat cy = limbs_val ?u * unat v"
      using mpn_mul_1_spec [OF r] n by simp_all
    obtain y ys where rs: "rs = y # ys" "length ys = k" using a(1) by (cases rs) auto
    define h where "h = up ! 0 * w + (up ! Suc k * v + cy)"
    have run: "mpn_mullo_basecase up vp = y # mullo_loop h ys up vs"
      using r n vp(1) ws rs(1) by (simp add: mpn_mullo_basecase_def Let_def h_def nth_append)
    have L: "length (mullo_loop h ys up vs) = Suc k"
      "limbs_val (mullo_loop h ys up vs) mod BB ^ Suc k = (limbs_val ys + BB ^ k * unat h + limbs_val up * limbs_val vs) mod BB ^ Suc k"
      using mullo_loop_spec [of ys vs up h] rs(2) ws(2) n by simp_all
    have "unat h = (unat (up ! 0) * unat w + (unat (up ! Suc k) * unat v + unat cy)) mod BB"
      by (simp add: h_def unat_plus_limb unat_times_limb mod_add_right_eq mod_add_left_eq)
    note h = mod_limb_power [OF this, of _ "Suc k"]
    have low: "limbs_val up mod BB = unat (up ! 0) mod BB" using n by (cases up) simp_all
    have "BB ^ Suc k * (unat (up ! 0) * unat w) mod BB ^ Suc (Suc k) = BB ^ Suc k * (limbs_val up * unat w) mod BB ^ Suc (Suc k)"
      unfolding power_Suc2 [of BB "Suc k"] mult_mod_right [symmetric] using mod_mult_cong [OF low refl, of "unat w"] by simp
    then have top: "(x + BB ^ Suc k * (unat (up ! 0) * unat w)) mod BB ^ Suc (Suc k)
        = (x + BB ^ Suc k * (limbs_val up * unat w)) mod BB ^ Suc (Suc k)" for x
      by (rule mod_add_cong [OF refl])
    have up: "limbs_val up = limbs_val ?u + BB ^ Suc k * unat (up ! Suc k)"
      using limbs_val_take_Suc [of "Suc k" up] n by simp
    have "limbs_val (mpn_mullo_basecase up vp) mod BB ^ Suc (Suc k)
        = (unat y + BB * (limbs_val ys + BB ^ k * unat h + limbs_val up * limbs_val vs)) mod BB ^ Suc (Suc k)"
      unfolding run using cong_hd [OF L(2), of "unat y"] by simp
    also have "unat y + BB * (limbs_val ys + BB ^ k * unat h + limbs_val up * limbs_val vs)
        = (limbs_val rs + limbs_val up * (BB * limbs_val vs)) + BB ^ Suc k * unat h"
      unfolding rs(1) by (simp add: algebra_simps)
    also have "\<dots> mod BB ^ Suc (Suc k) = (limbs_val rs + limbs_val up * (BB * limbs_val vs)
        + BB ^ Suc k * (unat (up ! 0) * unat w + (unat (up ! Suc k) * unat v + unat cy))) mod BB ^ Suc (Suc k)" by (rule h)
    also have "limbs_val rs + limbs_val up * (BB * limbs_val vs)
        + BB ^ Suc k * (unat (up ! 0) * unat w + (unat (up ! Suc k) * unat v + unat cy))
      = limbs_val up * (BB * limbs_val vs) + limbs_val up * unat v + BB ^ Suc k * (unat (up ! 0) * unat w)"
      using a(2) up by (simp add: algebra_simps)
    also have "\<dots> mod BB ^ Suc (Suc k)
        = (limbs_val up * (BB * limbs_val vs) + limbs_val up * unat v + BB ^ Suc k * (limbs_val up * unat w)) mod BB ^ Suc (Suc k)"
      by (rule top)
    also have "limbs_val up * (BB * limbs_val vs) + limbs_val up * unat v + BB ^ Suc k * (limbs_val up * unat w)
        = limbs_val up * limbs_val vp"
      unfolding vp(1) ws(1) by (simp add: limbs_val_snoc ws(2) algebra_simps)
    finally show ?thesis using L(1) n unfolding run by simp
  qed
  then show "length (mpn_mullo_basecase up vp) = ?n"
    "limbs_val (mpn_mullo_basecase up vp) = limbs_val up * limbs_val vp mod BB ^ ?n" by (auto intro: value_mod)
qed


section \<open>The schoolbook low square\<close>

lemma offdiag_val_snoc:
  "mid \<noteq> [] \<Longrightarrow> offdiag_val (mid @ [y]) = offdiag_val mid + BB ^ (length mid - 1) * (unat y * limbs_val mid)"
proof (induction mid)
  case (Cons u mid)
  show ?case
  proof (cases "mid = []")
    case False
    then obtain k where k: "length mid = Suc k" by (cases mid) auto
    show ?thesis using Cons.IH [OF False] unfolding append_Cons offdiag_val.simps limbs_val_app k
      by (simp add: k algebra_simps)
  qed simp
qed simp

lemma diag_val_app: "diag_val (xs @ ys) = diag_val xs + BB ^ (2 * length xs) * diag_val ys"
  by (induction xs) (simp_all add: algebra_simps)

lemma add_mod_power:
  fixes B :: nat
  assumes "a mod B ^ n = b mod B ^ n"
  shows "(x + B ^ k * a) mod B ^ (k + n) = (x + B ^ k * b) mod B ^ (k + n)"
  unfolding power_add by (rule mod_add_cong [OF refl]) (simp only: mult_mod_right [symmetric] assms)

lemma sqrlo_offdiag_step:
  assumes l: "length ts = length mid" and ne: "mid \<noteq> []"
    and v: "limbs_val ts + BB ^ length mid * unat c = t + limbs_val mid * unat u"
    and cy: "unat cy' = (k + (unat u * unat y + unat c)) mod BB"
    and IH: "2 \<le> length mid \<Longrightarrow> length (sqrlo_offdiag_loop cy' (drop 2 ts) mid) = length mid - 1
      \<and> limbs_val (sqrlo_offdiag_loop cy' (drop 2 ts) mid) mod BB ^ (length mid - 1)
        = (limbs_val (drop 2 ts) + BB ^ (length mid - 2) * unat cy' + offdiag_val mid) mod BB ^ (length mid - 1)"
  shows "length (take 2 ts @ sqrlo_offdiag_loop cy' (drop 2 ts) mid) = Suc (length mid)"
    and "limbs_val (take 2 ts @ sqrlo_offdiag_loop cy' (drop 2 ts) mid) mod BB ^ Suc (length mid)
      = (t + BB ^ length mid * k + offdiag_val (u # mid @ [y])) mod BB ^ Suc (length mid)"
proof -
  let ?M = "length mid" and ?r = "take 2 ts @ sqrlo_offdiag_loop cy' (drop 2 ts) mid"
  note top = mod_limb_power [OF cy, of _ ?M]
  have "length ?r = Suc ?M \<and> limbs_val ?r mod BB ^ Suc ?M
      = (limbs_val ts + offdiag_val mid * BB ^ 2 + BB ^ ?M * unat cy') mod BB ^ Suc ?M"
  proof (cases "2 \<le> ?M")
    case True
    then obtain j where j: "?M = Suc (Suc j)" by (metis add_2_eq_Suc le_Suc_ex)
    have t2: "length (take 2 ts) = 2" using l j by simp
    have s: "limbs_val ts = limbs_val (take 2 ts) + BB ^ 2 * limbs_val (drop 2 ts)"
      using l j by (intro limbs_val_split) simp
    have "limbs_val (sqrlo_offdiag_loop cy' (drop 2 ts) mid) mod BB ^ Suc j
        = (limbs_val (drop 2 ts) + BB ^ j * unat cy' + offdiag_val mid) mod BB ^ Suc j"
      using IH j by simp
    from add_mod_power [OF this, of "limbs_val (take 2 ts)" 2]
    have "limbs_val ?r mod BB ^ Suc ?M
        = (limbs_val (take 2 ts) + BB ^ 2 * (limbs_val (drop 2 ts) + BB ^ j * unat cy' + offdiag_val mid)) mod BB ^ Suc ?M"
      unfolding limbs_val_app t2 using j by simp
    moreover have "limbs_val (take 2 ts) + BB ^ 2 * (limbs_val (drop 2 ts) + BB ^ j * unat cy' + offdiag_val mid)
        = limbs_val ts + offdiag_val mid * BB ^ 2 + BB ^ ?M * unat cy'"
      unfolding s j by (simp add: algebra_simps power2_eq_square)
    ultimately show ?thesis using IH j t2 by simp
  next
    case False
    then obtain m where m: "mid = [m]" using ne by (cases mid; cases "tl mid") auto
    then obtain a where "ts = [a]" using l by (cases ts; cases "tl ts") auto
    then show ?thesis using m by (simp add: sqrlo_offdiag_loop.simps [of _ _ "[m]"])
  qed
  moreover have "(limbs_val ts + offdiag_val mid * BB ^ 2 + BB ^ ?M * unat cy') mod BB ^ Suc ?M
      = (t + BB ^ ?M * k + offdiag_val (u # mid @ [y])) mod BB ^ Suc ?M"
  proof -
    have M: "BB ^ 2 * BB ^ (?M - 1) = BB ^ Suc ?M" using ne by (cases mid) (simp_all add: power2_eq_square)
    have "limbs_val ts + offdiag_val mid * BB ^ 2 + BB ^ ?M * (k + (unat u * unat y + unat c))
        = (limbs_val ts + BB ^ ?M * unat c) + BB ^ ?M * k + BB ^ ?M * (unat u * unat y) + offdiag_val mid * BB ^ 2"
      by (simp add: algebra_simps)
    also have "\<dots> = t + BB ^ ?M * k + unat u * limbs_val (mid @ [y]) + offdiag_val mid * BB ^ 2"
      unfolding v limbs_val_snoc by (simp add: algebra_simps)
    finally have e: "limbs_val ts + offdiag_val mid * BB ^ 2 + BB ^ ?M * (k + (unat u * unat y + unat c))
        = t + BB ^ ?M * k + unat u * limbs_val (mid @ [y]) + offdiag_val mid * BB ^ 2" .
    have x: "t + BB ^ ?M * k + offdiag_val (u # mid @ [y])
        = (t + BB ^ ?M * k + unat u * limbs_val (mid @ [y]) + offdiag_val mid * BB ^ 2)
          + (BB ^ 2 * BB ^ (?M - 1)) * (unat y * limbs_val mid)"
      unfolding offdiag_val.simps offdiag_val_snoc [OF ne] by (simp add: algebra_simps power2_eq_square)
    show ?thesis unfolding top e x M by (simp only: mod_mult_self2)
  qed
  ultimately show "length ?r = Suc ?M"
    "limbs_val ?r mod BB ^ Suc ?M = (t + BB ^ ?M * k + offdiag_val (u # mid @ [y])) mod BB ^ Suc ?M" by auto
qed

lemma sqrlo_offdiag_loop_spec:
  assumes "2 \<le> length us" and "length tp = length us - 2"
  shows "length (sqrlo_offdiag_loop cy tp us) = length us - 1
    \<and> limbs_val (sqrlo_offdiag_loop cy tp us) mod BB ^ (length us - 1)
      = (limbs_val tp + BB ^ (length us - 2) * unat cy + offdiag_val us) mod BB ^ (length us - 1)"
  using assms
proof (induction "length us" arbitrary: us cy tp rule: less_induct)
  case less
  obtain u w where "us = u # w" "w \<noteq> []" using less.prems(1) by (cases us; cases "tl us") auto
  then obtain mid y where us: "us = u # mid @ [y]" by (cases w rule: rev_cases) auto
  show ?case
  proof (cases "mid = []")
    case True
    then show ?thesis
      using us less.prems by (simp add: sqrlo_offdiag_loop.simps [of _ _ "[u, y]"] unat_plus_limb unat_times_limb mod_simps)
  next
    case False
    obtain ts c where a: "mpn_addmul_1 tp mid u = (ts, c)" by fastforce
    have lt: "length tp = length mid" using less.prems us by simp
    then have sp: "length ts = length mid" "limbs_val ts + BB ^ length mid * unat c = limbs_val tp + limbs_val mid * unat u"
      using mpn_addmul_1_spec [OF _ a] by simp_all
    have "unat (cy + (u * y + c)) = (unat cy + (unat u * unat y + unat c)) mod BB"
      by (simp add: unat_plus_limb unat_times_limb mod_add_right_eq mod_add_left_eq)
    note st = sqrlo_offdiag_step [OF _ False _ this less.hyps, of ts, of "limbs_val tp"]
    have r: "sqrlo_offdiag_loop cy tp us = take 2 ts @ sqrlo_offdiag_loop (cy + (u * y + c)) (drop 2 ts) mid"
      using False a by (subst sqrlo_offdiag_loop.simps) (auto simp: us Let_def)
    show ?thesis
      using st sp lt us unfolding r by simp
  qed
qed

lemma MPN_SQRLO_DIAGONAL_spec:
  "length (MPN_SQRLO_DIAGONAL up) = length up
    \<and> limbs_val (MPN_SQRLO_DIAGONAL up) mod BB ^ length up = diag_val up mod BB ^ length up"
proof -
  define h where "h = length up div 2"
  have th: "length (take h up) = h" by (simp add: h_def)
  have dv: "diag_val up = diag_val (take h up) + BB ^ (2 * h) * diag_val (drop h up)"
    using diag_val_app [of "take h up" "drop h up"] by (simp only: append_take_drop_id th)
  show ?thesis
  proof (cases "length up mod 2 = 0")
    case True
    then have n: "2 * h = length up" using div_mult_mod_eq [of "length up" 2] unfolding h_def by linarith
    have "MPN_SQRLO_DIAGONAL up = MPN_SQR_DIAGONAL (take h up)"
      using True by (simp add: MPN_SQRLO_DIAGONAL_def Let_def flip: h_def)
    then show ?thesis using MPN_SQR_DIAGONAL_spec [of "take h up"]
      by (simp only: th n [symmetric] dv mod_mult_self2)
  next
    case False
    then have n: "length up = Suc (2 * h)" using div_mult_mod_eq [of "length up" 2] by (simp add: h_def)
    then have d: "drop h up = up ! h # drop (Suc h) up" by (simp add: Cons_nth_drop_Suc)
    have "diag_val up = (diag_val (take h up) + BB ^ (2 * h) * (unat (up ! h) * unat (up ! h)))
        + BB ^ Suc (2 * h) * (BB * diag_val (drop (Suc h) up))"
      unfolding dv d by (simp add: algebra_simps)
    then have "diag_val up mod BB ^ length up
        = (diag_val (take h up) + BB ^ (2 * h) * (unat (up ! h) * unat (up ! h))) mod BB ^ Suc (2 * h)"
      unfolding n by simp
    moreover have "MPN_SQRLO_DIAGONAL up = MPN_SQR_DIAGONAL (take h up) @ [up ! h * up ! h]"
      using False by (simp add: MPN_SQRLO_DIAGONAL_def Let_def flip: h_def)
    ultimately show ?thesis
      using MPN_SQR_DIAGONAL_spec [of "take h up"]
      by (simp only: th n limbs_val_snoc mod_limb_power [OF unat_times_limb]) simp
  qed
qed

lemma mpn_add_n_mod:
  assumes "length a = n" and "length b = n"
  shows "length (fst (mpn_add_n a b)) = n"
    and "limbs_val (fst (mpn_add_n a b)) mod BB ^ n = (limbs_val a + limbs_val b) mod BB ^ n"
proof -
  obtain r c where r: "mpn_add_n a b = (r, c)" by fastforce
  have "length r = n" "limbs_val a + limbs_val b = limbs_val r + BB ^ n * unat c"
    using mpn_add_n_spec [OF _ r] assms by simp_all
  then show "length (fst (mpn_add_n a b)) = n"
    "limbs_val (fst (mpn_add_n a b)) mod BB ^ n = (limbs_val a + limbs_val b) mod BB ^ n" using r by simp_all
qed

lemma mpn_lshift_mod:
  assumes "length a = n" and "0 < n"
  shows "length (fst (mpn_lshift a 1)) = n"
    and "limbs_val (fst (mpn_lshift a 1)) mod BB ^ n = 2 * limbs_val a mod BB ^ n"
proof -
  obtain r c where r: "mpn_lshift a 1 = (r, c)" by fastforce
  have "length r = n" "2 * limbs_val a = limbs_val r + BB ^ n * unat c"
    using mpn_lshift_spec [OF _ _ r] assms by (auto simp: mult.commute)
  then show "length (fst (mpn_lshift a 1)) = n"
    "limbs_val (fst (mpn_lshift a 1)) mod BB ^ n = 2 * limbs_val a mod BB ^ n" using r by simp_all
qed

lemma MPN_SQRLO_DIAG_ADDLSH1_spec:
  assumes n: "length up = Suc n" "0 < n" and tp: "length tp = n" "limbs_val tp mod BB ^ n = offdiag_val up mod BB ^ n"
  shows "length (MPN_SQRLO_DIAG_ADDLSH1 tp up) = Suc n"
    and "limbs_val (MPN_SQRLO_DIAG_ADDLSH1 tp up) mod BB ^ Suc n = limbs_val up * limbs_val up mod BB ^ Suc n"
proof -
  define d where "d = MPN_SQRLO_DIAGONAL up"
  have d: "length d = Suc n" "limbs_val d mod BB ^ Suc n = diag_val up mod BB ^ Suc n"
    using MPN_SQRLO_DIAGONAL_spec [of up] n(1) by (simp_all add: d_def)
  then obtain r0 rs where r: "d = r0 # rs" "length rs = n" by (cases d) auto
  define sh where "sh = fst (mpn_lshift tp 1)"
  have sh: "length sh = n" "limbs_val sh mod BB ^ n = 2 * limbs_val tp mod BB ^ n"
    using mpn_lshift_mod [OF tp(1) n(2)] by (simp_all add: sh_def)
  have res: "MPN_SQRLO_DIAG_ADDLSH1 tp up = r0 # fst (mpn_add_n rs sh)"
    using r by (simp add: MPN_SQRLO_DIAG_ADDLSH1_def Let_def sh_def flip: d_def)
  note ad = mpn_add_n_mod [OF r(2) sh(1)]
  show "length (MPN_SQRLO_DIAG_ADDLSH1 tp up) = Suc n" using ad(1) by (simp add: res)
  have "limbs_val (fst (mpn_add_n rs sh)) mod BB ^ n = (limbs_val rs + 2 * offdiag_val up) mod BB ^ n"
    unfolding ad(2) by (intro mod_add_cong refl, unfold sh(2)) (rule mod_mult_cong [OF refl tp(2)])
  from cong_hd [OF this, of "unat r0"]
  have "limbs_val (MPN_SQRLO_DIAG_ADDLSH1 tp up) mod BB ^ Suc n = (limbs_val d + 2 * BB * offdiag_val up) mod BB ^ Suc n"
    unfolding res r(1) by (simp add: algebra_simps)
  also have "\<dots> = (diag_val up + 2 * BB * offdiag_val up) mod BB ^ Suc n" by (intro mod_add_cong d(2) refl)
  finally show "limbs_val (MPN_SQRLO_DIAG_ADDLSH1 tp up) mod BB ^ Suc n = limbs_val up * limbs_val up mod BB ^ Suc n"
    by (simp only: square_split)
qed

lemma mpn_sqrlo_basecase_spec:
  assumes "MAYBE_special_cases cfg \<and> up \<noteq> [] \<or> 3 \<le> length up"
  shows "length (mpn_sqrlo_basecase cfg up) = length up"
    and "limbs_val (mpn_sqrlo_basecase cfg up) = limbs_val up * limbs_val up mod BB ^ length up"
proof -
  have "length (mpn_sqrlo_basecase cfg up) = length up
    \<and> limbs_val (mpn_sqrlo_basecase cfg up) mod BB ^ length up = limbs_val up * limbs_val up mod BB ^ length up"
  proof (cases "3 \<le> length up")
    case True
    then obtain u w where w: "up = u # w" "2 \<le> length w" by (cases up) auto
    then obtain mid y where mid: "w = mid @ [y]" by (cases w rule: rev_cases) auto
    then have up: "up = u # mid @ [y]" "mid \<noteq> []" using w by auto
    obtain ts c where a: "mpn_mul_1 mid u = (ts, c)" by fastforce
    define cy where "cy = u * y + c"
    define tp where "tp = take 2 ts @ sqrlo_offdiag_loop cy (drop 2 ts) mid"
    have sp: "length ts = length mid" "limbs_val ts + BB ^ length mid * unat c = 0 + limbs_val mid * unat u"
      using mpn_mul_1_spec [OF a] by simp_all
    have "unat cy = (0 + (unat u * unat y + unat c)) mod BB"
      by (simp add: cy_def unat_plus_limb unat_times_limb mod_add_left_eq)
    note st = sqrlo_offdiag_step [OF sp(1) up(2) sp(2) this sqrlo_offdiag_loop_spec, folded tp_def]
    have "length tp = Suc (length mid)"
      "limbs_val tp mod BB ^ Suc (length mid) = offdiag_val up mod BB ^ Suc (length mid)"
      using st sp(1) up(1) by simp_all
    note MPN_SQRLO_DIAG_ADDLSH1_spec [OF _ _ this]
    moreover have "mpn_sqrlo_basecase cfg up = MPN_SQRLO_DIAG_ADDLSH1 tp up"
      using a True up by (simp add: mpn_sqrlo_basecase_def Let_def tp_def cy_def)
    ultimately show ?thesis using up(1) by simp
  next
    case False
    then have s: "MAYBE_special_cases cfg" using assms by simp
    consider u where "up = [u]" | u v where "up = [u, v]" using False assms by (cases up; cases "tl up"; cases "tl (tl up)") auto
    then show ?thesis
    proof cases
      case (2 u v)
      obtain hi lo where p: "umul_ppmm u u = (hi, lo)" by fastforce
      have "unat (hi + u * v * 2) = (unat hi + unat u * unat v * 2) mod BB"
        by (simp add: unat_plus_limb unat_times_limb mod_mult_left_eq mod_add_right_eq)
      note h = mod_limb_power [OF this, of "unat lo" 1]
      have "unat lo + BB ^ 1 * (unat hi + unat u * unat v * 2) + BB ^ Suc 1 * (unat v * unat v)
          = limbs_val up * limbs_val up"
        using umul_ppmm_spec [OF p] by (simp add: 2 algebra_simps)
      from arg_cong [OF this, of "\<lambda>x. x mod BB ^ Suc 1"] show ?thesis
        using 2 s p h by (simp add: mpn_sqrlo_basecase_def Let_def)
    qed (use s in \<open>simp add: mpn_sqrlo_basecase_def Let_def unat_times_limb\<close>)
  qed
  then show "length (mpn_sqrlo_basecase cfg up) = length up"
    "limbs_val (mpn_sqrlo_basecase cfg up) = limbs_val up * limbs_val up mod BB ^ length up" by (auto intro: value_mod)
qed

section \<open>Divide and conquer\<close>

lemma split_size_bounds:
  "2 * split_size lo t2 t3 t4 t8 n \<le> n"
  "10 \<le> n \<Longrightarrow> 0 < split_size lo t2 t3 t4 t8 n"
proof -
  have "2 * (n div 2) \<le> n" "2 * (n * 11 div 36) \<le> n" "2 * (n * 9 div 40) \<le> n" "2 * (n * 7 div 39) \<le> n" "2 * (n div 10) \<le> n"
    by arith+
  then show "2 * split_size lo t2 t3 t4 t8 n \<le> n" by (simp only: split_size_def split: if_splits) simp
next
  assume "10 \<le> n"
  then have "0 < n div 2" "0 < n * 11 div 36" "0 < n * 9 div 40" "0 < n * 7 div 39" "0 < n div 10"
    by arith+
  then show "0 < split_size lo t2 t3 t4 t8 n" by (simp only: split_size_def split: if_splits) simp
qed

lemma split_bounds:
  "2 * mullo_split cfg n \<le> n" "10 \<le> n \<Longrightarrow> 0 < mullo_split cfg n"
  "2 * sqrlo_split cfg n \<le> n" "10 \<le> n \<Longrightarrow> 0 < sqrlo_split cfg n"
  by (simp_all only: mullo_split_def sqrlo_split_def split_size_bounds)

text \<open>
  The two recursive methods agree with the full product as long as they split vectors of at least
  ten limbs, shorter ones being left to the schoolbook methods.
\<close>

definition lo_ok :: "mpn_cfg \<Rightarrow> bool" where
  "lo_ok cfg \<longleftrightarrow> mul_ok cfg
     \<and> 10 \<le> (if MULLO_DC_THRESHOLD cfg = 0 then MULLO_BASECASE_THRESHOLD cfg else MULLO_DC_THRESHOLD cfg)
     \<and> 10 \<le> (if SQRLO_DC_THRESHOLD cfg = 0 then SQRLO_BASECASE_THRESHOLD cfg else SQRLO_DC_THRESHOLD cfg)"

lemma lo_ok_sizes:
  assumes "lo_ok cfg"
  shows "\<not> BELOW_THRESHOLD n (MULLO_BASECASE_THRESHOLD cfg) \<Longrightarrow> \<not> BELOW_THRESHOLD n (MULLO_DC_THRESHOLD cfg) \<Longrightarrow> 10 \<le> n"
    and "\<not> BELOW_THRESHOLD n (SQRLO_BASECASE_THRESHOLD cfg) \<Longrightarrow> \<not> BELOW_THRESHOLD n (SQRLO_DC_THRESHOLD cfg) \<Longrightarrow> 10 \<le> n"
  using assms not_below [of n "MULLO_BASECASE_THRESHOLD cfg"] not_below [of n "MULLO_DC_THRESHOLD cfg"]
    not_below [of n "SQRLO_BASECASE_THRESHOLD cfg"] not_below [of n "SQRLO_DC_THRESHOLD cfg"]
  by (auto simp: lo_ok_def split: if_splits)

definition low_product :: "limb list \<Rightarrow> limb list \<Rightarrow> limb list \<Rightarrow> bool" where
  "low_product p x y \<longleftrightarrow> length x \<le> length p
     \<and> limbs_val p mod BB ^ length x = limbs_val x * limbs_val y mod BB ^ length x"

lemma low_product_take:
  assumes "low_product p x y" and "length x = n"
  shows "length (take n p) = n" and "limbs_val (take n p) mod BB ^ n = limbs_val x * limbs_val y mod BB ^ n"
  using assms limbs_val_take_mod [of n p] by (simp_all add: low_product_def)

lemma low_productI: "length p = n \<Longrightarrow> limbs_val p = limbs_val x * limbs_val y mod BB ^ n \<Longrightarrow> length x = n \<Longrightarrow> low_product p x y"
  by (simp add: low_product_def)

lemma low_product_full: "length x \<le> length p \<Longrightarrow> limbs_val p = limbs_val x * limbs_val y \<Longrightarrow> low_product p x y"
  by (simp add: low_product_def)

lemma low_product_basecases:
  assumes "x \<noteq> []" and "length y = length x"
  shows "low_product (mpn_mul_basecase x y) x y" and "low_product (mpn_mullo_basecase x y) x y"
proof -
  have "y \<noteq> []" using assms by auto
  then show "low_product (mpn_mul_basecase x y) x y"
    using mpn_mul_basecase_spec [of y x] low_product_full by simp
  show "low_product (mpn_mullo_basecase x y) x y"
    using mpn_mullo_basecase_spec [of x y] assms by (intro low_productI) auto
qed

lemma low_product_glue:
  assumes t: "length tp = 2 * n2" "limbs_val tp mod BB ^ n = a mod BB ^ n" and n: "n = n2 + n1" "n1 \<le> n2"
    and h: "length hi = n1" "limbs_val hi mod BB ^ n1 = (limbs_val (take n1 (drop n2 tp)) + b) mod BB ^ n1"
  shows "length (take n2 tp @ hi) = n"
    and "limbs_val (take n2 tp @ hi) mod BB ^ n = (a + BB ^ n2 * b) mod BB ^ n"
proof -
  have l: "length (take n2 tp) = n2" using t n by simp
  then show "length (take n2 tp @ hi) = n" using h n by simp
  have s: "limbs_val tp = limbs_val (take n2 tp) + BB ^ n2 * limbs_val (drop n2 tp)"
    using limbs_val_app [of "take n2 tp" "drop n2 tp"] by (simp only: append_take_drop_id l)
  have "limbs_val hi mod BB ^ n1 = (limbs_val (drop n2 tp) + b) mod BB ^ n1"
    unfolding h(2) by (intro mod_add_cong refl limbs_val_take_mod)
  from add_mod_power [OF this, of "limbs_val (take n2 tp)" n2]
  have "limbs_val (take n2 tp @ hi) mod BB ^ n
      = (limbs_val (take n2 tp) + BB ^ n2 * (limbs_val (drop n2 tp) + b)) mod BB ^ n"
    by (simp only: limbs_val_app l n(1))
  also have "limbs_val (take n2 tp) + BB ^ n2 * (limbs_val (drop n2 tp) + b) = limbs_val tp + BB ^ n2 * b"
    unfolding s by (simp add: algebra_simps)
  also have "\<dots> mod BB ^ n = (a + BB ^ n2 * b) mod BB ^ n" by (intro mod_add_cong t(2) refl)
  finally show "limbs_val (take n2 tp @ hi) mod BB ^ n = (a + BB ^ n2 * b) mod BB ^ n" .
qed

lemma low_split:
  assumes "length xp = n" and "length yp = n" and "n = n2 + n1" and "n1 \<le> n2"
  shows "limbs_val xp * limbs_val yp mod BB ^ n
    = (limbs_val (take n2 xp) * limbs_val (take n2 yp)
        + BB ^ n2 * (limbs_val (drop n2 xp) * limbs_val (take n1 yp) + limbs_val (take n1 xp) * limbs_val (drop n2 yp))) mod BB ^ n"
proof -
  have s: "limbs_val zp = limbs_val (take n2 zp) + BB ^ n2 * limbs_val (drop n2 zp)" if "length zp = n" for zp
    using limbs_val_split [of n2 zp] that assms(3) by simp
  let ?x0 = "limbs_val (take n2 xp)" and ?x1 = "limbs_val (drop n2 xp)"
    and ?y0 = "limbs_val (take n2 yp)" and ?y1 = "limbs_val (drop n2 yp)"
  have e: "limbs_val xp * limbs_val yp = (?x0 * ?y0 + BB ^ n2 * (?x1 * ?y0 + ?x0 * ?y1)) + BB ^ n * (BB ^ (n2 - n1) * (?x1 * ?y1))"
  proof -
    have p: "BB ^ n2 * BB ^ n2 = BB ^ n * BB ^ (n2 - n1)" using assms(3,4) by (simp flip: power_add)
    have "limbs_val xp * limbs_val yp = (?x0 + BB ^ n2 * ?x1) * (?y0 + BB ^ n2 * ?y1)"
      using s [OF assms(1)] s [OF assms(2)] by simp
    also have "\<dots> = (?x0 * ?y0 + BB ^ n2 * (?x1 * ?y0 + ?x0 * ?y1)) + (BB ^ n2 * BB ^ n2) * (?x1 * ?y1)"
      by (simp add: algebra_simps)
    finally show ?thesis unfolding p by (simp add: mult.assoc)
  qed
  have t: "limbs_val (take n2 zp) mod BB ^ n1 = limbs_val (take n1 zp) mod BB ^ n1" for zp
    using limbs_val_take_mod [of n1 "take n2 zp"] assms(4) by (simp add: min_absorb1)
  have "(?x1 * ?y0 + ?x0 * ?y1) mod BB ^ n1 = (?x1 * limbs_val (take n1 yp) + limbs_val (take n1 xp) * ?y1) mod BB ^ n1"
    by (intro mod_add_cong mod_mult_cong refl t)
  from add_mod_power [OF this, of "?x0 * ?y0" n2] show ?thesis unfolding e assms(3) by (simp only: mod_mult_self2)
qed

lemma mpn_dc_mullo_n_spec:
  assumes ok: "lo_ok cfg"
  shows "10 \<le> length xp \<Longrightarrow> length yp = length xp \<Longrightarrow>
    length (mpn_dc_mullo_n cfg xp yp) = length xp
    \<and> limbs_val (mpn_dc_mullo_n cfg xp yp) = limbs_val xp * limbs_val yp mod BB ^ length xp"
proof (induction "length xp" arbitrary: xp yp rule: less_induct)
  case less
  define n n1 n2 where "n = length xp" and "n1 = mullo_split cfg n" and "n2 = n - n1"
  have n: "0 < n1" "n = n2 + n1" "n1 \<le> n2" "n1 < n" "length xp = n" "length yp = n" "2 \<le> n"
    using split_bounds(1) [of cfg n] split_bounds(2) [of n cfg] less.prems
    unfolding n_def [symmetric] n1_def [symmetric] n2_def by linarith+
  define part where "part x y = (if BELOW_THRESHOLD n1 (MULLO_BASECASE_THRESHOLD cfg) then mpn_mul_basecase x y
      else if BELOW_THRESHOLD n1 (MULLO_DC_THRESHOLD cfg) then mpn_mullo_basecase x y
      else if length x < n then mpn_dc_mullo_n cfg x y else [])" for x y
  have part: "low_product (part x y) x y" if "length x = n1" "length y = n1" for x y
  proof -
    have ne: "x \<noteq> []" "length y = length x" using that n(1) by force+
    consider "BELOW_THRESHOLD n1 (MULLO_BASECASE_THRESHOLD cfg)"
      | "\<not> BELOW_THRESHOLD n1 (MULLO_BASECASE_THRESHOLD cfg)" "BELOW_THRESHOLD n1 (MULLO_DC_THRESHOLD cfg)"
      | "\<not> BELOW_THRESHOLD n1 (MULLO_BASECASE_THRESHOLD cfg)" "\<not> BELOW_THRESHOLD n1 (MULLO_DC_THRESHOLD cfg)" by blast
    then show ?thesis
    proof cases
      case 1
      then show ?thesis using low_product_basecases [OF ne] by (simp add: part_def)
    next
      case 2
      then show ?thesis using low_product_basecases [OF ne] by (simp add: part_def)
    next
      case 3
      then have "10 \<le> n1" by (rule lo_ok_sizes(1) [OF ok])
      then show ?thesis using 3 less.hyps [of x y] that n by (auto simp: part_def intro: low_productI)
    qed
  qed
  have xp0: "xp \<noteq> []" using n(1,2,5) by auto
  define tp where "tp = mpn_mul_n cfg (take n2 xp) (take n2 yp)"
  have tp: "length tp = 2 * n2" "limbs_val tp mod BB ^ n = limbs_val (take n2 xp) * limbs_val (take n2 yp) mod BB ^ n"
    using mpn_mul_n_spec [of cfg "take n2 xp" "take n2 yp"] ok n xp0 by (auto simp: tp_def lo_ok_def)
  note p1 = low_product_take [OF part [of "drop n2 xp" "take n1 yp"]]
  note p2 = low_product_take [OF part [of "take n1 xp" "drop n2 yp"]]
  define h1 where "h1 = fst (mpn_add_n (take n1 (drop n2 tp)) (take n1 (part (drop n2 xp) (take n1 yp))))"
  define h2 where "h2 = fst (mpn_add_n h1 (take n1 (part (take n1 xp) (drop n2 yp))))"
  have h1: "length h1 = n1" "limbs_val h1 mod BB ^ n1
      = (limbs_val (take n1 (drop n2 tp)) + limbs_val (drop n2 xp) * limbs_val (take n1 yp)) mod BB ^ n1"
    using mpn_add_n_mod [of "take n1 (drop n2 tp)" n1, OF _ p1(1)] mod_add_cong [OF refl p1(2)] tp n
    by (simp_all add: h1_def)
  have h2: "length h2 = n1" "limbs_val h2 mod BB ^ n1 = (limbs_val (take n1 (drop n2 tp))
      + (limbs_val (drop n2 xp) * limbs_val (take n1 yp) + limbs_val (take n1 xp) * limbs_val (drop n2 yp))) mod BB ^ n1"
    using mpn_add_n_mod [OF h1(1) p2(1)] mod_add_cong [OF h1(2) p2(2)] n by (simp_all add: h2_def add.assoc)
  have "mpn_dc_mullo_n cfg xp yp = take n2 tp @ h2"
    using n(7) by (subst mpn_dc_mullo_n.simps)
      (simp add: Let_def part_def h2_def h1_def tp_def n(5) flip: n1_def n2_def)
  then show ?case
    using low_product_glue [OF tp n(2,3) h2] low_split [OF n(5,6,2,3)] n(5) by (auto intro: value_mod)
qed

lemma mpn_mullo_n_spec:
  assumes ok: "lo_ok cfg" and "xp \<noteq> []" and "length yp = length xp"
  shows "length (mpn_mullo_n cfg xp yp) = length xp"
    and "limbs_val (mpn_mullo_n cfg xp yp) = limbs_val xp * limbs_val yp mod BB ^ length xp"
proof -
  let ?n = "length xp"
  have m: "mul_ok cfg" using ok by (simp add: lo_ok_def)
  have full: "length (take ?n p) = ?n \<and> limbs_val (take ?n p) = limbs_val xp * limbs_val yp mod BB ^ ?n"
    if "length p = ?n + ?n \<and> limbs_val p = limbs_val xp * limbs_val yp" for p
    using limbs_val_take_mod [of ?n p] that by (auto intro: value_mod)
  have "length (mpn_mullo_n cfg xp yp) = ?n \<and> limbs_val (mpn_mullo_n cfg xp yp) = limbs_val xp * limbs_val yp mod BB ^ ?n"
  proof -
    consider "BELOW_THRESHOLD ?n (MULLO_BASECASE_THRESHOLD cfg)"
      | "\<not> BELOW_THRESHOLD ?n (MULLO_BASECASE_THRESHOLD cfg)" "BELOW_THRESHOLD ?n (MULLO_DC_THRESHOLD cfg)"
      | "\<not> BELOW_THRESHOLD ?n (MULLO_BASECASE_THRESHOLD cfg)" "\<not> BELOW_THRESHOLD ?n (MULLO_DC_THRESHOLD cfg)" by blast
    then show ?thesis
    proof cases
      case 1
      have "yp \<noteq> []" using assms by auto
      then show ?thesis using 1 full [of "mpn_mul_basecase xp yp"] mpn_mul_basecase_spec [of yp xp] assms
        by (simp add: mpn_mullo_n_def Let_def)
    next
      case 2
      then show ?thesis using mpn_mullo_basecase_spec [of xp yp] assms by (simp add: mpn_mullo_n_def Let_def)
    next
      case 3
      then have "10 \<le> ?n" by (rule lo_ok_sizes(1) [OF ok])
      moreover have "yp \<noteq> []" using assms by auto
      ultimately show ?thesis
        using 3 mpn_dc_mullo_n_spec [OF ok, of xp yp] assms full [of "mpn_fft_mul cfg xp yp"] full [of "mpn_mul_n cfg xp yp"]
          mul_okD(3) [OF m, of yp xp] mpn_mul_n_spec [OF m, of xp yp]
        by (auto simp: mpn_mullo_n_def Let_def)
    qed
  qed
  then show "length (mpn_mullo_n cfg xp yp) = ?n"
    "limbs_val (mpn_mullo_n cfg xp yp) = limbs_val xp * limbs_val yp mod BB ^ ?n" by auto
qed

lemma mpn_dc_sqrlo_spec:
  assumes ok: "lo_ok cfg" and "10 \<le> length xp"
  shows "length (mpn_dc_sqrlo cfg xp) = length xp"
    and "limbs_val (mpn_dc_sqrlo cfg xp) = limbs_val xp * limbs_val xp mod BB ^ length xp"
proof -
  define n n1 n2 where "n = length xp" and "n1 = sqrlo_split cfg n" and "n2 = n - n1"
  have n: "0 < n1" "n = n2 + n1" "n1 \<le> n2" "length xp = n"
    using split_bounds(3) [of cfg n] split_bounds(4) [of n cfg] assms(2)
    unfolding n_def [symmetric] n1_def [symmetric] n2_def by linarith+
  have m: "mul_ok cfg" using ok by (simp add: lo_ok_def)
  let ?x1 = "drop n2 xp" and ?x0 = "take n1 xp"
  define p where "p = (if BELOW_THRESHOLD n1 (MULLO_BASECASE_THRESHOLD cfg) then mpn_mul_basecase ?x1 ?x0
      else if BELOW_THRESHOLD n1 (MULLO_DC_THRESHOLD cfg) then mpn_mullo_basecase ?x1 ?x0
      else mpn_mullo_n cfg ?x1 ?x0)"
  have l: "length ?x1 = n1" "length ?x0 = n1" using n by simp_all
  then have ne: "?x1 \<noteq> []" "?x0 \<noteq> []" using n(1) by force+
  have eq: "length ?x0 = length ?x1" using l by simp
  have "low_product (mpn_mullo_n cfg ?x1 ?x0) ?x1 ?x0"
    using mpn_mullo_n_spec [OF ok ne(1) eq] low_productI by blast
  then have "low_product p ?x1 ?x0"
    unfolding p_def by (simp only: low_product_basecases [OF ne(1) eq] if_cancel split: if_splits) simp
  note p = low_product_take [OF this l(1)]
  have xp0: "xp \<noteq> []" using assms(2) by auto
  define tp where "tp = mpn_sqr cfg (take n2 xp)"
  have tp: "length tp = 2 * n2" "limbs_val tp mod BB ^ n = limbs_val (take n2 xp) * limbs_val (take n2 xp) mod BB ^ n"
    using mpn_sqr_spec [OF m, of "take n2 xp"] n xp0 by (auto simp: tp_def)
  define hi where "hi = fst (mpn_lshift (take n1 p) 1)"
  have hi: "length hi = n1" "limbs_val hi mod BB ^ n1 = 2 * (limbs_val ?x1 * limbs_val ?x0) mod BB ^ n1"
    using mpn_lshift_mod [OF p(1) n(1)] mod_mult_cong [OF refl p(2), of 2] by (simp_all add: hi_def)
  have l3: "length (take n1 (drop n2 tp)) = n1" using tp n by simp
  define h where "h = fst (mpn_add_n hi (take n1 (drop n2 tp)))"
  have h: "length h = n1" "limbs_val h mod BB ^ n1
      = (limbs_val (take n1 (drop n2 tp)) + (limbs_val ?x1 * limbs_val ?x0 + limbs_val ?x0 * limbs_val ?x1)) mod BB ^ n1"
    using mpn_add_n_mod [OF hi(1) l3] mod_add_cong [OF refl hi(2), of "limbs_val (take n1 (drop n2 tp))"]
    by (simp_all add: h_def add.commute mult.commute [of "limbs_val ?x0"] mult_2)
  have "mpn_dc_sqrlo cfg xp = take n2 tp @ h"
    by (simp add: mpn_dc_sqrlo_def Let_def p_def h_def hi_def tp_def n(4) flip: n1_def n2_def)
  then show "length (mpn_dc_sqrlo cfg xp) = length xp"
    "limbs_val (mpn_dc_sqrlo cfg xp) = limbs_val xp * limbs_val xp mod BB ^ length xp"
    using low_product_glue [OF tp n(2,3) h] low_split [OF n(4,4,2,3)] n(4) by (auto intro: value_mod)
qed

lemma mpn_sqrlo_spec:
  assumes ok: "lo_ok cfg" and "xp \<noteq> []"
  shows "length (mpn_sqrlo cfg xp) = length xp"
    and "limbs_val (mpn_sqrlo cfg xp) = limbs_val xp * limbs_val xp mod BB ^ length xp"
proof -
  let ?n = "length xp"
  have m: "mul_ok cfg" using ok by (simp add: lo_ok_def)
  have full: "length (take ?n p) = ?n \<and> limbs_val (take ?n p) = limbs_val xp * limbs_val xp mod BB ^ ?n"
    if "length p = ?n + ?n \<and> limbs_val p = limbs_val xp * limbs_val xp" for p
    using limbs_val_take_mod [of ?n p] that by (auto intro: value_mod)
  have "length (mpn_sqrlo cfg xp) = ?n \<and> limbs_val (mpn_sqrlo cfg xp) = limbs_val xp * limbs_val xp mod BB ^ ?n"
  proof -
    consider "BELOW_THRESHOLD ?n (SQRLO_BASECASE_THRESHOLD cfg)"
      | "\<not> BELOW_THRESHOLD ?n (SQRLO_BASECASE_THRESHOLD cfg)" "BELOW_THRESHOLD ?n (SQRLO_DC_THRESHOLD cfg)"
      | "\<not> BELOW_THRESHOLD ?n (SQRLO_BASECASE_THRESHOLD cfg)" "\<not> BELOW_THRESHOLD ?n (SQRLO_DC_THRESHOLD cfg)" by blast
    then show ?thesis
    proof cases
      case 1
      then show ?thesis using mpn_mullo_basecase_spec [of xp xp] assms by (simp add: mpn_sqrlo_def Let_def)
    next
      case 2
      then have "SQRLO_DC_THRESHOLD cfg \<noteq> 0" "SQRLO_BASECASE_THRESHOLD cfg = 0 \<or> SQRLO_BASECASE_THRESHOLD cfg \<le> ?n"
        using not_below [of ?n] by (auto simp: BELOW_THRESHOLD_def ABOVE_THRESHOLD_def)
      then have "MAYBE_special_cases cfg \<and> xp \<noteq> [] \<or> 3 \<le> ?n" using assms(2) by (auto simp: MAYBE_special_cases_def)
      then show ?thesis using 2 mpn_sqrlo_basecase_spec [of cfg xp] by (simp add: mpn_sqrlo_def Let_def)
    next
      case 3
      then have "10 \<le> ?n" by (rule lo_ok_sizes(2) [OF ok])
      then show ?thesis
        using 3 mpn_dc_sqrlo_spec [OF ok, of xp] assms full [of "mpn_fft_mul cfg xp xp"] full [of "mpn_sqr cfg xp"]
          mul_okD(3) [OF m, of xp xp] mpn_sqr_spec [OF m, of xp]
        by (auto simp: mpn_sqrlo_def Let_def)
    qed
  qed
  then show "length (mpn_sqrlo cfg xp) = ?n"
    "limbs_val (mpn_sqrlo cfg xp) = limbs_val xp * limbs_val xp mod BB ^ ?n" by auto
qed
end
