(* ===== verification/Gmp_Binvert.thy ===== *)
theory Gmp_Binvert
  imports Gmp_Redc Gmp_Mullo
begin

unbundle bit_operations_syntax

text \<open>
  Inverses modulo a power of the limb base, \<open>mpn_binvert\<close> (\<open>mpn/generic/binvert.c\<close>): an exact
  division (\<open>sbpi1_bdiv_q.c\<close>) at a low precision, then Newton steps that nearly double it; and
  \<open>mpn_redc_n\<close> (\<open>redc_n.c\<close>), the Montgomery reduction with such an inverse.  Both compute a
  product modulo \<open>B ^ rn - 1\<close> and undo the wrap-around; \<open>mpn_mulmod_bnm1\<close> is a field of the
  configuration with the contract of the comment above its code.
\<close>

section \<open>Definitions\<close>

fun mpn_neg :: "limb list \<Rightarrow> limb list \<times> limb" where
  "mpn_neg [] = ([], 0)"
| "mpn_neg (u # up) =
     (if u = 0 then let (rp, c) = mpn_neg up in (0 # rp, c)
      else ((- u) # map (\<lambda>x. NOT x) up, 1))"

definition mpn_decr_u :: "limb list \<Rightarrow> limb \<Rightarrow> limb list" where
  "mpn_decr_u p incr =
     (case p of [] \<Rightarrow> []
      | x # xs \<Rightarrow> (x - incr) # (if x < incr then fst (sub_borrow_loop xs) else xs))"

text \<open>
  \<open>mpn_sbpi1_bdiv_q\<close>: \<open>i\<close> turns in which the product reaches the limb \<open>up[dn]\<close> and beyond
  (its carry is kept in \<open>cy\<close>), and the turns in which the divisor is cut off.
\<close>

fun sbpi1_high_loop :: "nat \<Rightarrow> limb \<Rightarrow> limb list \<Rightarrow> limb list \<Rightarrow> limb \<Rightarrow> limb list \<times> limb \<times> limb list" where
  "sbpi1_high_loop 0 cy up dp dinv = ([], cy, up)"
| "sbpi1_high_loop (Suc i) cy up dp dinv =
     (let dn = length dp; q = dinv * up ! 0; (us, hi) = mpn_addmul_1 up dp q;
        hi = hi + cy; cy = of_bool (hi < cy); hi = hi + us ! dn; cy = cy + of_bool (hi < us ! dn);
        (qs, r) = sbpi1_high_loop i cy (tl (us[dn := hi])) dp dinv
      in (q # qs, r))"

function sbpi1_low_loop :: "nat \<Rightarrow> limb list \<Rightarrow> limb list \<Rightarrow> limb \<Rightarrow> limb list" where
  "sbpi1_low_loop i up dp dinv =
     (if i > 1 then let q = dinv * up ! 0; us = fst (mpn_addmul_1 up (take i dp) q)
        in q # sbpi1_low_loop (i - 1) (tl us) dp dinv
      else [dinv * up ! 0])"
  by pat_completeness auto
termination by (relation "measure (\<lambda>(i, _). i)") auto

declare sbpi1_low_loop.simps [simp del]

definition mpn_sbpi1_bdiv_q :: "limb list \<Rightarrow> limb list \<Rightarrow> limb \<Rightarrow> limb list" where
  "mpn_sbpi1_bdiv_q up dp dinv =
     (let un = length up; dn = length dp;
        (qp, up) = (if un > dn
          then let (qs, cy, up) = sbpi1_high_loop (un - dn - 1) 0 up dp dinv;
                 q = dinv * up ! 0; (us, c) = mpn_addmul_1 up dp q; hi = cy + c
               in (qs @ [q], tl (us[dn := us ! dn + hi]))
          else ([], up))
      in qp @ sbpi1_low_loop dn up dp dinv)"

text \<open>
  The precisions of the Newton steps, lowest first, and the precision to start from.  The threshold
  is at least two, so the test for more than one limb always holds in the loop.
\<close>

function binvert_sizes :: "nat \<Rightarrow> nat \<Rightarrow> nat list \<times> nat" where
  "binvert_sizes threshold rn =
     (if ABOVE_THRESHOLD rn threshold \<and> 1 < rn
      then let (sizes, base) = binvert_sizes threshold ((rn + 1) div 2) in (sizes @ [rn], base)
      else ([], rn))"
  by pat_completeness auto
termination by (relation "measure (\<lambda>(_, rn). rn)") auto

declare binvert_sizes.simps [simp del]

definition binvert_step :: "mpn_cfg \<Rightarrow> limb list \<Rightarrow> limb list \<Rightarrow> nat \<Rightarrow> limb list" where
  "binvert_step cfg up rp newrn =
     (let rn = length rp; m = mpn_mulmod_bnm1_next_size cfg newrn;
        xp = mpn_mulmod_bnm1 cfg m (take newrn up) rp;
        hi = mpn_mullo_n cfg (take (newrn - rn) rp) (take (newrn - rn) (drop rn xp))
      in rp @ fst (mpn_neg hi))"

definition mpn_binvert :: "mpn_cfg \<Rightarrow> limb list \<Rightarrow> nat \<Rightarrow> limb list" where
  "mpn_binvert cfg up n =
     (let (sizes, rn) = binvert_sizes (BINV_NEWTON_THRESHOLD cfg) n;
        xp = 1 # replicate (rn - 1) 0;
        di = binvert_limb (up ! 0);
        rp = (if BELOW_THRESHOLD rn (DC_BDIV_Q_THRESHOLD cfg) then mpn_sbpi1_bdiv_q xp (take rn up) (- di)
          else mpn_dcpi1_bdiv_q cfg xp (take rn up) (- di));
        rp = fst (mpn_neg rp)
      in foldl (binvert_step cfg up) rp sizes)"

definition mpn_redc_n :: "mpn_cfg \<Rightarrow> limb list \<Rightarrow> limb list \<Rightarrow> limb list \<Rightarrow> limb list" where
  "mpn_redc_n cfg up mp ip =
     (let n = length mp; rn = mpn_mulmod_bnm1_next_size cfg n;
        xp = mpn_mullo_n cfg (take n up) ip;
        yp = mpn_mulmod_bnm1 cfg rn xp mp;
        (hi, cy) = mpn_sub_n (take (2 * n - rn) yp) (take (2 * n - rn) up);
        yp = yp @ hi;
        yp = take (2 * n - rn) yp @ mpn_decr_u (drop (2 * n - rn) yp) cy;
        (rp, cy) = mpn_sub_n (drop n up) (drop n yp)
      in if cy \<noteq> 0 then fst (mpn_add_n rp mp) else rp)"

section \<open>Negation and decrement\<close>

lemma limbs_val_com: "limbs_val (map (\<lambda>x. NOT x) up) + limbs_val up + 1 = BB ^ length up"
proof (induction up)
  case (Cons u up)
  have "NOT u + u = - 1" by (simp add: not_eq_complement)
  then have "unat (NOT u + u) = BB - 1" by (simp add: unsigned_minus_1_eq_mask mask_eq_exp_minus_1 BB_def)
  then have "unat (NOT u) + unat u + 1 = BB"
    using unat_add_carry [of "NOT u" u] unat_lt_BB [of u] unat_lt_BB [of "NOT u"] by (cases "NOT u + u < NOT u") auto
  then have "limbs_val (map (\<lambda>x. NOT x) (u # up)) + limbs_val (u # up) + 1
      = BB * (limbs_val (map (\<lambda>x. NOT x) up) + limbs_val up + 1)" by (simp add: algebra_simps)
  then show ?case unfolding Cons.IH by simp
qed simp

lemma mpn_neg_spec:
  assumes "mpn_neg up = (rp, c)"
  shows "length rp = length up" and "c = of_bool (limbs_val up \<noteq> 0)"
    and "limbs_val rp + limbs_val up = BB ^ length up * unat c"
proof -
  have "length rp = length up \<and> c = of_bool (limbs_val up \<noteq> 0) \<and> limbs_val rp + limbs_val up = BB ^ length up * unat c"
    using assms
  proof (induction up arbitrary: rp)
    case (Cons u up)
    show ?case
    proof (cases "u = 0")
      case True
      then obtain rs where r: "mpn_neg up = (rs, c)" "rp = 0 # rs" using Cons.prems by (auto split: prod.splits)
      have IH: "length rs = length up" "c = of_bool (limbs_val up \<noteq> 0)" "limbs_val rs + limbs_val up = BB ^ length up * unat c"
        using Cons.IH [OF r(1)] by auto
      have "limbs_val rp + limbs_val (u # up) = BB * (limbs_val rs + limbs_val up)" using r True by (simp add: algebra_simps)
      then show ?thesis using IH r True unfolding IH(3) by simp
    next
      case False
      then have r: "rp = (- u) # map (\<lambda>x. NOT x) up" "c = 1" using Cons.prems by auto
      have n: "unat (- u) + unat u = BB"
        using False unat_sub_borrow [of 0 u] by (simp add: word_neq_0_conv [symmetric])
      have "limbs_val rp + limbs_val (u # up)
          = BB * (limbs_val (map (\<lambda>x. NOT x) up) + limbs_val up + 1)" using n by (simp add: r algebra_simps)
      moreover have "0 < unat u" using False by (simp add: unat_gt_0)
      ultimately show ?thesis unfolding limbs_val_com using r by simp
    qed
  qed simp
  then show "length rp = length up" "c = of_bool (limbs_val up \<noteq> 0)" "limbs_val rp + limbs_val up = BB ^ length up * unat c"
    by auto
qed

lemma mpn_neg_mod:
  shows "length (fst (mpn_neg up)) = length up"
    and "(limbs_val (fst (mpn_neg up)) + limbs_val up) mod BB ^ length up = 0"
proof -
  obtain rp c where r: "mpn_neg up = (rp, c)" by fastforce
  show "length (fst (mpn_neg up)) = length up" using mpn_neg_spec(1) [OF r] r by simp
  show "(limbs_val (fst (mpn_neg up)) + limbs_val up) mod BB ^ length up = 0"
    using mpn_neg_spec(3) [OF r] r by (simp del: mod_mult_self1_is_0 add: mod_mult_self1_is_0)
qed

lemma mpn_decr_u_spec:
  assumes "p \<noteq> []" and "unat c \<le> limbs_val p"
  shows "length (mpn_decr_u p c) = length p" and "limbs_val (mpn_decr_u p c) + unat c = limbs_val p"
proof -
  obtain x xs where p: "p = x # xs" using assms(1) by (cases p) auto
  have "length (mpn_decr_u p c) = length p \<and> limbs_val (mpn_decr_u p c) + unat c = limbs_val p"
  proof (cases "x < c")
    case True
    obtain ws b where w: "sub_borrow_loop xs = (ws, b)" by fastforce
    note s = sub_borrow_loop_spec [OF w]
    have "x < x - c" using unat_sub_borrow [of x c] True by (cases "x < x - c") (simp_all add: word_less_nat_alt)
    then have d: "unat x + BB = unat (x - c) + unat c" using unat_sub_borrow [of x c] by simp
    have "unat x < unat c" using True by (simp only: word_less_nat_alt)
    then have "limbs_val xs \<noteq> 0" using assms(2) p by (cases "limbs_val xs = 0") simp_all
    then have "unat b = 0" using s limbs_val_lt [of ws] by (cases "b = 0") auto
    then have "limbs_val ws + 1 = limbs_val xs" using s by simp
    then have "limbs_val (mpn_decr_u p c) + unat c + BB = limbs_val p + BB"
      using d w True by (simp add: p mpn_decr_u_def algebra_simps flip: \<open>limbs_val ws + 1 = limbs_val xs\<close>)
    then show ?thesis using s w True by (simp add: p mpn_decr_u_def)
  next
    case False
    then have "unat x = unat (x - c) + unat c"
      using unat_sub_borrow [of x c] unat_lt_BB [of "x - c"] by (cases "x < x - c") (simp_all add: word_less_nat_alt)
    then show ?thesis using False by (simp add: p mpn_decr_u_def)
  qed
  then show "length (mpn_decr_u p c) = length p" "limbs_val (mpn_decr_u p c) + unat c = limbs_val p" by auto
qed

section \<open>The exact division\<close>

lemma limbs_val_set:
  assumes "i < length us"
  shows "limbs_val (us[i := x]) + BB ^ i * unat (us ! i) = limbs_val us + BB ^ i * unat x"
  using assms
proof (induction us arbitrary: i)
  case (Cons u us)
  then show ?case
  proof (cases i)
    case (Suc j)
    have "limbs_val ((u # us)[i := x]) + BB ^ i * unat ((u # us) ! i)
        = unat u + BB * (limbs_val (us[j := x]) + BB ^ j * unat (us ! j))" using Suc by (simp add: algebra_simps)
    also have "limbs_val (us[j := x]) + BB ^ j * unat (us ! j) = limbs_val us + BB ^ j * unat x"
      using Cons Suc by simp
    finally show ?thesis using Suc by (simp add: algebra_simps)
  qed simp
qed simp

lemma limbs_val_tl:
  assumes "xs \<noteq> []" and "limbs_val xs mod BB = 0"
  shows "limbs_val xs = BB * limbs_val (tl xs)"
  using assms unat_lt_BB [of "hd xs"] by (cases xs) auto

lemma bdiv_limb_clears:
  assumes inv: "(unat (dp ! 0) * unat dinv + 1) mod BB = 0" and ne: "up \<noteq> []" "dp \<noteq> []"
    and v: "v mod BB = (limbs_val up + limbs_val dp * unat (dinv * up ! 0)) mod BB"
  shows "v mod BB = 0"
proof -
  have h: "limbs_val up mod BB = unat (up ! 0) mod BB" "limbs_val dp mod BB = unat (dp ! 0) mod BB"
    using ne by (cases up; cases dp; simp)+
  have "v mod BB = (unat (up ! 0) + unat (dp ! 0) * (unat (up ! 0) * unat dinv mod BB)) mod BB"
    unfolding v by (intro mod_add_cong mod_mult_cong h) (simp add: unat_times_limb mult.commute)
  then show ?thesis using redc_multiple [OF inv] by simp
qed

lemma sbpi1_high_turn:
  assumes inv: "(unat (dp ! 0) * unat dinv + 1) mod BB = 0" and dp: "dp \<noteq> []" "length dp < length up"
    and a: "mpn_addmul_1 up dp (dinv * up ! 0) = (us, c)"
    and h: "unat h + BB * cy' = unat c + cy + unat (us ! length dp)"
  shows "length (tl (us[length dp := h])) = length up - 1"
    and "limbs_val up + BB ^ length dp * cy + unat (dinv * up ! 0) * limbs_val dp
      = BB * (limbs_val (tl (us[length dp := h])) + BB ^ length dp * cy')"
proof -
  let ?dn = "length dp" and ?q = "dinv * up ! 0"
  note sp = mpn_addmul_1_spec [OF less_imp_le [OF dp(2)] a]
  let ?w = "us[?dn := h]"
  show "length (tl ?w) = length up - 1" using sp(1) by simp
  have w: "limbs_val ?w + BB * BB ^ ?dn * cy' = limbs_val up + BB ^ ?dn * cy + limbs_val dp * unat ?q"
  proof -
    have "limbs_val ?w + BB * BB ^ ?dn * cy' + BB ^ ?dn * unat (us ! ?dn)
        = limbs_val us + BB ^ ?dn * (unat h + BB * cy')"
      using limbs_val_set [of ?dn us h] sp(1) dp(2) by (simp add: algebra_simps)
    also have "\<dots> = (limbs_val us + BB ^ ?dn * unat c) + BB ^ ?dn * cy + BB ^ ?dn * unat (us ! ?dn)"
      unfolding h by (simp add: algebra_simps)
    finally show ?thesis unfolding sp(3) by simp
  qed
  obtain j where j: "BB ^ ?dn = BB * j" using dp(1) by (cases dp) auto
  have "limbs_val ?w mod BB = 0"
  proof (rule bdiv_limb_clears [OF inv _ dp(1)])
    show "up \<noteq> []" using dp(2) by auto
    have "(limbs_val ?w + BB * (BB ^ ?dn * cy')) mod BB = (limbs_val up + limbs_val dp * unat ?q + BB * (j * cy)) mod BB"
      using w unfolding j by (simp add: ac_simps)
    then show "limbs_val ?w mod BB = (limbs_val up + limbs_val dp * unat ?q) mod BB" by simp
  qed
  moreover have "?w \<noteq> []" using sp(1) dp(2) by auto
  ultimately have "limbs_val ?w = BB * limbs_val (tl ?w)" by (intro limbs_val_tl) auto
  then show "limbs_val up + BB ^ ?dn * cy + unat ?q * limbs_val dp = BB * (limbs_val (tl ?w) + BB ^ ?dn * cy')"
    using w by (simp add: algebra_simps)
qed

lemma sbpi1_carry:
  fixes c cy u :: limb
  assumes "unat cy \<le> 1"
  defines "h \<equiv> c + cy"
  shows "unat (of_bool (h < cy) + of_bool (h + u < u) :: limb) \<le> 1"
    and "unat (h + u) + BB * unat (of_bool (h < cy) + of_bool (h + u < u) :: limb) = unat c + unat cy + unat u"
proof -
  have 1: "unat h + BB * of_bool (h < cy) = unat c + unat cy"
    using unat_add_carry [of cy c] by (simp add: h_def add.commute)
  have 2: "unat (h + u) + BB * of_bool (h + u < u) = unat h + unat u"
    using unat_add_carry [of u h] by (simp add: add.commute)
  have "\<not> (h < cy \<and> h + u < u)"
    using 1 2 assms(1) unat_lt_BB [of c] unat_lt_BB [of u] by (auto simp: of_bool_def)
  then show "unat (of_bool (h < cy) + of_bool (h + u < u) :: limb) \<le> 1"
    "unat (h + u) + BB * unat (of_bool (h < cy) + of_bool (h + u < u) :: limb) = unat c + unat cy + unat u"
    using 1 2 by (auto simp: of_bool_def)
qed

lemma sbpi1_high_loop_spec:
  assumes inv: "(unat (dp ! 0) * unat dinv + 1) mod BB = 0" and dp: "dp \<noteq> []"
  shows "length dp + i \<le> length up \<Longrightarrow> unat cy \<le> 1 \<Longrightarrow> sbpi1_high_loop i cy up dp dinv = (qs, cy', up') \<Longrightarrow>
    length qs = i \<and> length up' = length up - i
    \<and> limbs_val up + BB ^ length dp * unat cy + limbs_val qs * limbs_val dp
      = BB ^ i * (limbs_val up' + BB ^ length dp * unat cy')"
proof (induction i arbitrary: cy up qs)
  case 0
  then show ?case by simp
next
  case (Suc i)
  define q where "q = dinv * up ! 0"
  obtain us c where a: "mpn_addmul_1 up dp q = (us, c)" by fastforce
  define u where "u = us ! length dp"
  define h where "h = c + cy + u"
  define c1 :: limb where "c1 = of_bool (c + cy < cy) + of_bool (h < u)"
  obtain ps where r: "sbpi1_high_loop i c1 (tl (us[length dp := h])) dp dinv = (ps, cy', up')" "qs = q # ps"
    using Suc.prems(3) a unfolding sbpi1_high_loop.simps Let_def q_def [symmetric]
    by (auto simp: h_def c1_def u_def split: prod.splits)
  note cr = sbpi1_carry [OF Suc.prems(2), of c u, folded h_def, folded c1_def]
  have lt: "length dp < length up" using Suc.prems(1) by simp
  note t = sbpi1_high_turn [OF inv dp lt a [unfolded q_def], of h "unat c1" "unat cy", folded q_def u_def, OF cr(2)]
  have IH: "length ps = i" "length up' = length up - 1 - i"
    "limbs_val (tl (us[length dp := h])) + BB ^ length dp * unat c1 + limbs_val ps * limbs_val dp
      = BB ^ i * (limbs_val up' + BB ^ length dp * unat cy')"
    using Suc.IH [OF _ cr(1) r(1)] Suc.prems(1) t(1) by auto
  have "limbs_val up + BB ^ length dp * unat cy + limbs_val qs * limbs_val dp
      = (limbs_val up + BB ^ length dp * unat cy + unat q * limbs_val dp) + BB * (limbs_val ps * limbs_val dp)"
    unfolding r(2) by (simp add: algebra_simps)
  also have "\<dots> = BB * (limbs_val (tl (us[length dp := h])) + BB ^ length dp * unat c1 + limbs_val ps * limbs_val dp)"
    unfolding t(2) by (simp add: algebra_simps)
  finally show ?case using IH r(2) by simp
qed

lemma sbpi1_low_loop_spec:
  assumes inv: "(unat (dp ! 0) * unat dinv + 1) mod BB = 0"
  shows "0 < i \<Longrightarrow> length up = i \<Longrightarrow> i \<le> length dp \<Longrightarrow>
    length (sbpi1_low_loop i up dp dinv) = i
    \<and> (limbs_val up + limbs_val (sbpi1_low_loop i up dp dinv) * limbs_val dp) mod BB ^ i = 0"
proof (induction i arbitrary: up)
  case (Suc i)
  define q where "q = dinv * up ! 0"
  have dp: "dp \<noteq> []" and up: "up \<noteq> []" using Suc.prems by auto
  show ?case
  proof (cases "i = 0")
    case True
    have "(limbs_val up + unat q * limbs_val dp) mod BB = 0"
      using bdiv_limb_clears [OF inv up dp refl] by (simp add: q_def mult.commute)
    then show ?thesis using True by (simp add: sbpi1_low_loop.simps [of 1, unfolded One_nat_def] flip: q_def)
  next
    case False
    let ?d = "take (Suc i) dp"
    obtain us c where a: "mpn_addmul_1 up ?d q = (us, c)" by fastforce
    have ld: "length ?d = Suc i" using Suc.prems by simp
    have sp: "length us = Suc i" "limbs_val us + BB ^ Suc i * unat c = limbs_val up + limbs_val ?d * unat q"
      using mpn_addmul_1_spec [OF _ a] ld Suc.prems(2) by simp_all
    define Q where "Q = sbpi1_low_loop i (tl us) dp dinv"
    have IH: "length Q = i" "(limbs_val (tl us) + limbs_val Q * limbs_val dp) mod BB ^ i = 0"
      using Suc.IH [of "tl us"] False sp(1) Suc.prems(3) by (simp_all add: Q_def)
    have us: "limbs_val us mod BB ^ Suc i = (limbs_val up + limbs_val dp * unat q) mod BB ^ Suc i"
    proof -
      have "limbs_val us mod BB ^ Suc i = (limbs_val up + limbs_val ?d * unat q) mod BB ^ Suc i"
        unfolding sp(2) [symmetric] by (simp only: mod_mult_self2)
      also have "\<dots> = (limbs_val up + limbs_val dp * unat q) mod BB ^ Suc i"
        by (intro mod_add_cong refl mod_mult_cong limbs_val_take_mod)
      finally show ?thesis .
    qed
    have "BB dvd BB ^ Suc i" by simp
    then have "limbs_val us mod BB = (limbs_val up + limbs_val dp * unat q) mod BB"
      using arg_cong [OF us, of "\<lambda>x. x mod BB"] by (simp only: mod_mod_cancel)
    then have "limbs_val us mod BB = 0" unfolding q_def by (rule bdiv_limb_clears [OF inv up dp])
    then have tl: "limbs_val us = BB * limbs_val (tl us)" using sp(1) by (intro limbs_val_tl) auto
    have run: "sbpi1_low_loop (Suc i) up dp dinv = q # Q"
      using False a by (simp add: sbpi1_low_loop.simps [of "Suc i"] Let_def Q_def flip: q_def)
    have "(limbs_val up + limbs_val (q # Q) * limbs_val dp) mod BB ^ Suc i
        = ((limbs_val up + limbs_val dp * unat q) + BB * (limbs_val Q * limbs_val dp)) mod BB ^ Suc i"
      by (simp add: algebra_simps)
    also have "\<dots> = (limbs_val us + BB * (limbs_val Q * limbs_val dp)) mod BB ^ Suc i"
      by (rule mod_add_cong [OF us [symmetric] refl])
    also have "limbs_val us + BB * (limbs_val Q * limbs_val dp) = BB * (limbs_val (tl us) + limbs_val Q * limbs_val dp)"
      unfolding tl by (simp add: algebra_simps)
    also have "\<dots> mod BB ^ Suc i = 0" unfolding power_Suc mult_mod_right [symmetric] IH(2) by simp
    finally show ?thesis using IH(1) run by simp
  qed
qed simp

lemma mpn_sbpi1_bdiv_q_spec:
  assumes inv: "(unat (dp ! 0) * unat dinv + 1) mod BB = 0" and dp: "dp \<noteq> []" "length dp \<le> length up"
  shows "length (mpn_sbpi1_bdiv_q up dp dinv) = length up"
    and "(limbs_val up + limbs_val (mpn_sbpi1_bdiv_q up dp dinv) * limbs_val dp) mod BB ^ length up = 0"
proof -
  let ?dn = "length dp" and ?un = "length up"
  have "length (mpn_sbpi1_bdiv_q up dp dinv) = ?un
    \<and> (limbs_val up + limbs_val (mpn_sbpi1_bdiv_q up dp dinv) * limbs_val dp) mod BB ^ ?un = 0"
  proof (cases "?dn < ?un")
    case False
    then have "?un = ?dn" using dp(2) by simp
    then show ?thesis
      using sbpi1_low_loop_spec [OF inv, of ?dn up] dp(1) False by (simp add: mpn_sbpi1_bdiv_q_def Let_def)
  next
    case True
    define k where "k = ?un - Suc ?dn"
    obtain qs cy w where l: "sbpi1_high_loop k 0 up dp dinv = (qs, cy, w)" by (metis prod_cases3)
    have h: "length qs = k" "length w = Suc ?dn"
      "limbs_val up + limbs_val qs * limbs_val dp = BB ^ k * (limbs_val w + BB ^ ?dn * unat cy)"
      using sbpi1_high_loop_spec [OF inv dp(1) _ _ l] True by (auto simp: k_def)
    define q where "q = dinv * w ! 0"
    obtain us c where a: "mpn_addmul_1 w dp q = (us, c)" by fastforce
    define v where "v = us ! ?dn + (cy + c)"
    define t where "t = tl (us[?dn := v])"
    define co where "co = (unat c + unat cy + unat (us ! ?dn)) div BB"
    have v: "unat v + BB * co = unat c + unat cy + unat (us ! ?dn)"
    proof -
      have "unat v = (unat c + unat cy + unat (us ! ?dn)) mod BB"
        by (simp add: v_def unat_plus_limb mod_add_right_eq ac_simps)
      then show ?thesis by (simp add: co_def)
    qed
    have lt: "?dn < length w" using h(2) by simp
    note tn = sbpi1_high_turn [OF inv dp(1) lt a [unfolded q_def] v, folded q_def t_def]
    define Q where "Q = sbpi1_low_loop ?dn t dp dinv"
    have Q: "length Q = ?dn" "(limbs_val t + limbs_val Q * limbs_val dp) mod BB ^ ?dn = 0"
      using sbpi1_low_loop_spec [OF inv, of ?dn t] tn(1) h(2) dp(1) by (simp_all add: Q_def)
    have run: "mpn_sbpi1_bdiv_q up dp dinv = qs @ q # Q"
      using True l a by (simp add: mpn_sbpi1_bdiv_q_def Let_def Q_def t_def v_def q_def flip: k_def)
    have un: "?un = k + Suc ?dn" using True by (simp add: k_def)
    have "limbs_val up + limbs_val (qs @ q # Q) * limbs_val dp
        = BB ^ k * ((limbs_val w + BB ^ ?dn * unat cy + unat q * limbs_val dp) + BB * (limbs_val Q * limbs_val dp))"
      using h(3) by (simp add: limbs_val_app h(1) algebra_simps)
    also have "\<dots> = BB ^ k * (BB * ((limbs_val t + limbs_val Q * limbs_val dp) + BB ^ ?dn * co))"
      unfolding tn(2) by (simp add: algebra_simps)
    also have "\<dots> mod BB ^ ?un = BB ^ k * (BB * (((limbs_val t + limbs_val Q * limbs_val dp) + BB ^ ?dn * co) mod BB ^ ?dn))"
      unfolding un power_add power_Suc mult_mod_right ..
    also have "\<dots> = 0" using Q(2) by simp
    finally show ?thesis using h(1) Q(1) un run by simp
  qed
  then show "length (mpn_sbpi1_bdiv_q up dp dinv) = ?un"
    "(limbs_val up + limbs_val (mpn_sbpi1_bdiv_q up dp dinv) * limbs_val dp) mod BB ^ ?un = 0" by auto
qed

section \<open>What the remaining routines promise\<close>

definition binv_ok :: "mpn_cfg \<Rightarrow> bool" where
  "binv_ok cfg \<longleftrightarrow>
     (\<forall>rn a b. b \<noteq> [] \<longrightarrow> length b \<le> length a \<longrightarrow> length a \<le> rn \<longrightarrow> rn < 2 * (length a + length b) \<longrightarrow>
        length (mpn_mulmod_bnm1 cfg rn a b) = min rn (length a + length b)
        \<and> limbs_val (mpn_mulmod_bnm1 cfg rn a b) mod (BB ^ rn - 1) = limbs_val a * limbs_val b mod (BB ^ rn - 1)
        \<and> (limbs_val (mpn_mulmod_bnm1 cfg rn a b) = 0 \<longleftrightarrow> limbs_val a = 0 \<or> limbs_val b = 0))
   \<and> (\<forall>n. 1 < n \<longrightarrow> n \<le> mpn_mulmod_bnm1_next_size cfg n \<and> mpn_mulmod_bnm1_next_size cfg n < 2 * n)
   \<and> (\<forall>up dp dinv. (unat (dp ! 0) * unat dinv + 1) mod BB = 0 \<longrightarrow> dp \<noteq> [] \<longrightarrow> length dp \<le> length up \<longrightarrow>
        length (mpn_dcpi1_bdiv_q cfg up dp dinv) = length up
        \<and> (limbs_val up + limbs_val (mpn_dcpi1_bdiv_q cfg up dp dinv) * limbs_val dp) mod BB ^ length up = 0)
   \<and> lo_ok cfg"

lemma binv_okI:
  assumes "\<And>rn a b. b \<noteq> [] \<Longrightarrow> length b \<le> length a \<Longrightarrow> length a \<le> rn \<Longrightarrow> rn < 2 * (length a + length b) \<Longrightarrow>
      length (mpn_mulmod_bnm1 cfg rn a b) = min rn (length a + length b)
      \<and> limbs_val (mpn_mulmod_bnm1 cfg rn a b) mod (BB ^ rn - 1) = limbs_val a * limbs_val b mod (BB ^ rn - 1)
      \<and> (limbs_val (mpn_mulmod_bnm1 cfg rn a b) = 0 \<longleftrightarrow> limbs_val a = 0 \<or> limbs_val b = 0)"
    and "\<And>n. 1 < n \<Longrightarrow> n \<le> mpn_mulmod_bnm1_next_size cfg n \<and> mpn_mulmod_bnm1_next_size cfg n < 2 * n"
    and "\<And>up dp dinv. (unat (dp ! 0) * unat dinv + 1) mod BB = 0 \<Longrightarrow> dp \<noteq> [] \<Longrightarrow> length dp \<le> length up \<Longrightarrow>
      length (mpn_dcpi1_bdiv_q cfg up dp dinv) = length up
      \<and> (limbs_val up + limbs_val (mpn_dcpi1_bdiv_q cfg up dp dinv) * limbs_val dp) mod BB ^ length up = 0"
    and "lo_ok cfg"
  shows "binv_ok cfg"
  unfolding binv_ok_def
  by (rule conjI, (intro allI impI, rule assms(1), assumption+), rule conjI, (intro allI impI, rule assms(2), assumption),
      rule conjI, (intro allI impI, rule assms(3), assumption+), rule assms(4))

lemma binv_okD:
  assumes "binv_ok cfg"
  shows "b \<noteq> [] \<Longrightarrow> length b \<le> length a \<Longrightarrow> length a \<le> rn \<Longrightarrow> rn < 2 * (length a + length b) \<Longrightarrow>
      length (mpn_mulmod_bnm1 cfg rn a b) = min rn (length a + length b)
      \<and> limbs_val (mpn_mulmod_bnm1 cfg rn a b) mod (BB ^ rn - 1) = limbs_val a * limbs_val b mod (BB ^ rn - 1)
      \<and> (limbs_val (mpn_mulmod_bnm1 cfg rn a b) = 0 \<longleftrightarrow> limbs_val a = 0 \<or> limbs_val b = 0)"
    and "1 < n \<Longrightarrow> n \<le> mpn_mulmod_bnm1_next_size cfg n \<and> mpn_mulmod_bnm1_next_size cfg n < 2 * n"
    and "(unat (dp ! 0) * unat dinv + 1) mod BB = 0 \<Longrightarrow> dp \<noteq> [] \<Longrightarrow> length dp \<le> length up \<Longrightarrow>
      length (mpn_dcpi1_bdiv_q cfg up dp dinv) = length up
      \<and> (limbs_val up + limbs_val (mpn_dcpi1_bdiv_q cfg up dp dinv) * limbs_val dp) mod BB ^ length up = 0"
    and "lo_ok cfg"
proof -
  note c1 = conjunct1 [OF assms [unfolded binv_ok_def]] and c2 = conjunct2 [OF assms [unfolded binv_ok_def]]
  show "b \<noteq> [] \<Longrightarrow> length b \<le> length a \<Longrightarrow> length a \<le> rn \<Longrightarrow> rn < 2 * (length a + length b) \<Longrightarrow>
      length (mpn_mulmod_bnm1 cfg rn a b) = min rn (length a + length b)
      \<and> limbs_val (mpn_mulmod_bnm1 cfg rn a b) mod (BB ^ rn - 1) = limbs_val a * limbs_val b mod (BB ^ rn - 1)
      \<and> (limbs_val (mpn_mulmod_bnm1 cfg rn a b) = 0 \<longleftrightarrow> limbs_val a = 0 \<or> limbs_val b = 0)"
    by (rule c1 [rule_format])
  show "1 < n \<Longrightarrow> n \<le> mpn_mulmod_bnm1_next_size cfg n \<and> mpn_mulmod_bnm1_next_size cfg n < 2 * n"
    by (rule conjunct1 [OF c2, rule_format])
  show "(unat (dp ! 0) * unat dinv + 1) mod BB = 0 \<Longrightarrow> dp \<noteq> [] \<Longrightarrow> length dp \<le> length up \<Longrightarrow>
      length (mpn_dcpi1_bdiv_q cfg up dp dinv) = length up
      \<and> (limbs_val up + limbs_val (mpn_dcpi1_bdiv_q cfg up dp dinv) * limbs_val dp) mod BB ^ length up = 0"
    by (rule conjunct1 [OF conjunct2 [OF c2], rule_format])
  show "lo_ok cfg" by (rule conjunct2 [OF conjunct2 [OF c2]])
qed

lemma BB_mono: "i \<le> j \<Longrightarrow> BB ^ i \<le> BB ^ j"
  using BB_gt1 by (intro power_increasing) simp_all

text \<open>The representative of the class that \<open>mpn_mulmod_bnm1\<close> delivers, by the two halves of the product.\<close>

lemma mulmod_representative:
  fixes M lo hi r :: nat
  assumes "0 < M" and "lo \<le> M" and "hi < M" and "r \<le> M"
    and "r mod M = (lo + hi + M * hi) mod M" and "r = 0 \<longleftrightarrow> lo + hi + M * hi = 0"
  shows "r = (if lo + hi \<le> M then lo + hi else lo + hi - M)"
proof -
  have m: "r mod M = (lo + hi) mod M" using assms(5) by simp
  have z: "r = 0 \<longleftrightarrow> lo + hi = 0" using assms(6) by auto
  consider "lo + hi = 0" | "0 < lo + hi" "lo + hi < M" | "lo + hi = M" | "M < lo + hi" by linarith
  then show ?thesis
  proof cases
    case 2
    then have "r mod M = lo + hi" using m by simp
    then show ?thesis using 2 assms(4) by (cases "r = M") auto
  next
    case 3
    then have "r mod M = 0" using m by simp
    then show ?thesis using 3 z assms(1,4) by (cases "r = M") auto
  next
    case 4
    then have "(lo + hi) mod M = lo + hi - M" using assms(2,3) by (subst mod_if) simp
    then show ?thesis using 4 m assms(4) by (cases "r = M") auto
  qed (use z in auto)
qed

lemma mulmod_value:
  assumes ok: "binv_ok cfg" and b: "b \<noteq> []" "length b \<le> length a" "length a \<le> rn" "rn < 2 * (length a + length b)"
    and p: "limbs_val a * limbs_val b = lo + BB ^ rn * hi" "lo < BB ^ rn" "hi + 1 < BB ^ rn"
  shows "length (mpn_mulmod_bnm1 cfg rn a b) = min rn (length a + length b)"
    and "limbs_val (mpn_mulmod_bnm1 cfg rn a b) = (if lo + hi < BB ^ rn then lo + hi else lo + hi + 1 - BB ^ rn)"
proof -
  let ?r = "mpn_mulmod_bnm1 cfg rn a b" and ?M = "BB ^ rn - 1"
  note c = binv_okD(1) [OF ok b]
  show l: "length ?r = min rn (length a + length b)" using c by simp
  have "limbs_val ?r < BB ^ rn"
    using limbs_val_lt [of ?r] l BB_mono [of "length ?r" rn] by (simp add: order.strict_trans2)
  have e: "limbs_val a * limbs_val b = lo + hi + ?M * hi"
    using p by (cases "BB ^ rn") (simp_all add: algebra_simps)
  have "limbs_val ?r = (if lo + hi \<le> ?M then lo + hi else lo + hi - ?M)"
  proof (rule mulmod_representative)
    show "limbs_val ?r mod ?M = (lo + hi + ?M * hi) mod ?M" using c unfolding e by blast
    show "limbs_val ?r = 0 \<longleftrightarrow> lo + hi + ?M * hi = 0" unfolding e [symmetric] using c by simp
  qed (use p \<open>limbs_val ?r < BB ^ rn\<close> in linarith)+
  then show "limbs_val ?r = (if lo + hi < BB ^ rn then lo + hi else lo + hi + 1 - BB ^ rn)"
    using p(2) by (auto split: if_splits)
qed

lemma limbs_val_drop_div:
  assumes "k \<le> length xs"
  shows "limbs_val (drop k xs) = limbs_val xs div BB ^ k"
  using limbs_val_split [OF assms] limbs_val_lt [of "take k xs"] assms by simp

lemma limbs_val_slice:
  assumes "k + d \<le> length xs"
  shows "limbs_val (take d (drop k xs)) = limbs_val xs div BB ^ k mod BB ^ d"
  using limbs_val_mod [of d "drop k xs"] limbs_val_drop_div [of k xs] assms by simp

section \<open>The Newton step\<close>

text \<open>The arithmetic: \<open>u * r\<close> is one modulo \<open>q\<close>; the next \<open>d\<close> digits of the product, times \<open>- r\<close>, are those of the inverse.\<close>

lemma newton_digits:
  fixes u r q d t h :: nat
  assumes "u * r mod (q * d) = (1 + q * t) mod (q * d)" and "d dvd q"
    and "(h + r * t) mod d = 0" and "1 < q"
  shows "u * (r + q * h) mod (q * d) = 1 mod (q * d)"
proof -
  have "d dvd q * d" by simp
  then have "u * r mod d = (1 + q * t) mod d"
    using arg_cong [OF assms(1), of "\<lambda>x. x mod d"] by (simp only: mod_mod_cancel)
  moreover obtain j where "q = d * j" using assms(2) by blast
  ultimately have ur: "u * r mod d = 1 mod d" by (simp only: mult.assoc mod_mult_self2)
  have "(t + u * h) mod d = (u * r * t + u * h) mod d"
  proof (rule mod_add_cong [OF _ refl])
    show "t mod d = u * r * t mod d" using mod_mult_cong [OF ur refl, of t] by simp
  qed
  also have "u * r * t + u * h = u * (h + r * t)" by (simp add: algebra_simps)
  also have "\<dots> mod d = 0" using mod_mult_cong [OF refl, of "h + r * t" d 0 u] assms(3) by simp
  finally have th: "(t + u * h) mod d = 0" .
  have "u * (r + q * h) mod (q * d) = (u * r + q * (u * h)) mod (q * d)" by (simp add: algebra_simps)
  also have "\<dots> = (1 + q * t + q * (u * h)) mod (q * d)" by (rule mod_add_cong [OF assms(1) refl])
  also have "1 + q * t + q * (u * h) = 1 + q * (t + u * h)" by (simp add: algebra_simps)
  also have "\<dots> mod (q * d) = (1 + q * ((t + u * h) mod d)) mod (q * d)"
    unfolding mult_mod_right by (rule mod_add_right_eq [symmetric])
  finally show ?thesis unfolding th by simp
qed

lemma newton_wrap:
  fixes u r :: nat
  assumes u: "u < BB ^ k" and r: "r < BB ^ n" and ur: "u * r mod BB ^ n = 1" and n: "n < k" "k \<le> m"
  defines "lo \<equiv> u * r mod BB ^ m" and "hi \<equiv> u * r div BB ^ m"
  shows "hi + 1 < BB ^ n" and "lo + hi < BB ^ m" and "(lo + hi) div BB ^ n = lo div BB ^ n"
    and "u * r mod BB ^ k = (1 + BB ^ n * (lo div BB ^ n)) mod BB ^ k"
proof -
  have n0: "0 < n"
  proof (rule ccontr)
    assume "\<not> 0 < n"
    then show False using ur by simp
  qed
  show h: "hi + 1 < BB ^ n"
  proof (rule ccontr)
    assume "\<not> hi + 1 < BB ^ n"
    then have "r \<le> hi" using r by linarith
    then have "BB ^ k * r \<le> BB ^ m * hi" using n by (intro mult_le_mono BB_mono) simp_all
    also have "\<dots> \<le> u * r" by (simp add: hi_def)
    finally have "BB ^ k * r \<le> u * r" .
    moreover have "0 < r" using ur n0 by (cases r) simp_all
    ultimately show False using u by simp
  qed
  have d: "BB ^ n dvd BB ^ m" "BB ^ k dvd BB ^ m" using n by (simp_all add: le_imp_power_dvd)
  have l1: "lo mod BB ^ n = 1" using ur d(1) by (simp add: lo_def mod_mod_cancel)
  then have lo: "lo = 1 + BB ^ n * (lo div BB ^ n)" using mod_mult_div_eq [of lo "BB ^ n"] by linarith
  have "lo < BB ^ n * BB ^ (m - n)" using n by (simp add: lo_def flip: power_add)
  then have "lo div BB ^ n < BB ^ (m - n)" by (simp add: less_mult_imp_div_less mult.commute)
  then have "BB ^ n * (lo div BB ^ n + 1) \<le> BB ^ n * BB ^ (m - n)" by (intro mult_le_mono2) simp
  also have "\<dots> = BB ^ m" using n by (simp flip: power_add)
  finally have t: "BB ^ n * (lo div BB ^ n) + BB ^ n \<le> BB ^ m" by simp
  have s: "lo + hi = (hi + 1) + BB ^ n * (lo div BB ^ n)" using lo by linarith
  then show "lo + hi < BB ^ m" using h t by linarith
  have "((hi + 1) + BB ^ n * (lo div BB ^ n)) div BB ^ n = lo div BB ^ n + (hi + 1) div BB ^ n"
    by (rule div_mult_self2) simp
  moreover have "(hi + 1) div BB ^ n = 0" using h by (rule div_less)
  ultimately show "(lo + hi) div BB ^ n = lo div BB ^ n" unfolding s by linarith
  have "u * r mod BB ^ k = lo mod BB ^ k" using d(2) by (simp add: lo_def mod_mod_cancel)
  then show "u * r mod BB ^ k = (1 + BB ^ n * (lo div BB ^ n)) mod BB ^ k" using lo by simp
qed

lemma binvert_step_spec:
  assumes ok: "binv_ok cfg" and n: "length rp < newrn" "newrn \<le> 2 * length rp" "newrn \<le> length up"
    and inv: "limbs_val up * limbs_val rp mod BB ^ length rp = 1"
  shows "length (binvert_step cfg up rp newrn) = newrn"
    and "limbs_val up * limbs_val (binvert_step cfg up rp newrn) mod BB ^ newrn = 1"
proof -
  define rn d m U where "rn = length rp" and "d = newrn - rn" and "m = mpn_mulmod_bnm1_next_size cfg newrn"
    and "U = take newrn up"
  have rn: "0 < rn" "newrn = rn + d" "0 < d" "d \<le> rn" "length rp = rn" "length U = newrn"
    using n by (auto simp: rn_def d_def U_def)
  have m: "newrn \<le> m" "m < 2 * newrn" using binv_okD(2) [OF ok, of newrn] rn by (simp_all add: m_def)
  have ne: "rp \<noteq> []" using rn by auto
  have Ul: "limbs_val U mod BB ^ newrn = limbs_val up mod BB ^ newrn"
    unfolding U_def by (rule limbs_val_take_mod)
  have "BB ^ rn dvd BB ^ newrn" using rn by (simp add: le_imp_power_dvd)
  then have "limbs_val U mod BB ^ rn = limbs_val up mod BB ^ rn"
    using arg_cong [OF Ul, of "\<lambda>x. x mod BB ^ rn"] by (simp only: mod_mod_cancel)
  then have inv': "limbs_val U * limbs_val rp mod BB ^ rn = 1"
    using inv mod_mult_cong [of "limbs_val U" "BB ^ rn" "limbs_val up" "limbs_val rp" "limbs_val rp"] by (simp add: rn_def)
  define lo hi where "lo = limbs_val U * limbs_val rp mod BB ^ m" and "hi = limbs_val U * limbs_val rp div BB ^ m"
  have UB: "limbs_val U < BB ^ newrn" "limbs_val rp < BB ^ rn" using limbs_val_lt [of U] limbs_val_lt [of rp] rn by simp_all
  note w = newton_wrap [OF UB inv' _ m(1), folded lo_def hi_def]
  have k: "rn < newrn" using rn by simp
  have hm: "hi + 1 < BB ^ m"
    using w(1) [OF k] BB_mono [of rn m] k m(1) by simp
  define xp where "xp = mpn_mulmod_bnm1 cfg m U rp"
  have xp: "length xp = min m (newrn + rn)" "limbs_val xp = lo + hi"
    using mulmod_value [OF ok ne, of U m lo hi] rn m w(2) [OF k] hm
    by (simp_all add: xp_def lo_def hi_def)
  define T where "T = take d (drop rn xp)"
  define t where "t = lo div BB ^ rn"
  have T: "length T = d" "limbs_val T = t mod BB ^ d"
    using limbs_val_slice [of rn d xp] xp w(3) [OF k] rn m by (simp_all add: T_def t_def)
  define p where "p = mpn_mullo_n cfg (take d rp) T"
  have ld: "length (take d rp) = d" using rn by simp
  have lo: "lo_ok cfg" by (rule binv_okD(4) [OF ok])
  have p: "length p = d" "limbs_val p = limbs_val (take d rp) * limbs_val T mod BB ^ d"
    using mpn_mullo_n_spec [OF lo, of "take d rp" T] ld T(1) rn ne by (auto simp: p_def)
  define h where "h = fst (mpn_neg p)"
  have h: "length h = d" "(limbs_val h + limbs_val p) mod BB ^ d = 0"
    using mpn_neg_mod [of p] p(1) by (simp_all add: h_def)
  have res: "binvert_step cfg up rp newrn = rp @ h"
    by (simp add: binvert_step_def Let_def h_def p_def T_def xp_def flip: rn_def d_def m_def U_def)
  show "length (binvert_step cfg up rp newrn) = newrn" using res h(1) rn by simp
  have pm: "limbs_val p mod BB ^ d = limbs_val rp * t mod BB ^ d"
  proof -
    have "limbs_val p mod BB ^ d = limbs_val (take d rp) * limbs_val T mod BB ^ d" using p(2) by simp
    also have "\<dots> = limbs_val rp * t mod BB ^ d"
      by (rule mod_mult_cong [OF limbs_val_take_mod]) (simp add: T(2))
    finally show ?thesis .
  qed
  have "(limbs_val h + limbs_val rp * t) mod BB ^ d = 0"
    using mod_add_cong [OF refl pm, of "limbs_val h"] h(2) by simp
  moreover have "1 < BB ^ rn" using rn(1) BB_gt1 by (rule one_less_power [rotated])
  moreover have "BB ^ d dvd BB ^ rn" using rn(4) by (simp add: le_imp_power_dvd)
  moreover have "BB ^ newrn = BB ^ rn * BB ^ d" by (simp add: rn(2) power_add)
  ultimately have "limbs_val U * (limbs_val rp + BB ^ rn * limbs_val h) mod BB ^ newrn = 1 mod BB ^ newrn"
    using newton_digits [of "limbs_val U" "limbs_val rp" "BB ^ rn" "BB ^ d" t "limbs_val h"] w(4) [OF k]
    by (simp add: t_def)
  moreover have "1 < BB ^ newrn" using rn by (intro one_less_power [OF BB_gt1]) auto
  then have "1 mod BB ^ newrn = 1" by (rule mod_less)
  ultimately have "limbs_val U * limbs_val (rp @ h) mod BB ^ newrn = 1" by (simp only: limbs_val_app rn(5))
  then show "limbs_val up * limbs_val (binvert_step cfg up rp newrn) mod BB ^ newrn = 1"
    unfolding res using mod_mult_cong [OF Ul refl, of "limbs_val (rp @ h)"] by simp
qed

lemma binvert_steps_spec:
  assumes ok: "binv_ok cfg"
  shows "0 < n \<Longrightarrow> n \<le> length up \<Longrightarrow> binvert_sizes thr n = (sizes, base) \<Longrightarrow>
    0 < base \<and> base \<le> n \<and> (\<forall>rp. length rp = base \<longrightarrow> limbs_val up * limbs_val rp mod BB ^ base = 1 \<longrightarrow>
      length (foldl (binvert_step cfg up) rp sizes) = n
      \<and> limbs_val up * limbs_val (foldl (binvert_step cfg up) rp sizes) mod BB ^ n = 1)"
proof (induction n arbitrary: sizes rule: less_induct)
  case (less n)
  show ?case
  proof (cases "ABOVE_THRESHOLD n thr \<and> 1 < n")
    case True
    obtain s where s: "binvert_sizes thr ((n + 1) div 2) = (s, base)" "sizes = s @ [n]"
      using less.prems(3) True by (subst (asm) binvert_sizes.simps) (auto simp: Let_def split: prod.splits)
    have b: "(n + 1) div 2 < n" "0 < (n + 1) div 2" "(n + 1) div 2 \<le> length up" "n \<le> 2 * ((n + 1) div 2)"
      using True less.prems(2) by auto
    note IH = less.IH [OF b(1,2,3) s(1)]
    show ?thesis
      using IH b less.prems(2) binvert_step_spec [OF ok, of "foldl (binvert_step cfg up) _ s" n up]
      by (auto simp: s(2))
  next
    case False
    then have "sizes = []" "base = n"
      using less.prems(3) by (subst (asm) binvert_sizes.simps, auto)+
    then show ?thesis using less.prems by simp
  qed
qed

lemma mpn_binvert_spec:
  assumes ok: "binv_ok cfg" and n: "0 < n" "n \<le> length up" and odd: "odd (limbs_val up)"
  shows "length (mpn_binvert cfg up n) = n"
    and "limbs_val up * limbs_val (mpn_binvert cfg up n) mod BB ^ n = 1"
proof -
  obtain sizes rn where sz: "binvert_sizes (BINV_NEWTON_THRESHOLD cfg) n = (sizes, rn)" by fastforce
  note st = binvert_steps_spec [OF ok n sz]
  have rn: "0 < rn" "rn \<le> length up" using st n by auto
  define xp where "xp = (1 :: limb) # replicate (rn - 1) 0"
  have z: "limbs_val (replicate k 0) = 0" for k by (induction k) simp_all
  have xp: "length xp = rn" "limbs_val xp = 1" using rn(1) by (simp_all add: xp_def z)
  define dp di where "dp = take rn up" and "di = binvert_limb (up ! 0)"
  have dp: "length dp = rn" "dp \<noteq> []" "dp ! 0 = up ! 0" using rn by (auto simp: dp_def)
  have up: "up \<noteq> []" using rn by auto
  have "odd (unat (up ! 0))"
    using odd up by (cases up) (simp_all add: BB_def)
  then have inv: "(unat (dp ! 0) * unat (- di) + 1) mod BB = 0"
    using binvert_limb_redc [of "[up ! 0]"] dp(3) by (simp add: di_def)
  define q where "q = (if BELOW_THRESHOLD rn (DC_BDIV_Q_THRESHOLD cfg) then mpn_sbpi1_bdiv_q xp dp (- di)
      else mpn_dcpi1_bdiv_q cfg xp dp (- di))"
  have q: "length q = rn" "(1 + limbs_val q * limbs_val dp) mod BB ^ rn = 0"
    using mpn_sbpi1_bdiv_q_spec [OF inv dp(2), of xp] binv_okD(3) [OF ok inv dp(2), of xp] dp xp
    by (auto simp: q_def)
  define r where "r = fst (mpn_neg q)"
  have r: "length r = rn" "(limbs_val r + limbs_val q) mod BB ^ rn = 0"
    using mpn_neg_mod [of q] q(1) by (simp_all add: r_def)
  have "limbs_val dp * limbs_val r mod BB ^ rn
      = (limbs_val dp * limbs_val r + (1 + limbs_val q * limbs_val dp)) mod BB ^ rn"
    using mod_add_right_eq [of "limbs_val dp * limbs_val r" "1 + limbs_val q * limbs_val dp" "BB ^ rn"] q(2) by simp
  also have "limbs_val dp * limbs_val r + (1 + limbs_val q * limbs_val dp)
      = 1 + limbs_val dp * (limbs_val r + limbs_val q)" by (simp add: algebra_simps)
  also have "\<dots> mod BB ^ rn = (1 + limbs_val dp * ((limbs_val r + limbs_val q) mod BB ^ rn)) mod BB ^ rn"
    by (intro mod_add_cong refl) (simp only: mod_mult_right_eq)
  also have "\<dots> = 1" unfolding r(2) using rn(1) BB_gt1 one_less_power [of BB rn] by simp
  finally have "limbs_val up * limbs_val r mod BB ^ rn = 1"
    using mod_mult_cong [OF limbs_val_take_mod refl, of rn up "limbs_val r"] by (simp add: dp_def)
  then have f: "length (foldl (binvert_step cfg up) r sizes) = n
      \<and> limbs_val up * limbs_val (foldl (binvert_step cfg up) r sizes) mod BB ^ n = 1" using st r(1) by blast
  have "mpn_binvert cfg up n = foldl (binvert_step cfg up) r sizes"
    by (simp add: mpn_binvert_def sz Let_def r_def q_def xp_def dp_def di_def)
  then show "length (mpn_binvert cfg up n) = n" "limbs_val up * limbs_val (mpn_binvert cfg up n) mod BB ^ n = 1"
    using f by simp_all
qed

section \<open>Reduction with the full inverse\<close>

text \<open>
  The product \<open>P\<close> of less than \<open>M * K\<close> comes back as \<open>Y\<close>, wrapped around at \<open>M\<close>.  Its low digits
  are known (\<open>u\<close>); what is subtracted there is the part that was wrapped, and its borrow is the
  carry that the wrapping caused.
\<close>

lemma redc_unwrap:
  fixes P Y M K u h c :: nat
  assumes K: "0 < K" "K dvd M" "K \<le> M" and P: "P + K \<le> M * K"
    and Y: "Y = (if P mod M + P div M < M then P mod M + P div M else P mod M + P div M + 1 - M)"
    and u: "u mod K = P mod K" and h: "h < K" "h + u mod K = Y mod K + K * c"
  shows "(Y + M * h) div K = P div K + c"
proof -
  define lo hi where "lo = P mod M" and "hi = P div M"
  have M: "0 < M" using K by simp
  have P': "P = lo + M * hi" "lo < M" using M by (simp_all add: lo_def hi_def)
  have "M * hi < M * K" using P P' K(1) by linarith
  then have hK: "hi < K" by simp
  have "\<exists>e. e < K \<and> Y + M * e = P + e"
  proof (cases "lo + hi < M")
    case True
    then show ?thesis using Y hK P' unfolding lo_def [symmetric] hi_def [symmetric] by (intro exI [of _ hi]) simp
  next
    case False
    have "hi + 1 < K"
    proof (rule ccontr)
      assume "\<not> hi + 1 < K"
      then have hi: "K = hi + 1" using hK by simp
      have "M * K = M * hi + M" unfolding hi by simp
      then show False using P P'(1) False hi by linarith
    qed
    then show ?thesis
      using Y P' False unfolding lo_def [symmetric] hi_def [symmetric] by (intro exI [of _ "hi + 1"]) simp
  qed
  then obtain e where e: "e < K" "Y + M * e = P + e" by blast
  obtain j where j: "M = K * j" using K(2) by blast
  define l where "l = P mod K"
  have l: "l < K" "P = l + K * (P div K)" using K(1) by (simp_all add: l_def)
  have "Y mod K = (Y + K * (j * e)) mod K" by simp
  also have "Y + K * (j * e) = (l + e) + K * (P div K)" using e(2) l(2) unfolding j by (simp only: mult.assoc)
  also have "\<dots> mod K = (l + e) mod K" by simp
  finally have Ym: "Y mod K = (l + e) mod K" .
  have "h = e \<and> c = (if l + e < K then 0 else 1)"
  proof (cases "l + e < K")
    case True
    then have "h = e + K * c" using h(2) Ym u by (simp add: l_def [symmetric])
    then show ?thesis using h(1) True by (cases c) auto
  next
    case False
    then have "(l + e) mod K = l + e - K" using l(1) e(1) by (simp add: mod_if)
    then have h': "h + K = e + K * c" using h(2) Ym u False by (simp add: l_def [symmetric])
    show ?thesis
    proof (cases c)
      case 0
      then show ?thesis using h' e(1) by simp
    next
      case (Suc d)
      then have "h = e + K * d" using h' by simp
      then show ?thesis using h(1) Suc False by (cases d) auto
    qed
  qed
  then have he: "h = e" "c = (if l + e < K then 0 else 1)" by auto
  have "Y + M * h = (l + e) + K * (P div K)" using e(2) l(2) unfolding he(1) by linarith
  then have "(Y + M * h) div K = P div K + (l + e) div K" using K(1) by simp
  also have "(l + e) div K = c"
    using he(2) l(1) e(1) K(1) by (cases "l + e < K") (simp_all add: le_div_geq)
  finally show ?thesis .
qed

lemma redc_n_close:
  assumes l: "length rp = length mp" and c: "c = 0 \<or> c = 1"
    and e: "limbs_val rp * BB ^ length mp + x * limbs_val mp = t + BB ^ length mp * BB ^ length mp * unat c"
    and x: "x < BB ^ length mp" and m: "0 < limbs_val mp"
  shows "length (if c \<noteq> 0 then fst (mpn_add_n rp mp) else rp) = length mp
    \<and> redc_result (limbs_val mp) (BB ^ length mp) t (limbs_val (if c \<noteq> 0 then fst (mpn_add_n rp mp) else rp))"
proof -
  define R m r where "R = BB ^ length mp" and "m = limbs_val mp" and "r = limbs_val rp"
  have R: "0 < R" "m < R" "r < R" using limbs_val_lt [of mp] limbs_val_lt [of rp] l by (simp_all add: R_def m_def r_def)
  have e': "r * R + x * m = t + R * R * unat c" using e by (simp add: R_def m_def r_def)
  show ?thesis
  proof (cases "c = 0")
    case True
    then have "t = r * R + x * m" using e' by simp
    then have "r * R mod m = t mod m" "r * R \<le> t + m * (R - 1)" by simp_all
    then show ?thesis using True l R by (simp add: redc_result_def R_def m_def r_def)
  next
    case False
    then have c1: "unat c = 1" using c by auto
    obtain rs b where a: "mpn_add_n rp mp = (rs, b)" by fastforce
    have s: "length rs = length mp" "b = 0 \<or> b = 1" "limbs_val rs + R * unat b = r + m"
      using mpn_add_n_spec [OF l a] l by (simp_all add: R_def r_def m_def)
    have "x * m < R * m" using x m unfolding R_def [symmetric] m_def [symmetric] by (rule mult_strict_right_mono)
    moreover have "r * R + x * m = t + R * R" using e' c1 by simp
    ultimately have "R * R < (r + m) * R" unfolding add_mult_distrib mult.commute [of m R] by linarith
    then have big: "R < r + m" by simp
    have "b \<noteq> 0"
    proof
      assume "b = 0"
      then have "limbs_val rs = r + m" using s(3) by simp
      then show False using big limbs_val_lt [of rs] s(1) by (simp add: R_def)
    qed
    then have v: "limbs_val rs + R = r + m" using s by auto
    have "(limbs_val rs + R) * R + x * m = r * R + m * R + x * m" unfolding v by (simp add: algebra_simps)
    then have q: "limbs_val rs * R + x * m = t + m * R" using e' c1 by (simp add: algebra_simps)
    have "0 < x"
    proof (rule ccontr)
      assume "\<not> 0 < x"
      then have "r * R = t + R * R" using e' c1 by simp
      moreover have "r * R < R * R" using R by simp
      ultimately show False by simp
    qed
    then have "m \<le> x * m" by simp
    then have "limbs_val rs * R + m \<le> t + m * R" using q by linarith
    moreover have "m * R = m * (R - 1) + m" using R by (cases R) simp_all
    ultimately have "limbs_val rs * R \<le> t + m * (R - 1)" by linarith
    moreover have "limbs_val rs * R mod m = t mod m"
    proof -
      have "limbs_val rs * R mod m = (limbs_val rs * R + x * m) mod m" by simp
      also have "\<dots> = t mod m" unfolding q by simp
      finally show ?thesis .
    qed
    moreover have "limbs_val rs < R" using limbs_val_lt [of rs] s(1) by (simp add: R_def)
    ultimately show ?thesis using False a s(1) by (simp add: redc_result_def R_def m_def)
  qed
qed

lemma mpn_redc_n_spec:
  assumes ok: "binv_ok cfg" and n: "1 < length mp" "length up = 2 * length mp" "length ip = length mp"
    and inv: "limbs_val mp * limbs_val ip mod BB ^ length mp = 1"
  shows "length (mpn_redc_n cfg up mp ip) = length mp
    \<and> redc_result (limbs_val mp) (BB ^ length mp) (limbs_val up) (limbs_val (mpn_redc_n cfg up mp ip))"
proof -
  define n rn k where "n = length mp" and "rn = mpn_mulmod_bnm1_next_size cfg n" and "k = 2 * n - rn"
  have rn: "n \<le> rn" "rn < 2 * n" "1 < n" using binv_okD(2) [OF ok, of n] assms(2) by (simp_all add: n_def rn_def)
  then have k: "0 < k" "k \<le> n" "rn + k = 2 * n" "k \<le> rn" by (auto simp: k_def)
  have ln: "length mp = n" "length up = 2 * n" "length ip = n" using n by (simp_all add: n_def)
  define R m u where "R = BB ^ n" and "m = limbs_val mp" and "u = limbs_val up"
  have R1: "1 < R" unfolding R_def using rn by (intro one_less_power [OF BB_gt1]) simp
  have m: "m < R" "0 < m" using limbs_val_lt [of mp] inv R1 by (auto simp: m_def R_def n_def intro: gr0I)
  have up0: "up \<noteq> []" and mp0: "mp \<noteq> []" using ln rn by auto
  define xp where "xp = mpn_mullo_n cfg (take n up) ip"
  have xp: "length xp = n" "limbs_val xp = limbs_val (take n up) * limbs_val ip mod R"
    using mpn_mullo_n_spec [OF binv_okD(4) [OF ok], of "take n up" ip] ln rn up0 by (auto simp: xp_def R_def)
  define x P where "x = limbs_val xp" and "P = x * m"
  have xR: "x < R" using xp(2) R1 by (simp add: x_def)
  have Pu: "P mod R = u mod R"
  proof -
    have "x mod R = u * limbs_val ip mod R"
      unfolding x_def xp(2) mod_mod_trivial
      using mod_mult_cong [OF limbs_val_take_mod refl] by (simp add: R_def u_def)
    from mod_mult_cong [OF this refl] have "P mod R = u * (m * limbs_val ip) mod R" by (simp add: P_def ac_simps)
    also have "\<dots> = u * (m * limbs_val ip mod R) mod R" by (simp only: mod_mult_right_eq)
    finally show ?thesis using inv by (simp add: m_def R_def n_def)
  qed
  define M K where "M = BB ^ rn" and "K = BB ^ k"
  have MK: "M * K = R * R" using k(3) by (simp add: M_def K_def R_def mult_2 flip: power_add)
  have K: "0 < K" "K dvd M" "K \<le> M" "K \<le> R" "K dvd R" using k by (simp_all add: K_def M_def R_def le_imp_power_dvd BB_mono)
  have PK: "P + K \<le> M * K"
  proof -
    have "P \<le> (R - 1) * (R - 1)" unfolding P_def using xR m by (intro mult_le_mono) auto
    moreover obtain r where "R = Suc r" using R1 by (cases R) auto
    ultimately show ?thesis using K(4) unfolding MK by simp
  qed
  have hi: "P div M + 1 < M"
  proof (cases "k = rn")
    case True
    then have "rn = n" using k(3) by simp
    then have "M = R" by (simp add: M_def R_def)
    have "P \<le> (R - 1) * (R - 1)" unfolding P_def using xR m by (intro mult_le_mono) auto
    also have "\<dots> < R * (R - 1)" using R1 by simp
    finally have "P div R < R - 1" by (simp add: less_mult_imp_div_less mult.commute)
    then show ?thesis unfolding \<open>M = R\<close> by linarith
  next
    case False
    then have "K < M" using k BB_gt1 by (simp add: K_def M_def power_strict_increasing)
    moreover have "P < K * M" using PK K(1) by (simp add: mult.commute)
    then have "P div M < K" by (rule less_mult_imp_div_less)
    ultimately show ?thesis by linarith
  qed
  define yp where "yp = mpn_mulmod_bnm1 cfg rn xp mp"
  have "limbs_val xp * limbs_val mp = P mod BB ^ rn + BB ^ rn * (P div BB ^ rn)" by (simp add: P_def x_def m_def)
  note mv = mulmod_value [OF ok _ _ _ _ this]
  have yp: "length yp = rn"
      "limbs_val yp = (if P mod M + P div M < M then P mod M + P div M else P mod M + P div M + 1 - M)"
    using mv hi rn ln xp(1) mp0 by (auto simp: yp_def M_def)
  obtain hp cy where h: "mpn_sub_n (take k yp) (take k up) = (hp, cy)" by fastforce
  have lk: "length (take k yp) = k" "length (take k up) = k" using yp(1) k ln by simp_all
  have hp: "length hp = k" "cy = 0 \<or> cy = 1" "limbs_val hp + u mod K = limbs_val yp mod K + K * unat cy"
    using mpn_sub_n_spec [OF _ h] lk limbs_val_mod [of k yp] limbs_val_mod [of k up] yp(1) k ln
    by (simp_all add: K_def u_def)
  have hpK: "limbs_val hp < K" using limbs_val_lt [of hp] hp(1) by (simp add: K_def)
  have uK: "u mod K = P mod K" using arg_cong [OF Pu, of "\<lambda>x. x mod K"] K(5) by (simp add: mod_mod_cancel)
  note uw = redc_unwrap [OF K(1-3) PK yp(2) uK hpK hp(3)]
  define w where "w = drop k (yp @ hp)"
  have w: "length w = rn" "limbs_val w = P div K + unat cy"
    using limbs_val_drop_div [of k "yp @ hp"] uw yp(1) hp(1) k
    by (simp_all add: w_def limbs_val_app M_def K_def)
  have d: "length (mpn_decr_u w cy) = rn" "limbs_val (mpn_decr_u w cy) = P div K"
    using mpn_decr_u_spec [of w cy] w rn by force+
  define z where "z = drop n (take k (yp @ hp) @ mpn_decr_u w cy)"
  have z: "length z = n" "limbs_val z = P div R"
  proof -
    have t: "z = drop (n - k) (mpn_decr_u w cy)" using yp(1) hp(1) k by (simp add: z_def)
    then show "length z = n" using d(1) k rn by simp
    have "BB ^ k * BB ^ (n - k) = R" using k by (simp add: R_def flip: power_add)
    then show "limbs_val z = P div R"
      using limbs_val_drop_div [of "n - k" "mpn_decr_u w cy"] d k rn unfolding t
      by (simp add: K_def flip: div_mult2_eq)
  qed
  obtain rp c where s: "mpn_sub_n (drop n up) z = (rp, c)" by fastforce
  have lu: "length (drop n up) = n" using ln by simp
  have sp: "length rp = n" "c = 0 \<or> c = 1" "limbs_val rp + P div R = u div R + R * unat c"
    using mpn_sub_n_spec [OF _ s] lu z limbs_val_drop_div [of n up] ln by (simp_all add: R_def u_def)
  have "limbs_val rp * R + P = (limbs_val rp + P div R) * R + P mod R" by (simp add: algebra_simps)
  also have "\<dots> = u + R * R * unat c" unfolding sp(3) Pu by (simp add: algebra_simps)
  finally have "limbs_val rp * BB ^ length mp + x * limbs_val mp = u + BB ^ length mp * BB ^ length mp * unat c"
    by (simp add: P_def m_def R_def n_def)
  note cl = redc_n_close [OF _ sp(2) this]
  have "mpn_redc_n cfg up mp ip = (if c \<noteq> 0 then fst (mpn_add_n rp mp) else rp)"
    using h s unfolding mpn_redc_n_def Let_def n_def [symmetric] rn_def [symmetric] k_def [symmetric]
      xp_def [symmetric] yp_def [symmetric] by (simp add: z_def w_def del: take_append drop_append)
  then show ?thesis using cl sp(1) xR m by (simp add: R_def m_def u_def n_def)
qed
end
