(* ===== verification/Gmp_Mod_1.thy ===== *)
theory Gmp_Mod_1
  imports Gmp_Square Gmp_Config
begin

unbundle bit_operations_syntax

text \<open>
  Division by a limb: two limbs by one with the portable \<open>__udiv_qrnnd_c\<close> (\<open>longlong.h\<close>) and with a
  precomputed inverse (\<open>gmp-impl.h\<close>), and the remainder of a vector, \<open>mpn/generic/mod_1.c\<close>.  The
  divisor of the two-by-one steps is normalised, that is its highest bit is set.
\<close>

section \<open>Definitions\<close>

text \<open>
  \<open>__udiv_qrnnd_c\<close> makes the same step twice, each for half a limb of the quotient: an estimate
  from the high half of the divisor, corrected at most twice.
\<close>

definition udiv_half :: "limb \<Rightarrow> limb \<Rightarrow> limb \<Rightarrow> limb \<times> limb" where
  "udiv_half d n1 nl =
     (let d1 = ll_highpart d; d0 = ll_lowpart d;
        q = n1 div d1;
        r = n1 - q * d1;
        m = q * d0;
        r = (r * 2 ^ 32) OR nl;
        (q, r) =
          (if r < m
           then let q = q - 1; r = r + d
                in if r \<ge> d then if r < m then (q - 1, r + d) else (q, r) else (q, r)
           else (q, r))
      in (q, r - m))"

definition udiv_qrnnd :: "limb \<Rightarrow> limb \<Rightarrow> limb \<Rightarrow> limb \<times> limb" where
  "udiv_qrnnd n1 n0 d =
     (let (q1, r1) = udiv_half d n1 (ll_highpart n0);
        (q0, r0) = udiv_half d r1 (ll_lowpart n0)
      in ((q1 * 2 ^ 32) OR q0, r0))"

definition invert_limb :: "limb \<Rightarrow> limb" where
  "invert_limb xl = fst (udiv_qrnnd (NOT xl) (NOT 0) xl)"

definition add_ssaaaa :: "limb \<Rightarrow> limb \<Rightarrow> limb \<Rightarrow> limb \<Rightarrow> limb \<times> limb" where
  "add_ssaaaa ah al bh bl = (let x = al + bl in (ah + bh + of_bool (x < al), x))"

definition udiv_rnnd_preinv :: "limb \<Rightarrow> limb \<Rightarrow> limb \<Rightarrow> limb \<Rightarrow> limb" where
  "udiv_rnnd_preinv nh nl d di =
     (let (qh, ql) = umul_ppmm nh di;
        (qh, ql) = add_ssaaaa qh ql (nh + 1) nl;
        r = nl - qh * d;
        mask = - of_bool (r > ql);
        r = r + (mask AND d)
      in if r \<ge> d then r - d else r)"

text \<open>The loops walk down from the most significant limb; \<open>step\<close> is the division of two limbs they use.\<close>

fun mod_1_norm_loop :: "(limb \<Rightarrow> limb \<Rightarrow> limb) \<Rightarrow> limb \<Rightarrow> limb list \<Rightarrow> limb" where
  "mod_1_norm_loop step r [] = r"
| "mod_1_norm_loop step r (n0 # us) = mod_1_norm_loop step (step r n0) us"

definition mpn_mod_1_norm :: "mpn_cfg \<Rightarrow> limb list \<Rightarrow> limb \<Rightarrow> limb" where
  "mpn_mod_1_norm cfg up d =
     (let r = last up;
        r = (if r \<ge> d then r - d else r);
        un = length up - 1
      in if un = 0 then r
         else if BELOW_THRESHOLD un (MOD_1_NORM_THRESHOLD cfg)
         then mod_1_norm_loop (\<lambda>r n0. snd (udiv_qrnnd r n0 d)) r (rev (butlast up))
         else let inv = invert_limb d
              in mod_1_norm_loop (\<lambda>r n0. udiv_rnnd_preinv r n0 d inv) r (rev (butlast up)))"

fun mod_1_unnorm_loop :: "(limb \<Rightarrow> limb \<Rightarrow> limb) \<Rightarrow> nat \<Rightarrow> limb \<Rightarrow> limb \<Rightarrow> limb list \<Rightarrow> limb" where
  "mod_1_unnorm_loop step cnt r n1 [] = step r (push_bit cnt n1)"
| "mod_1_unnorm_loop step cnt r n1 (n0 # us) =
     (let nshift = push_bit cnt n1 OR drop_bit (64 - cnt) n0
      in mod_1_unnorm_loop step cnt (step r nshift) n0 us)"

definition mpn_mod_1_unnorm :: "mpn_cfg \<Rightarrow> limb list \<Rightarrow> limb \<Rightarrow> limb" where
  "mpn_mod_1_unnorm cfg up d =
     (let r = last up
      in if r < d \<and> length up - 1 = 0 then r
         else let (up, r) = (if r < d then (butlast up, r) else (up, 0));
             cnt = count_leading_zeros d;
             d = push_bit cnt d;
             n1 = last up;
             r = push_bit cnt r OR drop_bit (64 - cnt) n1
           in if BELOW_THRESHOLD (length up) (MOD_1_UNNORM_THRESHOLD cfg)
              then drop_bit cnt (mod_1_unnorm_loop (\<lambda>r n0. snd (udiv_qrnnd r n0 d)) cnt r n1 (rev (butlast up)))
              else let inv = invert_limb d
                   in drop_bit cnt (mod_1_unnorm_loop (\<lambda>r n0. udiv_rnnd_preinv r n0 d inv) cnt r n1 (rev (butlast up))))"

text \<open>
  From the second pair of thresholds on, a routine for long vectors is taken (\<open>mod_1_1.c\<close> and its
  relatives).
\<close>

definition mpn_mod_1 :: "mpn_cfg \<Rightarrow> limb list \<Rightarrow> limb \<Rightarrow> limb" where
  "mpn_mod_1 cfg ap b =
     (let n = length ap
      in if n = 0 then 0
         else if bit b 63
         then if BELOW_THRESHOLD n (MOD_1N_TO_MOD_1_1_THRESHOLD cfg) then mpn_mod_1_norm cfg ap b
              else large_mod_1 cfg ap b
         else if BELOW_THRESHOLD n (MOD_1U_TO_MOD_1_1_THRESHOLD cfg) then mpn_mod_1_unnorm cfg ap b
         else large_mod_1 cfg ap b)"

section \<open>Half a limb of the quotient\<close>

lemma half_shift_or:
  assumes "unat r < HB" and "unat nl < HB"
  shows "unat ((r * 2 ^ 32) OR nl :: limb) = unat r * HB + unat nl"
proof -
  have "unat r * HB + HB \<le> HB * HB" using mult_le_mono1 [of "Suc (unat r)" HB HB] assms(1) by simp
  then have "unat r * HB < BB" using HB_pos unfolding BB_halves by linarith
  then have r: "unat (r * 2 ^ 32) = unat r * HB" by (simp add: unat_times_limb HB_def)
  have "2 ^ 32 dvd unat (r * 2 ^ 32)" unfolding r HB_def by simp
  moreover have "unat nl < 2 ^ 32" using assms(2) by (simp only: HB_def)
  ultimately show ?thesis using unat_or_shifted [of 32 "r * 2 ^ 32" nl] by (simp only: r)
qed

text \<open>The estimate of the quotient from the high half is at most two too large.\<close>

lemma half_estimate:
  fixes H D N nl :: nat
  assumes norm: "H * H \<le> 2 * D" and N: "N < D" and nl: "nl < H" and D: "D < H * H"
  defines "q \<equiv> N div (D div H)" and "R \<equiv> N mod (D div H) * H + nl"
  shows "D div H \<noteq> 0" and "q * (D mod H) < H * H" and "N * H + nl + q * (D mod H) = q * D + R" and "R < D"
    and "q * (D mod H) \<le> R + 2 * D"
proof -
  let ?d1 = "D div H" and ?d0 = "D mod H"
  have H: "0 < H" using nl by simp
  have Dd: "D = ?d1 * H + ?d0" by simp
  have d0: "?d0 < H" using H by simp
  have "H * H < 2 * (?d1 * H) + 2 * H" using norm Dd d0 by linarith
  then have "H * H < (2 * ?d1 + 2) * H" by (simp add: algebra_simps)
  then have "H < 2 * ?d1 + 2" by (rule mult_less_cancel2 [THEN iffD1, THEN conjunct2])
  then have big: "H \<le> 2 * ?d1 + 1" by linarith
  have H1: "H \<noteq> 1" using N norm D by auto
  show d1: "?d1 \<noteq> 0" using big H H1 by linarith
  have "q \<le> H + 1"
  proof (rule ccontr)
    assume "\<not> q \<le> H + 1"
    then have "(H + 2) * ?d1 \<le> q * ?d1" by (intro mult_le_mono1) simp
    also have "\<dots> \<le> N" unfolding q_def by simp
    finally have "?d1 * H + 2 * ?d1 \<le> N" by (simp add: algebra_simps)
    then show False using N Dd d0 big by linarith
  qed
  then have "q * ?d0 \<le> (H + 1) * (H - 1)" using d0 by (intro mult_le_mono) simp_all
  also have "\<dots> < H * H" using H by (cases H) simp_all
  finally show m: "q * ?d0 < H * H" .
  have "N = q * ?d1 + N mod ?d1" unfolding q_def by (rule div_mult_mod_eq [symmetric])
  then have "N * H + nl + q * ?d0 = (q * ?d1 + N mod ?d1) * H + nl + q * ?d0" by simp
  also have "\<dots> = q * (?d1 * H + ?d0) + R"
    unfolding R_def by (simp only: add_mult_distrib add_mult_distrib2 mult_ac add_ac)
  finally show "N * H + nl + q * ?d0 = q * D + R" by (simp only: div_mult_mod_eq)
  have "Suc (N mod ?d1) * H \<le> ?d1 * H" using d1 by (intro mult_le_mono1) (simp add: Suc_leI)
  then have "N mod ?d1 * H + H \<le> ?d1 * H" by simp
  then show "R < D" using nl Dd unfolding R_def by linarith
  show "q * ?d0 \<le> R + 2 * D" using m norm by linarith
qed

lemma limb_eq_of_nat: "x = of_nat n \<Longrightarrow> n < BB \<Longrightarrow> unat (x :: limb) = n"
  by (simp add: unsigned_of_nat take_bit_nat_eq_self BB_def)

lemma udiv_half_spec:
  assumes norm: "BB \<le> 2 * unat d" and n1: "n1 < d" and nl: "unat nl < HB" and u: "udiv_half d n1 nl = (q, r)"
  shows "unat n1 * HB + unat nl = unat q * unat d + unat r" and "r < d" and "unat q < HB"
proof -
  let ?D = "unat d" and ?N = "unat n1" and ?d1 = "ll_highpart d" and ?d0 = "ll_lowpart d"
  have D: "?D < HB * HB" "HB * HB \<le> 2 * ?D" "?N < ?D"
    using unat_lt_BB [of d] norm n1 by (simp_all add: BB_halves word_less_nat_alt)
  define Q where "Q = ?N div (?D div HB)"
  define R where "R = ?N mod (?D div HB) * HB + unat nl"
  define M where "M = Q * (?D mod HB)"
  note e = half_estimate [OF D(2,3) nl D(1), folded Q_def R_def, folded M_def]
  define qw where "qw = n1 div ?d1"
  define rw where "rw = ((n1 - qw * ?d1) * 2 ^ 32) OR nl"
  define mw where "mw = qw * ?d0"
  have q: "unat qw = Q" by (simp add: qw_def Q_def unat_div_distrib unat_ll_highpart)
  have "n1 - qw * ?d1 = n1 mod ?d1" by (simp add: qw_def minus_div_mult_eq_mod)
  then have rem: "unat (n1 - qw * ?d1) = ?N mod (?D div HB)" by (simp add: unat_mod_distrib unat_ll_highpart)
  have "?N mod (?D div HB) < ?D div HB" using e(1) by simp
  also have "\<dots> < HB" using D(1) by (simp add: less_mult_imp_div_less)
  finally have r: "unat rw = R" unfolding rw_def using half_shift_or [of "n1 - qw * ?d1" nl] nl rem by (simp add: R_def)
  have m: "unat mw = M"
    unfolding mw_def M_def by (simp add: unat_times_limb q unat_ll_lowpart) (use e(2) in \<open>simp add: M_def BB_halves\<close>)
  have run: "udiv_half d n1 nl =
     (if rw < mw then if rw + d \<ge> d then if rw + d < mw then (qw - 1 - 1, rw + d + d - mw) else (qw - 1, rw + d - mw)
        else (qw - 1, rw + d - mw) else (qw, rw - mw))"
    unfolding udiv_half_def Let_def qw_def [symmetric] mw_def [symmetric] rw_def [symmetric] by simp
  have words: "qw = of_nat Q" "rw = of_nat R" "mw = of_nat M" "d = of_nat ?D" by (simp_all flip: q r m)
  have R: "R < ?D" "?D < BB" using e(4) unat_lt_BB by auto
  have "\<exists>Q' R'. q = of_nat Q' \<and> r = of_nat R' \<and> ?N * HB + unat nl = Q' * ?D + R' \<and> R' < ?D"
  proof (cases "R < M")
    case False
    have "q = of_nat Q \<and> r = of_nat (R - M)"
      using u run False r m words by (auto simp: word_less_nat_alt)
    moreover have "?N * HB + unat nl = Q * ?D + (R - M)" using e(3) False by linarith
    ultimately show ?thesis using R by (intro exI [of _ Q] exI [of _ "R - M"]) simp
  next
    case RM: True
    then have Q1: "1 \<le> Q" by (cases Q) (simp_all add: M_def)
    then obtain Q1 where Q: "Q = Suc Q1" by (cases Q) auto
    have s: "unat (rw + d) = (R + ?D) mod BB" by (simp add: unat_plus_limb r)
    have wr: "rw < mw" using RM r m by (simp add: word_less_nat_alt)
    show ?thesis
    proof (cases "BB \<le> R + ?D \<or> M \<le> R + ?D")
      case True
      have "q = of_nat Q1 \<and> r = of_nat (R + ?D - M)"
      proof -
        have le: "M \<le> R + ?D" using True e(2) by (auto simp: BB_halves)
        have "\<not> (rw + d \<ge> d \<and> rw + d < mw)"
        proof (cases "BB \<le> R + ?D")
          case True
          then have "unat (rw + d) = R + ?D - BB" using R s by (simp add: mod_if)
          moreover have "R + ?D - BB < ?D" using R True by linarith
          ultimately show ?thesis by (simp add: word_le_nat_alt)
        next
          case False
          then have "unat (rw + d) = R + ?D" using s by simp
          then show ?thesis using le m by (simp add: word_less_nat_alt)
        qed
        then have "q = qw - 1 \<and> r = rw + d - mw" using u run wr by (auto split: if_splits)
        then show ?thesis using words le by (simp add: Q)
      qed
      moreover have "?N * HB + unat nl = Q1 * ?D + (R + ?D - M)"
        using e(3) True e(2) by (auto simp: Q BB_halves algebra_simps)
      moreover have "R + ?D - M < ?D" using RM R by linarith
      ultimately show ?thesis by blast
    next
      case False
      then have s': "unat (rw + d) = R + ?D" "R + ?D < M" using s by simp_all
      then have "rw + d \<ge> d" "rw + d < mw" using m by (simp_all add: word_le_nat_alt word_less_nat_alt)
      then have qr: "q = qw - 1 - 1" "r = rw + d + d - mw" using u run wr by simp_all
      have "?D < Q * ?D" using e(3) s' by linarith
      then have "Q1 \<noteq> 0" by (auto simp: Q)
      then obtain Q2 where Q2: "Q = Suc (Suc Q2)" using Q by (cases Q1) auto
      have "q = of_nat Q2 \<and> r = of_nat (R + 2 * ?D - M)"
        unfolding qr using words e(5) by (simp add: Q2)
      moreover have "?N * HB + unat nl = Q2 * ?D + (R + 2 * ?D - M)"
        using e(3,5) by (simp add: Q2 algebra_simps)
      moreover have "R + 2 * ?D - M < ?D" using s'(2) e(5) by linarith
      ultimately show ?thesis by blast
    qed
  qed
  then obtain Q' R' where w: "q = of_nat Q'" "r = of_nat R'" "?N * HB + unat nl = Q' * ?D + R'" "R' < ?D" by blast
  have "Q' * ?D < HB * ?D"
  proof -
    have "Suc ?N * HB \<le> ?D * HB" using D(3) by (intro mult_le_mono1) simp
    then have "?N * HB + HB \<le> HB * ?D" by (simp add: mult.commute)
    then show ?thesis using w(3) nl by linarith
  qed
  then have Q': "Q' < HB" by simp
  have "HB \<le> BB" by (simp add: BB_halves HB_def)
  then have uq: "unat q = Q'" using limb_eq_of_nat [OF w(1)] Q' by simp
  have ur: "unat r = R'" using limb_eq_of_nat [OF w(2)] w(4) R(2) by simp
  show "?N * HB + unat nl = unat q * ?D + unat r" "r < d" "unat q < HB"
    using w(3,4) Q' by (simp_all add: uq ur word_less_nat_alt)
qed

lemma umul_halves: "unat (q1 :: limb) < HB \<Longrightarrow> unat q0 < HB \<Longrightarrow> unat ((q1 * 2 ^ 32) OR q0) = unat q1 * HB + unat q0"
  by (rule half_shift_or)

lemma udiv_qrnnd_spec:
  assumes norm: "BB \<le> 2 * unat d" and n1: "n1 < d" and u: "udiv_qrnnd n1 n0 d = (q, r)"
  shows "unat n1 * BB + unat n0 = unat q * unat d + unat r" and "r < d"
proof -
  obtain q1 r1 where s1: "udiv_half d n1 (ll_highpart n0) = (q1, r1)" by fastforce
  obtain q0 r0 where s0: "udiv_half d r1 (ll_lowpart n0) = (q0, r0)" by fastforce
  note a = udiv_half_spec [OF norm n1 half_less(2) s1]
  note b = udiv_half_spec [OF norm a(2) half_less(1) s0]
  have qr: "q = (q1 * 2 ^ 32) OR q0" "r = r0" using u s1 s0 by (simp_all add: udiv_qrnnd_def Let_def)
  have "unat n0 = unat (ll_highpart n0) * HB + unat (ll_lowpart n0)" by (simp add: unat_ll_lowpart unat_ll_highpart)
  then have "unat n1 * BB + unat n0 = (unat n1 * HB + unat (ll_highpart n0)) * HB + unat (ll_lowpart n0)"
    by (simp add: BB_halves algebra_simps)
  also have "\<dots> = unat q1 * unat d * HB + (unat r1 * HB + unat (ll_lowpart n0))"
    unfolding a(1) by (simp add: algebra_simps)
  also have "\<dots> = (unat q1 * HB + unat q0) * unat d + unat r0" unfolding b(1) by (simp add: algebra_simps)
  finally show "unat n1 * BB + unat n0 = unat q * unat d + unat r"
    unfolding qr half_shift_or [OF a(3) b(3)] .
  show "r < d" using b(2) qr by simp
qed

section \<open>Division with a precomputed inverse\<close>

lemma unat_not_limb: "unat (NOT x :: limb) = BB - 1 - unat x"
proof -
  have "NOT x + x = - 1" by (simp add: not_eq_complement)
  then have "unat (NOT x + x) = BB - 1" by (simp add: unsigned_minus_1_eq_mask BB_def mask_eq_exp_minus_1)
  then show ?thesis
    using unat_add_carry [of "NOT x" x] unat_lt_BB [of x] unat_lt_BB [of "NOT x"]
    by (cases "NOT x + x < NOT x") simp_all
qed

lemma invert_limb_spec:
  assumes norm: "BB \<le> 2 * unat d"
  obtains k where "1 \<le> k" and "k \<le> unat d" and "(BB + unat (invert_limb d)) * unat d + k = BB * BB"
proof -
  obtain q r where u: "udiv_qrnnd (NOT d) (NOT 0) d = (q, r)" by fastforce
  have D: "unat d < BB" by (rule unat_lt_BB)
  have n1: "NOT d < d" using norm D by (simp add: word_less_nat_alt unat_not_limb)
  note s = udiv_qrnnd_spec [OF norm n1 u]
  have "(BB - 1 - unat d) * BB + (BB - 1) = unat q * unat d + unat r"
    using s(1) unat_not_limb [of 0] by (simp add: unat_not_limb)
  moreover have "(BB - 1 - unat d) * BB + (BB - 1) + unat d * BB + 1 = BB * BB"
  proof -
    have "(BB - 1 - unat d) * BB + unat d * BB = (BB - 1) * BB" using D by (simp flip: add_mult_distrib)
    moreover have "(BB - 1) * BB + BB = BB * BB" by (simp add: diff_mult_distrib le_square)
    ultimately show ?thesis using BB_pos by linarith
  qed
  ultimately have "(BB + unat q) * unat d + (unat r + 1) = BB * BB" by (simp add: algebra_simps)
  then show ?thesis
    using that [of "unat r + 1"] s(2) u by (simp add: invert_limb_def word_less_nat_alt)
qed

lemma add_ssaaaa_spec:
  assumes "add_ssaaaa ah al bh bl = (sh, sl)"
  shows "(unat sh * BB + unat sl) mod (BB * BB) = (unat ah * BB + unat al + unat bh * BB + unat bl) mod (BB * BB)"
proof -
  let ?c = "of_bool (al + bl < al) :: limb"
  have s: "sh = ah + bh + ?c" "sl = al + bl" using assms by (auto simp: add_ssaaaa_def Let_def)
  have lo: "unat sl + BB * unat ?c = unat al + unat bl" unfolding s(2) using unat_add_carry [of al bl] by simp
  have hi: "unat sh = (unat ah + unat bh + unat ?c) mod BB"
    unfolding s(1) by (simp only: unat_plus_limb mod_add_left_eq)
  have "(unat ah * BB + unat al + unat bh * BB + unat bl) = (unat ah + unat bh + unat ?c) * BB + unat sl"
    using lo by (simp add: algebra_simps)
  moreover have "((unat ah + unat bh + unat ?c) * BB + unat sl) mod (BB * BB) = unat sh * BB + unat sl"
    using unat_lt_BB [of sl] by (simp add: hi mod_mult2_eq mult.commute)
  moreover have "(unat sh * BB + unat sl) mod (BB * BB) = unat sh * BB + unat sl"
    using unat_lt_BB [of sl] unat_lt_BB [of sh] by (simp add: mod_mult2_eq mult.commute)
  ultimately show ?thesis by simp
qed

text \<open>How far the candidate remainder can be off (N. Moeller and T. Granlund).\<close>

lemma preinv_arith:
  fixes B d v nh nl q1 q0 k :: int
  assumes B: "B \<le> 2 * d" "d < B" and k: "(B + v) * d + k = B * B" "1 \<le> k" "k \<le> d"
    and n: "0 \<le> nh" "nh < d" "0 \<le> nl" "nl < B"
    and q: "nh * v + nh * B + nl = q1 * B + q0" "0 \<le> q0" "q0 < B"
  defines "t \<equiv> nh * B + nl - (q1 + 1) * d"
  shows "- d \<le> t" and "q0 - B < t" and "t < max (B - d) q0"
proof -
  have B0: "0 < B" using q by linarith
  have key: "B * t = nh * k + nl * (B - d) + q0 * d - B * d"
  proof -
    have "B * t = nh * (B * B) + nl * B - (q1 * B) * d - B * d" by (simp add: t_def algebra_simps)
    also have "q1 * B = nh * v + nh * B + nl - q0" using q(1) by simp
    also have "B * B = (B + v) * d + k" using k(1) by simp
    finally show ?thesis by (simp add: algebra_simps)
  qed
  have p: "0 \<le> nh * k" "0 \<le> nl * (B - d)" "0 \<le> q0 * d" using n k q B by simp_all
  have "B * (- d) \<le> B * t" unfolding key using p by simp
  then show "- d \<le> t" using B0 by (simp only: mult_le_cancel_left_pos)
  have "0 < (B - q0) * (B - d)" using q B by simp
  then have "B * (q0 - B) < B * t" unfolding key using p by (simp add: algebra_simps)
  then show "q0 - B < t" using B0 by (simp only: mult_less_cancel_left_pos)
  let ?M = "max (B - d) q0"
  have "nh * k \<le> (d - 1) * d" using n k by (intro mult_mono) simp_all
  moreover have "nl * (B - d) \<le> (B - 1) * (B - d)" using n B by (intro mult_right_mono) simp_all
  moreover have "(B - d) * (B - d) \<le> ?M * (B - d)" "q0 * d \<le> ?M * d" using n B by (auto intro!: mult_right_mono)
  ultimately have "B * t \<le> B * ?M - B" unfolding key by (simp add: algebra_simps)
  then have "B * t < B * ?M" using B0 by linarith
  then show "t < ?M" using B0 by (simp only: mult_less_cancel_left_pos)
qed

lemma of_nat_BB: "(of_nat BB :: limb) = 0"
  by (simp add: BB_def)

lemma of_nat_mod_BB: "(of_nat (n mod BB) :: limb) = of_nat n"
proof -
  have "(of_nat (n div BB * BB + n mod BB) :: limb) = of_nat (n mod BB)"
    by (simp only: of_nat_add of_nat_mult of_nat_BB mult_zero_right add_0)
  then show ?thesis by simp
qed

lemma limb_of_int: "0 \<le> t \<Longrightarrow> t < int BB \<Longrightarrow> int (unat (of_int t :: limb)) = t"
  using limb_eq_of_nat [of "of_int t" "nat t"] by (simp add: nat_less_iff)

lemma int_mod_unique: "a = q * b + r \<Longrightarrow> 0 \<le> r \<Longrightarrow> r < b \<Longrightarrow> a mod b = (r :: int)"
  by simp

lemma udiv_rnnd_preinv_spec:
  assumes norm: "BB \<le> 2 * unat d" and nh: "nh < d"
  shows "unat (udiv_rnnd_preinv nh nl d (invert_limb d)) = (unat nh * BB + unat nl) mod unat d"
proof -
  let ?B = "int BB" and ?D = "int (unat d)" and ?v = "int (unat (invert_limb d))"
    and ?nh = "int (unat nh)" and ?nl = "int (unat nl)"
  obtain ph pl where u: "umul_ppmm nh (invert_limb d) = (ph, pl)" by fastforce
  obtain qh ql where a: "add_ssaaaa ph pl (nh + 1) nl = (qh, ql)" by fastforce
  define Q where "Q = unat nh * unat (invert_limb d) + unat nh * BB + unat nl"
  define q1 where "q1 = Q div BB"
  define q0 where "q0 = Q mod BB"
  obtain k where k: "1 \<le> k" "k \<le> unat d" "(BB + unat (invert_limb d)) * unat d + k = BB * BB"
    by (rule invert_limb_spec [OF norm])
  have D: "unat d < BB" "unat nh < unat d" using unat_lt_BB [of d] nh by (simp_all add: word_less_nat_alt)
  have nh1: "unat (nh + 1) = unat nh + 1" using D by (simp add: unat_plus_limb)
  have "(unat qh * BB + unat ql) mod (BB * BB) = (Q + BB) mod (BB * BB)"
    using add_ssaaaa_spec [OF a, unfolded nh1 umul_ppmm_spec [OF u]] by (simp add: Q_def algebra_simps)
  moreover have "(unat qh * BB + unat ql) mod (BB * BB) = unat qh * BB + unat ql"
    using unat_lt_BB [of ql] unat_lt_BB [of qh] by (simp add: mod_mult2_eq mult.commute)
  moreover have "(Q + BB) mod (BB * BB) = ((q1 + 1) mod BB) * BB + q0"
    using div_add_self2 [of BB Q] by (simp add: q1_def q0_def mod_mult2_eq mult.commute)
  ultimately have e: "unat qh * BB + unat ql = ((q1 + 1) mod BB) * BB + q0" by simp
  have "unat ql = (unat qh * BB + unat ql) mod BB" using unat_lt_BB [of ql] by simp
  then have ql: "unat ql = q0" unfolding e by (simp add: q0_def)
  have qh: "unat qh = (q1 + 1) mod BB" using e ql by simp
  have "qh = of_nat (unat qh)" by simp
  also have "\<dots> = of_nat (q1 + 1)" unfolding qh by (rule of_nat_mod_BB)
  finally have qhw: "qh = of_nat (q1 + 1)" .
  define t where "t = ?nh * ?B + ?nl - (int q1 + 1) * ?D"
  have Qi: "?nh * ?v + ?nh * ?B + ?nl = int q1 * ?B + int q0"
  proof -
    have "int Q = int (q1 * BB + q0)" by (simp only: q1_def q0_def div_mult_mod_eq)
    then show ?thesis by (simp only: Q_def of_nat_add of_nat_mult)
  qed
  have q0: "int q0 < ?B" by (simp add: q0_def)
  have ki: "(?B + ?v) * ?D + int k = ?B * ?B" using k(3) by (metis of_nat_add of_nat_mult)
  have "?B \<le> 2 * ?D" "?D < ?B" "1 \<le> int k" "int k \<le> ?D" "0 \<le> ?nh" "?nh < ?D" "0 \<le> ?nl" "?nl < ?B"
    using norm D k unat_lt_BB [of nl] by linarith+
  note bnd = this
  note t = preinv_arith [OF bnd(1,2) ki bnd(3-8) Qi _ q0, folded t_def]
  define r1 where "r1 = nl - qh * d"
  have "of_int t = of_nat (unat nh) * of_nat BB + nl - of_nat (q1 + 1) * (d :: limb)" by (simp add: t_def add.commute)
  then have r1: "r1 = of_int t" by (simp add: r1_def qhw of_nat_BB)
  have res: "udiv_rnnd_preinv nh nl d (invert_limb d) =
      (let r = (if r1 > ql then r1 + d else r1) in if r \<ge> d then r - d else r)"
    using u a by (simp add: udiv_rnnd_preinv_def r1_def Let_def)
  have N: "int (unat nh * BB + unat nl) = (int q1 + 1) * ?D + t" by (simp add: t_def)
  have add_d: "r1 + d = of_int (t + ?D)" using r1 by simp
  have "int (unat (udiv_rnnd_preinv nh nl d (invert_limb d))) = int (unat nh * BB + unat nl) mod ?D"
  proof (cases "t < 0")
    case True
    have "r1 = of_int (t + ?B)" using r1 of_nat_BB by simp
    then have "int (unat r1) = t + ?B" using limb_of_int [of "t + ?B"] t(1) bnd(2) True by simp
    then have "q0 < unat r1" using t(2) by linarith
    then have "r1 > ql" using ql by (simp add: word_less_nat_alt)
    moreover have v: "int (unat (r1 + d)) = t + ?D" unfolding add_d using t(1) bnd(2) True by (intro limb_of_int) simp_all
    moreover have "unat (r1 + d) < unat d" using v True by linarith
    moreover have "int (unat nh * BB + unat nl) mod ?D = t + ?D"
      using N t(1) True by (intro int_mod_unique [of _ "int q1"]) (simp_all add: algebra_simps)
    ultimately show ?thesis by (simp add: res Let_def word_le_nat_alt)
  next
    case False
    have tB: "t < ?B" using t(3) q0 bnd by linarith
    have v1: "int (unat r1) = t" unfolding r1 using False tB by (intro limb_of_int) simp_all
    show ?thesis
    proof (cases "r1 > ql")
      case True
      then have "q0 < unat r1" using ql by (simp add: word_less_nat_alt)
      then have lt: "t < ?B - ?D" using t(3) v1 by linarith
      have v: "int (unat (r1 + d)) = t + ?D" unfolding add_d using False bnd lt by (intro limb_of_int) simp_all
      then have "unat d \<le> unat (r1 + d)" using False by linarith
      then have "d \<le> r1 + d" by (simp only: word_le_nat_alt)
      moreover have "int (unat nh * BB + unat nl) mod ?D = t"
        using N False lt bnd by (intro int_mod_unique [of _ "int q1 + 1"]) simp_all
      ultimately show ?thesis using True v1 by (simp add: res Let_def)
    next
      case le: False
      show ?thesis
      proof (cases "d \<le> r1")
        case True
        then have "unat d \<le> unat r1" by (simp only: word_le_nat_alt)
        then have ge: "?D \<le> t" using v1 by linarith
        have "r1 - d = of_int (t - ?D)" using r1 by simp
        then have "int (unat (r1 - d)) = t - ?D" using ge tB bnd limb_of_int [of "t - ?D"] by simp
        moreover have "int (unat nh * BB + unat nl) mod ?D = t - ?D"
          using N ge tB bnd by (intro int_mod_unique [of _ "int q1 + 2"]) (simp_all add: algebra_simps)
        ultimately show ?thesis using True le by (simp add: res Let_def)
      next
        case lt: False
        then have "\<not> unat d \<le> unat r1" by (simp add: word_le_nat_alt)
        then have "t < ?D" using v1 by linarith
        then have "int (unat nh * BB + unat nl) mod ?D = t"
          using N False by (intro int_mod_unique [of _ "int q1 + 1"]) simp_all
        then show ?thesis using lt le v1 by (simp add: res Let_def)
      qed
    qed
  qed
  then show ?thesis by (metis of_nat_eq_iff of_nat_mod)
qed

section \<open>The remainder of a vector\<close>

text \<open>The contract of the two divisions of two limbs by a normalised limb, and what the loops make of it.\<close>

locale limb_division =
  fixes step :: "limb \<Rightarrow> limb \<Rightarrow> limb \<Rightarrow> limb"
  assumes step_rem: "BB \<le> 2 * unat d \<Longrightarrow> r < d \<Longrightarrow> unat (step d r x) = (unat r * BB + unat x) mod unat d"
begin

lemma step_less: "BB \<le> 2 * unat d \<Longrightarrow> r < d \<Longrightarrow> step d r x < d"
  using step_rem [of d r x] by (simp add: word_less_nat_alt)

lemma norm_loop:
  assumes "BB \<le> 2 * unat d" and "r < d"
  shows "unat (mod_1_norm_loop (step d) r us) = (unat r * BB ^ length us + limbs_val (rev us)) mod unat d"
  using assms(2)
proof (induction us arbitrary: r)
  case Nil
  then show ?case by (simp add: word_less_nat_alt)
next
  case (Cons x us)
  have "unat (mod_1_norm_loop (step d) r (x # us))
      = ((unat r * BB + unat x) mod unat d * BB ^ length us + limbs_val (rev us)) mod unat d"
    using Cons.IH [OF step_less [OF assms(1) Cons.prems]] step_rem [OF assms(1) Cons.prems] by simp
  also have "\<dots> = ((unat r * BB + unat x) * BB ^ length us + limbs_val (rev us)) mod unat d"
    by (metis mod_add_left_eq mod_mult_left_eq)
  finally show ?case by (simp add: limbs_val_snoc algebra_simps)
qed

text \<open>The numerator shifted left by \<open>cnt\<close> bits on the fly; \<open>P\<close> is the part of it that has been read.\<close>

lemma unnorm_loop:
  assumes "BB \<le> 2 * unat d" and c: "0 < cnt" "cnt < 64"
    and "unat r = P * 2 ^ cnt div BB mod unat d" and "unat n1 = P mod BB"
  shows "unat (mod_1_unnorm_loop (step d) cnt r n1 us) = (P * BB ^ length us + limbs_val (rev us)) * 2 ^ cnt mod unat d"
  using assms(4,5)
proof (induction us arbitrary: r n1 P)
  case Nil
  have d0: "0 < unat d" using assms(1) BB_pos by linarith
  have r: "r < d" using Nil.prems(1) d0 by (simp add: word_less_nat_alt)
  have "P * 2 ^ cnt mod BB = unat (push_bit cnt n1)" using Nil.prems(2) by (simp add: unat_push_bit_limb mod_mult_left_eq)
  then have "P * 2 ^ cnt = P * 2 ^ cnt div BB * BB + unat (push_bit cnt n1)" by (metis div_mult_mod_eq)
  moreover have "unat (step d r (push_bit cnt n1)) = (P * 2 ^ cnt div BB * BB + unat (push_bit cnt n1)) mod unat d"
    using step_rem [OF assms(1) r] Nil.prems(1) by (metis mod_add_left_eq mod_mult_left_eq)
  ultimately show ?case by simp
next
  case (Cons x us)
  have d0: "0 < unat d" using assms(1) BB_pos by linarith
  have r: "r < d" using Cons.prems(1) d0 by (simp add: word_less_nat_alt)
  let ?hi = "drop_bit (64 - cnt) x"
  have BB: "BB = 2 ^ cnt * 2 ^ (64 - cnt)" using c by (simp add: BB_def flip: power_add)
  have hi: "unat ?hi < 2 ^ cnt"
    using unat_lt_BB [of x] unfolding BB by (simp add: unat_drop_bit_limb less_mult_imp_div_less mult.commute)
  have "2 ^ cnt dvd unat (push_bit cnt n1)"
    unfolding unat_push_bit_limb BB by (simp add: mult.commute [of "unat n1"] mult_mod_right [symmetric])
  then have o: "unat (push_bit cnt n1 OR ?hi) = unat (push_bit cnt n1) + unat ?hi" using hi by (rule unat_or_shifted)
  have "P * 2 ^ cnt mod BB = unat (push_bit cnt n1)" using Cons.prems(2) by (simp add: unat_push_bit_limb mod_mult_left_eq)
  then have P: "P * 2 ^ cnt = P * 2 ^ cnt div BB * BB + unat (push_bit cnt n1)" by (metis div_mult_mod_eq)
  have "(P * BB + unat x) * 2 ^ cnt = (P * 2 ^ cnt + unat ?hi) * BB + unat (push_bit cnt x)"
    using shift_split [of cnt x] c by (simp add: algebra_simps)
  then have next_P: "(P * BB + unat x) * 2 ^ cnt div BB = P * 2 ^ cnt + unat ?hi" using unat_lt_BB [of "push_bit cnt x"] by simp
  have "unat (step d r (push_bit cnt n1 OR ?hi)) = (P * 2 ^ cnt div BB * BB + (unat (push_bit cnt n1) + unat ?hi)) mod unat d"
    using step_rem [OF assms(1) r] Cons.prems(1) o by (metis mod_add_left_eq mod_mult_left_eq)
  also have "\<dots> = (P * BB + unat x) * 2 ^ cnt div BB mod unat d" unfolding next_P by (subst (2) P) (simp only: add.assoc)
  finally have s: "unat (step d r (push_bit cnt n1 OR ?hi)) = (P * BB + unat x) * 2 ^ cnt div BB mod unat d" .
  show ?case
    using Cons.IH [OF s] unat_lt_BB [of x] by (simp add: Let_def limbs_val_snoc algebra_simps)
qed

end

interpretation qrnnd: limb_division "\<lambda>d r x. snd (udiv_qrnnd r x d)"
proof
  fix d r x :: limb
  assume "BB \<le> 2 * unat d" and "r < d"
  then show "unat (snd (udiv_qrnnd r x d)) = (unat r * BB + unat x) mod unat d"
    using udiv_qrnnd_spec [of d r x] by (cases "udiv_qrnnd r x d") (simp add: word_less_nat_alt)
qed

interpretation preinv: limb_division "\<lambda>d r x. udiv_rnnd_preinv r x d (invert_limb d)"
  by unfold_locales (rule udiv_rnnd_preinv_spec)

lemma high_bit: "bit (b :: limb) 63 \<longleftrightarrow> BB \<le> 2 * unat b"
proof -
  have "bit b 63 \<longleftrightarrow> bit (unat b) 63" by (simp add: bit_unsigned_iff)
  also have "\<dots> \<longleftrightarrow> odd (unat b div 2 ^ 63)" by (rule bit_iff_odd)
  finally have o: "bit b 63 \<longleftrightarrow> odd (unat b div 2 ^ 63)" .
  have B: "BB = 2 * 2 ^ 63" by (simp add: BB_def)
  have lt: "unat b < 2 * 2 ^ 63" using unat_lt_BB [of b] unfolding B .
  show ?thesis
  proof (cases "unat b < 2 ^ 63")
    case True
    then show ?thesis unfolding o B by simp
  next
    case False
    then have "unat b div 2 ^ 63 = 1" using lt by (intro div_nat_eqI) simp_all
    then show ?thesis unfolding o B using False by simp
  qed
qed

lemma limbs_val_last:
  "xs \<noteq> [] \<Longrightarrow> limbs_val xs = unat (last xs) * BB ^ length (butlast xs) + limbs_val (butlast xs)"
  by (cases xs rule: rev_cases) (simp_all add: limbs_val_snoc)

lemma mpn_mod_1_norm_spec:
  assumes norm: "BB \<le> 2 * unat d" and up: "up \<noteq> []"
  shows "unat (mpn_mod_1_norm cfg up d) = limbs_val up mod unat d"
proof -
  define r where "r = (if last up \<ge> d then last up - d else last up)"
  have D: "unat d < BB" by (rule unat_lt_BB)
  have r: "r < d \<and> unat r = unat (last up) mod unat d"
  proof (cases "last up \<ge> d")
    case True
    then have "unat r = unat (last up) - unat d" by (simp add: r_def unat_sub word_le_nat_alt)
    moreover have "unat (last up) < 2 * unat d" using unat_lt_BB [of "last up"] norm by linarith
    ultimately show ?thesis using True by (simp add: word_less_nat_alt word_le_nat_alt mod_if)
  next
    case False
    then show ?thesis by (simp add: r_def word_less_nat_alt word_le_nat_alt)
  qed
  have v: "(unat r * BB ^ length (butlast up) + limbs_val (butlast up)) mod unat d = limbs_val up mod unat d"
    unfolding limbs_val_last [OF up] r [THEN conjunct2] by (metis mod_add_left_eq mod_mult_left_eq)
  have run: "mpn_mod_1_norm cfg up d =
     (if length up - 1 = 0 then r
      else if BELOW_THRESHOLD (length up - 1) (MOD_1_NORM_THRESHOLD cfg)
      then mod_1_norm_loop (\<lambda>r n0. snd (udiv_qrnnd r n0 d)) r (rev (butlast up))
      else mod_1_norm_loop (\<lambda>r n0. udiv_rnnd_preinv r n0 d (invert_limb d)) r (rev (butlast up)))"
    unfolding mpn_mod_1_norm_def Let_def r_def ..
  consider (one) "length up - 1 = 0" | (q) "length up - 1 \<noteq> 0" "BELOW_THRESHOLD (length up - 1) (MOD_1_NORM_THRESHOLD cfg)"
    | (p) "length up - 1 \<noteq> 0" "\<not> BELOW_THRESHOLD (length up - 1) (MOD_1_NORM_THRESHOLD cfg)" by blast
  then show ?thesis
  proof cases
    case one
    then have "butlast up = []" by (cases up rule: rev_cases) simp_all
    then show ?thesis using run one v r by (simp add: word_less_nat_alt)
  next
    case q
    then show ?thesis using run qrnnd.norm_loop [OF norm r [THEN conjunct1], of "rev (butlast up)"] v by simp
  next
    case p
    then show ?thesis using run preinv.norm_loop [OF norm r [THEN conjunct1], of "rev (butlast up)"] v by simp
  qed
qed

lemma normalise_limb:
  assumes "d \<noteq> 0"
  defines "c \<equiv> count_leading_zeros d"
  shows "c < 64" and "unat (push_bit c d) = unat d * 2 ^ c" and "BB \<le> 2 * unat (push_bit c d)"
proof -
  note b = count_leading_zeros_bounds [OF assms(1), folded c_def]
  show c: "c < 64" using b by simp
  have BB: "BB = 2 ^ (64 - c) * 2 ^ c" using c by (simp add: BB_def flip: power_add)
  have "unat d * 2 ^ c < BB" unfolding BB using b by (intro mult_strict_right_mono) simp_all
  then show s: "unat (push_bit c d) = unat d * 2 ^ c" by (simp add: unat_push_bit_limb)
  have "2 ^ (64 - c) = 2 * (2 ^ (63 - c) :: nat)" using c by (simp flip: power_Suc add: Suc_diff_Suc)
  then have "BB \<le> 2 * (unat d * 2 ^ c)" unfolding BB using b by simp
  then show "BB \<le> 2 * unat (push_bit c d)" by (simp only: s)
qed

lemma mpn_mod_1_unnorm_spec:
  assumes d: "d \<noteq> 0" "\<not> BB \<le> 2 * unat d" and up: "up \<noteq> []"
  shows "unat (mpn_mod_1_unnorm cfg up d) = limbs_val up mod unat d"
proof (cases "last up < d \<and> length up - 1 = 0")
  case True
  then have "limbs_val up = unat (last up)" using up by (cases up rule: rev_cases) simp_all
  then show ?thesis using True by (simp add: mpn_mod_1_unnorm_def Let_def word_less_nat_alt)
next
  case False
  define us where "us = (if last up < d then butlast up else up)"
  define r where "r = (if last up < d then last up else 0)"
  define c where "c = count_leading_zeros d"
  define D where "D = push_bit c d"
  define n1 where "n1 = last us"
  define r1 where "r1 = push_bit c r OR drop_bit (64 - c) n1"
  note nrm = normalise_limb [OF d(1), folded c_def, folded D_def]
  have c0: "0 < c" using nrm(2,3) d(2) by (cases c) simp_all
  have us: "us \<noteq> []"
  proof (cases "last up < d")
    case True
    then have "length up - 1 \<noteq> 0" using False by simp
    then show ?thesis unfolding us_def by (cases up rule: rev_cases) auto
  next
    case False
    then show ?thesis using up by (simp add: us_def)
  qed
  have r: "unat r < unat d" using d(1) by (simp add: r_def word_less_nat_alt unat_gt_0)
  have val: "limbs_val up = unat r * BB ^ length us + limbs_val us"
    using limbs_val_last [OF up] by (simp add: us_def r_def)
  let ?P = "unat r * BB + unat n1"
  let ?hi = "drop_bit (64 - c) n1"
  have BB: "BB = 2 ^ c * 2 ^ (64 - c)" using nrm(1) by (simp add: BB_def flip: power_add)
  have "unat r * 2 ^ c < unat D" unfolding nrm(2) using r by simp
  then have rs: "unat (push_bit c r) = unat r * 2 ^ c" "unat r * 2 ^ c < unat D"
    using unat_lt_BB [of D] by (simp_all add: unat_push_bit_limb)
  have hi: "unat ?hi < 2 ^ c"
    using unat_lt_BB [of n1] unfolding BB by (simp add: unat_drop_bit_limb less_mult_imp_div_less mult.commute)
  have o: "unat r1 = unat r * 2 ^ c + unat ?hi"
    unfolding r1_def using unat_or_shifted [of c "push_bit c r" ?hi] hi rs(1) by simp
  have "Suc (unat r) * 2 ^ c \<le> unat d * 2 ^ c" using r by (intro mult_le_mono1) simp
  then have lt: "unat r1 < unat D" unfolding o nrm(2) using hi by simp
  have "?P * 2 ^ c = (unat r * 2 ^ c + unat ?hi) * BB + unat (push_bit c n1)"
    using shift_split [of c n1] nrm(1) by (simp add: algebra_simps)
  then have "?P * 2 ^ c div BB = unat r1" unfolding o using unat_lt_BB [of "push_bit c n1"] by simp
  then have r1: "unat r1 = ?P * 2 ^ c div BB mod unat D" using lt by simp
  have n1: "unat n1 = ?P mod BB" using unat_lt_BB [of n1] by simp
  have P: "?P * BB ^ length (butlast us) + limbs_val (butlast us) = limbs_val up"
  proof -
    have "BB ^ length us = BB * BB ^ length (butlast us)" using us by (cases us rule: rev_cases) simp_all
    then show ?thesis unfolding val limbs_val_last [OF us] n1_def by (simp only: algebra_simps)
  qed
  have res: "unat (drop_bit c y) = limbs_val up mod unat d"
    if "unat y = (?P * BB ^ length (rev (butlast us)) + limbs_val (rev (rev (butlast us)))) * 2 ^ c mod unat D" for y :: limb
  proof -
    have "unat y = limbs_val up mod unat d * 2 ^ c"
      using that by (simp only: length_rev rev_rev_ident P nrm(2) mult_mod_left)
    then show ?thesis by (simp add: unat_drop_bit_limb)
  qed
  have run: "mpn_mod_1_unnorm cfg up d =
     (if BELOW_THRESHOLD (length us) (MOD_1_UNNORM_THRESHOLD cfg)
      then drop_bit c (mod_1_unnorm_loop (\<lambda>r n0. snd (udiv_qrnnd r n0 D)) c r1 n1 (rev (butlast us)))
      else drop_bit c (mod_1_unnorm_loop (\<lambda>r n0. udiv_rnnd_preinv r n0 D (invert_limb D)) c r1 n1 (rev (butlast us))))"
    unfolding mpn_mod_1_unnorm_def Let_def if_not_P [OF False]
    by (simp add: us_def r_def c_def D_def n1_def r1_def)
  show ?thesis
    using run res [OF qrnnd.unnorm_loop [OF nrm(3) c0 nrm(1) r1 n1]] res [OF preinv.unnorm_loop [OF nrm(3) c0 nrm(1) r1 n1]]
    by simp
qed

text \<open>What the routines for long vectors promise.\<close>

definition mod_1_ok :: "mpn_cfg \<Rightarrow> bool" where
  "mod_1_ok cfg \<longleftrightarrow> (\<forall>ap b. b \<noteq> 0 \<longrightarrow> unat (large_mod_1 cfg ap b) = limbs_val ap mod unat b)"

lemma mpn_mod_1_spec:
  assumes "mod_1_ok cfg" and "b \<noteq> 0"
  shows "unat (mpn_mod_1 cfg ap b) = limbs_val ap mod unat b"
  using assms mpn_mod_1_norm_spec [of b ap cfg] mpn_mod_1_unnorm_spec [of b ap cfg]
  by (simp add: mpn_mod_1_def Let_def high_bit mod_1_ok_def)

end
