(* ===== verification/Gmp_Powm.thy ===== *)
theory Gmp_Powm
  imports Gmp_Binvert Gmp_Mod_1
begin

unbundle bit_operations_syntax

text \<open>
  Modular exponentiation for an odd modulus, \<open>mpn/generic/powm.c\<close>: the exponent is read in
  windows from the top, the running power is kept in Montgomery form, and the table holds the
  odd powers of the base.  The choice of the multiplication, squaring and reduction routine by
  operand size, which the C file makes with a ladder of macros over the tuned thresholds, is
  the function \<open>innerloop_kernels\<close> of the configuration \<open>mpn_cfg\<close>.

  \<open>cfg_ok\<close> states what the routines promise that are not modelled here, and how the thresholds
  must be ordered for the ladder to agree with the inverse that was prepared.
\<close>

section \<open>Bits of the exponent\<close>

fun ctz_from :: "nat \<Rightarrow> limb \<Rightarrow> nat" where
  "ctz_from 0 x = 0"
| "ctz_from (Suc n) x = (if bit x 0 then 0 else Suc (ctz_from n (drop_bit 1 x)))"

definition count_trailing_zeros :: "limb \<Rightarrow> nat" where
  "count_trailing_zeros x = ctz_from 64 x"

definition getbit :: "limb list \<Rightarrow> nat \<Rightarrow> limb" where
  "getbit p bi = drop_bit ((bi - 1) mod 64) (p ! ((bi - 1) div 64)) AND 1"

definition getbits :: "limb list \<Rightarrow> nat \<Rightarrow> nat \<Rightarrow> limb" where
  "getbits p bi nbits =
     (if bi \<le> nbits then p ! 0 AND (push_bit bi 1 - 1)
      else let bi = bi - nbits; i = bi div 64; bi = bi mod 64;
          r = drop_bit bi (p ! i);
          nbits_in_r = 64 - bi;
          r = (if nbits_in_r < nbits then r + push_bit nbits_in_r (p ! (i + 1)) else r)
        in r AND (push_bit nbits 1 - 1))"

fun win_size_loop :: "nat \<Rightarrow> nat list \<Rightarrow> nat \<Rightarrow> nat" where
  "win_size_loop k [] eb = k"
| "win_size_loop k (x # xs) eb = (if eb > x then win_size_loop (k + 1) xs eb else k + 1)"

definition win_size :: "nat \<Rightarrow> nat" where
  "win_size eb = win_size_loop 0 [7, 25, 81, 241, 673, 1793, 4609, 11521, 28161, 2 ^ 64 - 1] eb"

section \<open>The routines the ladder chooses between\<close>

datatype mul_kind = MulUmul | MulBasecase | MulN

datatype sqr_kind = SqrUmul | SqrMulBasecase | SqrBasecase | SqrGeneral

datatype redc_kind = Redc0 | Redc1 | Redc2 | RedcN

definition MPN_MUL_N :: "mpn_cfg \<Rightarrow> mul_kind \<Rightarrow> limb list \<Rightarrow> limb list \<Rightarrow> limb list" where
  "MPN_MUL_N cfg k a b =
     (case k of MulUmul \<Rightarrow> (let (h, l) = umul_ppmm (hd a) (hd b) in [l, h])
      | MulBasecase \<Rightarrow> mpn_mul_basecase a b
      | MulN \<Rightarrow> mpn_mul_n cfg a b)"

definition MPN_SQR :: "mpn_cfg \<Rightarrow> sqr_kind \<Rightarrow> limb list \<Rightarrow> limb list" where
  "MPN_SQR cfg k a =
     (case k of SqrUmul \<Rightarrow> (let (h, l) = umul_ppmm (hd a) (hd a) in [l, h])
      | SqrMulBasecase \<Rightarrow> mpn_mul_basecase a a
      | SqrBasecase \<Rightarrow> mpn_sqr_basecase a
      | SqrGeneral \<Rightarrow> mpn_sqr cfg a)"

definition MPN_REDUCE :: "mpn_cfg \<Rightarrow> redc_kind \<Rightarrow> limb list \<Rightarrow> limb list \<Rightarrow> limb list \<Rightarrow> limb list" where
  "MPN_REDUCE cfg k tp mp mip =
     (case k of Redc0 \<Rightarrow> [MPN_REDC_0 (tp ! 1) (tp ! 0) (hd mp) (- hd mip)]
      | Redc1 \<Rightarrow> MPN_REDC_1 tp mp (hd mip)
      | Redc2 \<Rightarrow> MPN_REDC_2 tp mp mip
      | RedcN \<Rightarrow> mpn_redc_n cfg tp mp mip)"

text \<open>The reduction used outside the inner loop, and the inverse prepared for it.\<close>

definition redc_choice :: "mpn_cfg \<Rightarrow> nat \<Rightarrow> redc_kind" where
  "redc_choice cfg n =
     (if WANT_REDC_2 cfg then
        if BELOW_THRESHOLD n (REDC_1_TO_REDC_2_THRESHOLD cfg) then Redc1
        else if BELOW_THRESHOLD n (REDC_2_TO_REDC_N_THRESHOLD cfg) then Redc2
        else RedcN
      else if BELOW_THRESHOLD n (REDC_1_TO_REDC_N_THRESHOLD cfg) then Redc1
      else RedcN)"

definition powm_mip :: "mpn_cfg \<Rightarrow> limb list \<Rightarrow> limb list" where
  "powm_mip cfg mp =
     (case redc_choice cfg (length mp) of
        Redc2 \<Rightarrow> (let ip = mpn_binvert cfg mp 2 in [- (ip ! 0), NOT (ip ! 1)])
      | RedcN \<Rightarrow> mpn_binvert cfg mp (length mp)
      | _ \<Rightarrow> [- binvert_limb (hd mp)])"

text \<open>\<open>SQR_BASECASE_THRESHOLD\<close> decides between the two schoolbook squares.\<close>

definition basecase_sqr :: "mpn_cfg \<Rightarrow> nat \<Rightarrow> nat \<Rightarrow> sqr_kind" where
  "basecase_sqr cfg limit n =
     (if limit < SQR_BASECASE_THRESHOLD cfg \<or> BELOW_THRESHOLD n (SQR_BASECASE_THRESHOLD cfg)
      then SqrMulBasecase else SqrBasecase)"

definition innerloop_redc_2 :: "mpn_cfg \<Rightarrow> nat \<Rightarrow> mul_kind \<times> sqr_kind \<times> redc_kind" where
  "innerloop_redc_2 cfg n =
     (if REDC_1_TO_REDC_2_THRESHOLD cfg < MUL_TOOM22_THRESHOLD cfg then
        if BELOW_THRESHOLD n (REDC_1_TO_REDC_2_THRESHOLD cfg)
        then (MulBasecase, basecase_sqr cfg (REDC_1_TO_REDC_2_THRESHOLD cfg) n, Redc1)
        else if BELOW_THRESHOLD n (MUL_TOOM22_THRESHOLD cfg)
        then (MulBasecase, basecase_sqr cfg (MUL_TOOM22_THRESHOLD cfg) n, Redc2)
        else if BELOW_THRESHOLD n (REDC_2_TO_REDC_N_THRESHOLD cfg) then (MulN, SqrGeneral, Redc2)
        else (MulN, SqrGeneral, RedcN)
      else
        if BELOW_THRESHOLD n (MUL_TOOM22_THRESHOLD cfg)
        then (MulBasecase, basecase_sqr cfg (MUL_TOOM22_THRESHOLD cfg) n, Redc1)
        else if BELOW_THRESHOLD n (REDC_1_TO_REDC_2_THRESHOLD cfg) then (MulN, SqrGeneral, Redc1)
        else if BELOW_THRESHOLD n (REDC_2_TO_REDC_N_THRESHOLD cfg) then (MulN, SqrGeneral, Redc2)
        else (MulN, SqrGeneral, RedcN))"

definition innerloop_redc_n :: "mpn_cfg \<Rightarrow> nat \<Rightarrow> mul_kind \<times> sqr_kind \<times> redc_kind" where
  "innerloop_redc_n cfg n =
     (if REDC_1_TO_REDC_N_THRESHOLD cfg < MUL_TOOM22_THRESHOLD cfg then
        if BELOW_THRESHOLD n (REDC_1_TO_REDC_N_THRESHOLD cfg)
        then (MulBasecase, basecase_sqr cfg (REDC_1_TO_REDC_N_THRESHOLD cfg) n, Redc1)
        else if BELOW_THRESHOLD n (MUL_TOOM22_THRESHOLD cfg)
        then (MulBasecase, basecase_sqr cfg (MUL_TOOM22_THRESHOLD cfg) n, RedcN)
        else (MulN, SqrGeneral, RedcN)
      else
        if BELOW_THRESHOLD n (MUL_TOOM22_THRESHOLD cfg)
        then (MulBasecase, basecase_sqr cfg (MUL_TOOM22_THRESHOLD cfg) n, Redc1)
        else if BELOW_THRESHOLD n (REDC_1_TO_REDC_N_THRESHOLD cfg) then (MulN, SqrGeneral, Redc1)
        else (MulN, SqrGeneral, RedcN))"

definition innerloop_kernels :: "mpn_cfg \<Rightarrow> nat \<Rightarrow> mul_kind \<times> sqr_kind \<times> redc_kind" where
  "innerloop_kernels cfg n =
     (if n = 1 then (MulUmul, SqrUmul, Redc0)
      else if WANT_REDC_2 cfg then innerloop_redc_2 cfg n
      else innerloop_redc_n cfg n)"

section \<open>The exponentiation\<close>

definition redcify :: "mpn_cfg \<Rightarrow> limb list \<Rightarrow> limb list \<Rightarrow> limb list" where
  "redcify cfg up mp = snd (mpn_tdiv_qr cfg (replicate (length mp) 0 @ up) mp)"

text \<open>
  The macro \<open>INNERLOOP\<close> over a squaring and a multiplication that include the reduction.  The
  squarings of a window are a \<open>do ... while (--this_windowsize != 0)\<close>; with a window of no
  bits they would not come to an end (\<open>None\<close>).
\<close>

function INNERLOOP ::
  "(limb list \<Rightarrow> limb list) \<Rightarrow> (limb list \<Rightarrow> limb list \<Rightarrow> limb list) \<Rightarrow> limb list list \<Rightarrow>
   limb list \<Rightarrow> nat \<Rightarrow> limb list \<Rightarrow> nat \<Rightarrow> limb list option" where
  "INNERLOOP sqr mul pp ep windowsize rp ebi =
     (if ebi = 0 then Some rp
      else if getbit ep ebi = 0 then INNERLOOP sqr mul pp ep windowsize (sqr rp) (ebi - 1)
      else let expbits = getbits ep ebi windowsize;
          this_windowsize = min ebi windowsize;
          cnt = count_trailing_zeros expbits;
          this_windowsize = this_windowsize - cnt;
          expbits = drop_bit cnt expbits
        in if this_windowsize = 0 then None
           else INNERLOOP sqr mul pp ep windowsize
                  (mul ((sqr ^^ this_windowsize) rp) (pp ! unat (drop_bit 1 expbits)))
                  (ebi - this_windowsize))"
  by pat_completeness auto
termination
  by (relation "measure (\<lambda>(_, _, _, _, _, _, ebi). ebi)") (auto simp: Let_def)

declare INNERLOOP.simps [simp del]

fun odd_powers :: "(limb list \<Rightarrow> limb list \<Rightarrow> limb list) \<Rightarrow> limb list \<Rightarrow> nat \<Rightarrow> limb list \<Rightarrow> limb list list" where
  "odd_powers mul b2 0 this_pp = [this_pp]"
| "odd_powers mul b2 (Suc i) this_pp = this_pp # odd_powers mul b2 i (mul this_pp b2)"

definition powm_table :: "mpn_cfg \<Rightarrow> nat \<Rightarrow> limb list \<Rightarrow> limb list \<Rightarrow> limb list \<Rightarrow> limb list list" where
  "powm_table cfg windowsize b mp mip =
     (let n = length mp;
        b2 = MPN_REDUCE cfg (redc_choice cfg n) (mpn_sqr cfg b) mp mip;
        mul = (\<lambda>x y. if n = 1 then MPN_REDUCE cfg Redc0 (MPN_MUL_N cfg MulUmul x y) mp mip
          else MPN_REDUCE cfg (redc_choice cfg n) (mpn_mul_n cfg x y) mp mip)
      in odd_powers mul b2 (2 ^ (windowsize - 1) - 1) b)"

text \<open>Back from Montgomery form: one reduction of the value itself and a last subtraction.\<close>

definition powm_finish :: "mpn_cfg \<Rightarrow> limb list \<Rightarrow> limb list \<Rightarrow> limb list \<Rightarrow> limb list" where
  "powm_finish cfg rp mp mip =
     (let rp = MPN_REDUCE cfg (redc_choice cfg (length mp)) (rp @ replicate (length mp) 0) mp mip
      in if mpn_cmp rp mp \<ge> 0 then fst (mpn_sub_n rp mp) else rp)"

definition powm_window :: "mpn_cfg \<Rightarrow> limb list \<Rightarrow> limb list \<Rightarrow> limb list \<Rightarrow> limb list option" where
  "powm_window cfg bp ep mp =
     (let n = length mp;
        ebi = MPN_SIZEINBASE_2EXP ep (length ep) 1;
        windowsize = win_size ebi;
        mip = powm_mip cfg mp;
        pp = powm_table cfg windowsize (redcify cfg bp mp) mp mip;
        expbits = getbits ep ebi windowsize;
        ebi = ebi - windowsize;
        cnt = count_trailing_zeros expbits;
        ebi = ebi + cnt;
        expbits = drop_bit cnt expbits;
        rp = pp ! unat (drop_bit 1 expbits);
        (mk, sk, rk) = innerloop_kernels cfg n
      in map_option (\<lambda>rp. powm_finish cfg rp mp mip)
           (INNERLOOP (\<lambda>r. MPN_REDUCE cfg rk (MPN_SQR cfg sk r) mp mip)
              (\<lambda>r p. MPN_REDUCE cfg rk (MPN_MUL_N cfg mk r p) mp mip) pp ep windowsize rp ebi))"

section \<open>Lemmas on the bits\<close>

lemma unat_and_mask: "unat (x AND (2 ^ w - 1) :: limb) = unat x mod 2 ^ w"
proof -
  have "x AND (2 ^ w - 1) = take_bit w x"
    by (simp only: take_bit_eq_mask mask_eq_exp_minus_1)
  then have "unat (x AND (2 ^ w - 1)) = take_bit w (unat x)" by (simp only: unsigned_take_bit_eq)
  then show ?thesis by (simp only: take_bit_eq_mod)
qed

lemma limbs_val_drop:
  assumes "i \<le> length p"
  shows "limbs_val p div 2 ^ (64 * i + b) = limbs_val (drop i p) div 2 ^ b"
proof -
  have "limbs_val p div BB ^ i = limbs_val (drop i p)"
    using limbs_val_split [OF assms] limbs_val_lt [of "take i p"] assms by simp
  moreover have "2 ^ (64 * i + b) = BB ^ i * 2 ^ b" by (simp only: power_add BB_power)
  ultimately show ?thesis by (simp add: div_mult2_eq)
qed

lemma limb_cons_div:
  assumes "b \<le> 64"
  shows "limbs_val (x # xs) div 2 ^ b = unat x div 2 ^ b + 2 ^ (64 - b) * limbs_val xs"
proof -
  have BB: "BB = 2 ^ b * 2 ^ (64 - b)" using assms by (simp add: BB_def flip: power_add)
  then have "limbs_val (x # xs) = unat x + 2 ^ b * (2 ^ (64 - b) * limbs_val xs)" by (simp add: mult.assoc)
  then show ?thesis by (simp del: limbs_val_Cons mult_cancel_left mult_cancel_right)
qed

lemma getbit_spec:
  assumes "0 < bi" and "bi \<le> 64 * length p"
  shows "unat (getbit p bi) = limbs_val p div 2 ^ (bi - 1) mod 2"
proof -
  define i where "i = (bi - 1) div 64"
  define b where "b = (bi - 1) mod 64"
  have i: "i < length p" using assms by (simp add: i_def less_mult_imp_div_less mult.commute)
  have e: "bi - 1 = 64 * i + b" by (simp add: i_def b_def)
  have b: "b < 64" by (simp add: b_def)
  have d: "drop i p = p ! i # drop (Suc i) p" using i by (simp add: Cons_nth_drop_Suc)
  have "limbs_val p div 2 ^ (bi - 1) = unat (p ! i) div 2 ^ b + 2 ^ (64 - b) * limbs_val (drop (Suc i) p)"
    unfolding e using limbs_val_drop [of i p b] i limb_cons_div [of b] b d by simp
  moreover have "even ((2::nat) ^ (64 - b) * limbs_val (drop (Suc i) p))" using b by simp
  ultimately have "limbs_val p div 2 ^ (bi - 1) mod 2 = unat (p ! i) div 2 ^ b mod 2" by (simp add: mod_add_eq [symmetric, of "unat (p ! i) div 2 ^ b"] even_iff_mod_2_eq_zero)
  moreover have "unat (getbit p bi) = unat (p ! i) div 2 ^ b mod 2"
    using unat_and_mask [of "drop_bit b (p ! i)" 1] by (simp add: getbit_def i_def b_def unat_drop_bit_limb)
  ultimately show ?thesis by simp
qed

lemma mod_power_cancel:
  assumes "w \<le> k"
  shows "(a + 2 ^ k * y) mod 2 ^ w = a mod (2 ^ w :: nat)"
proof -
  have "(2::nat) ^ k = 2 ^ w * 2 ^ (k - w)" using assms by (simp flip: power_add)
  then have "a + 2 ^ k * y = a + 2 ^ w * (2 ^ (k - w) * y)" by (simp only: mult.assoc)
  then show ?thesis by (simp only: mod_mult_self2)
qed

lemma getbits_spec:
  assumes w: "w \<le> 64" and bi: "0 < bi" "bi \<le> 64 * length p"
  shows "unat (getbits p bi w) = limbs_val p div 2 ^ (bi - w) mod 2 ^ min bi w"
proof (cases "bi \<le> w")
  case True
  have "p = p ! 0 # tl p" using bi by (cases p) auto
  then have "limbs_val p = unat (p ! 0) + 2 ^ 64 * limbs_val (tl p)" by (metis limbs_val_Cons BB_def)
  then have "limbs_val p mod 2 ^ bi = unat (p ! 0) mod 2 ^ bi"
    using mod_power_cancel [of bi 64] True w by simp
  then show ?thesis using True by (simp add: getbits_def unat_and_mask min_def)
next
  case False
  define i where "i = (bi - w) div 64"
  define b where "b = (bi - w) mod 64"
  have e: "bi - w = 64 * i + b" by (simp add: i_def b_def)
  have b: "b < 64" by (simp add: b_def)
  show ?thesis
  proof (cases "w = 0")
    case True
    then show ?thesis using False by (simp add: getbits_def Let_def unat_and_mask min_def)
  next
    case w0: False
    have i: "i < length p"
    proof -
      have "64 * i < 64 * length p" using e bi False w0 by linarith
      then show ?thesis by simp
    qed
    have d: "drop i p = p ! i # drop (Suc i) p" using i by (simp add: Cons_nth_drop_Suc)
    have v: "limbs_val p div 2 ^ (bi - w) = unat (p ! i) div 2 ^ b + 2 ^ (64 - b) * limbs_val (drop (Suc i) p)"
      unfolding e using limbs_val_drop [of i p b] i limb_cons_div [of b] b d by simp
    have BBw: "x mod BB mod 2 ^ w = x mod 2 ^ w" for x
      using mod_mod_cancel [OF le_imp_power_dvd [OF w, of 2], of x] unfolding BB_def .
    show ?thesis
    proof (cases "64 - b < w")
      case True
      have "Suc i < length p"
      proof -
        have "64 * Suc i < 64 * length p" using e bi True b False by simp
        then show ?thesis by simp
      qed
      then have d2: "limbs_val (drop (Suc i) p) = unat (p ! Suc i) + 2 ^ 64 * limbs_val (drop (Suc (Suc i)) p)"
        by (metis limbs_val_Cons BB_def Cons_nth_drop_Suc)
      have "limbs_val p div 2 ^ (bi - w) = (unat (p ! i) div 2 ^ b + unat (p ! Suc i) * 2 ^ (64 - b))
          + 2 ^ 64 * (2 ^ (64 - b) * limbs_val (drop (Suc (Suc i)) p))"
        unfolding v d2 by (simp add: algebra_simps)
      then have "limbs_val p div 2 ^ (bi - w) mod 2 ^ w
          = (unat (p ! i) div 2 ^ b + unat (p ! Suc i) * 2 ^ (64 - b)) mod 2 ^ w"
        using mod_power_cancel [OF w] by simp
      moreover have "unat (getbits p bi w)
          = (unat (drop_bit b (p ! i)) + unat (push_bit (64 - b) (p ! Suc i))) mod BB mod 2 ^ w"
        using False True by (simp add: getbits_def Let_def unat_and_mask unat_plus_limb flip: i_def b_def)
      moreover have "\<dots> = (unat (p ! i) div 2 ^ b + unat (p ! Suc i) * 2 ^ (64 - b)) mod 2 ^ w"
        by (metis BBw mod_add_right_eq unat_drop_bit_limb unat_push_bit_limb)
      ultimately show ?thesis using False by (simp add: min_def)
    next
      case F: False
      have "limbs_val p div 2 ^ (bi - w) mod 2 ^ w = unat (p ! i) div 2 ^ b mod 2 ^ w"
        unfolding v using F by (intro mod_power_cancel) simp
      then show ?thesis
        using False F by (simp add: getbits_def Let_def unat_and_mask unat_drop_bit_limb min_def flip: i_def b_def)
    qed
  qed
qed

lemma ctz_from_spec:
  assumes "unat x < 2 ^ n" and "x \<noteq> 0"
  shows "2 ^ ctz_from n x dvd unat x \<and> odd (unat x div 2 ^ ctz_from n x)"
  using assms
proof (induction n arbitrary: x)
  case 0
  then have "unat x = 0" by simp
  then show ?case using "0.prems"(2) by (simp only: unat_eq_zero)
next
  case (Suc n)
  have b: "bit x 0 \<longleftrightarrow> odd (unat x)" by (metis bit_0 bit_unsigned_iff possible_bit_nat)
  show ?case
  proof (cases "odd (unat x)")
    case True
    then show ?thesis using b by simp
  next
    case False
    have h: "unat (drop_bit 1 x) = unat x div 2" by (simp only: unat_drop_bit_limb power_one_right)
    have "unat x \<noteq> 0" using Suc.prems(2) by (simp only: unat_eq_zero not_False_eq_True)
    then have "unat (drop_bit 1 x) \<noteq> 0" unfolding h using False by (auto elim!: evenE)
    then have nz: "drop_bit 1 x \<noteq> 0" by (metis unat_0)
    have "unat (drop_bit 1 x) < 2 ^ n" unfolding h using Suc.prems(1) by simp
    from Suc.IH [OF this nz] have IH: "2 ^ ctz_from n (drop_bit 1 x) dvd unat x div 2"
      "odd (unat x div 2 div 2 ^ ctz_from n (drop_bit 1 x))" unfolding h by simp_all
    have "2 * 2 ^ ctz_from n (drop_bit 1 x) dvd 2 * (unat x div 2)" by (rule mult_dvd_mono [OF dvd_refl IH(1)])
    then have "2 * 2 ^ ctz_from n (drop_bit 1 x) dvd unat x"
      using dvd_mult_div_cancel [of 2 "unat x"] False by (simp only: not_not)
    then show ?thesis using IH(2) b False by (simp add: div_mult2_eq)
  qed
qed

lemma count_trailing_zeros_spec:
  assumes "x \<noteq> 0"
  shows "2 ^ count_trailing_zeros x dvd unat x" and "odd (unat x div 2 ^ count_trailing_zeros x)"
  using ctz_from_spec [of x 64] assms unat_limb_less [of x] by (simp_all add: count_trailing_zeros_def)

lemma win_size_bounds: "1 \<le> win_size eb" "win_size eb \<le> 10" "1 < eb \<Longrightarrow> win_size eb < eb"
  by (auto simp: win_size_def)

section \<open>The window method\<close>

text \<open>
  One window: the bits that \<open>getbits\<close> returns without their trailing zeros, in terms of the
  exponent's value.
\<close>

lemma window_value:
  assumes w: "0 < w" "w \<le> 64" and bi: "0 < ebi" "ebi \<le> 64 * length ep"
    and top: "odd (limbs_val ep div 2 ^ (ebi - 1))"
    and X: "X = getbits ep ebi w" and cnt: "cnt = count_trailing_zeros X"
  shows "cnt < min ebi w" and "odd (unat (drop_bit cnt X))" and "unat (drop_bit cnt X) < 2 ^ (min ebi w - cnt)"
    and "limbs_val ep div 2 ^ (ebi - (min ebi w - cnt))
      = limbs_val ep div 2 ^ ebi * 2 ^ (min ebi w - cnt) + unat (drop_bit cnt X)"
proof -
  define e where "e = limbs_val ep"
  define t where "t = min ebi w"
  have t: "0 < t" "t \<le> ebi" "ebi - w = ebi - t" using w bi by (auto simp: t_def)
  have Xv: "unat X = e div 2 ^ (ebi - t) mod 2 ^ t"
    using getbits_spec [OF w(2) bi] t(3) by (simp add: X e_def t_def)
  have split: "e div 2 ^ (ebi - t) = e div 2 ^ ebi * 2 ^ t + unat X"
  proof -
    have "e div 2 ^ ebi = e div 2 ^ (ebi - t) div 2 ^ t"
      using t(2) by (simp add: div_mult2_eq [symmetric] flip: power_add)
    then show ?thesis unfolding Xv by (metis div_mult_mod_eq)
  qed
  have "e div 2 ^ (ebi - 1) = e div 2 ^ (ebi - t) div 2 ^ (t - 1)"
    using t(1,2) by (simp add: div_mult2_eq [symmetric] flip: power_add)
  also have "\<dots> = e div 2 ^ ebi * 2 + unat X div 2 ^ (t - 1)"
  proof -
    have "(2::nat) ^ t = 2 ^ (t - 1) * 2" using t(1) by (cases t) simp_all
    then have "e div 2 ^ (ebi - t) = unat X + 2 ^ (t - 1) * (e div 2 ^ ebi * 2)" unfolding split by simp
    then show ?thesis by simp
  qed
  finally have "odd (unat X div 2 ^ (t - 1))" using top by (simp add: e_def)
  then have X0: "X \<noteq> 0" by (metis div_0 even_zero unat_0)
  note c = count_trailing_zeros_spec [OF X0, folded cnt]
  have dv: "unat (drop_bit cnt X) = unat X div 2 ^ cnt" by (rule unat_drop_bit_limb)
  have lt: "unat X < 2 ^ t" unfolding Xv by simp
  have "unat X \<noteq> 0" using X0 by (simp only: unat_eq_zero not_False_eq_True)
  then have "2 ^ cnt \<le> unat X" using c(1) by (intro dvd_imp_le) simp_all
  then have "(2::nat) ^ cnt < 2 ^ t" using lt by linarith
  then show ct: "cnt < min ebi w" by (simp add: t_def)
  show "odd (unat (drop_bit cnt X))" unfolding dv by (rule c(2))
  have pw: "(2::nat) ^ t = 2 ^ (t - cnt) * 2 ^ cnt" using ct by (simp add: t_def flip: power_add)
  show "unat (drop_bit cnt X) < 2 ^ (min ebi w - cnt)"
    unfolding dv t_def [symmetric] using lt unfolding pw by (simp add: less_mult_imp_div_less)
  have "ebi - (t - cnt) = (ebi - t) + cnt" using ct t(2) by (simp add: t_def)
  then have "e div 2 ^ (ebi - (t - cnt)) = e div 2 ^ (ebi - t) div 2 ^ cnt"
    by (simp add: div_mult2_eq power_add)
  also have "\<dots> = e div 2 ^ ebi * 2 ^ (t - cnt) + unat X div 2 ^ cnt"
  proof -
    have "e div 2 ^ (ebi - t) = unat X + 2 ^ cnt * (e div 2 ^ ebi * 2 ^ (t - cnt))"
      unfolding split pw by simp
    then show ?thesis by simp
  qed
  finally show "limbs_val ep div 2 ^ (ebi - (min ebi w - cnt))
      = limbs_val ep div 2 ^ ebi * 2 ^ (min ebi w - cnt) + unat (drop_bit cnt X)"
    unfolding dv by (simp add: e_def t_def)
qed

lemma sizeinbase_bits:
  assumes "ep \<noteq> []" and "last ep \<noteq> 0"
  defines "t \<equiv> MPN_SIZEINBASE_2EXP ep (length ep) 1"
  shows "0 < t" and "2 ^ (t - 1) \<le> limbs_val ep" and "limbs_val ep < 2 ^ t" and "t \<le> 64 * length ep"
proof -
  have "t = length ep * 64 - count_leading_zeros (last ep)"
    using assms(1) by (simp add: t_def MPN_SIZEINBASE_2EXP_def Let_def last_conv_nth)
  with limbs_bits [OF assms(1,2)]
  show "0 < t" "2 ^ (t - 1) \<le> limbs_val ep" "limbs_val ep < 2 ^ t" "t \<le> 64 * length ep" by simp_all
qed

text \<open>
  The contract between the window method and the arithmetic it runs on: \<open>rep c i x\<close> says that
  \<open>x\<close> stands for the \<open>i\<close>-th power of the base in the context \<open>c\<close> (a modulus, its inverse, the
  base and the chosen routines); a squaring doubles the exponent, a multiplication adds two.
\<close>

locale power_form =
  fixes ok :: "'c \<Rightarrow> bool" and rep :: "'c \<Rightarrow> nat \<Rightarrow> limb list \<Rightarrow> bool"
    and sqr :: "'c \<Rightarrow> limb list \<Rightarrow> limb list" and mul :: "'c \<Rightarrow> limb list \<Rightarrow> limb list \<Rightarrow> limb list"
  assumes sqr_rep: "ok c \<Longrightarrow> rep c i x \<Longrightarrow> rep c (2 * i) (sqr c x)"
    and mul_rep: "ok c \<Longrightarrow> rep c i x \<Longrightarrow> rep c j y \<Longrightarrow> rep c (i + j) (mul c x y)"
begin

lemma sqr_pow_rep: "ok c \<Longrightarrow> rep c i x \<Longrightarrow> rep c (i * 2 ^ k) ((sqr c ^^ k) x)"
  by (induction k) (auto dest: sqr_rep simp: ac_simps)

lemma window_loop:
  assumes ok: "ok c" and w: "0 < w" "w \<le> 64"
    and pp: "\<And>k. k < 2 ^ (w - 1) \<Longrightarrow> rep c (2 * k + 1) (pp ! k)"
    and "ebi \<le> 64 * length ep" and "rep c (limbs_val ep div 2 ^ ebi) rp"
  shows "\<exists>r. INNERLOOP (sqr c) (mul c) pp ep w rp ebi = Some r \<and> rep c (limbs_val ep) r"
  using assms(5,6)
proof (induction ebi arbitrary: rp rule: less_induct)
  case (less ebi)
  let ?e = "limbs_val ep"
  show ?case
  proof (cases "ebi = 0")
    case True
    then show ?thesis using less.prems(2) by (simp add: INNERLOOP.simps [of _ _ _ _ _ _ 0])
  next
    case e0: False
    have gb: "unat (getbit ep ebi) = ?e div 2 ^ (ebi - 1) mod 2"
      using getbit_spec e0 less.prems(1) by simp
    have half: "?e div 2 ^ (ebi - 1) = 2 * (?e div 2 ^ ebi) + ?e div 2 ^ (ebi - 1) mod 2"
    proof -
      have "?e div 2 ^ ebi = ?e div 2 ^ (ebi - 1) div 2"
        using e0 by (cases ebi) (simp_all add: div_mult2_eq mult.commute [of 2])
      then show ?thesis by simp
    qed
    show ?thesis
    proof (cases "getbit ep ebi = 0")
      case True
      have "rep c (?e div 2 ^ (ebi - 1)) (sqr c rp)"
        using sqr_rep [OF ok less.prems(2)] half gb True by simp
      from less.IH [OF _ _ this] show ?thesis
        using e0 less.prems(1) True by (simp add: INNERLOOP.simps [of _ _ _ _ _ _ ebi])
    next
      case False
      have "unat (getbit ep ebi) \<noteq> 0" using False by (simp only: unat_eq_zero not_False_eq_True)
      then have top: "odd (?e div 2 ^ (ebi - 1))" unfolding gb by (simp add: even_iff_mod_2_eq_zero)
      define X where "X = getbits ep ebi w"
      define cnt where "cnt = count_trailing_zeros X"
      define tw where "tw = min ebi w - cnt"
      note wv = window_value [OF w _ less.prems(1) top X_def cnt_def, folded tw_def]
      have tw: "0 < tw" "tw \<le> ebi" "tw \<le> w" using wv(1) e0 by (auto simp: tw_def)
      let ?Y = "unat (drop_bit cnt X)"
      have "unat (drop_bit 1 (drop_bit cnt X)) = ?Y div 2" by (simp only: unat_drop_bit_limb power_one_right)
      moreover have "?Y div 2 < 2 ^ (w - 1)"
      proof -
        have "?Y < 2 ^ w" using wv(3) e0 tw(3) by (simp add: order.strict_trans2 [OF _ power_increasing])
        then show ?thesis using w(1) by (cases w) (simp_all add: div_less_iff_less_mult)
      qed
      moreover have "2 * (?Y div 2) + 1 = ?Y" using wv(2) e0 by simp
      ultimately have "rep c ?Y (pp ! unat (drop_bit 1 (drop_bit cnt X)))" using pp [of "?Y div 2"] by simp
      from mul_rep [OF ok sqr_pow_rep [OF ok less.prems(2), of tw] this]
      have "rep c (?e div 2 ^ (ebi - tw)) (mul c ((sqr c ^^ tw) rp) (pp ! unat (drop_bit 1 (drop_bit cnt X))))"
        using wv(4) e0 by simp
      from less.IH [OF _ _ this] show ?thesis
        using e0 tw wv(1) less.prems(1) False
        by (simp add: INNERLOOP.simps [of _ _ _ _ _ _ ebi] Let_def min_le_iff_disj not_le flip: X_def cnt_def tw_def)
    qed
  qed
qed

lemma window_run:
  assumes ok: "ok c" and ep: "ep \<noteq> []" "last ep \<noteq> 0" "1 < limbs_val ep"
    and ebi: "ebi = MPN_SIZEINBASE_2EXP ep (length ep) 1" and w: "w = win_size ebi"
    and X: "X = getbits ep ebi w" and cnt: "cnt = count_trailing_zeros X"
    and pp: "\<And>j. j < 2 ^ (w - 1) \<Longrightarrow> rep c (2 * j + 1) (pp ! j)"
  shows "0 < ebi - w + cnt"
    and "\<exists>r. INNERLOOP (sqr c) (mul c) pp ep w (pp ! unat (drop_bit 1 (drop_bit cnt X))) (ebi - w + cnt) = Some r
      \<and> rep c (limbs_val ep) r"
proof -
  let ?e = "limbs_val ep" and ?Y = "unat (drop_bit cnt X)" and ?ebi = "ebi - w + cnt"
  note eb = sizeinbase_bits [OF ep(1,2), folded ebi]
  have ebi1: "1 < ebi"
  proof (rule ccontr)
    assume "\<not> 1 < ebi"
    then have "ebi = 1" using eb(1) by simp
    then show False using eb(3) ep(3) by simp
  qed
  have wb: "0 < w" "w \<le> 64" "w < ebi" using win_size_bounds [of ebi] ebi1 by (simp_all add: w)
  then show "0 < ?ebi" by simp
  have e0: "?e div 2 ^ ebi = 0" using eb(3) by simp
  have "?e div 2 ^ (ebi - 1) < 2" using eb(3) ebi1 by (cases ebi) (simp_all add: less_mult_imp_div_less)
  moreover have "0 < ?e div 2 ^ (ebi - 1)" using eb(2) by (simp add: div_greater_zero_iff)
  ultimately have top: "odd (?e div 2 ^ (ebi - 1))" by (metis One_nat_def less_2_cases less_not_refl odd_one)
  have mw: "min ebi w = w" using wb(3) by simp
  note wv = window_value [OF wb(1,2) eb(1,4) top X cnt, unfolded mw e0]
  have ebi': "?ebi = ebi - (w - cnt)" "?ebi \<le> 64 * length ep" using wv(1) wb(3) eb(4) by auto
  have Yi: "unat (drop_bit 1 (drop_bit cnt X)) = ?Y div 2" by (simp only: unat_drop_bit_limb power_one_right)
  have "?Y < 2 ^ w"
    using wv(3) by (rule order.strict_trans2) (simp add: power_increasing)
  then have "?Y div 2 < 2 ^ (w - 1)" using wb(1) by (cases w) (simp_all add: div_less_iff_less_mult)
  from pp [OF this] have "rep c (?e div 2 ^ ?ebi) (pp ! unat (drop_bit 1 (drop_bit cnt X)))"
    using wv(2,4) unfolding Yi ebi'(1) by simp
  then show "\<exists>r. INNERLOOP (sqr c) (mul c) pp ep w (pp ! unat (drop_bit 1 (drop_bit cnt X))) ?ebi = Some r \<and> rep c ?e r"
    using window_loop [OF ok wb(1,2) pp ebi'(2)] by blast
qed

lemma odd_powers_rep:
  assumes ok: "ok c" and "rep c 2 b2" and "rep c (2 * i + 1) x" and "k \<le> n"
  shows "rep c (2 * (i + k) + 1) (odd_powers (mul c) b2 n x ! k)"
  using assms(3,4)
proof (induction n arbitrary: i k x)
  case (Suc n)
  have "rep c (2 * Suc i + 1) (mul c x b2)" using mul_rep [OF ok Suc.prems(1) assms(2)] by simp
  from Suc.IH [OF this, of "k - 1"] show ?case using Suc.prems by (cases k) simp_all
qed simp

end

section \<open>Montgomery form\<close>

text \<open>What the routines that are not modelled promise, and how the thresholds are ordered.\<close>

definition large_ok :: "mpn_cfg \<Rightarrow> bool" where
  "large_ok cfg \<longleftrightarrow> binv_ok cfg
   \<and> (\<forall>np dp. dp \<noteq> [] \<longrightarrow> last dp \<noteq> 0 \<longrightarrow> length dp \<le> length np
        \<longrightarrow> length (snd (mpn_tdiv_qr cfg np dp)) = length dp
          \<and> limbs_val (snd (mpn_tdiv_qr cfg np dp)) = limbs_val np mod limbs_val dp)"

definition low_ok :: "mpn_cfg \<Rightarrow> bool" where
  "low_ok cfg \<longleftrightarrow> mod_1_ok cfg \<and> lo_ok cfg"

definition thresholds_ok :: "mpn_cfg \<Rightarrow> bool" where
  "thresholds_ok cfg \<longleftrightarrow>
     (if WANT_REDC_2 cfg
      then 1 < REDC_1_TO_REDC_2_THRESHOLD cfg
        \<and> REDC_1_TO_REDC_2_THRESHOLD cfg \<le> REDC_2_TO_REDC_N_THRESHOLD cfg
        \<and> MUL_TOOM22_THRESHOLD cfg \<le> REDC_2_TO_REDC_N_THRESHOLD cfg
        \<and> 8 < REDC_2_TO_REDC_N_THRESHOLD cfg \<and> REDC_2_TO_REDC_N_THRESHOLD cfg \<le> MP_SIZE_T_MAX
      else 8 < REDC_1_TO_REDC_N_THRESHOLD cfg \<and> MUL_TOOM22_THRESHOLD cfg \<le> MP_SIZE_T_MAX
        \<and> REDC_1_TO_REDC_N_THRESHOLD cfg \<le> MP_SIZE_T_MAX)"

definition cfg_ok :: "mpn_cfg \<Rightarrow> bool" where
  "cfg_ok cfg \<longleftrightarrow> large_ok cfg \<and> low_ok cfg \<and> thresholds_ok cfg"

definition redc_ready :: "redc_kind \<Rightarrow> limb list \<Rightarrow> limb list \<Rightarrow> bool" where
  "redc_ready k mp mip \<longleftrightarrow>
     (case k of Redc0 \<Rightarrow> length mp = 1 \<and> - hd mip * hd mp = 1
      | Redc1 \<Rightarrow> (limbs_val mp * unat (hd mip) + 1) mod BB = 0
      | Redc2 \<Rightarrow> 2 \<le> length mp \<and> (limbs_val mp * (unat (mip ! 0) + BB * unat (mip ! 1)) + 1) mod (BB * BB) = 0
      | RedcN \<Rightarrow> 8 < length mp \<and> length mip = length mp \<and> limbs_val mp * limbs_val mip mod BB ^ length mp = 1)"

lemma large_okD:
  assumes "large_ok cfg"
  shows "binv_ok cfg" and "mul_ok cfg"
  using assms binv_okD(4) [of cfg] by (simp_all add: large_ok_def lo_ok_def)

lemma large_ok_tdiv:
  assumes "large_ok cfg" and "dp \<noteq> []" and "last dp \<noteq> 0" and "length dp \<le> length np"
  shows "length (snd (mpn_tdiv_qr cfg np dp)) = length dp"
    and "limbs_val (snd (mpn_tdiv_qr cfg np dp)) = limbs_val np mod limbs_val dp"
  using assms unfolding large_ok_def by blast+

lemma low_okD:
  assumes "low_ok cfg"
  shows "c \<noteq> 0 \<Longrightarrow> unat (mpn_mod_1 cfg ap c) = limbs_val ap mod unat c"
    and "b \<noteq> [] \<Longrightarrow> length b \<le> length a \<Longrightarrow> length (mpn_mul cfg a b) = length a + length b"
    and "b \<noteq> [] \<Longrightarrow> length b \<le> length a \<Longrightarrow> limbs_val (mpn_mul cfg a b) = limbs_val a * limbs_val b"
    and "x \<noteq> [] \<Longrightarrow> length x = length y \<Longrightarrow> length (mpn_mullo_n cfg x y) = length x"
    and "x \<noteq> [] \<Longrightarrow> length x = length y \<Longrightarrow> limbs_val (mpn_mullo_n cfg x y) = limbs_val x * limbs_val y mod BB ^ length x"
    and "z \<noteq> [] \<Longrightarrow> length (mpn_sqrlo cfg z) = length z"
    and "z \<noteq> [] \<Longrightarrow> limbs_val (mpn_sqrlo cfg z) = limbs_val z * limbs_val z mod BB ^ length z"
proof -
  have ok: "mod_1_ok cfg" "lo_ok cfg" "mul_ok cfg" using assms by (simp_all add: low_ok_def lo_ok_def)
  show "c \<noteq> 0 \<Longrightarrow> unat (mpn_mod_1 cfg ap c) = limbs_val ap mod unat c" by (rule mpn_mod_1_spec [OF ok(1)])
  show "b \<noteq> [] \<Longrightarrow> length b \<le> length a \<Longrightarrow> length (mpn_mul cfg a b) = length a + length b"
    "b \<noteq> [] \<Longrightarrow> length b \<le> length a \<Longrightarrow> limbs_val (mpn_mul cfg a b) = limbs_val a * limbs_val b"
    using mpn_mul_spec [OF ok(3)] by blast+
  show "x \<noteq> [] \<Longrightarrow> length x = length y \<Longrightarrow> length (mpn_mullo_n cfg x y) = length x"
    "x \<noteq> [] \<Longrightarrow> length x = length y \<Longrightarrow> limbs_val (mpn_mullo_n cfg x y) = limbs_val x * limbs_val y mod BB ^ length x"
    by (simp_all add: mpn_mullo_n_spec [OF ok(2)])
  show "z \<noteq> [] \<Longrightarrow> length (mpn_sqrlo cfg z) = length z"
    "z \<noteq> [] \<Longrightarrow> limbs_val (mpn_sqrlo cfg z) = limbs_val z * limbs_val z mod BB ^ length z"
    by (simp_all add: mpn_sqrlo_spec [OF ok(2)])
qed

lemma umul_pair:
  assumes "length a = 1" and "length b = 1" and "umul_ppmm (hd a) (hd b) = (h, l)"
  shows "limbs_val [l, h] = limbs_val a * limbs_val b"
  using umul_ppmm_spec [OF assms(3)] assms(1,2) by (auto simp: length_Suc_conv algebra_simps)

lemma MPN_MUL_N_spec:
  assumes "large_ok cfg" and "length a = length b" and "a \<noteq> []" and "k = MulUmul \<longrightarrow> length a = 1"
  shows "length (MPN_MUL_N cfg k a b) = 2 * length a" and "limbs_val (MPN_MUL_N cfg k a b) = limbs_val a * limbs_val b"
  using assms mpn_mul_n_spec [OF large_okD(2) [OF assms(1)] assms(2,3)] mul_basecase_square [OF assms(2,3)] umul_pair [of a b]
  by (cases k; cases "umul_ppmm (hd a) (hd b)"; simp add: MPN_MUL_N_def)+

lemma MPN_SQR_spec:
  assumes "large_ok cfg" and "a \<noteq> []" and "k = SqrUmul \<longrightarrow> length a = 1"
  shows "length (MPN_SQR cfg k a) = 2 * length a" and "limbs_val (MPN_SQR cfg k a) = limbs_val a * limbs_val a"
  using assms mpn_sqr_spec [OF large_okD(2) [OF assms(1)] assms(2)] mul_basecase_square [OF refl assms(2)] mpn_sqr_basecase_spec [OF assms(2)]
    umul_pair [of a a]
  by (cases k; cases "umul_ppmm (hd a) (hd a)"; simp add: MPN_SQR_def)+

lemma MPN_REDUCE_spec:
  assumes "large_ok cfg" and "redc_ready k mp mip" and "mp \<noteq> []" and "length tp = 2 * length mp"
  shows "length (MPN_REDUCE cfg k tp mp mip) = length mp
    \<and> redc_result (limbs_val mp) (BB ^ length mp) (limbs_val tp) (limbs_val (MPN_REDUCE cfg k tp mp mip))"
proof (cases k)
  case Redc0
  obtain m0 where m: "mp = [m0]" using assms(2) Redc0 by (auto simp: redc_ready_def length_Suc_conv)
  obtain u0 u1 where u: "tp = [u0, u1]" using assms(4) m by (auto simp: length_Suc_conv numeral_2_eq_2)
  show ?thesis
    using MPN_REDC_0_spec [of "- hd mip" m0 u0 u1] assms(2) Redc0 m u by (simp add: MPN_REDUCE_def redc_ready_def)
next
  case Redc1
  then show ?thesis using MPN_REDC_1_spec [of mp "hd mip" tp] assms by (simp add: MPN_REDUCE_def redc_ready_def)
next
  case Redc2
  then show ?thesis using MPN_REDC_2_spec [of mp mip tp] assms by (simp add: MPN_REDUCE_def redc_ready_def)
next
  case RedcN
  then show ?thesis
    using mpn_redc_n_spec [OF large_okD(1) [OF assms(1)], of mp tp mip] assms by (simp add: MPN_REDUCE_def redc_ready_def)
qed

lemma mod_mult_cancel_coprime:
  fixes a b c m :: nat
  assumes "coprime c m" and "a * c mod m = b * c mod m"
  shows "a mod m = b mod m"
proof -
  have "int m dvd (int a - int b) * int c"
    using arg_cong [OF assms(2), of int] by (simp add: zmod_int mod_eq_dvd_iff left_diff_distrib)
  moreover have "coprime (int m) (int c)" using assms(1) by (simp add: coprime_commute)
  ultimately have "int m dvd int a - int b" by (simp add: coprime_dvd_mult_left_iff)
  then show ?thesis by (metis mod_eq_dvd_iff of_nat_eq_iff zmod_int)
qed

lemma coprime_BB: "odd m \<Longrightarrow> coprime (BB ^ n) m"
  by (simp only: BB_def coprime_power_left_iff coprime_left_2_iff_odd) simp

text \<open>The context of an exponentiation: configuration, routines, modulus, inverse, base.\<close>

type_synonym mont = "mpn_cfg \<times> mul_kind \<times> sqr_kind \<times> redc_kind \<times> limb list \<times> limb list \<times> nat"

fun mont_ok :: "mont \<Rightarrow> bool" where
  "mont_ok (cfg, mk, sk, rk, mp, mip, b) \<longleftrightarrow> large_ok cfg \<and> odd (limbs_val mp) \<and> mp \<noteq> [] \<and> redc_ready rk mp mip
     \<and> (mk = MulUmul \<longrightarrow> length mp = 1) \<and> (sk = SqrUmul \<longrightarrow> length mp = 1)"

fun mont_rep :: "mont \<Rightarrow> nat \<Rightarrow> limb list \<Rightarrow> bool" where
  "mont_rep (cfg, mk, sk, rk, mp, mip, b) i x \<longleftrightarrow>
     length x = length mp \<and> limbs_val x mod limbs_val mp = b ^ i * BB ^ length mp mod limbs_val mp"

fun mont_sqr :: "mont \<Rightarrow> limb list \<Rightarrow> limb list" where
  "mont_sqr (cfg, mk, sk, rk, mp, mip, b) x = MPN_REDUCE cfg rk (MPN_SQR cfg sk x) mp mip"

fun mont_mul :: "mont \<Rightarrow> limb list \<Rightarrow> limb list \<Rightarrow> limb list" where
  "mont_mul (cfg, mk, sk, rk, mp, mip, b) x y = MPN_REDUCE cfg rk (MPN_MUL_N cfg mk x y) mp mip"

lemma redc_product_rep:
  fixes m R :: nat
  assumes "coprime R m" and "redc_result m R (x * y) r"
    and "x mod m = b ^ i * R mod m" and "y mod m = b ^ j * R mod m"
  shows "r mod m = b ^ (i + j) * R mod m"
proof (rule mod_mult_cancel_coprime [OF assms(1)])
  have "r * R mod m = x * y mod m" using assms(2) by (simp add: redc_result_def)
  also have "\<dots> = (b ^ i * R) * (b ^ j * R) mod m" by (rule mod_mult_cong [OF assms(3,4)])
  finally show "r * R mod m = b ^ (i + j) * R * R mod m" by (simp add: power_add ac_simps)
qed

interpretation montgomery: power_form mont_ok mont_rep mont_sqr mont_mul
proof
  fix c :: mont and i j :: nat and x y :: "limb list"
  obtain cfg mk sk rk mp mip b where c: "c = (cfg, mk, sk, rk, mp, mip, b)" by (cases c) auto
  assume ok: "mont_ok c" and x: "mont_rep c i x"
  have mp: "mp \<noteq> []" "large_ok cfg" "odd (limbs_val mp)" and rd: "redc_ready rk mp mip"
    and k: "mk = MulUmul \<longrightarrow> length mp = 1" "sk = SqrUmul \<longrightarrow> length mp = 1" using ok c by auto
  have lx: "length x = length mp" "x \<noteq> []" using x c mp by auto
  note fin = redc_product_rep [OF coprime_BB [OF mp(3)]]
  show "mont_rep c (2 * i) (mont_sqr c x)"
    using MPN_REDUCE_spec [OF mp(2) rd mp(1), of "MPN_SQR cfg sk x"] MPN_SQR_spec [OF mp(2) lx(2), of sk] k lx x c
      fin [of "length mp" "limbs_val x" "limbs_val x" _ b i i]
    by (simp add: mult_2)
  assume y: "mont_rep c j y"
  show "mont_rep c (i + j) (mont_mul c x y)"
    using MPN_REDUCE_spec [OF mp(2) rd mp(1), of "MPN_MUL_N cfg mk x y"] MPN_MUL_N_spec [OF mp(2) _ lx(2), of y mk] k lx x y c
      fin [of "length mp" "limbs_val x" "limbs_val y" _ b i j]
    by simp
qed

section \<open>The prepared inverse fits the ladder\<close>

lemma BELOW_THRESHOLD_alt: "BELOW_THRESHOLD n t \<longleftrightarrow> t \<noteq> 0 \<and> (t = MP_SIZE_T_MAX \<or> n < t)"
  by (auto simp: BELOW_THRESHOLD_def ABOVE_THRESHOLD_def)

lemma BELOW_mono: "BELOW_THRESHOLD n t \<Longrightarrow> t \<le> t' \<Longrightarrow> t' \<le> MP_SIZE_T_MAX \<Longrightarrow> BELOW_THRESHOLD n t'"
  by (auto simp: BELOW_THRESHOLD_alt)

lemma not_BELOW: "\<not> BELOW_THRESHOLD n t \<Longrightarrow> 0 < t \<Longrightarrow> t \<le> n"
  by (auto simp: BELOW_THRESHOLD_alt)

lemma negate_pair:
  assumes "length ip = 2" and "m * limbs_val ip mod BB ^ 2 = 1"
  shows "(m * (unat (- (ip ! 0)) + BB * unat (NOT (ip ! 1))) + 1) mod (BB * BB) = 0"
proof -
  obtain a b where ip: "ip = [a, b]" using assms(1) by (auto simp: length_Suc_conv numeral_2_eq_2)
  define v where "v = unat a + BB * unat b"
  have v: "m * v mod (BB * BB) = 1" using assms(2) by (simp add: ip v_def power2_eq_square)
  have a0: "a \<noteq> 0"
  proof
    assume "a = 0"
    then have "BB dvd m * v" by (simp add: v_def)
    then have "BB dvd m * v mod (BB * BB)" by (simp add: dvd_mod)
    then show False unfolding v using BB_gt1 by simp
  qed
  have na: "unat (- a) + unat a = BB" using unat_sub_borrow [of 0 a] a0 by (simp add: word_gt_0)
  have nb: "unat (NOT b) + 1 + unat b = BB"
  proof -
    have "NOT b = -1 - b" by (simp add: not_eq_complement)
    moreover have "unat (-1 - b) + unat b = unat (-1 :: limb)" using unat_sub_borrow [of "-1" b] by simp
    moreover have "unat (-1 :: limb) + 1 = BB" using unat_minus1 [of 0] by simp
    ultimately show ?thesis by simp
  qed
  have w: "unat (- a) + BB * unat (NOT b) + v = BB * BB"
  proof -
    have "unat (- a) + BB * unat (NOT b) + v = (unat (- a) + unat a) + BB * (unat (NOT b) + unat b)"
      by (simp add: v_def algebra_simps)
    also have "\<dots> = BB * (unat (NOT b) + 1 + unat b)" unfolding na by (simp add: algebra_simps)
    finally show ?thesis unfolding nb .
  qed
  have "m * v = 1 + BB * BB * (m * v div (BB * BB))" using v by (metis mod_mult_div_eq)
  then have "(m * (unat (- a) + BB * unat (NOT b)) + 1) + BB * BB * (m * v div (BB * BB)) = m * (BB * BB)"
    unfolding w [symmetric] by (simp add: distrib_left)
  then have "BB * BB dvd (m * (unat (- a) + BB * unat (NOT b)) + 1) + BB * BB * (m * v div (BB * BB))" by simp
  then have "BB * BB dvd m * (unat (- a) + BB * unat (NOT b)) + 1"
    by (metis dvd_add_left_iff dvd_triv_left)
  then show ?thesis by (simp add: ip)
qed

lemma redc_choice_ready:
  assumes cfg: "cfg_ok cfg" and mp: "mp \<noteq> []" "odd (limbs_val mp)"
  shows "redc_ready (redc_choice cfg (length mp)) mp (powm_mip cfg mp)"
proof -
  have L: "large_ok cfg" and T: "thresholds_ok cfg" using cfg by (simp_all add: cfg_ok_def)
  have n: "0 < length mp" using mp(1) by simp
  consider (r1) "redc_choice cfg (length mp) = Redc1"
    | (r2) "redc_choice cfg (length mp) = Redc2" "2 \<le> length mp"
    | (rn) "redc_choice cfg (length mp) = RedcN" "8 < length mp"
    using T not_BELOW [of "length mp"] by (fastforce simp: redc_choice_def thresholds_ok_def split: if_splits)
  then show ?thesis
  proof cases
    case r1
    then show ?thesis using binvert_limb_redc [OF mp(2,1)] by (simp add: redc_ready_def powm_mip_def)
  next
    case r2
    then show ?thesis
      using negate_pair [of "mpn_binvert cfg mp 2" "limbs_val mp"] mpn_binvert_spec [OF large_okD(1) [OF L] _ r2(2) mp(2)]
      by (simp add: redc_ready_def powm_mip_def Let_def)
  next
    case rn
    then show ?thesis using mpn_binvert_spec [OF large_okD(1) [OF L] n order_refl mp(2)] by (simp add: redc_ready_def powm_mip_def)
  qed
qed

lemma innerloop_choice:
  assumes T: "thresholds_ok cfg" and n: "n \<noteq> 1" and k: "innerloop_kernels cfg n = (mk, sk, rk)"
  shows "rk = redc_choice cfg n" and "mk \<noteq> MulUmul" and "sk \<noteq> SqrUmul"
proof -
  note mono = BELOW_mono [of n]
  show "rk = redc_choice cfg n"
    using T n k mono [of "MUL_TOOM22_THRESHOLD cfg" "REDC_2_TO_REDC_N_THRESHOLD cfg"]
      mono [of "MUL_TOOM22_THRESHOLD cfg" "REDC_1_TO_REDC_2_THRESHOLD cfg"]
      mono [of "MUL_TOOM22_THRESHOLD cfg" "REDC_1_TO_REDC_N_THRESHOLD cfg"]
    by (auto simp: innerloop_kernels_def innerloop_redc_2_def innerloop_redc_n_def redc_choice_def
        thresholds_ok_def not_less split: if_splits)
  show "mk \<noteq> MulUmul" "sk \<noteq> SqrUmul"
    using n k by (auto simp: innerloop_kernels_def innerloop_redc_2_def innerloop_redc_n_def basecase_sqr_def
        split: if_splits)
qed

lemma redc_0_ready:
  assumes "thresholds_ok cfg" and "length mp = 1" and "odd (limbs_val mp)"
  shows "redc_choice cfg (length mp) = Redc1" and "redc_ready Redc0 mp (powm_mip cfg mp)"
proof -
  show r: "redc_choice cfg (length mp) = Redc1"
    using assms(1,2) by (cases "WANT_REDC_2 cfg") (simp_all add: redc_choice_def thresholds_ok_def BELOW_THRESHOLD_alt)
  obtain m0 where "mp = [m0]" using assms(2) by (auto simp: length_Suc_conv)
  then show "redc_ready Redc0 mp (powm_mip cfg mp)"
    using binvert_limb_inverse [of m0] assms(3) r by (simp add: redc_ready_def powm_mip_def)
qed

section \<open>Correctness of the exponentiation\<close>

lemma redcify_spec:
  assumes "large_ok cfg" and "mp \<noteq> []" and "last mp \<noteq> 0"
  shows "length (redcify cfg up mp) = length mp"
    and "limbs_val (redcify cfg up mp) = limbs_val up * BB ^ length mp mod limbs_val mp"
proof -
  have z: "limbs_val (replicate k 0) = 0" for k by (induction k) simp_all
  show "length (redcify cfg up mp) = length mp"
    "limbs_val (redcify cfg up mp) = limbs_val up * BB ^ length mp mod limbs_val mp"
    using large_ok_tdiv [OF assms, of "replicate (length mp) 0 @ up"]
    by (simp_all add: redcify_def limbs_val_app z mult.commute)
qed

lemma limbs_val_zeros [simp]: "limbs_val (replicate k 0) = 0"
  by (induction k) simp_all

lemma powm_table_rep:
  assumes cfg: "cfg_ok cfg" and mp: "mp \<noteq> []" "odd (limbs_val mp)"
    and b: "length x = length mp" "limbs_val x mod limbs_val mp = b * BB ^ length mp mod limbs_val mp"
    and k: "k < 2 ^ (w - 1)"
  shows "length (powm_table cfg w x mp (powm_mip cfg mp) ! k) = length mp
    \<and> limbs_val (powm_table cfg w x mp (powm_mip cfg mp) ! k) mod limbs_val mp
      = b ^ (2 * k + 1) * BB ^ length mp mod limbs_val mp"
proof -
  let ?n = "length mp" and ?mip = "powm_mip cfg mp"
  have L: "large_ok cfg" and T: "thresholds_ok cfg" using cfg by (simp_all add: cfg_ok_def)
  let ?c1 = "(cfg, MulN, SqrGeneral, redc_choice cfg ?n, mp, ?mip, b) :: mont"
  let ?c = "(if ?n = 1 then (cfg, MulUmul, SqrGeneral, Redc0, mp, ?mip, b) else ?c1) :: mont"
  have ok1: "mont_ok ?c1" using L mp redc_choice_ready [OF cfg mp] by simp
  have ok: "mont_ok ?c" using L mp ok1 redc_0_ready [OF T _ mp(2)] by simp
  have "mont_rep ?c1 1 x" using b by simp
  from montgomery.sqr_rep [OF ok1 this]
  have b1: "mont_rep ?c1 2 (MPN_REDUCE cfg (redc_choice cfg ?n) (mpn_sqr cfg x) mp ?mip)"
    by (simp add: MPN_SQR_def)
  have b2: "mont_rep ?c 2 (MPN_REDUCE cfg (redc_choice cfg ?n) (mpn_sqr cfg x) mp ?mip)"
  proof (cases "?n = 1")
    case True
    show ?thesis unfolding if_P [OF True] using b1 by (simp only: mont_rep.simps)
  next
    case False
    show ?thesis unfolding if_not_P [OF False] by (rule b1)
  qed
  have mul: "mont_mul ?c = (\<lambda>x y. if ?n = 1 then MPN_REDUCE cfg Redc0 (MPN_MUL_N cfg MulUmul x y) mp ?mip
      else MPN_REDUCE cfg (redc_choice cfg ?n) (mpn_mul_n cfg x y) mp ?mip)"
    by (intro ext) (simp add: MPN_MUL_N_def)
  have "mont_rep ?c (2 * 0 + 1) x" using b by simp
  from montgomery.odd_powers_rep [OF ok b2 this, of k "2 ^ (w - 1) - 1"]
  have "mont_rep ?c (2 * k + 1) (powm_table cfg w x mp ?mip ! k)"
    using k unfolding mul powm_table_def Let_def by simp
  then show ?thesis by (simp split: if_splits)
qed

lemma powm_finish_spec:
  assumes L: "large_ok cfg" and mp: "mp \<noteq> []" "odd (limbs_val mp)"
    and rd: "redc_ready (redc_choice cfg (length mp)) mp mip"
    and rp: "length rp = length mp" "limbs_val rp mod limbs_val mp = v * BB ^ length mp mod limbs_val mp"
  shows "length (powm_finish cfg rp mp mip) = length mp \<and> limbs_val (powm_finish cfg rp mp mip) = v mod limbs_val mp"
proof -
  define R where "R = BB ^ length mp"
  define m where "m = limbs_val mp"
  define r where "r = MPN_REDUCE cfg (redc_choice cfg (length mp)) (rp @ replicate (length mp) 0) mp mip"
  have l: "length r = length mp" and red: "redc_result m R (limbs_val rp) (limbs_val r)"
    using MPN_REDUCE_spec [OF L rd mp(1), of "rp @ replicate (length mp) 0"] rp(1)
    by (simp_all add: r_def R_def m_def limbs_val_app)
  have R: "0 < R" "limbs_val rp < R" using limbs_val_lt [of rp] rp(1) by (simp_all add: R_def)
  have "limbs_val r * R mod m = v * R mod m" using red rp(2) by (simp add: redc_result_def R_def m_def)
  then have v: "limbs_val r mod m = v mod m"
    unfolding R_def m_def by (rule mod_mult_cancel_coprime [OF coprime_BB [OF mp(2)]])
  have "limbs_val r * R \<le> limbs_val rp + m * (R - 1)" using red by (simp add: redc_result_def)
  also have "\<dots> < R + m * R" using R by (intro add_less_le_mono mult_le_mono2) simp_all
  also have "\<dots> = Suc m * R" by simp
  finally have "limbs_val r < Suc m" by (rule mult_less_cancel2 [THEN iffD1, THEN conjunct2])
  then have le: "limbs_val r \<le> m" by simp
  obtain rs c where s: "mpn_sub_n r mp = (rs, c)" by fastforce
  note sp = mpn_sub_n_spec [OF l s]
  show ?thesis
  proof (cases "m \<le> limbs_val r")
    case True
    then have "limbs_val r = m" using le by simp
    then have "limbs_val rs = BB ^ length mp * unat c" using sp(3) l by (simp add: m_def)
    moreover have "limbs_val rs < BB ^ length mp" using limbs_val_lt [of rs] sp(1) l by simp
    ultimately have "limbs_val rs = 0" using sp(2) by auto
    moreover have "v mod m = 0" using v \<open>limbs_val r = m\<close> by simp
    ultimately show ?thesis
      using True s sp(1) l mpn_cmp_ge [OF l] by (simp add: powm_finish_def Let_def flip: r_def m_def)
  next
    case False
    then show ?thesis using v l mpn_cmp_ge [OF l] by (simp add: powm_finish_def Let_def flip: r_def m_def)
  qed
qed

lemma powm_window_spec:
  assumes cfg: "cfg_ok cfg" and mp: "mp \<noteq> []" "last mp \<noteq> 0" "odd (limbs_val mp)"
    and ep: "ep \<noteq> []" "last ep \<noteq> 0" "1 < limbs_val ep"
  shows "\<exists>r. powm_window cfg bp ep mp = Some r \<and> length r = length mp
    \<and> limbs_val r = limbs_val bp ^ limbs_val ep mod limbs_val mp"
proof -
  let ?n = "length mp" and ?mip = "powm_mip cfg mp" and ?e = "limbs_val ep" and ?b = "limbs_val bp"
  have L: "large_ok cfg" and T: "thresholds_ok cfg" using cfg by (simp_all add: cfg_ok_def)
  define ebi where "ebi = MPN_SIZEINBASE_2EXP ep (length ep) 1"
  define w where "w = win_size ebi"
  define X where "X = getbits ep ebi w"
  define cnt where "cnt = count_trailing_zeros X"
  define pp where "pp = powm_table cfg w (redcify cfg bp mp) mp ?mip"
  have rc: "length (redcify cfg bp mp) = ?n"
    "limbs_val (redcify cfg bp mp) mod limbs_val mp = ?b * BB ^ ?n mod limbs_val mp"
    using redcify_spec [OF L mp(1,2), of bp] by simp_all
  obtain mk sk rk where k: "innerloop_kernels cfg ?n = (mk, sk, rk)" by (metis prod_cases3)
  let ?c = "(cfg, mk, sk, rk, mp, ?mip, ?b) :: mont"
  have ok: "mont_ok ?c"
  proof (cases "?n = 1")
    case True
    then show ?thesis using k L mp redc_0_ready [OF T True mp(3)] by (simp add: innerloop_kernels_def)
  next
    case False
    then show ?thesis
      using innerloop_choice [OF T False k] L mp redc_choice_ready [OF cfg mp(1,3)] by simp
  qed
  have pp: "mont_rep ?c (2 * j + 1) (pp ! j)" if "j < 2 ^ (w - 1)" for j
    using powm_table_rep [OF cfg mp(1,3) rc that] by (simp add: pp_def)
  have fn: "mont_sqr ?c = (\<lambda>r. MPN_REDUCE cfg rk (MPN_SQR cfg sk r) mp ?mip)"
    "mont_mul ?c = (\<lambda>r p. MPN_REDUCE cfg rk (MPN_MUL_N cfg mk r p) mp ?mip)"
    by (simp_all add: fun_eq_iff)
  obtain r where r: "INNERLOOP (mont_sqr ?c) (mont_mul ?c) pp ep w (pp ! unat (drop_bit 1 (drop_bit cnt X))) (ebi - w + cnt) = Some r"
    "mont_rep ?c ?e r"
    using montgomery.window_run(2) [OF ok ep ebi_def w_def X_def cnt_def pp] by blast
  have "powm_window cfg bp ep mp = Some (powm_finish cfg r mp ?mip)"
    unfolding powm_window_def Let_def ebi_def [symmetric] w_def [symmetric] X_def [symmetric] cnt_def [symmetric]
      pp_def [symmetric] k prod.case r(1) [unfolded fn] by simp
  then show ?thesis
    using powm_finish_spec [OF L mp(1,3) redc_choice_ready [OF cfg mp(1,3)], of r "?b ^ ?e"] r(2) by simp
qed

end
