(* ===== verification/Gmp_2powm.thy ===== *)
theory Gmp_2powm
  imports Gmp_Powm
begin

unbundle bit_operations_syntax

text \<open>
  \<open>mpn_2powm\<close> of \<open>mpn/generic/powm.c\<close>, the modular power of two: a table is not needed, since a
  multiplication by the base is a shift by one bit; the running power is kept below the power of
  two above the modulus and not below the modulus itself.  And \<open>mpn_powm\<close>, which takes this way
  when the base is 2 and the window method of \<open>Gmp_Powm\<close> otherwise.

  The tests on \<open>ebi\<close> and the tables of the routines to use are those of the window method, so
  \<open>innerloop_kernels\<close>, \<open>powm_mip\<close> and \<open>powm_finish\<close> are shared with it.
\<close>

section \<open>Definitions\<close>

text \<open>The number of bits of the modulus' bit length: with a builtin, or by a loop where it does not fit a limb.\<close>

fun bits_loop :: "nat \<Rightarrow> nat" where
  "bits_loop tc = (if tc div 2 \<noteq> 0 then Suc (bits_loop (tc div 2)) else 1)"

declare bits_loop.simps [simp del]

definition bits_count :: "nat \<Rightarrow> nat" where
  "bits_count mbi = (if mbi \<le> 2 ^ 64 - 1 then 64 - count_leading_zeros (of_nat mbi) else bits_loop mbi)"

definition mpn_rsblsh1_n_ip2 :: "limb list \<Rightarrow> limb list \<Rightarrow> limb list" where
  "mpn_rsblsh1_n_ip2 a b = fst (mpn_sub_n (fst (mpn_lshift a 1)) b)"

text \<open>
  The loops \<open>do ... while (--ebi != 0)\<close>; started at 0 the counter would wrap around and the
  exponent be read out of bounds (\<open>None\<close>).
\<close>

fun bit_loop :: "('a \<Rightarrow> nat \<Rightarrow> 'a) \<Rightarrow> 'a \<Rightarrow> nat \<Rightarrow> 'a option" where
  "bit_loop body r 0 = None"
| "bit_loop body r (Suc k) = (let r = body r (Suc k) in if k = 0 then Some r else bit_loop body r k)"

definition INNERLOOP2 ::
  "mpn_cfg \<Rightarrow> sqr_kind \<Rightarrow> redc_kind \<Rightarrow> limb list \<Rightarrow> limb list \<Rightarrow> limb list \<Rightarrow> nat \<Rightarrow> limb list \<Rightarrow> nat \<Rightarrow> limb list" where
  "INNERLOOP2 cfg sk rk mp mip ep mbi rp ebi =
     (let rp = MPN_REDUCE cfg rk (MPN_SQR cfg sk rp) mp mip;
        rp = (if mpn_cmp rp mp \<ge> 0 then fst (mpn_sub_n rp mp) else rp)
      in if getbit ep ebi \<noteq> 0
         then if drop_bit ((mbi - 1) mod 64) (rp ! (length mp - 1)) = 0 then fst (mpn_lshift rp 1)
              else mpn_rsblsh1_n_ip2 rp mp
         else rp)"

definition INNERLOOP2_1 :: "limb \<Rightarrow> limb \<Rightarrow> limb list \<Rightarrow> limb \<Rightarrow> nat \<Rightarrow> limb" where
  "INNERLOOP2_1 m0 invm ep r0 ebi =
     (let (t1, t0) = umul_ppmm r0 r0;
        r0 = MPN_REDC_0 t1 t0 m0 invm;
        t2 = push_bit 1 r0;
        t2 = (if r0 > drop_bit 1 m0 then t2 - m0 else t2)
      in if getbit ep ebi \<noteq> 0 then t2 else r0)"

definition mpn_2powm_1 :: "mpn_cfg \<Rightarrow> limb list \<Rightarrow> nat \<Rightarrow> nat \<Rightarrow> limb \<Rightarrow> limb list option" where
  "mpn_2powm_1 cfg ep ebi tbi m0 =
     (let r0 = mpn_mod_1 cfg [0, push_bit tbi 1] m0;
        invm = binvert_limb m0
      in map_option (\<lambda>r0. [MPN_REDC_0 0 r0 m0 invm]) (bit_loop (INNERLOOP2_1 m0 invm ep) r0 ebi))"

definition mpn_2powm_n :: "mpn_cfg \<Rightarrow> limb list \<Rightarrow> nat \<Rightarrow> nat \<Rightarrow> nat \<Rightarrow> limb list \<Rightarrow> limb list option" where
  "mpn_2powm_n cfg ep ebi tbi mbi mp =
     (let mip = powm_mip cfg mp;
        tn = tbi div 64;
        rp = redcify cfg (replicate tn 0 @ [push_bit (tbi mod 64) 1]) mp;
        (mk, sk, rk) = innerloop_kernels cfg (length mp)
      in map_option (\<lambda>rp. powm_finish cfg rp mp mip) (bit_loop (INNERLOOP2 cfg sk rk mp mip ep mbi) rp ebi))"

definition mpn_2powm :: "mpn_cfg \<Rightarrow> limb list \<Rightarrow> limb list \<Rightarrow> limb list option" where
  "mpn_2powm cfg ep mp =
     (let n = length mp;
        ebi = MPN_SIZEINBASE_2EXP ep (length ep) 1;
        mbi = MPN_SIZEINBASE_2EXP mp n 1;
        count = bits_count mbi;
        tbi = unat (getbits ep ebi count)
      in if tbi < mbi \<and> ebi \<le> count then Some ((replicate n 0)[tbi div 64 := push_bit (tbi mod 64) 1])
         else let (count, tbi) = (if tbi \<ge> mbi then (count - 1, tbi div 2) else (count, tbi));
             ebi = ebi - count
           in if n = 1 then mpn_2powm_1 cfg ep ebi tbi (hd mp)
              else mpn_2powm_n cfg ep ebi tbi mbi mp)"

definition mpn_powm :: "mpn_cfg \<Rightarrow> limb list \<Rightarrow> limb list \<Rightarrow> limb list \<Rightarrow> limb list option" where
  "mpn_powm cfg bp ep mp =
     (if length bp = 1 \<and> bp ! 0 = 2 then mpn_2powm cfg ep mp else powm_window cfg bp ep mp)"

section \<open>Doubling modulo the modulus\<close>

text \<open>The invariant is carried by one lemma for both loops.\<close>

lemma bit_loop_inv:
  assumes "0 < ebi" and "P ebi r"
    and "\<And>i r. 0 < i \<Longrightarrow> i \<le> ebi \<Longrightarrow> P i r \<Longrightarrow> P (i - 1) (body r i)"
  shows "\<exists>r'. bit_loop body r ebi = Some r' \<and> P 0 r'"
  using assms
proof (induction ebi arbitrary: r)
  case (Suc k)
  have s: "P k (body r (Suc k))" using Suc.prems(3) [of "Suc k" r] Suc.prems(2) by simp
  show ?case
  proof (cases "k = 0")
    case True
    then show ?thesis using s by simp
  next
    case False
    then show ?thesis using Suc.IH [of "body r (Suc k)"] s Suc.prems(3) by (simp add: Let_def)
  qed
qed simp

text \<open>How the value of the leading bits of the exponent grows by a bit.\<close>

lemma leading_bit:
  assumes "0 < i" and "i \<le> 64 * length ep"
  shows "limbs_val ep div 2 ^ (i - 1) = 2 * (limbs_val ep div 2 ^ i) + of_bool (getbit ep i \<noteq> 0)"
proof -
  have "unat (getbit ep i) = limbs_val ep div 2 ^ (i - 1) mod 2" by (rule getbit_spec [OF assms])
  moreover have "limbs_val ep div 2 ^ i = limbs_val ep div 2 ^ (i - 1) div 2"
    using assms(1) by (cases i) (simp_all add: div_mult2_eq mult.commute [of 2])
  moreover have "getbit ep i \<noteq> 0 \<longleftrightarrow> unat (getbit ep i) \<noteq> 0" by (simp only: unat_eq_zero)
  moreover have "x = 2 * (x div 2) + of_bool (x mod 2 \<noteq> 0)" for x :: nat
    unfolding of_bool_def by presburger
  ultimately show ?thesis by simp
qed

lemma bits_count_spec:
  assumes "0 < mbi" and "mbi < 2 ^ 64"
  shows "0 < bits_count mbi" and "bits_count mbi \<le> 64"
    and "2 ^ (bits_count mbi - 1) \<le> mbi" and "mbi < 2 ^ bits_count mbi"
proof -
  have v: "unat (of_nat mbi :: limb) = mbi" 
    using assms(2) by (simp add: unsigned_of_nat take_bit_nat_eq_self)
  then have "(of_nat mbi :: limb) \<noteq> 0" using assms(1) by (metis unat_0 less_irrefl)
  note b = count_leading_zeros_bounds [OF this, unfolded v]
  have "mbi \<le> 2 ^ 64 - 1" using assms(2) by linarith
  then have c: "bits_count mbi = 64 - count_leading_zeros (of_nat mbi)" unfolding bits_count_def by (rule if_P)
  have d: "63 - count_leading_zeros (of_nat mbi :: limb) = bits_count mbi - 1" unfolding c by linarith
  show "0 < bits_count mbi" "bits_count mbi \<le> 64" unfolding c using b by linarith+
  show "2 ^ (bits_count mbi - 1) \<le> mbi" unfolding d [symmetric] using b by (elim conjE)
  show "mbi < 2 ^ bits_count mbi" unfolding c using b by (elim conjE)
qed

text \<open>The power of two that the leading bits of the exponent give is below the limit for a start.\<close>

lemma unat_single_bit:
  assumes "t < 64"
  shows "unat (push_bit t 1 :: limb) = 2 ^ t"
proof -
  have "(2::nat) ^ t < BB" unfolding BB_def using assms by (intro power_strict_increasing) simp_all
  then show ?thesis by (simp only: unat_push_bit_limb unsigned_1 mult_1 mod_less)
qed

lemma power_limbs:
  assumes "t < 64 * n"
  shows "length ((replicate n 0)[t div 64 := push_bit (t mod 64) 1 :: limb]) = n"
    and "limbs_val ((replicate n 0)[t div 64 := push_bit (t mod 64) 1 :: limb]) = 2 ^ t"
proof -
  have i: "t div 64 < n" using assms by (simp add: less_mult_imp_div_less mult.commute)
  have "unat (push_bit (t mod 64) 1 :: limb) = 2 ^ (t mod 64)" by (rule unat_single_bit) simp
  moreover have "2 ^ t = BB ^ (t div 64) * (2::nat) ^ (t mod 64)" by (simp flip: BB_power power_add)
  ultimately show "limbs_val ((replicate n 0)[t div 64 := push_bit (t mod 64) 1 :: limb]) = 2 ^ t"
    using i by (simp add: upd_conv_take_nth_drop limbs_val_app min_def)
qed simp

lemma power_limbs_top:
  "limbs_val (replicate (t div 64) 0 @ [push_bit (t mod 64) 1 :: limb]) = 2 ^ t"
proof -
  have "t < 64 * Suc (t div 64)" by (simp add: dividend_less_times_div)
  moreover have "(replicate (Suc (t div 64)) 0)[t div 64 := x] = replicate (t div 64) 0 @ [x]" for x :: limb
    by (simp add: list_update_append replicate_append_same [symmetric])
  ultimately show ?thesis using power_limbs(2) [of t "Suc (t div 64)"] by simp
qed

section \<open>Vectors of limbs\<close>

lemma redc_below_twice:
  fixes m :: nat
  assumes mbi: "0 < mbi" "2 ^ (mbi - 1) \<le> m" "mbi \<le> k" and r: "r < 2 ^ mbi"
    and red: "redc_result m (2 ^ k) (r * r) r1"
  shows "r1 < 2 * m"
proof -
  have two: "2 * 2 ^ (mbi - 1) = (2 ^ mbi :: nat)" using mbi(1) by (cases mbi) simp_all
  show ?thesis
  proof (cases "mbi = k")
    case True
    have "r1 < 2 ^ mbi" using red True by (simp add: redc_result_def)
    then show ?thesis using two mbi(2) by linarith
  next
    case False
    then have k: "2 * 2 ^ mbi \<le> (2 ^ k :: nat)"
      using mbi(3) power_increasing [of "Suc mbi" k "2 :: nat"] by simp
    have "r * r \<le> 2 ^ mbi * 2 ^ mbi" using r by (intro mult_le_mono) simp_all
    also have "\<dots> = 2 * 2 ^ mbi * 2 ^ (mbi - 1)" unfolding two [symmetric] by simp
    also have "\<dots> \<le> 2 ^ k * m" using k mbi(2) by (rule mult_le_mono)
    finally have rr: "r * r \<le> m * 2 ^ k" by (simp only: mult.commute)
    have m0: "0 < m" using mbi(2) by (rule less_le_trans [rotated]) simp
    have "r1 * 2 ^ k \<le> r * r + m * (2 ^ k - 1)" using red by (simp add: redc_result_def)
    also have "\<dots> < m * 2 ^ k + m * 2 ^ k" using rr m0 by (intro add_le_less_mono) simp_all
    also have "\<dots> = 2 * m * 2 ^ k" by simp
    finally show ?thesis by (rule mult_less_cancel2 [THEN iffD1, THEN conjunct2])
  qed
qed

lemma top_limb_bit:
  assumes "length r = Suc k" and "b < 64"
  shows "drop_bit b (r ! k) = 0 \<longleftrightarrow> limbs_val r < 2 ^ (64 * k + b)"
proof -
  have "drop k r = [r ! k]" using assms(1) by (simp add: Cons_nth_drop_Suc [symmetric])
  then have "limbs_val r div 2 ^ (64 * k + b) = unat (drop_bit b (r ! k))"
    using limbs_val_drop [of k r b] assms(1) by (simp add: unat_drop_bit_limb)
  then show ?thesis by (metis div_eq_0_iff power_not_zero unat_eq_zero zero_neq_numeral)
qed

lemma limbs_double:
  assumes "a \<noteq> []" and "2 * limbs_val a < BB ^ length a"
  shows "length (fst (mpn_lshift a 1)) = length a" and "limbs_val (fst (mpn_lshift a 1)) = 2 * limbs_val a"
proof -
  obtain rp c where r: "mpn_lshift a 1 = (rp, c)" by fastforce
  note s = mpn_lshift_spec [OF _ assms(1) r]
  show "length (fst (mpn_lshift a 1)) = length a" using s(1) r by simp
  have e: "limbs_val rp + BB ^ length a * unat c = 2 * limbs_val a" using s(2) by simp
  have "unat c = 0"
  proof (rule ccontr)
    assume "unat c \<noteq> 0"
    then have "BB ^ length a * 1 \<le> BB ^ length a * unat c" by (intro mult_le_mono2) simp
    then show False using e assms(2) by linarith
  qed
  then show "limbs_val (fst (mpn_lshift a 1)) = 2 * limbs_val a" using e r by simp
qed

lemma below_radix_unique:
  fixes d w R x y :: nat
  assumes "d + R * x = w + R * y" and "d < R" and "w < R"
  shows "d = w"
proof -
  have "d = (d + R * x) mod R" using assms(2) by simp
  also have "\<dots> = w" unfolding assms(1) using assms(3) by simp
  finally show ?thesis .
qed

lemma mpn_rsblsh1_n_ip2_spec:
  assumes "a \<noteq> []" and "length a = length b" and "limbs_val a < limbs_val b" and "limbs_val b \<le> 2 * limbs_val a"
  shows "length (mpn_rsblsh1_n_ip2 a b) = length a"
    and "limbs_val (mpn_rsblsh1_n_ip2 a b) = 2 * limbs_val a - limbs_val b"
proof -
  let ?R = "BB ^ length a"
  obtain s c where s: "mpn_lshift a 1 = (s, c)" by fastforce
  obtain d c' where d: "mpn_sub_n s b = (d, c')" by fastforce
  note S = mpn_lshift_spec [OF _ assms(1) s]
  have ls: "length s = length b" using S(1) assms(2) by simp
  note D = mpn_sub_n_spec [OF ls d]
  show "length (mpn_rsblsh1_n_ip2 a b) = length a" using s d D(1) S(1) by (simp add: mpn_rsblsh1_n_ip2_def)
  have "limbs_val d + ?R * unat c = 2 * limbs_val a - limbs_val b + ?R * unat c'"
    using S D(3) assms(4) by simp
  moreover have "limbs_val d < ?R" using limbs_val_lt [of d] D(1) S(1) by simp
  moreover have "2 * limbs_val a - limbs_val b < ?R" using limbs_val_lt [of a] assms(3) by linarith
  ultimately have "limbs_val d = 2 * limbs_val a - limbs_val b" by (rule below_radix_unique)
  then show "limbs_val (mpn_rsblsh1_n_ip2 a b) = 2 * limbs_val a - limbs_val b"
    using s d by (simp add: mpn_rsblsh1_n_ip2_def)
qed

text \<open>A subtraction of the modulus where the comparison asks for it.\<close>

lemma cond_sub:
  assumes "length r = length mp" and "limbs_val r < 2 * limbs_val mp"
  defines "r' \<equiv> (if 0 \<le> mpn_cmp r mp then fst (mpn_sub_n r mp) else r)"
  shows "length r' = length mp" and "limbs_val r' < limbs_val mp" and "limbs_val r' mod limbs_val mp = limbs_val r mod limbs_val mp"
proof -
  obtain d c where d: "mpn_sub_n r mp = (d, c)" by fastforce
  note D = mpn_sub_n_spec [OF assms(1) d]
  have "length r' = length mp \<and> limbs_val r' < limbs_val mp \<and> limbs_val r' mod limbs_val mp = limbs_val r mod limbs_val mp"
  proof (cases "limbs_val mp \<le> limbs_val r")
    case True
    have "limbs_val d + BB ^ length r * 0 = limbs_val r - limbs_val mp + BB ^ length r * unat c" using D(3) True by simp
    moreover have "limbs_val d < BB ^ length r" using limbs_val_lt [of d] D(1) by simp
    moreover have "limbs_val r - limbs_val mp < BB ^ length r" using limbs_val_lt [of r] by linarith
    ultimately have v: "limbs_val d = limbs_val r - limbs_val mp" by (rule below_radix_unique)
    then have "limbs_val d mod limbs_val mp = limbs_val r mod limbs_val mp" using True by (simp add: le_mod_geq)
    then show ?thesis using v True mpn_cmp_ge [OF assms(1)] d D(1) assms(1,2) by (simp add: r'_def)
  next
    case False
    then show ?thesis using mpn_cmp_ge [OF assms(1)] assms(1) by (simp add: r'_def)
  qed
  then show "length r' = length mp" "limbs_val r' < limbs_val mp" "limbs_val r' mod limbs_val mp = limbs_val r mod limbs_val mp"
    by simp_all
qed

section \<open>One turn of the loops\<close>

text \<open>
  The state of the loop at bit \<open>i\<close>: the power of two given by the exponent's bits from \<open>i\<close> on, in
  Montgomery form, below the power of two above the modulus.
\<close>

definition pow2_rep :: "limb list \<Rightarrow> limb list \<Rightarrow> nat \<Rightarrow> nat \<Rightarrow> limb list \<Rightarrow> bool" where
  "pow2_rep mp ep mbi i r \<longleftrightarrow> length r = length mp \<and> limbs_val r < 2 ^ mbi
     \<and> limbs_val r mod limbs_val mp = 2 ^ (limbs_val ep div 2 ^ i) * BB ^ length mp mod limbs_val mp"

lemma double_mod:
  fixes m a x R :: nat
  assumes "a mod m = 2 ^ x * R mod m"
  shows "2 * a mod m = 2 ^ (x + 1) * R mod m"
proof -
  have "2 * a mod m = 2 * (a mod m) mod m" by (simp add: mod_mult_right_eq)
  also have "\<dots> = 2 ^ (x + 1) * R mod m" unfolding assms by (simp add: mod_mult_right_eq mult.assoc)
  finally show ?thesis .
qed

lemma INNERLOOP2_turn:
  assumes L: "large_ok cfg" and mp: "mp \<noteq> []" "odd (limbs_val mp)" and rd: "redc_ready rk mp mip"
    and sk: "sk \<noteq> SqrUmul"
    and mbi: "0 < mbi" "2 ^ (mbi - 1) \<le> limbs_val mp" "limbs_val mp < 2 ^ mbi" "64 * (length mp - 1) < mbi" "mbi \<le> 64 * length mp"
    and i: "0 < i" "i \<le> 64 * length ep" and r: "pow2_rep mp ep mbi i r"
  shows "pow2_rep mp ep mbi (i - 1) (INNERLOOP2 cfg sk rk mp mip ep mbi r i)"
proof -
  define m where "m = limbs_val mp"
  define R where "R = BB ^ length mp"
  define e where "e = limbs_val ep"
  have lr: "length r = length mp" "r \<noteq> []" and rv: "limbs_val r < 2 ^ mbi"
    and rm: "limbs_val r mod m = 2 ^ (e div 2 ^ i) * R mod m"
    using r mp(1) by (auto simp: pow2_rep_def m_def R_def e_def)
  define r1 where "r1 = MPN_REDUCE cfg rk (MPN_SQR cfg sk r) mp mip"
  note sq = MPN_SQR_spec [OF L lr(2), of sk]
  have l1: "length r1 = length mp" and red: "redc_result m R (limbs_val r * limbs_val r) (limbs_val r1)"
    using MPN_REDUCE_spec [OF L rd mp(1), of "MPN_SQR cfg sk r"] sq sk lr(1) by (simp_all add: r1_def m_def R_def)
  have RB: "R = 2 ^ (64 * length mp)" by (simp only: R_def BB_power)
  have r1: "limbs_val r1 < 2 * m"
    using redc_below_twice [OF mbi(1,2,5) rv] red unfolding RB m_def by simp
  have r1m: "limbs_val r1 mod m = 2 ^ (e div 2 ^ i + e div 2 ^ i) * R mod m"
    using coprime_BB [OF mp(2)] redc_product_rep [OF _ red rm rm] unfolding R_def m_def by blast
  define r2 where "r2 = (if 0 \<le> mpn_cmp r1 mp then fst (mpn_sub_n r1 mp) else r1)"
  note c = cond_sub [OF l1 r1 [unfolded m_def], folded r2_def m_def]
  have r2: "length r2 = length mp" "limbs_val r2 < m" "limbs_val r2 mod m = 2 ^ (2 * (e div 2 ^ i)) * R mod m" "r2 \<noteq> []"
    using c r1m mp(1) by (auto simp: mult_2)
  have mR: "m < 2 ^ mbi" "2 ^ mbi \<le> R" using mbi(3,5) by (simp_all add: m_def RB power_increasing)
  have inner: "INNERLOOP2 cfg sk rk mp mip ep mbi r i =
      (if getbit ep i \<noteq> 0 then if drop_bit ((mbi - 1) mod 64) (r2 ! (length mp - 1)) = 0 then fst (mpn_lshift r2 1)
        else mpn_rsblsh1_n_ip2 r2 mp else r2)"
    by (simp add: INNERLOOP2_def Let_def flip: r1_def r2_def)
  have next_e: "e div 2 ^ (i - 1) = 2 * (e div 2 ^ i) + of_bool (getbit ep i \<noteq> 0)"
    using leading_bit [OF i] by (simp add: e_def)
  show ?thesis
  proof (cases "getbit ep i = 0")
    case True
    then show ?thesis using inner r2 next_e mR(1) by (simp add: pow2_rep_def m_def R_def e_def)
  next
    case bit: False
    have dbl: "2 * limbs_val r2 mod m = 2 ^ (e div 2 ^ (i - 1)) * R mod m"
      using double_mod [OF r2(3)] next_e bit by simp
    have pos: "(mbi - 1) = 64 * (length mp - 1) + (mbi - 1) mod 64"
    proof -
      have "(mbi - 1) div 64 = length mp - 1" using mbi(4,5) mp(1) by (intro div_nat_eqI) (cases mp; simp)+
      then show ?thesis by (metis mult_div_mod_eq)
    qed
    have "length r2 = Suc (length mp - 1)" using r2(1) mp(1) by simp
    from top_limb_bit [OF this, of "(mbi - 1) mod 64"]
    have top: "drop_bit ((mbi - 1) mod 64) (r2 ! (length mp - 1)) = 0 \<longleftrightarrow> limbs_val r2 < 2 ^ (mbi - 1)"
      unfolding pos [symmetric] by simp
    have two: "2 * 2 ^ (mbi - 1) = (2 ^ mbi :: nat)" using mbi(1) by (cases mbi) simp_all
    show ?thesis
    proof (cases "limbs_val r2 < 2 ^ (mbi - 1)")
      case True
      then have lt: "2 * limbs_val r2 < 2 ^ mbi" using two by linarith
      then have "2 * limbs_val r2 < BB ^ length r2" using mR(2) r2(1) by (simp add: R_def)
      from limbs_double [OF r2(4) this] show ?thesis
        using inner bit top True dbl lt r2(1) by (simp add: pow2_rep_def m_def R_def e_def)
    next
      case False
      then have "m \<le> 2 * limbs_val r2" using two mR(1) by linarith
      note s = mpn_rsblsh1_n_ip2_spec [OF r2(4) r2(1) _ this [unfolded m_def], folded m_def, OF r2(2)]
      have lt: "2 * limbs_val r2 - m < 2 ^ mbi" using r2(2) mR(1) by linarith
      have "(2 * limbs_val r2 - m) mod m = 2 * limbs_val r2 mod m"
        using \<open>m \<le> 2 * limbs_val r2\<close> by (simp add: le_mod_geq)
      then show ?thesis
        using inner bit top False dbl lt s r2(1) by (simp add: pow2_rep_def m_def R_def e_def)
    qed
  qed
qed

lemma double_limb:
  assumes r: "r < m" and m: "odd (unat m)"
  defines "t \<equiv> (if r > drop_bit 1 m then push_bit 1 r - m else push_bit 1 r :: limb)"
  shows "t < m" and "unat t mod unat m = 2 * unat r mod unat m"
proof -
  let ?r = "unat r" and ?m = "unat m"
  have p: "unat (push_bit 1 r) = 2 * ?r mod BB" by (simp only: unat_push_bit_limb mult.commute power_one_right)
  have h: "r > drop_bit 1 m \<longleftrightarrow> ?m div 2 < ?r" by (simp add: word_less_nat_alt unat_drop_bit_limb)
  have rm: "?r < ?m" "?m < BB" using r unat_lt_BB [of m] by (simp_all add: word_less_nat_alt)
  obtain k where k: "?m = 2 * k + 1" using m by (elim oddE)
  have "unat t < ?m \<and> unat t mod ?m = 2 * ?r mod ?m"
  proof (cases "?m div 2 < ?r")
    case True
    have le: "?m \<le> 2 * ?r" using True k by simp
    let ?t = "push_bit 1 r - m"
    have "unat (push_bit 1 r) + BB * of_bool (push_bit 1 r < ?t) = unat ?t + ?m"
      by (rule unat_sub_borrow)
    then have "unat ?t + BB * (2 * ?r div BB) = 2 * ?r - ?m + BB * of_bool (push_bit 1 r < ?t)"
      unfolding p using le mult_div_mod_eq [of BB "2 * ?r"] by linarith
    moreover have "2 * ?r - ?m < BB" using rm by linarith
    ultimately have v: "unat ?t = 2 * ?r - ?m" using unat_lt_BB [of ?t] below_radix_unique by blast
    have "(2 * ?r - ?m) mod ?m = 2 * ?r mod ?m" using le by (simp add: le_mod_geq)
    moreover have "2 * ?r - ?m < ?m" using rm by linarith
    ultimately show ?thesis using True h v by (simp add: t_def)
  next
    case False
    then have "2 * ?r < ?m" using k by simp
    then show ?thesis using False h p rm by (simp add: t_def)
  qed
  then show "t < m" "unat t mod ?m = 2 * ?r mod ?m" by (simp_all add: word_less_nat_alt)
qed

lemma INNERLOOP2_1_turn:
  assumes inv: "invm * m0 = 1" and m: "odd (unat m0)"
    and i: "0 < i" "i \<le> 64 * length ep"
    and r: "r < m0" "unat r mod unat m0 = 2 ^ (limbs_val ep div 2 ^ i) * BB mod unat m0"
  defines "r' \<equiv> INNERLOOP2_1 m0 invm ep r i"
  shows "r' < m0" and "unat r' mod unat m0 = 2 ^ (limbs_val ep div 2 ^ (i - 1)) * BB mod unat m0"
proof -
  let ?e = "limbs_val ep"
  obtain t1 t0 where t: "umul_ppmm r r = (t1, t0)" by fastforce
  define r1 where "r1 = MPN_REDC_0 t1 t0 m0 invm"
  note sq = umul_ppmm_spec [OF t]
  have rm: "unat r < unat m0" using r(1) by (simp add: word_less_nat_alt)
  have "unat t1 * BB \<le> unat r * unat r" using sq by linarith
  also have "\<dots> < unat m0 * BB" using rm unat_lt_BB [of r] by (intro mult_strict_mono) auto
  finally have r1: "r1 < m0" unfolding r1_def by (intro MPN_REDC_0_less) (simp add: word_less_nat_alt)
  have red: "redc_result (unat m0) BB (unat r * unat r) (unat r1)"
    using MPN_REDC_0_spec [OF inv, of t0 t1] sq by (simp add: r1_def ac_simps)
  have co: "coprime BB (unat m0)" using coprime_BB [OF m, of 1] by simp
  have r1m: "unat r1 mod unat m0 = 2 ^ (2 * (?e div 2 ^ i)) * BB mod unat m0"
    using redc_product_rep [OF co red r(2) r(2)] by (simp add: mult_2)
  have next_e: "?e div 2 ^ (i - 1) = 2 * (?e div 2 ^ i) + of_bool (getbit ep i \<noteq> 0)"
    by (rule leading_bit [OF i])
  have inner: "r' = (if getbit ep i \<noteq> 0 then if r1 > drop_bit 1 m0 then push_bit 1 r1 - m0 else push_bit 1 r1 else r1)"
    by (simp add: r'_def INNERLOOP2_1_def t Let_def flip: r1_def)
  have "r' < m0 \<and> unat r' mod unat m0 = 2 ^ (?e div 2 ^ (i - 1)) * BB mod unat m0"
  proof (cases "getbit ep i = 0")
    case True
    then show ?thesis using inner r1 r1m next_e by simp
  next
    case False
    then show ?thesis
      using inner double_limb [OF r1 m] double_mod [OF r1m] next_e by simp
  qed
  then show "r' < m0" "unat r' mod unat m0 = 2 ^ (?e div 2 ^ (i - 1)) * BB mod unat m0" by simp_all
qed

section \<open>The powers\<close>

lemma mpn_2powm_1_spec:
  assumes low: "low_ok cfg" and m: "odd (unat m0)"
    and ebi: "0 < ebi" "ebi \<le> 64 * length ep" and tbi: "tbi < 64" "limbs_val ep div 2 ^ ebi = tbi"
  shows "\<exists>r. mpn_2powm_1 cfg ep ebi tbi m0 = Some [r] \<and> unat r = 2 ^ limbs_val ep mod unat m0"
proof -
  let ?inv = "binvert_limb m0" and ?m = "unat m0"
  define r0 where "r0 = mpn_mod_1 cfg [0, push_bit tbi 1] m0"
  have m0: "m0 \<noteq> 0" "0 < ?m" using m by (auto intro!: Nat.gr0I)
  have inv: "?inv * m0 = 1" by (rule binvert_limb_inverse [OF m])
  note unat_single_bit [OF tbi(1)]
  then have r0v: "unat r0 = 2 ^ tbi * BB mod ?m"
    using low_okD(1) [OF low m0(1)] by (simp add: r0_def mult.commute)
  then have start: "r0 < m0 \<and> unat r0 mod ?m = 2 ^ (limbs_val ep div 2 ^ ebi) * BB mod ?m"
    using m0(2) tbi(2) by (simp add: word_less_nat_alt)
  obtain r where r: "bit_loop (INNERLOOP2_1 m0 ?inv ep) r0 ebi = Some r"
    "r < m0" "unat r mod ?m = 2 ^ limbs_val ep * BB mod ?m"
    using bit_loop_inv [of ebi "\<lambda>i r. r < m0 \<and> unat r mod ?m = 2 ^ (limbs_val ep div 2 ^ i) * BB mod ?m" r0
        "INNERLOOP2_1 m0 ?inv ep"] ebi start INNERLOOP2_1_turn [OF inv m]
    by (auto dest: order_trans)
  define z where "z = MPN_REDC_0 0 r m0 ?inv"
  have z: "z < m0" unfolding z_def using m0(1) by (intro MPN_REDC_0_less) (simp add: word_gt_0)
  have "unat z * BB mod ?m = unat r mod ?m"
    using MPN_REDC_0_spec [OF inv, of r 0] by (simp add: redc_result_def z_def)
  then have "unat z * BB mod ?m = 2 ^ limbs_val ep * BB mod ?m" using r(3) by simp
  moreover have "coprime BB ?m" using coprime_BB [OF m, of 1] by simp
  ultimately have "unat z mod ?m = 2 ^ limbs_val ep mod ?m" by (rule mod_mult_cancel_coprime [rotated])
  then have "unat z = 2 ^ limbs_val ep mod ?m" using z by (simp add: word_less_nat_alt)
  moreover have "mpn_2powm_1 cfg ep ebi tbi m0 = Some [z]"
    by (simp only: mpn_2powm_1_def Let_def r0_def [symmetric] r(1) option.map z_def)
  ultimately show ?thesis by simp
qed

lemma mpn_2powm_n_spec:
  assumes cfg: "cfg_ok cfg" and mp: "mp \<noteq> []" "last mp \<noteq> 0" "odd (limbs_val mp)" "length mp \<noteq> 1"
    and mbi: "mbi = MPN_SIZEINBASE_2EXP mp (length mp) 1"
    and ebi: "0 < ebi" "ebi \<le> 64 * length ep" and tbi: "limbs_val ep div 2 ^ ebi = tbi"
  shows "\<exists>r. mpn_2powm_n cfg ep ebi tbi mbi mp = Some r \<and> length r = length mp
    \<and> limbs_val r = 2 ^ limbs_val ep mod limbs_val mp"
proof -
  let ?mip = "powm_mip cfg mp"
  have L: "large_ok cfg" and T: "thresholds_ok cfg" using cfg by (simp_all add: cfg_ok_def)
  note mb = sizeinbase_bits [OF mp(1,2), folded mbi]
  have mlo: "64 * (length mp - 1) < mbi"
  proof -
    have "mbi = length mp * 64 - count_leading_zeros (last mp)"
      using mp(1) by (simp add: mbi MPN_SIZEINBASE_2EXP_def Let_def last_conv_nth)
    moreover have "count_leading_zeros (last mp) < 64" using count_leading_zeros_bounds [OF mp(2)] by simp
    moreover have "0 < length mp" using mp(1) by simp
    ultimately show ?thesis by linarith
  qed
  obtain mk sk rk where k: "innerloop_kernels cfg (length mp) = (mk, sk, rk)" by (metis prod_cases3)
  have rk: "rk = redc_choice cfg (length mp)" "sk \<noteq> SqrUmul" using innerloop_choice [OF T mp(4) k] by simp_all
  have rd: "redc_ready rk mp ?mip" using redc_choice_ready [OF cfg mp(1,3)] rk(1) by simp
  define r0 where "r0 = redcify cfg (replicate (tbi div 64) 0 @ [push_bit (tbi mod 64) 1]) mp"
  have "limbs_val r0 = 2 ^ tbi * BB ^ length mp mod limbs_val mp" "length r0 = length mp"
    using redcify_spec [OF L mp(1,2)] by (simp_all only: r0_def power_limbs_top)
  moreover have "limbs_val mp \<noteq> 0" using mp(3) by (metis even_zero)
  ultimately have start: "pow2_rep mp ep mbi ebi r0"
    using mb(3) tbi by (simp add: pow2_rep_def) (meson mod_less_divisor order.strict_trans neq0_conv)
  have turn: "pow2_rep mp ep mbi (i - 1) (INNERLOOP2 cfg sk rk mp ?mip ep mbi r i)"
    if "0 < i" "i \<le> ebi" "pow2_rep mp ep mbi i r" for i r
    using INNERLOOP2_turn [OF L mp(1,3) rd rk(2) mb(1,2,3) mlo mb(4) that(1) _ that(3)] that(2) ebi(2) by simp
  obtain r where r: "bit_loop (INNERLOOP2 cfg sk rk mp ?mip ep mbi) r0 ebi = Some r" "pow2_rep mp ep mbi 0 r"
    using bit_loop_inv [of ebi "pow2_rep mp ep mbi" r0 "INNERLOOP2 cfg sk rk mp ?mip ep mbi", OF ebi(1) start turn]
    by blast
  have "length (powm_finish cfg r mp ?mip) = length mp
    \<and> limbs_val (powm_finish cfg r mp ?mip) = 2 ^ limbs_val ep mod limbs_val mp"
    using powm_finish_spec [OF L mp(1,3) rd [unfolded rk(1)], of r "2 ^ limbs_val ep"] r(2) by (simp add: pow2_rep_def)
  moreover have "mpn_2powm_n cfg ep ebi tbi mbi mp = Some (powm_finish cfg r mp ?mip)"
    by (simp only: mpn_2powm_n_def Let_def r0_def [symmetric] k prod.case r(1) option.map)
  ultimately show ?thesis by simp
qed

lemma mpn_2powm_spec:
  assumes cfg: "cfg_ok cfg" and mp: "mp \<noteq> []" "last mp \<noteq> 0" "odd (limbs_val mp)" "length mp < 2 ^ 58"
    and ep: "ep \<noteq> []" "last ep \<noteq> 0" "1 < limbs_val ep"
  shows "\<exists>r. mpn_2powm cfg ep mp = Some r \<and> length r = length mp
    \<and> limbs_val r = 2 ^ limbs_val ep mod limbs_val mp"
proof -
  let ?n = "length mp" and ?e = "limbs_val ep" and ?m = "limbs_val mp"
  define ebi where "ebi = MPN_SIZEINBASE_2EXP ep (length ep) 1"
  define mbi where "mbi = MPN_SIZEINBASE_2EXP mp ?n 1"
  define c where "c = bits_count mbi"
  define tbi where "tbi = unat (getbits ep ebi c)"
  note eb = sizeinbase_bits [OF ep(1,2), folded ebi_def] and mb = sizeinbase_bits [OF mp(1,2), folded mbi_def]
  have "mbi < 2 ^ 64"
  proof -
    have "64 * ?n < 64 * 2 ^ 58" using mp(4) by (intro mult_strict_left_mono) simp_all
    also have "\<dots> = (2 ^ 64 :: nat)" by simp
    finally show ?thesis using mb(4) by (rule le_less_trans [rotated])
  qed
  note cs = bits_count_spec [OF mb(1) this, folded c_def]
  have tb: "tbi = ?e div 2 ^ (ebi - c)"
  proof -
    have "ebi - c + min ebi c = ebi" by (simp add: min_def)
    then have "?e < 2 ^ (ebi - c) * 2 ^ min ebi c" using eb(3) by (simp flip: power_add)
    then have "?e div 2 ^ (ebi - c) < 2 ^ min ebi c" by (simp add: less_mult_imp_div_less mult.commute)
    then show ?thesis using getbits_spec [OF cs(2) eb(1,4)] by (simp add: tbi_def)
  qed
  have run: "mpn_2powm cfg ep mp =
     (if tbi < mbi \<and> ebi \<le> c then Some ((replicate ?n 0)[tbi div 64 := push_bit (tbi mod 64) 1])
      else let (c, tbi) = (if tbi \<ge> mbi then (c - 1, tbi div 2) else (c, tbi)); ebi = ebi - c
        in if ?n = 1 then mpn_2powm_1 cfg ep ebi tbi (hd mp) else mpn_2powm_n cfg ep ebi tbi mbi mp)"
    by (simp only: mpn_2powm_def Let_def ebi_def mbi_def c_def tbi_def)
  show ?thesis
  proof (cases "tbi < mbi \<and> ebi \<le> c")
    case True
    have te: "tbi = ?e" using tb True by simp
    have t: "tbi = ?e" "?e < mbi" using True te by simp_all
    have "(2::nat) ^ ?e \<le> 2 ^ (mbi - 1)" using t(2) by (intro power_increasing) simp_all
    then have "2 ^ ?e \<le> ?m" using mb(2) by (rule le_trans)
    moreover have "2 ^ ?e \<noteq> ?m" using mp(3) ep(3) by (metis even_numeral even_power less_nat_zero_code not_less_zero zero_less_one_class.zero_less_one less_trans)
    ultimately have "2 ^ ?e mod ?m = 2 ^ ?e" by simp
    moreover have "tbi < 64 * ?n" using t mb(4) by simp
    note p = power_limbs [OF this]
    ultimately show ?thesis using run True t(1) p by simp
  next
    case False
    define c' where "c' = (if tbi \<ge> mbi then c - 1 else c)"
    define t' where "t' = (if tbi \<ge> mbi then tbi div 2 else tbi)"
    have ct: "(if tbi \<ge> mbi then (c - 1, tbi div 2) else (c, tbi)) = (c', t')" by (simp add: c'_def t'_def)
    have t': "c' < ebi \<and> t' < mbi \<and> ?e div 2 ^ (ebi - c') = t'"
    proof (cases "tbi \<ge> mbi")
      case big: True
      have ce: "c \<le> ebi"
      proof (rule ccontr)
        assume "\<not> c \<le> ebi"
        then have "(2::nat) ^ ebi \<le> 2 ^ (c - 1)" by (intro power_increasing) simp_all
        then have "?e < 2 ^ (c - 1)" using eb(3) by (rule less_le_trans [rotated])
        moreover have "tbi = ?e" using tb \<open>\<not> c \<le> ebi\<close> by simp
        ultimately show False using big cs(3) by linarith
      qed
      then have "tbi < 2 ^ c" unfolding tb using eb(3) by (simp add: less_mult_imp_div_less flip: power_add)
      then have "tbi div 2 < 2 ^ (c - 1)" using cs(1) by (cases c) simp_all
      then have "tbi div 2 < mbi" using cs(3) by (rule less_le_trans)
      moreover have "?e div 2 ^ (ebi - (c - 1)) = tbi div 2"
      proof -
        have "ebi - (c - 1) = Suc (ebi - c)" using ce cs(1) by simp
        then show ?thesis unfolding tb by (simp add: div_mult2_eq mult.commute [of 2])
      qed
      moreover have "c - 1 < ebi" using ce cs(1) by simp
      ultimately show ?thesis using big by (simp add: c'_def t'_def)
    next
      case small: False
      then show ?thesis using False tb by (simp add: c'_def t'_def)
    qed
    have ebi': "0 < ebi - c'" "ebi - c' \<le> 64 * length ep" using t' eb(4) by simp_all
    have go: "mpn_2powm cfg ep mp =
        (if ?n = 1 then mpn_2powm_1 cfg ep (ebi - c') t' (hd mp) else mpn_2powm_n cfg ep (ebi - c') t' mbi mp)"
      using run unfolding if_not_P [OF False] ct Let_def prod.case .
    show ?thesis
    proof (cases "?n = 1")
      case True
      then obtain m0 where m: "mp = [m0]" by (auto simp: length_Suc_conv)
      have low: "low_ok cfg" using cfg by (simp add: cfg_ok_def)
      have "t' < 64" using t' mb(4) True by simp
      then obtain r where "mpn_2powm_1 cfg ep (ebi - c') t' m0 = Some [r]" "unat r = 2 ^ ?e mod unat m0"
        using mpn_2powm_1_spec [OF low _ ebi', of m0 t'] t' mp(3) m by auto
      then show ?thesis using go m by simp
    next
      case False
      from mpn_2powm_n_spec [OF cfg mp(1-3) False mbi_def ebi'] show ?thesis using go False t' by simp
    qed
  qed
qed

lemma mpn_powm_spec:
  assumes cfg: "cfg_ok cfg" and mp: "mp \<noteq> []" "last mp \<noteq> 0" "odd (limbs_val mp)" "length mp < 2 ^ 58"
    and ep: "ep \<noteq> []" "last ep \<noteq> 0" "1 < limbs_val ep"
  shows "\<exists>r. mpn_powm cfg bp ep mp = Some r \<and> length r = length mp
    \<and> limbs_val r = limbs_val bp ^ limbs_val ep mod limbs_val mp"
proof (cases "length bp = 1 \<and> bp ! 0 = 2")
  case True
  then have "bp = [2]" by (auto simp: length_Suc_conv)
  then have "limbs_val bp = 2" by simp
  then show ?thesis using mpn_2powm_spec [OF assms] True by (simp add: mpn_powm_def)
next
  case False
  then show ?thesis unfolding mpn_powm_def if_not_P [OF False] by (intro powm_window_spec [OF cfg mp(1-3) ep])
qed

end
