(* ===== verification/Gmp_Powlo.thy ===== *)
theory Gmp_Powlo
  imports Gmp_2powm
begin

unbundle bit_operations_syntax

text \<open>
  \<open>mpn_powlo\<close> of \<open>mpn/generic/powlo.c\<close>: the low limbs of a power, for the power-of-two part of an
  even modulus.  The exponent is read in windows as in \<open>mpn_powm\<close>; the values are kept modulo a
  power of the limb base instead of in Montgomery form, which is a second instance of the
  contract \<open>power_form\<close> of the window method.

  The function works in two buffers that it swaps instead of copying and copies the result into
  the caller's buffer if the swaps were odd in number; the model has the values only.
\<close>

section \<open>Definitions\<close>

text \<open>
  The outer loop is a \<open>do ... while (ebi != 0)\<close> around a loop over zero bits, so it is never
  entered at the end of the exponent.  The squarings of a window are counted down in pairs.
\<close>

fun powlo_squares :: "(limb list \<Rightarrow> limb list) \<Rightarrow> nat \<Rightarrow> limb list \<Rightarrow> limb list" where
  "powlo_squares sqrlo (Suc (Suc k)) rp = powlo_squares sqrlo k (sqrlo (sqrlo rp))"
| "powlo_squares sqrlo (Suc 0) rp = sqrlo rp"
| "powlo_squares sqrlo 0 rp = rp"

function powlo_loop ::
  "(limb list \<Rightarrow> limb list) \<Rightarrow> (limb list \<Rightarrow> limb list \<Rightarrow> limb list) \<Rightarrow> limb list list \<Rightarrow>
   limb list \<Rightarrow> nat \<Rightarrow> limb list \<Rightarrow> nat \<Rightarrow> limb list option" where
  "powlo_loop sqrlo mullo pp ep windowsize rp ebi =
     (if ebi = 0 then None
      else if getbit ep ebi = 0
      then let rp = sqrlo rp
           in if ebi - 1 = 0 then Some rp else powlo_loop sqrlo mullo pp ep windowsize rp (ebi - 1)
      else let expbits = getbits ep ebi windowsize;
          this_windowsize = min windowsize ebi;
          cnt = count_trailing_zeros expbits;
          this_windowsize = this_windowsize - cnt;
          expbits = drop_bit cnt expbits
        in if this_windowsize = 0 then None
           else let rp = mullo (powlo_squares sqrlo this_windowsize rp) (pp ! unat (drop_bit 1 expbits));
               ebi = ebi - this_windowsize
             in if ebi = 0 then Some rp else powlo_loop sqrlo mullo pp ep windowsize rp ebi)"
  by pat_completeness auto
termination
  by (relation "measure (\<lambda>(_, _, _, _, _, _, ebi). ebi)") (auto simp: Let_def)

declare powlo_loop.simps [simp del]

definition mpn_powlo :: "mpn_cfg \<Rightarrow> limb list \<Rightarrow> limb list \<Rightarrow> nat \<Rightarrow> limb list option" where
  "mpn_powlo cfg bp ep n =
     (let ebi = MPN_SIZEINBASE_2EXP ep (length ep) 1;
        windowsize = win_size ebi;
        bp = take n bp;
        (pp, rp, ebi) =
          (if windowsize > 1 then
             let pp = odd_powers (mpn_mullo_n cfg) (mpn_sqrlo cfg bp) (2 ^ (windowsize - 1) - 1) bp;
               expbits = getbits ep ebi windowsize;
               ebi = ebi - windowsize;
               cnt = count_trailing_zeros expbits;
               ebi = ebi + cnt;
               expbits = drop_bit cnt expbits
             in (pp, pp ! unat (drop_bit 1 expbits), ebi)
           else ([bp], bp, ebi - 1))
      in powlo_loop (mpn_sqrlo cfg) (mpn_mullo_n cfg) pp ep windowsize rp ebi)"

section \<open>The loop is the one of the window method\<close>

lemma powlo_squares_pow: "powlo_squares f k x = (f ^^ k) x"
  by (induction f k x rule: powlo_squares.induct) (simp_all add: funpow_swap1)

lemma powlo_loop_INNERLOOP:
  assumes "0 < ebi"
  shows "powlo_loop f g pp ep w rp ebi = INNERLOOP f g pp ep w rp ebi"
  using assms
proof (induction ebi arbitrary: rp rule: less_induct)
  case (less ebi)
  have next_bits: "(if k = 0 then Some x else powlo_loop f g pp ep w x k) = INNERLOOP f g pp ep w x k"
    if "k < ebi" for k x
    using less.IH [OF that] by (cases "k = 0") (simp_all add: INNERLOOP.simps [of _ _ _ _ _ _ 0])
  define X where "X = getbits ep ebi w"
  define tw where "tw = min ebi w - count_trailing_zeros X"
  note steps = powlo_loop.simps [of f g pp ep w rp ebi] INNERLOOP.simps [of f g pp ep w rp ebi]
  note fold = Let_def powlo_squares_pow min.commute [of w ebi] X_def [symmetric] tw_def [symmetric]
  have e0: "ebi \<noteq> 0" "ebi - 1 < ebi" using less.prems by simp_all
  show ?case
  proof (cases "getbit ep ebi = 0")
    case True
    show ?thesis unfolding steps fold if_not_P [OF e0(1)] if_P [OF True] by (rule next_bits [OF e0(2)])
  next
    case False
    show ?thesis
    proof (cases "tw = 0")
      case True
      show ?thesis unfolding steps fold if_not_P [OF e0(1)] if_not_P [OF False] if_P [OF True] ..
    next
      case tw: False
      then have "ebi - tw < ebi" using e0(2) by simp
      then show ?thesis
        unfolding steps fold if_not_P [OF e0(1)] if_not_P [OF False] if_not_P [OF tw] by (rule next_bits)
    qed
  qed
qed

section \<open>Powers modulo a power of the limb base\<close>

type_synonym lowpart = "mpn_cfg \<times> nat \<times> nat"

fun lowpart_ok :: "lowpart \<Rightarrow> bool" where
  "lowpart_ok (cfg, n, b) \<longleftrightarrow> low_ok cfg \<and> 0 < n"

fun lowpart_rep :: "lowpart \<Rightarrow> nat \<Rightarrow> limb list \<Rightarrow> bool" where
  "lowpart_rep (cfg, n, b) i x \<longleftrightarrow> length x = n \<and> limbs_val x = b ^ i mod BB ^ n"

fun lowpart_sqr :: "lowpart \<Rightarrow> limb list \<Rightarrow> limb list" where
  "lowpart_sqr (cfg, n, b) = mpn_sqrlo cfg"

fun lowpart_mul :: "lowpart \<Rightarrow> limb list \<Rightarrow> limb list \<Rightarrow> limb list" where
  "lowpart_mul (cfg, n, b) = mpn_mullo_n cfg"

interpretation lowpart: power_form lowpart_ok lowpart_rep lowpart_sqr lowpart_mul
proof
  fix c :: lowpart and i j :: nat and x y :: "limb list"
  obtain cfg n b where c: "c = (cfg, n, b)" by (cases c) auto
  assume ok: "lowpart_ok c" and x: "lowpart_rep c i x"
  note low = low_okD [of cfg]
  show "lowpart_rep c (2 * i) (lowpart_sqr c x)"
    using low(6,7) [of x] ok x c by (auto simp: mod_mult_eq mult_2 power_add)
  assume y: "lowpart_rep c j y"
  show "lowpart_rep c (i + j) (lowpart_mul c x y)"
    using low(4,5) [of x y] ok x y c by (auto simp: mod_mult_eq power_add)
qed

lemma mpn_powlo_spec:
  assumes low: "low_ok cfg" and n: "0 < n" "n \<le> length bp"
    and ep: "ep \<noteq> []" "last ep \<noteq> 0" "1 < limbs_val ep"
  shows "\<exists>r. mpn_powlo cfg bp ep n = Some r \<and> length r = n \<and> limbs_val r = limbs_val bp ^ limbs_val ep mod BB ^ n"
proof -
  let ?e = "limbs_val ep" and ?c = "(cfg, n, limbs_val bp) :: lowpart" and ?b = "take n bp"
  define ebi where "ebi = MPN_SIZEINBASE_2EXP ep (length ep) 1"
  define w where "w = win_size ebi"
  have ok: "lowpart_ok ?c" using low n by simp
  have b: "lowpart_rep ?c 1 ?b" using n limbs_val_mod [OF n(2)] by simp
  show ?thesis
  proof (cases "w > 1")
    case True
    define pp where "pp = odd_powers (mpn_mullo_n cfg) (mpn_sqrlo cfg ?b) (2 ^ (w - 1) - 1) ?b"
    define X where "X = getbits ep ebi w"
    define cnt where "cnt = count_trailing_zeros X"
    have b2: "lowpart_rep ?c 2 (mpn_sqrlo cfg ?b)" using lowpart.sqr_rep [OF ok b] by simp
    have pp: "lowpart_rep ?c (2 * j + 1) (pp ! j)" if "j < 2 ^ (w - 1)" for j
      using lowpart.odd_powers_rep [OF ok b2, of 0 ?b j "2 ^ (w - 1) - 1"] b that by (simp add: pp_def)
    note run = lowpart.window_run [OF ok ep ebi_def w_def X_def cnt_def pp]
    obtain r where r: "INNERLOOP (mpn_sqrlo cfg) (mpn_mullo_n cfg) pp ep w (pp ! unat (drop_bit 1 (drop_bit cnt X))) (ebi - w + cnt) = Some r"
      "lowpart_rep ?c ?e r"
      using run(2) by auto
    have "mpn_powlo cfg bp ep n = Some r"
      unfolding mpn_powlo_def Let_def ebi_def [symmetric] w_def [symmetric] if_P [OF True] X_def [symmetric]
        cnt_def [symmetric] pp_def [symmetric] prod.case
      using run(1) r(1) by (simp only: powlo_loop_INNERLOOP)
    then show ?thesis using r(2) by simp
  next
    case False
    note eb = sizeinbase_bits [OF ep(1,2), folded ebi_def]
    have w1: "w = 1" using False win_size_bounds(1) [of ebi] by (simp add: w_def)
    have ebi1: "1 < ebi"
    proof (rule ccontr)
      assume "\<not> 1 < ebi"
      then have "ebi = 1" using eb(1) by simp
      then show False using eb(3) ep(3) by simp
    qed
    have "?e div 2 ^ (ebi - 1) = 1"
      using eb(2,3) ebi1 by (intro div_nat_eqI) (cases ebi; simp)+
    then have start: "lowpart_rep ?c (?e div 2 ^ (ebi - 1)) ?b" using b by simp
    have pp: "lowpart_rep ?c (2 * j + 1) ([?b] ! j)" if "j < 2 ^ (1 - 1)" for j using b that by simp
    have le: "ebi - 1 \<le> 64 * length ep" using eb(4) by (rule le_trans [rotated]) simp
    obtain r where r: "INNERLOOP (mpn_sqrlo cfg) (mpn_mullo_n cfg) [?b] ep 1 ?b (ebi - 1) = Some r" "lowpart_rep ?c ?e r"
      using lowpart.window_loop [OF ok, of 1 "[?b]" "ebi - 1" ep ?b] pp start le by auto
    have "mpn_powlo cfg bp ep n = Some r"
      unfolding mpn_powlo_def Let_def ebi_def [symmetric] w_def [symmetric] if_not_P [OF False] prod.case
      using r(1) ebi1 unfolding w1 by (simp add: powlo_loop_INNERLOOP)
    then show ?thesis using r(2) by simp
  qed
qed

end
