(* ===== verification/Gmp_Mpz_Powm.thy ===== *)
theory Gmp_Mpz_Powm
  imports Gmp_Powlo
begin

unbundle bit_operations_syntax

text \<open>
  \<open>mpz_powm\<close> (\<open>mpz/powm.c\<close>), the modular power that the key exchange calls, for operands of
  every sign and size: the exceptional cases, the split of an even modulus into an odd part and a
  power of two, and the recombination of the two results.
\<close>

section \<open>Definitions\<close>

text \<open>Case \<open>b ^ 1\<close>: one division, and a subtraction for a negative base.\<close>

definition mpz_powm_1 :: "mpn_cfg \<Rightarrow> mpz \<Rightarrow> limb list \<Rightarrow> limb list \<times> nat" where
  "mpz_powm_1 cfg b mp =
     (let n = length mp; bp = PTR b; bn = ABSIZ b
      in if bn \<ge> n
         then let rp = snd (mpn_tdiv_qr cfg bp mp); rn = MPN_NORMALIZE rp n
              in if rn \<noteq> 0 \<and> SIZ b < 0
                 then let rp = fst (mpn_sub mp (take rn rp)) in (rp, MPN_NORMALIZE rp n)
                 else (rp, rn)
         else if SIZ b < 0
         then let rp = fst (mpn_sub mp bp) in (rp, MPN_NORMALIZE rp n)
         else (bp, bn))"

text \<open>
  The odd part of the modulus: its limbs, the number \<open>ncnt\<close> of limbs that its power of two
  reaches into, and the number \<open>cnt\<close> of bits of the last of them.
\<close>

definition odd_part :: "limb list \<Rightarrow> limb list \<times> nat \<times> nat" where
  "odd_part mp =
     (let n = length mp;
        mp = dropWhile (\<lambda>x. x = 0) mp;
        nodd = length mp;
        ncnt = n - nodd
      in if hd mp mod 2 = 0
         then let cnt = count_trailing_zeros (hd mp);
                newmp = fst (mpn_rshift mp cnt);
                nodd = nodd - (if newmp ! (nodd - 1) = 0 then 1 else 0)
              in (take nodd newmp, ncnt + 1, cnt)
         else (mp, ncnt, 0))"

text \<open>The power modulo the power of two, on \<open>ncnt\<close> limbs.\<close>

definition powm_low :: "mpn_cfg \<Rightarrow> limb list \<Rightarrow> limb list \<Rightarrow> nat \<Rightarrow> nat \<Rightarrow> limb list option" where
  "powm_low cfg bp ep ncnt cnt =
     (let bp = (if length bp < ncnt then bp @ replicate (ncnt - length bp) 0 else bp)
      in if bp ! 0 mod 2 = 0 \<and> length ep > 1 then Some (replicate ncnt 0)
         else let t = (ncnt - (if cnt \<noteq> 0 then 1 else 0)) * 64 + cnt;
             bcnt = drop_bit (unat (push_bit 1 (bp ! 0 AND 7))) 0x1213 AND 3
           in if bp ! 0 mod 2 = 0 \<and> unat (ep ! 0 * bcnt) \<ge> t then Some (replicate ncnt 0)
              else mpn_powlo cfg bp ep ncnt)"

text \<open>The number that is \<open>rp\<close> modulo the odd part \<open>mp\<close> and \<open>r2\<close> modulo the power of two.\<close>

definition powm_combine ::
  "mpn_cfg \<Rightarrow> limb list \<Rightarrow> limb list \<Rightarrow> limb list \<Rightarrow> nat \<Rightarrow> nat \<Rightarrow> nat \<Rightarrow> limb list" where
  "powm_combine cfg rp r2 mp ncnt cnt n =
     (let nodd = length mp;
        newmp = (if nodd < ncnt then mp @ replicate (ncnt - nodd) 0 else mp);
        odd_inv_2exp = mpn_binvert cfg newmp ncnt;
        r2 = fst (mpn_sub r2 (take (if nodd > ncnt then ncnt else nodd) rp));
        xp = mpn_mullo_n cfg odd_inv_2exp r2;
        xp = (if cnt \<noteq> 0 then xp[ncnt - 1 := xp ! (ncnt - 1) AND (push_bit cnt 1 - 1)] else xp);
        yp = (if ncnt > nodd then mpn_mul cfg xp (take nodd newmp) else mpn_mul cfg newmp xp)
      in fst (mpn_add (take n yp) rp))"

text \<open>
  The result is \<open>None\<close> only where a loop of \<open>mpn_powm\<close> or \<open>mpn_powlo\<close> would not end; a zero modulus
  and a base without inverse raise the division by zero.
\<close>

definition mpz_powm :: "mpn_cfg \<Rightarrow> mpz \<Rightarrow> mpz \<Rightarrow> mpz \<Rightarrow> mpz \<Rightarrow> mpz run" where
  "mpz_powm cfg r b e m =
     (let n = ABSIZ m; mp = PTR m; es = SIZ e
      in if n = 0 then Some (Inl DivideByZero)
         else if es = 0
         then let sz = (if n \<noteq> 1 \<or> mp ! 0 \<noteq> 1 then 1 else 0) in Some (Inr (set_limbs (MPZ_NEWALLOC r 1) [1] sz))
         else bindR (if es < 0
             then (case mpz_invert cfg b m of None \<Rightarrow> Some (Inl DivideByZero) | Some new_b \<Rightarrow> Some (Inr (new_b, - es)))
             else Some (Inr (b, es)))
          (\<lambda>(b, es).
             let en = nat es; bn = ABSIZ b; ep = PTR e
             in if bn = 0 then Some (Inr (set_limbs r [] 0))
                else if en = 1 \<and> ep ! 0 = 1
                then let (rp, rn) = mpz_powm_1 cfg b mp in Some (Inr (set_limbs (MPZ_NEWALLOC r rn) rp rn))
                else let bp = PTR b; (modd, ncnt, cnt) = odd_part mp
                  in case mpn_powm cfg bp ep modd of
                       None \<Rightarrow> None
                     | Some rp \<Rightarrow>
                         (case if ncnt \<noteq> 0
                               then map_option (\<lambda>r2. powm_combine cfg rp r2 modd ncnt cnt n) (powm_low cfg bp ep ncnt cnt)
                               else Some rp of
                            None \<Rightarrow> None
                          | Some rp \<Rightarrow>
                              let rn = MPN_NORMALIZE rp n;
                                (rp, rn) = (if ep ! 0 AND 1 \<noteq> 0 \<and> SIZ b < 0 \<and> rn \<noteq> 0
                                  then let rp = fst (mpn_sub mp (take rn rp)) in (rp, MPN_NORMALIZE rp n)
                                  else (rp, rn))
                              in Some (Inr (set_limbs (MPZ_NEWALLOC r rn) rp rn)))))"

section \<open>The odd part of the modulus\<close>

lemma limbs_val_ge:
  assumes "xs \<noteq> []"
  shows "last xs \<noteq> 0 \<longleftrightarrow> BB ^ (length xs - 1) \<le> limbs_val xs"
proof -
  obtain ys y where xs: "xs = ys @ [y]" using assms by (cases xs rule: rev_cases) auto
  have v: "limbs_val xs = limbs_val ys + BB ^ length ys * unat y" by (simp add: xs limbs_val_snoc)
  show ?thesis
  proof (cases "y = 0")
    case True
    then show ?thesis using v limbs_val_lt [of ys] by (simp add: xs)
  next
    case False
    then have "0 < unat y" by (simp add: unat_gt_0)
    then have "BB ^ length ys * 1 \<le> BB ^ length ys * unat y" by (intro mult_le_mono2) simp
    then have "BB ^ length ys \<le> limbs_val xs" unfolding v by linarith
    then show ?thesis using False by (simp add: xs)
  qed
qed

lemma limbs_val_pos: "xs \<noteq> [] \<Longrightarrow> last xs \<noteq> 0 \<Longrightarrow> 0 < limbs_val xs"
  using limbs_val_ge [of xs] by (metis BB_pos less_le_trans zero_less_power)

lemma limbs_val_strip:
  assumes "xs \<noteq> []" and "last xs \<noteq> (0 :: limb)"
  defines "ys \<equiv> dropWhile (\<lambda>x. x = 0) xs"
  shows "ys \<noteq> []" and "hd ys \<noteq> 0" and "last ys \<noteq> 0" and "length ys \<le> length xs"
    and "limbs_val xs = BB ^ (length xs - length ys) * limbs_val ys"
proof -
  let ?zs = "takeWhile (\<lambda>x. x = 0) xs"
  have "\<not> (\<forall>x \<in> set xs. x = 0)" using assms(1,2) last_in_set by blast
  then show ys: "ys \<noteq> []" by (simp add: ys_def)
  then show "hd ys \<noteq> 0" using hd_dropWhile [of "\<lambda>x. x = 0" xs] by (simp add: ys_def)
  have split: "xs = ?zs @ ys" by (simp add: ys_def)
  then show "last ys \<noteq> 0" using assms(2) ys by (metis last_appendR)
  show "length ys \<le> length xs" by (simp add: ys_def length_dropWhile_le)
  have "?zs = replicate (length ?zs) 0" by (rule replicate_eqI) (auto dest: set_takeWhileD)
  then have "limbs_val ?zs = 0" by (metis limbs_val_zeros)
  moreover have "length ?zs = length xs - length ys" using arg_cong [OF split, of length] by simp
  ultimately show "limbs_val xs = BB ^ (length xs - length ys) * limbs_val ys"
    using arg_cong [OF split, of limbs_val] by (simp add: limbs_val_app)
qed

lemma even_limb: "x mod 2 = 0 \<longleftrightarrow> even (unat (x :: limb))"
proof -
  have "unat (x mod 2) = unat x mod 2" by (simp add: unat_mod_distrib)
  then show ?thesis by (metis even_iff_mod_2_eq_zero unat_eq_zero)
qed

lemma odd_limbs_val: "xs \<noteq> [] \<Longrightarrow> odd (limbs_val xs) \<longleftrightarrow> odd (unat (hd xs))"
  by (cases xs) (simp_all add: BB_def)

lemma strip_top:
  assumes "xs \<noteq> []" and v: "odd (limbs_val xs)" and lo: "BB ^ (length xs - 1) \<le> limbs_val xs * c" "c < BB"
  defines "n \<equiv> length xs - (if xs ! (length xs - 1) = 0 then 1 else 0)"
  shows "take n xs \<noteq> []" and "last (take n xs) \<noteq> 0" and "limbs_val (take n xs) = limbs_val xs"
proof -
  obtain ys y where xs: "xs = ys @ [y]" using assms(1) by (cases xs rule: rev_cases) auto
  have "take n xs \<noteq> [] \<and> last (take n xs) \<noteq> 0 \<and> limbs_val (take n xs) = limbs_val xs"
  proof (cases "y = 0")
    case True
    then have t: "take n xs = ys" "limbs_val xs = limbs_val ys" by (simp_all add: n_def xs limbs_val_snoc)
    then have ys: "ys \<noteq> []" using v by auto
    have "BB ^ (length ys - 1) \<le> limbs_val ys"
    proof (rule ccontr)
      assume "\<not> BB ^ (length ys - 1) \<le> limbs_val ys"
      then have "limbs_val ys * c < BB ^ (length ys - 1) * BB" using lo(2) by (intro mult_strict_mono) auto
      also have "\<dots> = BB ^ length ys" using ys by (simp add: power_eq_if)
      finally show False using lo(1) t(2) by (simp add: xs)
    qed
    then show ?thesis using t ys limbs_val_ge [OF ys] by simp
  next
    case False
    then show ?thesis by (simp add: n_def xs)
  qed
  then show "take n xs \<noteq> []" "last (take n xs) \<noteq> 0" "limbs_val (take n xs) = limbs_val xs" by simp_all
qed

lemma odd_part_spec:
  assumes m: "m \<noteq> []" "last m \<noteq> 0" and p: "odd_part m = (mp, ncnt, cnt)"
  shows "mp \<noteq> [] \<and> last mp \<noteq> 0 \<and> odd (limbs_val mp)" and "cnt < 64" and "cnt \<noteq> 0 \<longrightarrow> ncnt \<noteq> 0"
    and "limbs_val m = limbs_val mp * 2 ^ ((ncnt - (if cnt \<noteq> 0 then 1 else 0)) * 64 + cnt)"
    and "length mp \<le> length m" and "length m \<le> length mp + ncnt" and "ncnt \<le> length m" and "ncnt = 0 \<longrightarrow> mp = m"
proof -
  define ys where "ys = dropWhile (\<lambda>x. x = 0) m"
  note st = limbs_val_strip [OF m, folded ys_def]
  obtain x xs where ys: "ys = x # xs" using st(1) by (cases ys) auto
  have BBp: "BB ^ k = 2 ^ (k * 64)" for k by (metis BB_power mult.commute)
  have "(mp \<noteq> [] \<and> last mp \<noteq> 0 \<and> odd (limbs_val mp)) \<and> cnt < 64 \<and> (cnt \<noteq> 0 \<longrightarrow> ncnt \<noteq> 0)
    \<and> limbs_val m = limbs_val mp * 2 ^ ((ncnt - (if cnt \<noteq> 0 then 1 else 0)) * 64 + cnt)
    \<and> length mp \<le> length m \<and> length m \<le> length mp + ncnt \<and> ncnt \<le> length m \<and> (ncnt = 0 \<longrightarrow> mp = m)"
  proof (cases "hd ys mod 2 = 0")
    case False
    then have r: "mp = ys" "ncnt = length m - length ys" "cnt = 0" using p by (auto simp: odd_part_def Let_def simp flip: ys_def)
    have o: "odd (limbs_val ys)" using False even_limb odd_limbs_val [OF st(1)] by simp
    have "mp = m" if "ncnt = 0"
    proof -
      have "takeWhile (\<lambda>x. x = 0) m @ ys = m" by (simp add: ys_def)
      then show ?thesis using that r(1,2) st(4) by (metis append_eq_append_conv append_Nil diff_is_0_eq le_antisym)
    qed
    then show ?thesis using r st o BBp by simp
  next
    case True
    have x0: "x \<noteq> 0" using st(2) ys by simp
    have ev: "even (unat x)" using True even_limb ys by simp
    define c where "c = count_trailing_zeros x"
    note cz = count_trailing_zeros_spec [OF x0, folded c_def]
    have c1: "c \<noteq> 0" using cz(2) ev by (cases c) simp_all
    have c64: "c < 64"
    proof (rule ccontr)
      assume "\<not> c < 64"
      then have "(2::nat) ^ 64 \<le> 2 ^ c" by (intro power_increasing) simp_all
      moreover have "2 ^ c \<le> unat x" using cz(1) x0 by (intro dvd_imp_le) (simp_all add: unat_gt_0)
      ultimately show False using unat_lt_BB [of x] unfolding BB_def by linarith
    qed
    have BBc: "BB = 2 ^ c * 2 ^ (64 - c)" using c64 by (simp add: BB_def flip: power_add)
    obtain newmp out where nm: "mpn_rshift ys c = (newmp, out)" by fastforce
    have n: "length newmp = length ys" "limbs_val newmp = limbs_val ys div 2 ^ c"
      using mpn_rshift_spec [OF _ st(1) nm] c64 by simp_all
    have nv: "limbs_val newmp = unat x div 2 ^ c + 2 ^ (64 - c) * limbs_val xs"
      using limb_cons_div [of c x xs] c64 n(2) ys by simp
    have "even ((2::nat) ^ (64 - c) * limbs_val xs)" using c64 by simp
    then have no: "odd (limbs_val newmp)" using cz(2) unfolding nv by simp
    have scaled: "limbs_val newmp * 2 ^ c = limbs_val ys"
    proof -
      have "limbs_val newmp * 2 ^ c = 2 ^ c * (unat x div 2 ^ c) + 2 ^ c * 2 ^ (64 - c) * limbs_val xs"
        unfolding nv by (simp add: algebra_simps)
      also have "2 ^ c * (unat x div 2 ^ c) = unat x" by (rule dvd_mult_div_cancel [OF cz(1)])
      finally show ?thesis unfolding BBc [symmetric] by (simp add: ys)
    qed
    have ne: "newmp \<noteq> []" using n(1) ys by auto
    have "BB ^ (length newmp - 1) \<le> limbs_val newmp * 2 ^ c"
      using limbs_val_ge [OF st(1)] st(3) n(1) unfolding scaled by simp
    moreover have "2 ^ c < BB" unfolding BB_def using c64 by (intro power_strict_increasing) simp_all
    ultimately have top: "BB ^ (length newmp - 1) \<le> limbs_val newmp * 2 ^ c" "2 ^ c < BB" by simp_all
    note tp = strip_top [OF ne no top]
    define k where "k = length newmp - (if newmp ! (length newmp - 1) = 0 then 1 else 0)"
    have r: "mp = take k newmp" "ncnt = length m - length ys + 1" "cnt = c"
      using p True n(1) nm ys by (simp_all add: odd_part_def Let_def k_def c_def flip: ys_def)
    have k: "length ys - 1 \<le> k" "k \<le> length ys" using n(1) by (simp_all add: k_def)
    have "1 \<le> length ys" using ys by simp
    moreover have "length mp = k" using r(1) k(2) n(1) by simp
    ultimately have lens: "length mp \<le> length m" "length m \<le> length mp + ncnt" "ncnt \<le> length m"
      using r(2) k st(4) by linarith+
    have "limbs_val m = limbs_val mp * 2 ^ ((ncnt - 1) * 64 + c)"
      using st(5) scaled tp(3) r unfolding BBp k_def [symmetric] by (simp add: power_add)
    then show ?thesis using tp no r c1 c64 lens unfolding k_def [symmetric] by simp
  qed
  then show "mp \<noteq> [] \<and> last mp \<noteq> 0 \<and> odd (limbs_val mp)" "cnt < 64" "cnt \<noteq> 0 \<longrightarrow> ncnt \<noteq> 0"
    "limbs_val m = limbs_val mp * 2 ^ ((ncnt - (if cnt \<noteq> 0 then 1 else 0)) * 64 + cnt)"
    "length mp \<le> length m" "length m \<le> length mp + ncnt" "ncnt \<le> length m" "ncnt = 0 \<longrightarrow> mp = m"
    by blast+
qed

section \<open>Power modulo the power of two\<close>

lemma limbs_val_pad: "limbs_val (xs @ replicate k 0) = limbs_val xs"
  by (simp add: limbs_val_app)

text \<open>The table packed into \<open>0x1213\<close> counts trailing zeros, up to three.\<close>

lemma trailing_table:
  fixes x :: limb
  defines "bcnt \<equiv> drop_bit (unat (push_bit 1 (x AND 7))) 0x1213 AND (3 :: limb)"
  shows "2 ^ unat bcnt dvd unat x" and "2 ^ unat bcnt dvd BB"
proof -
  have mask: "unat (x AND 7) = unat x mod 8" using unat_and_mask [of x 3] by simp
  then have "x AND 7 = of_nat (unat x mod 8)" by (metis of_nat_unat ucast_id)
  moreover have "unat x mod 8 \<in> {0, 1, 2, 3, 4, 5, 6, 7}" by auto
  ultimately have "2 ^ unat bcnt dvd unat x mod 8 \<and> 2 ^ unat bcnt dvd (8 :: nat)"
    unfolding bcnt_def by (elim insertE emptyE) simp_all
  then have b: "2 ^ unat bcnt dvd unat x mod 8" "2 ^ unat bcnt dvd (8 :: nat)" by simp_all
  then show "2 ^ unat bcnt dvd unat x" by (metis dvd_add_right_iff dvd_mult2 mult_div_mod_eq)
  have "(8 :: nat) dvd BB" by (simp add: BB_def)
  with b(2) show "2 ^ unat bcnt dvd BB" by (rule dvd_trans)
qed

lemma two_power_part:
  assumes "cnt < 64" and "cnt \<noteq> 0 \<longrightarrow> ncnt \<noteq> 0"
  defines "t \<equiv> (ncnt - (if cnt \<noteq> 0 then 1 else 0)) * 64 + cnt"
  shows "t \<le> 64 * ncnt" and "(2 :: nat) ^ t dvd BB ^ ncnt"
proof -
  show t: "t \<le> 64 * ncnt" using assms(1,2) by (cases ncnt) (auto simp: t_def)
  show "(2 :: nat) ^ t dvd BB ^ ncnt" unfolding BB_power [symmetric] using t by (rule le_imp_power_dvd)
qed

lemma mod_power_zero: "2 ^ t dvd (a :: nat) \<Longrightarrow> t' \<le> t \<Longrightarrow> a mod 2 ^ t' = 0"
  by (meson dvd_imp_mod_0 dvd_trans le_imp_power_dvd)

lemma powm_low_spec:
  assumes low: "low_ok cfg" and bp: "bp \<noteq> []" and ep: "ep \<noteq> []" "last ep \<noteq> 0" "1 < limbs_val ep"
    and c: "cnt < 64" "cnt \<noteq> 0 \<longrightarrow> ncnt \<noteq> 0" and n: "0 < ncnt" "64 * ncnt < BB"
  defines "t \<equiv> (ncnt - (if cnt \<noteq> 0 then 1 else 0)) * 64 + cnt"
  shows "\<exists>r2. powm_low cfg bp ep ncnt cnt = Some r2 \<and> length r2 = ncnt
    \<and> limbs_val r2 mod 2 ^ t = limbs_val bp ^ limbs_val ep mod 2 ^ t"
proof -
  let ?e = "limbs_val ep" and ?b = "limbs_val bp"
  define bq where "bq = (if length bp < ncnt then bp @ replicate (ncnt - length bp) 0 else bp)"
  define bcnt where "bcnt = drop_bit (unat (push_bit 1 (bq ! 0 AND 7))) 0x1213 AND (3 :: limb)"
  note tp = two_power_part [OF c, folded t_def]
  have q: "bq \<noteq> []" "ncnt \<le> length bq" "limbs_val bq = ?b" using bp by (auto simp: bq_def limbs_val_pad)
  have hd: "bq ! 0 = hd bq" using q(1) by (simp add: hd_conv_nth)
  have ev: "bq ! 0 mod 2 = 0 \<longleftrightarrow> even ?b" using odd_limbs_val [OF q(1)] even_limb q(3) unfolding hd by simp
  have run: "powm_low cfg bp ep ncnt cnt =
     (if bq ! 0 mod 2 = 0 \<and> length ep > 1 then Some (replicate ncnt 0)
      else if bq ! 0 mod 2 = 0 \<and> unat (ep ! 0 * bcnt) \<ge> t then Some (replicate ncnt 0)
      else mpn_powlo cfg bq ep ncnt)"
    by (simp only: powm_low_def Let_def bq_def [symmetric] bcnt_def [symmetric] t_def [symmetric])
  consider (big) "even ?b" "length ep > 1"
    | (zero) "\<not> (even ?b \<and> length ep > 1)" "even ?b" "unat (ep ! 0 * bcnt) \<ge> t"
    | (powlo) "\<not> (even ?b \<and> length ep > 1)" "\<not> (even ?b \<and> unat (ep ! 0 * bcnt) \<ge> t)" by blast
  then show ?thesis
  proof cases
    case big
    have "BB ^ 1 \<le> BB ^ (length ep - 1)" using big(2) BB_gt1 by (intro power_increasing) simp_all
    also have "\<dots> \<le> ?e" using limbs_val_ge [OF ep(1)] ep(2) by simp
    finally have "t \<le> ?e" using tp(1) n(2) by simp
    moreover have "2 ^ ?e dvd ?b ^ ?e" using big(1) by (rule dvd_power_same)
    ultimately have "?b ^ ?e mod 2 ^ t = 0" by (intro mod_power_zero)
    then show ?thesis using run ev big by simp
  next
    case zero
    then obtain x where x: "ep = [x]" using ep(1) by (cases ep) auto
    have "unat (x * bcnt) \<le> unat x * unat bcnt" by (simp add: unat_times_limb)
    then have "t \<le> unat bcnt * ?e" using zero(3) x by (simp add: mult.commute)
    moreover have "2 ^ unat bcnt dvd ?b"
      using trailing_table [of "bq ! 0"] q(1) unfolding bcnt_def hd q(3) [symmetric] by (cases bq) simp_all
    then have "2 ^ (unat bcnt * ?e) dvd ?b ^ ?e" unfolding power_mult by (rule dvd_power_same)
    ultimately have "?b ^ ?e mod 2 ^ t = 0" by (intro mod_power_zero)
    then show ?thesis using run ev zero by simp
  next
    case powlo
    from mpn_powlo_spec [OF low n(1) q(2) ep] obtain r where r: "mpn_powlo cfg bq ep ncnt = Some r" "length r = ncnt"
      "limbs_val r = ?b ^ ?e mod BB ^ ncnt" unfolding q(3) by blast
    have "limbs_val r mod 2 ^ t = ?b ^ ?e mod 2 ^ t" unfolding r(3) by (rule mod_mod_cancel [OF tp(2)])
    moreover have "powm_low cfg bp ep ncnt cnt = Some r" using run ev powlo r(1) by auto
    ultimately show ?thesis using r(2) by simp
  qed
qed

section \<open>Recombination\<close>

lemma odd_power_combine:
  fixes mo iv d r x v :: nat
  assumes "odd mo" and inv: "mo * iv mod 2 ^ t = 1 mod 2 ^ t" and x: "x = iv * d mod 2 ^ t"
    and d: "(d + r) mod 2 ^ t = v mod 2 ^ t" and r: "r = v mod mo"
  shows "x * mo + r = v mod (mo * 2 ^ t)" and "x * mo + r < mo * 2 ^ t"
proof -
  let ?p = "(2 :: nat) ^ t"
  have mo: "0 < mo" using assms(1) by (rule odd_pos)
  have "x * mo mod ?p = mo * iv * d mod ?p" unfolding x by (simp add: mod_mult_left_eq mod_mult_right_eq ac_simps)
  also have "\<dots> = (mo * iv mod ?p) * d mod ?p" by (simp add: mod_mult_left_eq)
  also have "\<dots> = d mod ?p" unfolding inv by (simp add: mod_mult_left_eq)
  finally have "(x * mo + r) mod ?p = v mod ?p" unfolding d [symmetric] by (metis mod_add_left_eq)
  then have "int ?p dvd int (x * mo + r) - int v" by (metis mod_eq_dvd_iff zmod_int)
  moreover have "(x * mo + r) mod mo = v mod mo" unfolding r by simp
  then have "int mo dvd int (x * mo + r) - int v" by (metis mod_eq_dvd_iff zmod_int)
  moreover have "coprime (int mo) (int ?p)" using assms(1) by simp
  ultimately have "int mo * int ?p dvd int (x * mo + r) - int v" by (intro divides_mult)
  then have "(x * mo + r) mod (mo * ?p) = v mod (mo * ?p)" by (metis mod_eq_dvd_iff of_nat_eq_iff of_nat_mult zmod_int)
  moreover show "x * mo + r < mo * ?p"
  proof -
    have "Suc x \<le> ?p" using x by (simp add: Suc_leI)
    then have "Suc x * mo \<le> ?p * mo" by (rule mult_le_mono1)
    moreover have "r < mo" using mo r by simp
    ultimately show ?thesis by (simp add: mult.commute)
  qed
  ultimately show "x * mo + r = v mod (mo * ?p)" by simp
qed

lemma mask_top_limb:
  assumes "length xs = Suc k"
  shows "limbs_val (xs[k := xs ! k AND (push_bit c 1 - 1)]) = limbs_val xs mod 2 ^ (64 * k + c)"
proof -
  obtain ys y where xs: "xs = ys @ [y]" "length ys = k" using assms by (cases xs rule: rev_cases) auto
  have "(push_bit c 1 :: limb) = 2 ^ c" by simp
  then have m: "unat (y AND (push_bit c 1 - 1)) = unat y mod 2 ^ c" by (simp only: unat_and_mask)
  have lo: "limbs_val ys < BB ^ k" using limbs_val_lt [of ys] xs(2) by simp
  have "(limbs_val ys + BB ^ k * unat y) mod (BB ^ k * 2 ^ c) = limbs_val ys + BB ^ k * (unat y mod 2 ^ c)"
    using lo by (simp add: mod_mult2_eq)
  moreover have "xs[k := xs ! k AND (push_bit c 1 - 1)] = ys @ [y AND (push_bit c 1 - 1)]"
    using xs by (simp add: list_update_append nth_append)
  ultimately show ?thesis using m xs by (simp add: limbs_val_snoc power_add BB_power)
qed

lemma mod_mod_power: "t \<le> k \<Longrightarrow> a mod 2 ^ k mod 2 ^ t = a mod (2 ^ t :: nat)"
  by (rule mod_mod_cancel) (rule le_imp_power_dvd)

lemma powm_combine_spec:
  assumes cfg: "cfg_ok cfg" and mp: "mp \<noteq> []" "odd (limbs_val mp)"
    and rp: "length rp = length mp" "limbs_val rp = v mod limbs_val mp"
    and c: "cnt < 64" "cnt \<noteq> 0 \<longrightarrow> ncnt \<noteq> 0" and ncnt: "0 < ncnt"
    and t: "t = (ncnt - (if cnt \<noteq> 0 then 1 else 0)) * 64 + cnt"
    and r2: "length r2 = ncnt" "limbs_val r2 mod 2 ^ t = v mod 2 ^ t"
    and n: "length mp \<le> n" "n \<le> length mp + ncnt" "limbs_val mp * 2 ^ t \<le> BB ^ n"
  shows "length (powm_combine cfg rp r2 mp ncnt cnt n) = n
    \<and> limbs_val (powm_combine cfg rp r2 mp ncnt cnt n) = v mod (limbs_val mp * 2 ^ t)"
proof -
  let ?nodd = "length mp" and ?m = "limbs_val mp" and ?k = "if length mp > ncnt then ncnt else length mp"
  have L: "large_ok cfg" and W: "low_ok cfg" using cfg by (simp_all add: cfg_ok_def)
  have tn: "t \<le> 64 * ncnt" using two_power_part(1) [OF c] by (simp only: t)
  define newmp where "newmp = (if ?nodd < ncnt then mp @ replicate (ncnt - ?nodd) 0 else mp)"
  have nm: "ncnt \<le> length newmp" "limbs_val newmp = ?m" "take ?nodd newmp = mp" "?nodd \<ge> ncnt \<Longrightarrow> newmp = mp"
    by (auto simp: newmp_def limbs_val_pad)
  define iv where "iv = mpn_binvert cfg newmp ncnt"
  have iv: "length iv = ncnt" "?m * limbs_val iv mod BB ^ ncnt = 1"
    using mpn_binvert_spec [OF large_okD(1) [OF L] ncnt nm(1)] mp(2) by (simp_all add: iv_def nm(2))
  obtain d brw where d: "mpn_sub r2 (take ?k rp) = (d, brw)" by fastforce
  have "length (take ?k rp) \<le> length r2" using r2(1) rp(1) by simp
  note ds = mpn_sub_spec [OF this d]
  have low: "limbs_val (take ?k rp) mod 2 ^ t = limbs_val rp mod 2 ^ t"
  proof (cases "?nodd > ncnt")
    case True
    then have "limbs_val (take ?k rp) = limbs_val rp mod 2 ^ (64 * ncnt)"
      using limbs_val_mod [of ncnt rp] rp(1) by (simp only: BB_power if_True)
    then show ?thesis using mod_mod_power [OF tn] by simp
  qed (simp add: rp(1))
  have dv: "(limbs_val d + limbs_val rp) mod 2 ^ t = v mod 2 ^ t"
  proof -
    have "(limbs_val d + limbs_val rp) mod 2 ^ t = (limbs_val d + limbs_val (take ?k rp)) mod 2 ^ t"
      by (metis low mod_add_right_eq)
    also have "\<dots> = (limbs_val r2 + 2 ^ (64 * ncnt) * unat brw) mod 2 ^ t" using ds(2) r2(1) by (simp only: BB_power)
    also have "\<dots> = limbs_val r2 mod 2 ^ t" by (rule mod_power_cancel [OF tn])
    finally show ?thesis using r2(2) by simp
  qed
  define x1 where "x1 = mpn_mullo_n cfg iv d"
  have ld: "length iv = length d" using iv(1) ds(1) r2(1) by simp
  have x1: "length x1 = ncnt" "limbs_val x1 = limbs_val iv * limbs_val d mod BB ^ ncnt"
    using low_okD(4,5) [OF W _ ld] iv(1) ncnt by (force simp: x1_def)+
  define xp where "xp = (if cnt \<noteq> 0 then x1[ncnt - 1 := x1 ! (ncnt - 1) AND (push_bit cnt 1 - 1)] else x1)"
  have xl: "length xp = ncnt" by (simp add: xp_def x1(1))
  have xv: "limbs_val xp = limbs_val iv * limbs_val d mod 2 ^ t"
  proof (cases "cnt = 0")
    case True
    then show ?thesis using x1(2) by (simp add: xp_def t BB_power [symmetric] mult.commute)
  next
    case False
    have "length x1 = Suc (ncnt - 1)" using x1(1) ncnt by simp
    from mask_top_limb [OF this, of cnt] have "limbs_val xp = limbs_val x1 mod 2 ^ t"
      using False by (simp add: xp_def t mult.commute)
    then show ?thesis unfolding x1(2) BB_power [symmetric] by (simp only: mod_mod_power [OF tn])
  qed
  define yp where "yp = (if ncnt > ?nodd then mpn_mul cfg xp (take ?nodd newmp) else mpn_mul cfg newmp xp)"
  have xne: "xp \<noteq> []" using xl ncnt by auto
  have y: "length yp = ?nodd + ncnt" "limbs_val yp = limbs_val xp * ?m"
    using low_okD(2,3) [OF W mp(1), of xp] low_okD(2,3) [OF W xne, of newmp] xl nm
    by (auto simp: yp_def not_less mult.commute)
  have inv: "?m * limbs_val iv mod 2 ^ t = 1 mod 2 ^ t"
    using mod_mod_power [OF tn, of "?m * limbs_val iv"] iv(2) unfolding BB_power by simp
  note oc = odd_power_combine [OF mp(2) inv xv dv rp(2), folded y(2)]
  have "limbs_val yp < BB ^ n" using oc(2) n(3) by linarith
  then have ty: "length (take n yp) = n" "limbs_val (take n yp) = limbs_val yp"
    using y(1) n(2) limbs_val_mod [of n yp] by simp_all
  obtain w cy where w: "mpn_add (take n yp) rp = (w, cy)" by fastforce
  have "length rp \<le> length (take n yp)" using ty(1) rp(1) n(1) by simp
  note ws = mpn_add_spec [OF this w, unfolded ty]
  have "limbs_val w + BB ^ n * unat cy = limbs_val yp + limbs_val rp + BB ^ n * 0" using ws(2) by simp
  moreover have "limbs_val w < BB ^ n" using limbs_val_lt [of w] ws(1) by simp
  moreover have "limbs_val yp + limbs_val rp < BB ^ n" using oc(2) n(3) by linarith
  ultimately have "limbs_val w = limbs_val yp + limbs_val rp" by (rule below_radix_unique)
  moreover have "powm_combine cfg rp r2 mp ncnt cnt n = w"
    by (simp only: powm_combine_def Let_def newmp_def [symmetric] iv_def [symmetric] d fst_conv x1_def [symmetric]
        xp_def [symmetric] yp_def [symmetric] w)
  ultimately show ?thesis using ws(1) oc(1) by simp
qed

section \<open>The sign of the base\<close>

lemma signed_power_mod:
  fixes a m e :: nat
  assumes "0 < m" and "r = a ^ e mod m"
  shows "int (if odd e \<and> neg \<and> r \<noteq> 0 then m - r else r) = (if neg then - int a else int a) ^ e mod int m"
proof -
  have r: "int r = int a ^ e mod int m" "r < m" using assms by (simp_all add: zmod_int)
  show ?thesis
  proof (cases "odd e \<and> neg")
    case True
    then have "(- int a) ^ e mod int m = (if int r = 0 then 0 else int m - int r)"
      unfolding r(1) by (simp add: zmod_zminus1_eq_if)
    then show ?thesis using True r(2) by (simp add: of_nat_diff)
  next
    case False
    then have "(if neg then - int a else int a) ^ e = int a ^ e" by (auto simp: power_minus_even)
    then show ?thesis using False r(1) by auto
  qed
qed

lemma mpn_sub_le:
  assumes "length yp \<le> length xp" and "limbs_val yp \<le> limbs_val xp"
  shows "length (fst (mpn_sub xp yp)) = length xp" and "limbs_val (fst (mpn_sub xp yp)) = limbs_val xp - limbs_val yp"
proof -
  obtain w c where w: "mpn_sub xp yp = (w, c)" by fastforce
  note s = mpn_sub_spec [OF assms(1) w]
  show "length (fst (mpn_sub xp yp)) = length xp" using s(1) w by simp
  have "limbs_val w + BB ^ length xp * 0 = limbs_val xp - limbs_val yp + BB ^ length xp * unat c"
    using s(2) assms(2) by simp
  moreover have "limbs_val w < BB ^ length xp" using limbs_val_lt [of w] s(1) by simp
  moreover have "limbs_val xp - limbs_val yp < BB ^ length xp" using limbs_val_lt [of xp] by linarith
  ultimately have "limbs_val w = limbs_val xp - limbs_val yp" by (rule below_radix_unique)
  then show "limbs_val (fst (mpn_sub xp yp)) = limbs_val xp - limbs_val yp" using w by simp
qed

text \<open>Both ways to a result: normalise, or subtract from the modulus and normalise again.\<close>

definition signed_result :: "bool \<Rightarrow> limb list \<Rightarrow> limb list \<Rightarrow> limb list \<times> nat" where
  "signed_result neg mp rp =
     (let rn = MPN_NORMALIZE rp (length mp)
      in if neg \<and> rn \<noteq> 0 then let rp = fst (mpn_sub mp (take rn rp)) in (rp, MPN_NORMALIZE rp (length mp))
         else (rp, rn))"

lemma signed_result_spec:
  assumes "length rp = length mp" and "limbs_val rp < limbs_val mp" and "signed_result neg mp rp = (xs, n)"
  shows "mpz_wf (set_limbs z xs n)" and "0 \<le> SIZ (set_limbs z xs n)"
    and "mpz_abs (set_limbs z xs n) = (if neg \<and> limbs_val rp \<noteq> 0 then limbs_val mp - limbs_val rp else limbs_val rp)"
proof -
  define rn where "rn = MPN_NORMALIZE rp (length mp)"
  have nz: "rn \<le> length rp" "limbs_val (take rn rp) = limbs_val rp" "rn > 0 \<Longrightarrow> rp ! (rn - 1) \<noteq> 0"
    using MPN_NORMALIZE_spec [of "length mp" rp] assms(1) by (simp_all add: rn_def)
  have z: "rn = 0 \<longleftrightarrow> limbs_val rp = 0"
  proof
    assume v: "limbs_val rp = 0"
    show "rn = 0"
    proof (rule ccontr)
      assume "rn \<noteq> 0"
      then have ne: "take rn rp \<noteq> []" using nz(1) by auto
      then have "last (take rn rp) \<noteq> 0"
        using nz(1,3) \<open>rn \<noteq> 0\<close> by (simp add: last_conv_nth [OF ne] min_absorb2)
      with ne show False using limbs_val_pos [of "take rn rp"] nz(2) v by simp
    qed
  qed (use nz(2) in auto)
  define rp' where "rp' = fst (mpn_sub mp (take rn rp))"
  have "length (take rn rp) \<le> length mp" "limbs_val (take rn rp) \<le> limbs_val mp" using nz(1,2) assms(1,2) by simp_all
  from mpn_sub_le [OF this] have r': "length rp' = length mp" "limbs_val rp' = limbs_val mp - limbs_val rp"
    by (simp_all add: rp'_def nz(2))
  have "(xs, n) = (if neg \<and> rn \<noteq> 0 then (rp', MPN_NORMALIZE rp' (length mp)) else (rp, rn))"
    unfolding assms(3) [symmetric] signed_result_def Let_def rn_def [symmetric] rp'_def [symmetric] ..
  moreover note set_limbs_normalized [OF r'(1) [symmetric], of z] set_limbs_normalized [OF assms(1) [symmetric], of z]
  ultimately show "mpz_wf (set_limbs z xs n)" "0 \<le> SIZ (set_limbs z xs n)"
    "mpz_abs (set_limbs z xs n) = (if neg \<and> limbs_val rp \<noteq> 0 then limbs_val mp - limbs_val rp else limbs_val rp)"
    using z r'(2) unfolding rn_def by (auto split: if_splits)
qed

lemma signed_result_power:
  assumes "length rp = length mp" and "limbs_val rp = a ^ e mod limbs_val mp" and "0 < limbs_val mp"
    and "signed_result (odd e \<and> neg) mp rp = (xs, n)"
  shows "mpz_wf (set_limbs z xs n) \<and> 0 \<le> SIZ (set_limbs z xs n)
    \<and> int (mpz_abs (set_limbs z xs n)) = (if neg then - int a else int a) ^ e mod int (limbs_val mp)"
proof -
  have "limbs_val rp < limbs_val mp" using assms(2,3) by simp
  from signed_result_spec [OF assms(1) this assms(4), of z]
  show ?thesis using signed_power_mod [OF assms(3,2), of neg] by simp
qed

lemma mpz_wf_limbs:
  assumes "mpz_wf z"
  shows "length (PTR z) = ABSIZ z" and "PTR z \<noteq> [] \<Longrightarrow> last (PTR z) \<noteq> 0"
    and "PTR z \<noteq> [] \<longleftrightarrow> SIZ z \<noteq> 0" and "ABSIZ z = 0 \<longleftrightarrow> SIZ z = 0" and "0 < mpz_abs z \<longleftrightarrow> SIZ z \<noteq> 0"
proof -
  show l: "length (PTR z) = ABSIZ z" and t: "PTR z \<noteq> [] \<Longrightarrow> last (PTR z) \<noteq> 0"
    using assms by (simp_all add: mpz_wf_def ABSIZ_def)
  show s: "ABSIZ z = 0 \<longleftrightarrow> SIZ z = 0" by (simp add: ABSIZ_def)
  show p: "PTR z \<noteq> [] \<longleftrightarrow> SIZ z \<noteq> 0" using l s by (metis length_0_conv)
  show "0 < mpz_abs z \<longleftrightarrow> SIZ z \<noteq> 0"
    using limbs_val_pos [of "PTR z"] t p by (cases "PTR z = []") (auto simp: mpz_abs_def)
qed

lemma mpz_powm_1_spec:
  assumes L: "large_ok cfg" and b: "mpz_wf b" "SIZ b \<noteq> 0" and mp: "mp \<noteq> []" "last mp \<noteq> 0"
    and r: "mpz_powm_1 cfg b mp = (xs, k)"
  shows "mpz_wf (set_limbs z xs k) \<and> 0 \<le> SIZ (set_limbs z xs k)
    \<and> int (mpz_abs (set_limbs z xs k)) = mpz_int b mod int (limbs_val mp)"
proof -
  let ?m = "limbs_val mp"
  note bw = mpz_wf_limbs [OF b(1)]
  have m: "0 < ?m" by (rule limbs_val_pos [OF mp])
  show ?thesis
  proof (cases "length mp \<le> ABSIZ b")
    case True
    note q = large_ok_tdiv [OF L mp, of "PTR b"]
    have "signed_result (odd 1 \<and> SIZ b < 0) mp (snd (mpn_tdiv_qr cfg (PTR b) mp)) = (xs, k)"
      using r True by (auto simp: mpz_powm_1_def signed_result_def Let_def)
    from signed_result_power [OF _ _ m this, where a = "mpz_abs b" and z = z] show ?thesis
      using q True bw(1) by (simp add: mpz_abs_def mpz_int_def)
  next
    case False
    then have len: "length (PTR b) \<le> length mp - 1" "length (PTR b) \<le> length mp" using bw(1) by simp_all
    have "limbs_val (PTR b) < BB ^ length (PTR b)" by (rule limbs_val_lt)
    also have "\<dots> \<le> BB ^ (length mp - 1)" using len(1) BB_gt1 by (intro power_increasing) simp_all
    also have "\<dots> \<le> ?m" using limbs_val_ge [OF mp(1)] mp(2) by simp
    finally have lt: "limbs_val (PTR b) < ?m" .
    have pos: "0 < limbs_val (PTR b)" using bw(5) b(2) by (simp add: mpz_abs_def)
    show ?thesis
    proof (cases "SIZ b < 0")
      case True
      define s where "s = fst (mpn_sub mp (PTR b))"
      have s: "length s = length mp" "limbs_val s = ?m - limbs_val (PTR b)"
        using mpn_sub_le [OF len(2)] lt by (simp_all add: s_def)
      have xs: "xs = s" "k = MPN_NORMALIZE s (length mp)"
        using r True False by (auto simp: mpz_powm_1_def Let_def simp flip: s_def)
      have "(- int (limbs_val (PTR b))) mod int ?m = int ?m - int (limbs_val (PTR b))"
        using lt pos by (simp add: zmod_zminus1_eq_if)
      then show ?thesis
        using set_limbs_normalized [OF s(1) [symmetric], of z] s(2) True lt unfolding xs
        by (simp add: mpz_int_def mpz_abs_def of_nat_diff)
    next
      case nonneg: False
      have "xs = PTR b" "k = length (PTR b)" using r False nonneg bw(1) by (simp_all add: mpz_powm_1_def Let_def)
      then show ?thesis using bw(2) nonneg lt by (simp add: mpz_wf_def mpz_abs_def mpz_int_def set_limbs_def)
    qed
  qed
qed

section \<open>The whole function\<close>

lemma mpz_powm_zero_modulus: "ABSIZ m = 0 \<Longrightarrow> mpz_powm cfg r b e m = Some (Inl DivideByZero)"
  by (simp add: mpz_powm_def Let_def)

lemma mpz_powm_no_inverse:
  "ABSIZ m \<noteq> 0 \<Longrightarrow> SIZ e < 0 \<Longrightarrow> mpz_invert cfg b m = None \<Longrightarrow> mpz_powm cfg r b e m = Some (Inl DivideByZero)"
  by (simp add: mpz_powm_def Let_def)

lemma mpz_powm_inverse:
  "ABSIZ m \<noteq> 0 \<Longrightarrow> SIZ e < 0 \<Longrightarrow> mpz_invert cfg b m = Some b' \<Longrightarrow>
    mpz_powm cfg r b e m = mpz_powm cfg r b' (e\<lparr>SIZ := - SIZ e\<rparr>) m"
  by (simp add: mpz_powm_def Let_def)

lemma limbs_val_one:
  assumes "xs \<noteq> []" and "last xs \<noteq> 0"
  shows "limbs_val xs = 1 \<longleftrightarrow> length xs = 1 \<and> xs ! 0 = 1"
proof
  assume v: "limbs_val xs = 1"
  have "length xs = 1"
  proof (rule ccontr)
    assume "length xs \<noteq> 1"
    then have "1 \<le> length xs - 1" using assms(1) by (cases xs) (auto simp: Suc_le_eq)
    then have "BB ^ 1 \<le> BB ^ (length xs - 1)" using BB_gt1 by (intro power_increasing) simp_all
    then show False using limbs_val_ge [OF assms(1)] assms(2) v BB_gt1 by simp
  qed
  moreover from this obtain x where "xs = [x]" by (auto simp: length_Suc_conv)
  ultimately show "length xs = 1 \<and> xs ! 0 = 1" using v by (simp add: word_unat_eq_iff)
qed (auto simp: length_Suc_conv)

lemma odd_exponent: "ep \<noteq> [] \<Longrightarrow> ep ! 0 AND 1 \<noteq> 0 \<longleftrightarrow> odd (limbs_val ep)"
proof -
  assume ne: "ep \<noteq> []"
  have "unat (ep ! 0 AND 1) = unat (ep ! 0) mod 2" using unat_and_mask [of "ep ! 0" 1] by simp
  then have "ep ! 0 AND 1 = 0 \<longleftrightarrow> even (unat (ep ! 0))" by (metis even_iff_mod_2_eq_zero unat_eq_zero)
  then show ?thesis using odd_limbs_val [OF ne] ne by (simp add: hd_conv_nth)
qed

text \<open>The power of the absolute value, before the sign is taken into account.\<close>

lemma powm_magnitude:
  assumes cfg: "cfg_ok cfg" and mp: "mp \<noteq> []" "last mp \<noteq> 0" "length mp < 2 ^ 31"
    and ep: "ep \<noteq> []" "last ep \<noteq> 0" "1 < limbs_val ep" and bp: "bp \<noteq> []"
    and part: "odd_part mp = (modd, ncnt, cnt)"
  shows "\<exists>rp rp'. mpn_powm cfg bp ep modd = Some rp
    \<and> (if ncnt \<noteq> 0 then map_option (\<lambda>r2. powm_combine cfg rp r2 modd ncnt cnt (length mp)) (powm_low cfg bp ep ncnt cnt)
       else Some rp) = Some rp'
    \<and> length rp' = length mp \<and> limbs_val rp' = limbs_val bp ^ limbs_val ep mod limbs_val mp"
proof -
  let ?v = "limbs_val bp ^ limbs_val ep"
  note od = odd_part_spec [OF mp(1,2) part]
  have low: "low_ok cfg" using cfg by (simp add: cfg_ok_def)
  have "length modd < 2 ^ 58" using od(5) mp(3) by simp
  then obtain rp where rp: "mpn_powm cfg bp ep modd = Some rp" "length rp = length modd"
    "limbs_val rp = ?v mod limbs_val modd"
    using mpn_powm_spec [OF cfg, of modd ep bp] od(1) ep by blast
  show ?thesis
  proof (cases "ncnt = 0")
    case True
    then show ?thesis using rp od(8) by auto
  next
    case False
    have "64 * ncnt < BB" using od(7) mp(3) by (simp add: BB_def)
    then obtain r2 where r2: "powm_low cfg bp ep ncnt cnt = Some r2" "length r2 = ncnt"
      "limbs_val r2 mod 2 ^ ((ncnt - (if cnt \<noteq> 0 then 1 else 0)) * 64 + cnt)
        = ?v mod 2 ^ ((ncnt - (if cnt \<noteq> 0 then 1 else 0)) * 64 + cnt)"
      using powm_low_spec [OF low bp ep od(2,3)] False by blast
    have "limbs_val mp \<le> BB ^ length mp" using limbs_val_lt [of mp] by simp
    then have "length (powm_combine cfg rp r2 modd ncnt cnt (length mp)) = length mp
      \<and> limbs_val (powm_combine cfg rp r2 modd ncnt cnt (length mp)) = ?v mod limbs_val mp"
      using powm_combine_spec [OF cfg _ _ rp(2,3) od(2,3) _ refl r2(2,3) od(5,6)] False od(1) unfolding od(4) by simp
    then show ?thesis using rp(1) r2(1) False by simp
  qed
qed

lemma mpz_powm_spec:
  assumes cfg: "cfg_ok cfg" and wf: "mpz_wf b" "mpz_wf e" "mpz_wf m"
    and m: "SIZ m \<noteq> 0" "ABSIZ m < 2 ^ 31" and e: "0 \<le> SIZ e"
  shows "\<exists>z. mpz_powm cfg r b e m = Some (Inr z) \<and> mpz_wf z \<and> 0 \<le> SIZ z
    \<and> int (mpz_abs z) = mpz_int b ^ mpz_abs e mod int (mpz_abs m)"
proof -
  let ?m = "mpz_abs m" and ?mp = "PTR m" and ?bp = "PTR b" and ?ep = "PTR e"
  note mw = mpz_wf_limbs [OF wf(3)] and bw = mpz_wf_limbs [OF wf(1)] and ew = mpz_wf_limbs [OF wf(2)]
  have n0: "ABSIZ m \<noteq> 0" and mp: "?mp \<noteq> []" "last ?mp \<noteq> 0" and m0: "0 < ?m" using mw m(1) by auto
  consider (zero) "SIZ e = 0" | (base) "0 < SIZ e" "SIZ b = 0"
    | (one) "0 < SIZ e" "SIZ b \<noteq> 0" "SIZ e = 1 \<and> ?ep ! 0 = 1"
    | (power) "0 < SIZ e" "SIZ b \<noteq> 0" "\<not> (SIZ e = 1 \<and> ?ep ! 0 = 1)" using e by linarith
  then show ?thesis
  proof cases
    case zero
    then have "?ep = []" using ew(3) by simp
    then have e0: "mpz_abs e = 0" by (simp add: mpz_abs_def)
    have one: "?m = 1 \<longleftrightarrow> ABSIZ m = 1 \<and> ?mp ! 0 = 1"
      using limbs_val_one [OF mp] mw(1) by (simp add: mpz_abs_def)
    define k where "k = (if ABSIZ m \<noteq> 1 \<or> ?mp ! 0 \<noteq> 1 then 1 else 0 :: nat)"
    have "mpz_powm cfg r b e m = Some (Inr (set_limbs (MPZ_NEWALLOC r 1) [1] k))"
      using n0 zero by (simp add: mpz_powm_def Let_def k_def)
    moreover have "mpz_wf (set_limbs (MPZ_NEWALLOC r 1) [1] k) \<and> 0 \<le> SIZ (set_limbs (MPZ_NEWALLOC r 1) [1] k)
      \<and> mpz_abs (set_limbs (MPZ_NEWALLOC r 1) [1] k) = 1 mod ?m"
    proof (cases "?m = 1")
      case True
      then have "k = 0" using one by (simp add: k_def)
      then show ?thesis using True by (simp add: set_limbs_def mpz_wf_def mpz_abs_def)
    next
      case False
      then have "k = 1" "1 mod ?m = 1" using one m0 by (auto simp: k_def)
      then show ?thesis by (simp add: set_limbs_def mpz_wf_def mpz_abs_def)
    qed
    moreover have "int (1 mod ?m) = 1 mod int ?m" by (simp only: zmod_int of_nat_1)
    ultimately show ?thesis by (metis e0 power_0)
  next
    case base
    then have "?bp = []" using bw(3) by simp
    then have b0: "mpz_int b = 0" by (simp add: mpz_int_def mpz_abs_def)
    have "mpz_powm cfg r b e m = Some (Inr (set_limbs r [] 0))" using n0 base by (simp add: mpz_powm_def Let_def ABSIZ_def)
    moreover have "mpz_int b ^ mpz_abs e = 0" using ew(5) base b0 by (simp add: power_0_left)
    ultimately show ?thesis by (simp add: set_limbs_def mpz_wf_def mpz_abs_def power_0_left)
  next
    case one
    obtain xs k where x: "mpz_powm_1 cfg b ?mp = (xs, k)" by fastforce
    have "mpz_powm cfg r b e m = Some (Inr (set_limbs (MPZ_NEWALLOC r k) xs k))"
      using n0 one x bw(4) by (simp add: mpz_powm_def Let_def)
    moreover have "mpz_abs e = 1"
    proof -
      have "length ?ep = 1" using ew(1) one by (simp add: ABSIZ_def)
      then obtain x where "?ep = [x]" by (auto simp: length_Suc_conv)
      then show ?thesis using one by (simp add: mpz_abs_def)
    qed
    moreover have "large_ok cfg" using cfg by (simp add: cfg_ok_def)
    ultimately show ?thesis
      using mpz_powm_1_spec [OF _ wf(1) one(2) mp x, of "MPZ_NEWALLOC r k"] by (simp add: mpz_abs_def [of m])
  next
    case power
    have ep: "?ep \<noteq> []" "last ?ep \<noteq> 0" "?bp \<noteq> []" using ew bw power by auto
    have "limbs_val ?ep \<noteq> 1" using limbs_val_one [OF ep(1,2)] ew(1) power by (auto simp: ABSIZ_def)
    then have e1: "1 < limbs_val ?ep" using limbs_val_pos [OF ep(1,2)] by simp
    obtain modd ncnt cnt where part: "odd_part ?mp = (modd, ncnt, cnt)" by (metis prod_cases3)
    have "length ?mp < 2 ^ 31" using m(2) mw(1) by simp
    from powm_magnitude [OF cfg mp this ep(1,2) e1 ep(3) part] obtain rp rp' where
      rp: "mpn_powm cfg ?bp ?ep modd = Some rp"
      "(if ncnt \<noteq> 0 then map_option (\<lambda>r2. powm_combine cfg rp r2 modd ncnt cnt (length ?mp)) (powm_low cfg ?bp ?ep ncnt cnt)
        else Some rp) = Some rp'"
      "length rp' = length ?mp" "limbs_val rp' = limbs_val ?bp ^ limbs_val ?ep mod limbs_val ?mp" by blast
    obtain xs k where x: "signed_result (odd (limbs_val ?ep) \<and> SIZ b < 0) ?mp rp' = (xs, k)" by fastforce
    have "ABSIZ b \<noteq> 0" "nat (SIZ e) = 1 \<longleftrightarrow> SIZ e = 1" using bw(4) power by auto
    moreover have "\<not> SIZ e < 0" "SIZ e \<noteq> 0" using power(1) by simp_all
    ultimately have "mpz_powm cfg r b e m = Some (Inr (set_limbs (MPZ_NEWALLOC r k) xs k))"
      using n0 power(3) part rp(1,2) x odd_exponent [OF ep(1)] mw(1)
      by (auto simp: mpz_powm_def signed_result_def Let_def conj_assoc split: if_splits)
    then show ?thesis
      using signed_result_power [OF rp(3,4) _ x, of "MPZ_NEWALLOC r k"] m0
      by (simp add: mpz_abs_def mpz_int_def)
  qed
qed

end
