(* ===== verification/Example_Gmp.thy ===== *)
theory Example_Gmp
  imports Gmp_Mpz_Powm
begin

text \<open>
  A configuration of the limb layer for the witnesses: the thresholds of
  \<open>mpn/x86_64/skylake/gmp-mparam.h\<close>, and for the routines that are not modelled functions that
  compute on the values.
\<close>

section \<open>Limbs of a number\<close>

fun limbs_of :: "nat \<Rightarrow> nat \<Rightarrow> limb list" where
  "limbs_of 0 v = []"
| "limbs_of (Suc n) v = of_nat (v mod BB) # limbs_of n (v div BB)"

lemma limbs_of_spec: "length (limbs_of n v) = n" "limbs_val (limbs_of n v) = v mod BB ^ n"
proof -
  have u: "unat (of_nat (v mod BB) :: limb) = v mod BB" for v
    by (simp add: unsigned_of_nat take_bit_nat_eq_self BB_def)
  show "length (limbs_of n v) = n" by (induction n arbitrary: v) simp_all
  show "limbs_val (limbs_of n v) = v mod BB ^ n"
    by (induction n arbitrary: v) (simp_all add: u mod_mult2_eq add.commute)
qed

section \<open>The configuration\<close>

definition value_mul :: "limb list \<Rightarrow> limb list \<Rightarrow> limb list" where
  "value_mul a b = limbs_of (length a + length b) (limbs_val a * limbs_val b)"

definition value_mulmod :: "nat \<Rightarrow> limb list \<Rightarrow> limb list \<Rightarrow> limb list" where
  "value_mulmod rn a b =
     (let p = limbs_val a * limbs_val b; r = p mod (BB ^ rn - 1)
      in limbs_of (min rn (length a + length b)) (if p \<noteq> 0 \<and> r = 0 then BB ^ rn - 1 else r))"

definition reference_cfg :: mpn_cfg where
  "reference_cfg =
     \<lparr>WANT_REDC_2 = True, REDC_1_TO_REDC_2_THRESHOLD = 33, REDC_2_TO_REDC_N_THRESHOLD = 59,
      REDC_1_TO_REDC_N_THRESHOLD = 100, MUL_TOOM22_THRESHOLD = 26, MUL_TOOM33_THRESHOLD = 73,
      MUL_TOOM44_THRESHOLD = 208, MUL_TOOM6H_THRESHOLD = 300, MUL_TOOM8H_THRESHOLD = 406,
      MUL_FFT_THRESHOLD = 6272, MUL_TOOM32_TO_TOOM43_THRESHOLD = 73, MUL_TOOM32_TO_TOOM53_THRESHOLD = 153,
      MUL_TOOM42_TO_TOOM53_THRESHOLD = 137, MUL_TOOM42_TO_TOOM63_THRESHOLD = 151,
      SQR_BASECASE_THRESHOLD = 0, SQR_TOOM2_THRESHOLD = 32, SQR_TOOM3_THRESHOLD = 117,
      SQR_TOOM4_THRESHOLD = 336, SQR_TOOM6_THRESHOLD = 426, SQR_TOOM8_THRESHOLD = 547, SQR_FFT_THRESHOLD = 4224,
      MULLO_BASECASE_THRESHOLD = 0, MULLO_DC_THRESHOLD = 79, MULLO_MUL_N_THRESHOLD = 11278,
      SQRLO_BASECASE_THRESHOLD = 10, SQRLO_DC_THRESHOLD = 109, SQRLO_SQR_THRESHOLD = 8207,
      MOD_1_NORM_THRESHOLD = 0, MOD_1_UNNORM_THRESHOLD = 0, MOD_1N_TO_MOD_1_1_THRESHOLD = 4,
      MOD_1U_TO_MOD_1_1_THRESHOLD = 3, BINV_NEWTON_THRESHOLD = 294, DC_BDIV_Q_THRESHOLD = 166,
      toom_mul = (\<lambda>k. value_mul), toom_square = (\<lambda>k a. value_mul a a), mpn_fft_mul = value_mul,
      mpn_mulmod_bnm1_next_size = (\<lambda>n. n), mpn_mulmod_bnm1 = value_mulmod,
      mpn_dcpi1_bdiv_q = mpn_sbpi1_bdiv_q,
      large_mod_1 = (\<lambda>ap b. of_nat (limbs_val ap mod unat b)),
      mpn_tdiv_qr = (\<lambda>np dp. (limbs_of (length np) (limbs_val np div limbs_val dp),
        limbs_of (length dp) (limbs_val np mod limbs_val dp))),
      mpz_invert = (\<lambda>b m. None)\<rparr>"

lemma value_mul_spec: "length (value_mul a b) = length a + length b" "limbs_val (value_mul a b) = limbs_val a * limbs_val b"
proof -
  have "limbs_val a * limbs_val b < BB ^ (length a + length b)"
    unfolding power_add by (rule mult_strict_mono) (simp_all add: limbs_val_lt)
  then show "length (value_mul a b) = length a + length b" "limbs_val (value_mul a b) = limbs_val a * limbs_val b"
    by (simp_all add: value_mul_def limbs_of_spec)
qed

lemma value_mulmod_spec:
  assumes "0 < rn"
  shows "length (value_mulmod rn a b) = min rn (length a + length b)"
    and "limbs_val (value_mulmod rn a b) mod (BB ^ rn - 1) = limbs_val a * limbs_val b mod (BB ^ rn - 1)"
    and "limbs_val (value_mulmod rn a b) = 0 \<longleftrightarrow> limbs_val a = 0 \<or> limbs_val b = 0"
proof -
  define p M where "p = limbs_val a * limbs_val b" and "M = BB ^ rn - 1"
  define v where "v = (if p \<noteq> 0 \<and> p mod M = 0 then M else p mod M)"
  have "1 < BB ^ rn" by (rule one_less_power [OF BB_gt1 assms])
  then have M: "0 < M" "M < BB ^ rn" by (auto simp: M_def)
  have "v \<le> M" using M by (simp add: v_def less_imp_le)
  moreover have "v \<le> p" by (auto simp: v_def intro: dvd_imp_le mod_less_eq_dividend)
  moreover have "p < BB ^ (length a + length b)"
    unfolding p_def power_add by (rule mult_strict_mono) (simp_all add: limbs_val_lt)
  ultimately have "v < BB ^ min rn (length a + length b)" using M by (simp add: min_def)
  moreover have "value_mulmod rn a b = limbs_of (min rn (length a + length b)) v"
    by (simp only: value_mulmod_def Let_def v_def p_def M_def)
  ultimately have v: "length (value_mulmod rn a b) = min rn (length a + length b)" "limbs_val (value_mulmod rn a b) = v"
    by (simp_all only: limbs_of_spec mod_less)
  then show "length (value_mulmod rn a b) = min rn (length a + length b)" by simp
  show "limbs_val (value_mulmod rn a b) mod (BB ^ rn - 1) = limbs_val a * limbs_val b mod (BB ^ rn - 1)"
    unfolding v(2) M_def [symmetric] p_def [symmetric] by (simp add: v_def)
  have "v = 0 \<longleftrightarrow> p = 0" using M by (cases "p = 0") (simp_all add: v_def)
  then show "limbs_val (value_mulmod rn a b) = 0 \<longleftrightarrow> limbs_val a = 0 \<or> limbs_val b = 0" unfolding v(2) by (simp add: p_def)
qed

lemma reference_mul_ok: "mul_ok reference_cfg"
  by (simp add: mul_ok_def reference_cfg_def value_mul_spec)

lemma reference_lo_ok: "lo_ok reference_cfg"
  using reference_mul_ok by (simp add: lo_ok_def) (simp add: reference_cfg_def)

lemma reference_binv_ok: "binv_ok reference_cfg"
proof -
  have eq: "mpn_mulmod_bnm1 reference_cfg = value_mulmod" "mpn_dcpi1_bdiv_q reference_cfg = mpn_sbpi1_bdiv_q"
    "\<And>n. mpn_mulmod_bnm1_next_size reference_cfg n = n" by (simp_all add: reference_cfg_def)
  show ?thesis
  proof (rule binv_okI, unfold eq)
    fix rn and a b :: "limb list" assume "b \<noteq> []" "length b \<le> length a" "length a \<le> rn"
    then have "0 < rn" by (cases b) auto
    then show "length (value_mulmod rn a b) = min rn (length a + length b)
      \<and> limbs_val (value_mulmod rn a b) mod (BB ^ rn - 1) = limbs_val a * limbs_val b mod (BB ^ rn - 1)
      \<and> (limbs_val (value_mulmod rn a b) = 0 \<longleftrightarrow> limbs_val a = 0 \<or> limbs_val b = 0)"
      by (intro conjI value_mulmod_spec)
  next
    fix up dp :: "limb list" and dinv :: limb assume "(unat (dp ! 0) * unat dinv + 1) mod BB = 0" "dp \<noteq> []" "length dp \<le> length up"
    from mpn_sbpi1_bdiv_q_spec [OF this]
    show "length (mpn_sbpi1_bdiv_q up dp dinv) = length up
      \<and> (limbs_val up + limbs_val (mpn_sbpi1_bdiv_q up dp dinv) * limbs_val dp) mod BB ^ length up = 0" by blast
  qed (use reference_lo_ok in simp_all)
qed

lemma reference_large_ok: "large_ok reference_cfg"
proof -
  have "length (snd (mpn_tdiv_qr reference_cfg np dp)) = length dp
      \<and> limbs_val (snd (mpn_tdiv_qr reference_cfg np dp)) = limbs_val np mod limbs_val dp"
    if "dp \<noteq> []" "last dp \<noteq> 0" for np dp
  proof -
    have "limbs_val np mod limbs_val dp < limbs_val dp" using limbs_val_pos [OF that] by simp
    then have "limbs_val np mod limbs_val dp < BB ^ length dp" using limbs_val_lt [of dp] by (rule less_trans)
    then show ?thesis by (simp add: reference_cfg_def limbs_of_spec)
  qed
  then show ?thesis unfolding large_ok_def using reference_binv_ok by blast
qed

lemma reference_low_ok: "low_ok reference_cfg"
proof -
  have "unat (of_nat (limbs_val ap mod unat b) :: limb) = limbs_val ap mod unat b" if "b \<noteq> 0" for ap and b :: limb
  proof -
    have "limbs_val ap mod unat b < unat b" using that by (simp add: unat_gt_0)
    then have "limbs_val ap mod unat b < BB" using unat_lt_BB [of b] by (rule less_trans)
    then show ?thesis by (simp add: unsigned_of_nat take_bit_nat_eq_self BB_def)
  qed
  then show ?thesis using reference_lo_ok by (simp add: low_ok_def mod_1_ok_def) (simp add: reference_cfg_def)
qed

lemma reference_cfg_ok: "cfg_ok reference_cfg"
  using reference_large_ok reference_low_ok
  by (simp add: cfg_ok_def thresholds_ok_def) (simp add: reference_cfg_def MP_SIZE_T_MAX_def)

end
