(* ===== verification/Gmp_Powm_Properties.thy ===== *)
theory Gmp_Powm_Properties
  imports Example_Gmp Example_World
begin

text \<open>
  What the modular exponentiation promises to the key exchange, and what the limb routines under
  it compute: \<open>mpz_powm\<close> returns the power for operands of every size and sign, it meets the
  assumption \<open>powm_ok\<close> under which the handshake is proved, the dedicated square agrees with the
  product, and the Montgomery reductions divide by the radix.
\<close>

section \<open>Products\<close>

lemma limbs_val_inject:
  assumes "length xs = length ys" and "limbs_val xs = limbs_val ys"
  shows "xs = ys"
  using assms
proof (induction xs ys rule: list_induct2)
  case (Cons x xs y ys)
  have e: "unat x + BB * limbs_val xs = unat y + BB * limbs_val ys" using Cons.prems by simp
  have "unat x = (unat x + BB * limbs_val xs) mod BB" by (simp add: unat_lt_BB)
  also have "\<dots> = unat y" unfolding e by (simp add: unat_lt_BB)
  finally have "unat x = unat y" .
  moreover from this have "limbs_val xs = limbs_val ys" using e BB_pos by simp
  ultimately show ?case using Cons.IH by (simp add: word_unat_eq_iff)
qed simp

text \<open>
  The dedicated square, which computes the products off the diagonal once, doubles them and
  adds the squares of the limbs, gives limb for limb what the general product of the operand
  with itself gives.
\<close>

theorem sqr_basecase_is_product:
  assumes "up \<noteq> []"
  shows "mpn_sqr_basecase up = mpn_mul_basecase up up"
  using mpn_sqr_basecase_spec [OF assms] mpn_mul_basecase_spec [OF assms, of up]
  by (intro limbs_val_inject) simp_all

text \<open>Witness: a square of two limbs that carries into its top limb.\<close>

theorem sqr_basecase_is_product_witness:
  "mpn_sqr_basecase [- 1, - 1] = mpn_mul_basecase [- 1, - 1] [- 1, - 1]"
  by (rule sqr_basecase_is_product) simp

section \<open>Montgomery reduction\<close>

text \<open>
  Both reductions by an odd modulus, one limb at a time with the negated inverse of the low
  limb and two limbs at a time with the inverse of the low two, keep the length of the modulus
  and return, for a radix \<open>R\<close> of that many limbs, a number \<open>r\<close> below \<open>R\<close> with \<open>r * R\<close> congruent
  to the argument \<open>t\<close> modulo \<open>m\<close> and \<open>r * R \<le> t + m * (R - 1)\<close>.
\<close>

theorem montgomery_reduction:
  assumes "odd (limbs_val mp)" and "2 \<le> length mp" and "length up = 2 * length mp"
    and "(limbs_val mp * (unat (mip ! 0) + BB * unat (mip ! 1)) + 1) mod (BB * BB) = 0"
  shows "length (MPN_REDC_1 up mp (- binvert_limb (hd mp))) = length mp
    \<and> redc_result (limbs_val mp) (BB ^ length mp) (limbs_val up)
        (limbs_val (MPN_REDC_1 up mp (- binvert_limb (hd mp))))
    \<and> length (MPN_REDC_2 up mp mip) = length mp
    \<and> redc_result (limbs_val mp) (BB ^ length mp) (limbs_val up) (limbs_val (MPN_REDC_2 up mp mip))"
proof -
  have "mp \<noteq> []" using assms(2) by auto
  then show ?thesis
    using MPN_REDC_1_spec [OF binvert_limb_redc [OF assms(1)] _ assms(3)]
      MPN_REDC_2_spec [OF assms(4,2,3)] by simp
qed

text \<open>Witness: the largest modulus of two limbs, whose negated inverse is 1.\<close>

theorem montgomery_reduction_witness:
  "length (MPN_REDC_1 [3, 0, 0, 5] [- 1, - 1] (- binvert_limb (hd [- 1, - 1]))) = length [- 1 :: limb, - 1]
    \<and> redc_result (limbs_val [- 1, - 1]) (BB ^ length [- 1 :: limb, - 1]) (limbs_val [3, 0, 0, 5])
        (limbs_val (MPN_REDC_1 [3, 0, 0, 5] [- 1, - 1] (- binvert_limb (hd [- 1, - 1]))))
    \<and> length (MPN_REDC_2 [3, 0, 0, 5] [- 1, - 1] [1, 0]) = length [- 1 :: limb, - 1]
    \<and> redc_result (limbs_val [- 1, - 1]) (BB ^ length [- 1 :: limb, - 1]) (limbs_val [3, 0, 0, 5])
        (limbs_val (MPN_REDC_2 [3, 0, 0, 5] [- 1, - 1] [1, 0]))"
proof (rule montgomery_reduction)
  have u: "unat (- 1 :: limb) = 2 ^ 64 - 1" by (simp add: unsigned_minus_1_eq_mask mask_eq_exp_minus_1)
  show "odd (limbs_val [- 1, - 1])" by (simp add: u BB_def)
  show "(limbs_val [- 1, - 1] * (unat ([1, 0 :: limb] ! 0) + BB * unat ([1, 0 :: limb] ! 1)) + 1) mod (BB * BB) = 0"
    by (simp add: u BB_def)
qed simp_all

section \<open>The modular power\<close>

text \<open>
  C5.  \<open>mpz_powm\<close> returns, whatever the size and parity of the modulus and the sign of the base, a
  well-formed non-negative number that is the power modulo the absolute value of the modulus.  No
  loop runs forever, although the exponent is read in windows whose position depends on its bits.
\<close>

theorem modular_power:
  assumes "cfg_ok cfg" and "mpz_wf b" and "mpz_wf e" and "mpz_wf m"
    and "SIZ m \<noteq> 0" and "ABSIZ m < 2 ^ 31" and "0 \<le> SIZ e"
  shows "\<exists>z. mpz_powm cfg r b e m = Some (Inr z) \<and> mpz_wf z \<and> 0 \<le> SIZ z
    \<and> int (mpz_abs z) = mpz_int b ^ mpz_abs e mod int (mpz_abs m)"
  by (rule mpz_powm_spec [OF assms])

text \<open>C5, witness: \<open>3 ^ 5\<close> modulo the even number 14.\<close>

theorem modular_power_witness:
  "\<exists>z. mpz_powm reference_cfg mpz_init (mpz_of_nat 3) (mpz_of_nat 5) (mpz_of_nat 14) = Some (Inr z) \<and> mpz_wf z
    \<and> 0 \<le> SIZ z \<and> int (mpz_abs z) = mpz_int (mpz_of_nat 3) ^ mpz_abs (mpz_of_nat 5) mod int (mpz_abs (mpz_of_nat 14))"
proof (rule modular_power [OF reference_cfg_ok])
  show "SIZ (mpz_of_nat 14) \<noteq> 0" by (metis mpz_of_nat_spec(4) less_irrefl zero_less_numeral)
  show "ABSIZ (mpz_of_nat 14) < 2 ^ 31" by (rule mpz_wf_size) simp_all
qed simp_all

text \<open>
  An environment whose modular power is GMP's: what \<open>mpz_powm\<close> returns, or how it fails, is the
  result of the call.
\<close>

definition runs_gmp :: "mpn_cfg \<Rightarrow> ('c, 'm, 'k) ext \<Rightarrow> bool" where
  "runs_gmp cfg E \<longleftrightarrow> (\<forall>b e m x. mpz_powm cfg mpz_init b e m = Some x \<longrightarrow> gmp_powm E b e m = x)"

text \<open>
  C6.  The routine of GMP meets the assumption of the key exchange: an environment in which the
  modular power is computed by \<open>mpz_powm\<close> satisfies \<open>powm_ok\<close>.
\<close>

theorem gmp_powm_refines:
  assumes "cfg_ok cfg" and "runs_gmp cfg E"
  shows "powm_ok E"
  unfolding powm_ok_def
proof (intro allI impI)
  fix b e m :: mpz
  assume wf: "mpz_wf b" "mpz_wf e" "mpz_wf m" and s: "0 \<le> SIZ b" "0 \<le> SIZ e" "0 < SIZ m" and n: "ABSIZ m < 2 ^ 31"
  obtain z where z: "mpz_powm cfg mpz_init b e m = Some (Inr z)" "mpz_wf z" "0 \<le> SIZ z"
    "int (mpz_abs z) = mpz_int b ^ mpz_abs e mod int (mpz_abs m)"
    using mpz_powm_spec [OF assms(1) wf _ n s(2)] s(3) by fastforce
  have "int (mpz_abs z) = int (mpz_abs b ^ mpz_abs e mod mpz_abs m)" using z(4) s(1) by (simp add: mpz_int_def zmod_int)
  then have "mpz_abs z = mpz_abs b ^ mpz_abs e mod mpz_abs m" by (simp only: of_nat_eq_iff)
  then show "\<exists>r. gmp_powm E b e m = Inr r \<and> mpz_wf r \<and> 0 \<le> SIZ r
      \<and> mpz_abs r = mpz_abs b ^ mpz_abs e mod mpz_abs m"
    using assms(2) z(1-3) unfolding runs_gmp_def by blast
qed

definition gmp_ext :: "(gcm_state, bytes md_state, bytes) ext" where
  "gmp_ext = toy_ext\<lparr>gmp_powm := \<lambda>b e m.
     case mpz_powm reference_cfg mpz_init b e m of Some x \<Rightarrow> x | None \<Rightarrow> Inl ExitFailure\<rparr>"

lemma gmp_ext_runs: "runs_gmp reference_cfg gmp_ext"
  by (simp add: runs_gmp_def gmp_ext_def)

text \<open>C6, witness: the example environment with the modular power of the model.\<close>

theorem gmp_powm_refines_witness: "powm_ok gmp_ext"
  by (rule gmp_powm_refines [OF reference_cfg_ok gmp_ext_runs])

lemma mpz_import_powm_wf:
  assumes "cfg_ok cfg" and "mpz_wf b" and "mpz_wf e" and "mpz_wf m" and "ABSIZ m < 2 ^ 31"
    and "\<forall>b'. mpz_invert cfg b m = Some b' \<longrightarrow> mpz_wf b'" and "count \<le> length data"
  shows "(case mpz_import r count 0 1 1 1 0 data of Inr z \<Rightarrow> mpz_wf z | Inl _ \<Rightarrow> False)
    \<and> (case mpz_powm cfg r b e m of Some (Inr z) \<Rightarrow> mpz_wf z | Some (Inl _) \<Rightarrow> True | None \<Rightarrow> False)"
proof -
  have imp: "case mpz_import r count 0 1 1 1 0 data of Inr z \<Rightarrow> mpz_wf z | Inl _ \<Rightarrow> False"
    using mpz_import_1 [OF assms(7), of r 0] by auto
  consider (zero) "ABSIZ m = 0" | (pos) "ABSIZ m \<noteq> 0" "0 \<le> SIZ e"
    | (inverse) b' where "ABSIZ m \<noteq> 0" "SIZ e < 0" "mpz_invert cfg b m = Some b'"
    | (none) "ABSIZ m \<noteq> 0" "SIZ e < 0" "mpz_invert cfg b m = None"
    by fastforce
  then have pow: "case mpz_powm cfg r b e m of Some (Inr z) \<Rightarrow> mpz_wf z | Some (Inl _) \<Rightarrow> True | None \<Rightarrow> False"
  proof cases
    case pos
    then show ?thesis
      using mpz_powm_spec [OF assms(1-4) _ assms(5), of r] by (auto simp: ABSIZ_def)
  next
    case inverse
    have e: "mpz_wf (e\<lparr>SIZ := - SIZ e\<rparr>)" "0 \<le> SIZ (e\<lparr>SIZ := - SIZ e\<rparr>)"
      using assms(3) inverse(2) by (simp_all add: mpz_wf_def)
    have m: "SIZ m \<noteq> 0" and b': "mpz_wf b'" using inverse assms(6) by (auto simp: ABSIZ_def)
    show ?thesis
      using mpz_powm_inverse [OF inverse, of r] mpz_powm_spec [OF assms(1) b' e(1) assms(4) m assms(5) e(2), of r] by auto
  qed (simp_all add: mpz_powm_zero_modulus mpz_powm_no_inverse)
  from imp pow show ?thesis ..
qed

end
