(* ===== verification/Gmp_Limb_Properties.thy ===== *)
theory Gmp_Limb_Properties
  imports Example_Gmp
begin

text \<open>
  What the limb routines compute that choose their algorithm by the size of the operands: the long
  products and squares and their low halves, the inverse modulo a power of the radix, and the
  remainder by one limb.
\<close>

section \<open>Products, squares and their low halves\<close>

text \<open>
  C40.  The ladders of comparisons of \<open>mpn_mul\<close>, \<open>mpn_mul_n\<close>, \<open>mpn_sqr\<close>, \<open>mpn_mullo_n\<close> and
  \<open>mpn_sqrlo\<close> never call a Toom-Cook routine for sizes that its own assertions exclude, and so
  give for all thresholds in the range of \<open>gmp-impl.h\<close> the full product and square, and the
  product and square modulo the radix to the size of the operand.
\<close>

theorem long_products:
  assumes "lo_ok cfg" and "vp \<noteq> []" and "length vp \<le> length up"
    and "xp \<noteq> []" and "length yp = length xp"
  shows "length (mpn_mul cfg up vp) = length up + length vp
    \<and> limbs_val (mpn_mul cfg up vp) = limbs_val up * limbs_val vp
    \<and> limbs_val (mpn_mul_n cfg xp yp) = limbs_val xp * limbs_val yp
    \<and> limbs_val (mpn_sqr cfg xp) = limbs_val xp * limbs_val xp
    \<and> length (mpn_mullo_n cfg xp yp) = length xp
    \<and> limbs_val (mpn_mullo_n cfg xp yp) = limbs_val xp * limbs_val yp mod BB ^ length xp
    \<and> length (mpn_sqrlo cfg xp) = length xp
    \<and> limbs_val (mpn_sqrlo cfg xp) = limbs_val xp * limbs_val xp mod BB ^ length xp"
proof -
  have m: "mul_ok cfg" using assms(1) by (simp add: lo_ok_def)
  show ?thesis
    using mpn_mul_spec [OF m assms(2,3)] mpn_mul_n_spec [OF m assms(5) [symmetric] assms(4)] mpn_sqr_spec [OF m assms(4)]
      mpn_mullo_n_spec [OF assms(1,4,5)] mpn_sqrlo_spec [OF assms(1,4)] by simp
qed

text \<open>C40, witness: operands of 100 and 40 limbs, and of 90 limbs.\<close>

theorem long_products_witness:
  "length (mpn_mul reference_cfg (replicate 100 7) (replicate 40 5)) = length (replicate 100 (7 :: limb)) + length (replicate 40 (5 :: limb))
    \<and> limbs_val (mpn_mul reference_cfg (replicate 100 7) (replicate 40 5)) = limbs_val (replicate 100 7) * limbs_val (replicate 40 5)
    \<and> limbs_val (mpn_mul_n reference_cfg (replicate 90 3) (replicate 90 2)) = limbs_val (replicate 90 3) * limbs_val (replicate 90 2)
    \<and> limbs_val (mpn_sqr reference_cfg (replicate 90 3)) = limbs_val (replicate 90 3) * limbs_val (replicate 90 3)
    \<and> length (mpn_mullo_n reference_cfg (replicate 90 3) (replicate 90 2)) = length (replicate 90 (3 :: limb))
    \<and> limbs_val (mpn_mullo_n reference_cfg (replicate 90 3) (replicate 90 2))
        = limbs_val (replicate 90 3) * limbs_val (replicate 90 2) mod BB ^ length (replicate 90 (3 :: limb))
    \<and> length (mpn_sqrlo reference_cfg (replicate 90 3)) = length (replicate 90 (3 :: limb))
    \<and> limbs_val (mpn_sqrlo reference_cfg (replicate 90 3))
        = limbs_val (replicate 90 3) * limbs_val (replicate 90 3) mod BB ^ length (replicate 90 (3 :: limb))"
  by (rule long_products [OF reference_lo_ok]) simp_all

section \<open>Inverse modulo a power of the radix\<close>

text \<open>
  \<open>mpn_binvert\<close> inverts an odd number modulo any power of the radix: the exact division gives
  the inverse of the low limbs and every Newton step, whose sizes are halved upwards, up to doubles
  the number of correct limbs.
\<close>

theorem inverse_modulo_power:
  assumes "binv_ok cfg" and "0 < n" and "n \<le> length up" and "odd (limbs_val up)"
  shows "length (mpn_binvert cfg up n) = n
    \<and> limbs_val up * limbs_val (mpn_binvert cfg up n) mod BB ^ n = 1"
  using mpn_binvert_spec [OF assms] by simp

text \<open>Witness: the inverse of a number of 400 limbs, which takes Newton steps.\<close>

theorem inverse_modulo_power_witness:
  "length (mpn_binvert reference_cfg (3 # replicate 399 5) 400) = 400
    \<and> limbs_val (3 # replicate 399 5) * limbs_val (mpn_binvert reference_cfg (3 # replicate 399 5) 400) mod BB ^ 400 = 1"
proof (rule inverse_modulo_power [OF reference_binv_ok])
  show "odd (limbs_val (3 # replicate 399 5))" by (simp add: BB_def)
qed simp_all

section \<open>Remainder by one limb\<close>

text \<open>
  \<open>mpn_mod_1\<close> returns the remainder of any number by any limb other than zero, on all its
  branches: the top limb below the divisor or not, the divisor normalised or shifted, division by
  the 128-bit instruction or by the precomputed inverse.
\<close>

theorem remainder_by_limb:
  assumes "mod_1_ok cfg" and "b \<noteq> 0"
  shows "unat (mpn_mod_1 cfg ap b) = limbs_val ap mod unat b"
  by (rule mpn_mod_1_spec [OF assms])

text \<open>Witness: a number of three limbs by 1000.\<close>

theorem remainder_by_limb_witness:
  "unat (mpn_mod_1 reference_cfg [7, 0, 9] 1000) = limbs_val [7, 0, 9] mod unat (1000 :: limb)"
proof (rule remainder_by_limb)
  show "mod_1_ok reference_cfg" using reference_low_ok by (simp add: low_ok_def)
qed simp

end
