(* ===== verification/Gmp_Ui.thy ===== *)
theory Gmp_Ui
  imports Gmp_Mpz_Powm Gmp_Random
begin

text \<open>
  The small \<open>mpz\<close> operations that the primality test and the search for a prime call: comparison,
  addition and subtraction of a one-limb number (\<open>mpz/cmp_ui.c\<close>, \<open>mpz/aors_ui.h\<close>), the distance to
  the next multiple (\<open>mpz/cdiv_ui.c\<close>), the shift (\<open>mpz/tdiv_q_2exp.c\<close>), the scan for a one bit
  (\<open>mpn/generic/scan1.c\<close>) and the random number below a bound (\<open>mpz/urandomm.c\<close>).
\<close>

section \<open>Definitions\<close>

definition mpz_get_ui :: "mpz \<Rightarrow> limb" where
  "mpz_get_ui z = (if SIZ z \<noteq> 0 then PTR z ! 0 else 0)"

definition mpz_cmp_ui :: "mpz \<Rightarrow> limb \<Rightarrow> int" where
  "mpz_cmp_ui u v_digit =
     (let un = SIZ u
      in if un = 0 then - of_bool (v_digit \<noteq> 0)
         else if un = 1
         then let ul = PTR u ! 0 in if ul > v_digit then 1 else if ul < v_digit then - 1 else 0
         else if un > 0 then 1 else - 1)"

text \<open>\<open>__GMPN_AORS_1\<close> with its two operations: the first limb, then the carry as far as it runs.\<close>

definition mpn_add_1 :: "limb list \<Rightarrow> limb \<Rightarrow> limb list \<times> limb" where
  "mpn_add_1 src v =
     (let x = hd src; r = x + v
      in if r < v then let (ws, c) = add_carry_loop (tl src) in (r # ws, c) else (r # tl src, 0))"

definition mpn_sub_1 :: "limb list \<Rightarrow> limb \<Rightarrow> limb list \<times> limb" where
  "mpn_sub_1 src v =
     (let x = hd src; r = x - v
      in if x < v then let (ws, c) = sub_borrow_loop (tl src) in (r # ws, c) else (r # tl src, 0))"

text \<open>The limbs written at \<open>PTR\<close> and the signed size that is stored last.\<close>

definition set_signed :: "mpz \<Rightarrow> limb list \<Rightarrow> int \<Rightarrow> mpz" where
  "set_signed w wp wsize = w\<lparr>SIZ := wsize, PTR := take (nat \<bar>wsize\<bar>) wp\<rparr>"

text \<open>
  The body that \<open>mpz_add_ui\<close> and \<open>mpz_sub_ui\<close> share: \<open>VARIATION_NEG\<close> is the sign change in the
  subtraction and \<open>VARIATION_UNNEG\<close> the one in the addition.
\<close>

definition mpz_aors_ui :: "bool \<Rightarrow> mpz \<Rightarrow> mpz \<Rightarrow> limb \<Rightarrow> mpz" where
  "mpz_aors_ui sub w u vval =
     (let usize = SIZ u; abs_usize = nat \<bar>usize\<bar>;
        neg = (\<lambda>n. if sub then - n else n); unneg = (\<lambda>n. if sub then n else - n)
      in if usize = 0 then set_signed (MPZ_NEWALLOC w 1) [vval] (neg (of_bool (vval \<noteq> 0)))
         else if (if sub then usize < 0 else 0 \<le> usize)
         then let (wp, cy) = mpn_add_1 (PTR u) vval
              in set_signed (MPZ_NEWALLOC w (abs_usize + 1)) (wp @ [cy]) (neg (int (abs_usize + unat cy)))
         else let w = MPZ_NEWALLOC w abs_usize
              in if abs_usize = 1 \<and> PTR u ! 0 < vval then set_signed w [vval - PTR u ! 0] (neg 1)
                 else let wp = fst (mpn_sub_1 (PTR u) vval)
                      in set_signed w wp (unneg (int (abs_usize - of_bool (wp ! (abs_usize - 1) = 0)))))"

definition mpz_add_ui :: "mpz \<Rightarrow> mpz \<Rightarrow> limb \<Rightarrow> mpz" where
  "mpz_add_ui = mpz_aors_ui False"

definition mpz_sub_ui :: "mpz \<Rightarrow> mpz \<Rightarrow> limb \<Rightarrow> mpz" where
  "mpz_sub_ui = mpz_aors_ui True"

definition mpz_cdiv_ui :: "mpn_cfg \<Rightarrow> mpz \<Rightarrow> limb \<Rightarrow> limb result" where
  "mpz_cdiv_ui cfg dividend divisor =
     (let ns = SIZ dividend
      in if divisor = 0 then Inl DivideByZero
         else if ns = 0 then Inr 0
         else let rl = mpn_mod_1 cfg (PTR dividend) divisor
              in Inr (if rl = 0 then rl else if 0 \<le> ns then divisor - rl else rl))"

definition mpz_tdiv_q_2exp :: "mpz \<Rightarrow> mpz \<Rightarrow> nat \<Rightarrow> mpz" where
  "mpz_tdiv_q_2exp r u cnt =
     (let un = SIZ u; limb_cnt = cnt div 64; rn = nat \<bar>un\<bar> - limb_cnt
      in if rn = 0 then set_signed r [] 0
         else let up = drop limb_cnt (PTR u); c = cnt mod 64;
                (rp, rn') = (if c \<noteq> 0 then let rp = fst (mpn_rshift up c) in (rp, rn - of_bool (rp ! (rn - 1) = 0))
                             else (up, rn))
              in set_signed (MPZ_NEWALLOC r rn) rp (if 0 \<le> un then int rn' else - int rn'))"

text \<open>The scan reads on until it meets a limb that is not zero; \<open>None\<close> stands for a read past the number.\<close>

fun scan1_loop :: "nat \<Rightarrow> limb \<Rightarrow> limb list \<Rightarrow> nat option" where
  "scan1_loop k alimb p =
     (if alimb = 0 then (case p of [] \<Rightarrow> None | x # p \<Rightarrow> scan1_loop (k + 1) x p)
      else Some (k * 64 + count_trailing_zeros alimb))"

declare scan1_loop.simps [simp del]

definition mpn_scan1 :: "limb list \<Rightarrow> nat \<Rightarrow> nat option" where
  "mpn_scan1 up starting_bit =
     (let starting_word = starting_bit div 64
      in case drop starting_word up of
           [] \<Rightarrow> None
         | x # p \<Rightarrow> scan1_loop starting_word (x AND push_bit (starting_bit mod 64) (- 1)) p)"

definition POW2_P :: "limb \<Rightarrow> bool" where
  "POW2_P n \<longleftrightarrow> n AND (n - 1) = 0"

definition MAX_URANDOMM_ITER :: nat where
  "MAX_URANDOMM_ITER = 80"

text \<open>
  A draw of \<open>nbits\<close> bits fills all limbs of \<open>rp\<close> but the last when the bound is a power of the
  radix; that one has been cleared.
\<close>

function urandomm_loop :: "limb list \<Rightarrow> nat \<Rightarrow> nat \<Rightarrow> rng \<Rightarrow> limb list \<times> nat \<times> rng" where
  "urandomm_loop np nbits count rstate =
     (let (ls, rstate) = randget_mt rstate nbits; rp = ls @ replicate (length np - length ls) 0
      in if 0 \<le> mpn_cmp rp np
         then if count - 1 \<noteq> 0 then urandomm_loop np nbits (count - 1) rstate else (rp, 0, rstate)
         else (rp, count, rstate))"
  by pat_completeness auto
termination by (relation "measure (\<lambda>(np, nbits, count, rstate). count)") auto

declare urandomm_loop.simps [simp del]

definition mpz_urandomm :: "mpz \<Rightarrow> rng \<Rightarrow> mpz \<Rightarrow> (mpz \<times> rng) result" where
  "mpz_urandomm rop rstate n =
     (let sz = ABSIZ n; np = PTR n
      in if sz = 0 then Inl DivideByZero
         else let nh = np ! (sz - 1);
                pow2 = POW2_P nh \<and> (sz = 1 \<or> (\<forall>x\<in>set (take (sz - 1) np). x = 0));
                nbits = sz * 64 - count_leading_zeros nh - of_bool pow2
              in if nbits = 0 then Inr (set_limbs rop [] 0, rstate)
                 else let (rp, count, rstate) = urandomm_loop np nbits MAX_URANDOMM_ITER rstate;
                        rp = (if count = 0 then fst (mpn_sub_n rp np) else rp)
                      in Inr (set_limbs (MPZ_NEWALLOC rop sz) rp (MPN_NORMALIZE rp sz), rstate))"

section \<open>Comparison and conversion\<close>

lemma limbs_val_single: "length xs = 1 \<Longrightarrow> limbs_val xs = unat (xs ! 0)"
  by (auto simp: length_Suc_conv)

lemma mpz_get_ui_spec:
  assumes "mpz_wf z"
  shows "unat (mpz_get_ui z) = mpz_abs z mod BB"
proof (cases "SIZ z = 0")
  case True
  then show ?thesis using mpz_wf_limbs(5) [OF assms] by (simp add: mpz_get_ui_def)
next
  case False
  then have "PTR z \<noteq> []" using mpz_wf_limbs(3) [OF assms] by simp
  then show ?thesis using False limbs_val_hd [of "PTR z"] by (simp add: mpz_get_ui_def mpz_abs_def hd_conv_nth)
qed

lemma mpz_abs_two_limbs:
  assumes "mpz_wf z" and "2 \<le> ABSIZ z"
  shows "BB \<le> mpz_abs z"
proof -
  note w = mpz_wf_limbs [OF assms(1)]
  have "PTR z \<noteq> []" using w assms(2) by auto
  then have "BB ^ (ABSIZ z - 1) \<le> mpz_abs z" using limbs_val_ge [of "PTR z"] w(1,2) by (simp add: mpz_abs_def)
  moreover have "BB ^ 1 \<le> BB ^ (ABSIZ z - 1)" using assms(2) BB_gt1 by (intro power_increasing) simp_all
  ultimately show ?thesis by simp
qed

lemma mpz_cmp_ui_spec:
  assumes "mpz_wf u"
  shows "mpz_cmp_ui u v < 0 \<longleftrightarrow> mpz_int u < int (unat v)" and "mpz_cmp_ui u v = 0 \<longleftrightarrow> mpz_int u = int (unat v)"
proof -
  note w = mpz_wf_limbs [OF assms]
  have v: "unat v < BB" by (rule unat_lt_BB)
  consider (zero) "SIZ u = 0" | (one) "SIZ u = 1" | (many) "2 \<le> SIZ u" | (neg) "SIZ u < 0" by linarith
  then have "(mpz_cmp_ui u v < 0 \<longleftrightarrow> mpz_int u < int (unat v)) \<and> (mpz_cmp_ui u v = 0 \<longleftrightarrow> mpz_int u = int (unat v))"
  proof cases
    case zero
    then have "mpz_int u = 0" using w(5) by (simp add: mpz_int_def)
    moreover have "v \<noteq> 0 \<Longrightarrow> 0 < int (unat v)" by (metis of_nat_0_less_iff unat_gt_0)
    ultimately show ?thesis using zero by (cases "v = 0") (auto simp: mpz_cmp_ui_def)
  next
    case one
    then have "mpz_abs u = unat (PTR u ! 0)" using w(1) by (simp add: mpz_abs_def ABSIZ_def limbs_val_single)
    then have i: "mpz_int u = int (unat (PTR u ! 0))" using one by (simp add: mpz_int_def)
    show ?thesis unfolding i of_nat_less_iff of_nat_eq_iff
      using one by (auto simp: mpz_cmp_ui_def Let_def word_less_nat_alt word_unat_eq_iff)
  next
    case many
    then have "BB \<le> mpz_abs u" by (intro mpz_abs_two_limbs [OF assms]) (simp add: ABSIZ_def)
    then have "unat v < mpz_abs u" using v by simp
    then have "int (unat v) < int (mpz_abs u)" by (simp only: of_nat_less_iff)
    moreover have "mpz_int u = int (mpz_abs u)" using many by (simp add: mpz_int_def)
    ultimately have "int (unat v) < mpz_int u" by simp
    then show ?thesis using many by (auto simp: mpz_cmp_ui_def)
  next
    case neg
    then have "mpz_int u < 0" using w(5) by (simp add: mpz_int_def)
    moreover have "0 \<le> int (unat v)" by (rule of_nat_0_le_iff)
    ultimately have "mpz_int u < int (unat v)" by linarith
    then show ?thesis using neg by (auto simp: mpz_cmp_ui_def)
  qed
  then show "mpz_cmp_ui u v < 0 \<longleftrightarrow> mpz_int u < int (unat v)" and "mpz_cmp_ui u v = 0 \<longleftrightarrow> mpz_int u = int (unat v)"
    by simp_all
qed

section \<open>Addition and subtraction\<close>

lemma mpn_add_1_spec:
  assumes "src \<noteq> []" and "mpn_add_1 src v = (wp, cy)"
  shows "length wp = length src" and "cy = 0 \<or> cy = 1"
    and "limbs_val wp + BB ^ length src * unat cy = limbs_val src + unat v"
proof -
  obtain x xs where src: "src = x # xs" using assms(1) by (cases src) auto
  have c: "unat (x + v) + BB * of_bool (x + v < v) = unat x + unat v"
    using unat_add_carry [of v x] by (simp add: add.commute)
  obtain ws d where l: "add_carry_loop xs = (ws, d)" by fastforce
  have "length wp = length src \<and> (cy = 0 \<or> cy = 1)
    \<and> limbs_val wp + BB ^ length src * unat cy = limbs_val src + unat v"
  proof (cases "x + v < v")
    case True
    then have "wp = (x + v) # ws" "cy = d" using assms(2) l by (simp_all add: mpn_add_1_def src)
    moreover have "unat (x + v) + BB = unat x + unat v" using c True by simp
    moreover have "BB * (limbs_val ws + BB ^ length xs * unat d) = BB * (limbs_val xs + 1)"
      using add_carry_loop_spec [OF l] by simp
    then have "BB * limbs_val ws + BB ^ length src * unat d = BB * limbs_val xs + BB"
      by (simp add: src distrib_left mult.assoc)
    ultimately have "limbs_val wp + BB ^ length src * unat cy = limbs_val src + unat v" by (simp add: src)
    then show ?thesis using add_carry_loop_spec [OF l] \<open>wp = (x + v) # ws\<close> \<open>cy = d\<close> by (simp add: src)
  next
    case False
    then have "wp = (x + v) # xs" "cy = 0" using assms(2) by (simp_all add: mpn_add_1_def src)
    then show ?thesis using c False by (simp add: src)
  qed
  then show "length wp = length src" and "cy = 0 \<or> cy = 1"
    and "limbs_val wp + BB ^ length src * unat cy = limbs_val src + unat v" by simp_all
qed

lemma mpn_sub_1_spec:
  assumes "src \<noteq> []" and "unat v \<le> limbs_val src"
  shows "length (fst (mpn_sub_1 src v)) = length src"
    and "limbs_val (fst (mpn_sub_1 src v)) = limbs_val src - unat v"
proof -
  obtain x xs where src: "src = x # xs" using assms(1) by (cases src) auto
  obtain ws d where l: "sub_borrow_loop xs = (ws, d)" by fastforce
  note s = sub_borrow_loop_spec [OF l]
  have "length (fst (mpn_sub_1 src v)) = length src \<and> limbs_val (fst (mpn_sub_1 src v)) + unat v = limbs_val src"
  proof (cases "x < v")
    case True
    have b: "unat (x - v) + unat v = unat x + BB"
      using unat_sub_if_size [of x v] unat_lt_BB [of v] True
      by (simp add: word_less_nat_alt word_le_nat_alt word_size BB_def)
    have "limbs_val xs \<noteq> 0" using assms(2) True by (auto simp: src word_less_nat_alt intro!: gr0I)
    then have "limbs_val ws + 1 = limbs_val xs"
      using s limbs_val_lt [of ws] by (cases "d = 0") auto
    then have "BB * limbs_val ws + BB = BB * limbs_val xs" by (metis distrib_left mult.right_neutral)
    then show ?thesis using b s True l by (simp add: mpn_sub_1_def src)
  next
    case False
    then show ?thesis using unat_sub [of v x] by (simp add: mpn_sub_1_def src word_le_nat_alt word_less_nat_alt not_less)
  qed
  then show "length (fst (mpn_sub_1 src v)) = length src"
    and "limbs_val (fst (mpn_sub_1 src v)) = limbs_val src - unat v" by linarith+
qed

text \<open>A number that lost less than a limb: the top limb is dropped when it has become zero.\<close>

lemma drop_zero_top:
  assumes "length xs = n" and "0 < n" and "2 \<le> n \<Longrightarrow> BB ^ (n - 2) \<le> limbs_val xs"
  defines "k \<equiv> n - of_bool (xs ! (n - 1) = (0 :: limb))"
  shows "limbs_val (take k xs) = limbs_val xs" and "take k xs \<noteq> [] \<Longrightarrow> last (take k xs) \<noteq> 0" and "k \<le> n"
proof -
  obtain ys y where xs: "xs = ys @ [y]" using assms(1,2) by (cases xs rule: rev_cases) auto
  have n: "n = Suc (length ys)" using assms(1) xs by simp
  then have top: "xs ! (n - 1) = y" by (simp add: xs nth_append)
  show "k \<le> n" by (simp add: k_def)
  have "limbs_val (take k xs) = limbs_val xs \<and> (take k xs \<noteq> [] \<longrightarrow> last (take k xs) \<noteq> 0)"
  proof (cases "y = 0")
    case True
    then have t: "take k xs = ys" using n top by (simp add: k_def xs)
    have v: "limbs_val xs = limbs_val ys" using True by (simp add: xs limbs_val_snoc)
    have "last ys \<noteq> 0" if "ys \<noteq> []"
    proof -
      have "2 \<le> n" using that n by (cases ys) auto
      then show ?thesis using limbs_val_ge [OF that] assms(3) v n by simp
    qed
    then show ?thesis using t v by simp
  next
    case False
    then show ?thesis using n top by (simp add: k_def xs)
  qed
  then show "limbs_val (take k xs) = limbs_val xs" and "take k xs \<noteq> [] \<Longrightarrow> last (take k xs) \<noteq> 0" by simp_all
qed

lemma set_signed_spec:
  assumes "nat \<bar>wsize\<bar> \<le> length wp" and "take (nat \<bar>wsize\<bar>) wp \<noteq> [] \<Longrightarrow> last (take (nat \<bar>wsize\<bar>) wp) \<noteq> 0"
    and "limbs_val (take (nat \<bar>wsize\<bar>) wp) = v"
  shows "mpz_wf (set_signed w wp wsize)" and "mpz_int (set_signed w wp wsize) = (if wsize < 0 then - int v else int v)"
  using assms by (auto simp: set_signed_def mpz_wf_def mpz_int_def mpz_abs_def)

lemma mpz_aors_ui_spec:
  assumes "mpz_wf u"
  shows "mpz_wf (mpz_aors_ui sub w u v)
    \<and> mpz_int (mpz_aors_ui sub w u v) = (if sub then mpz_int u - int (unat v) else mpz_int u + int (unat v))"
proof -
  note w = mpz_wf_limbs [OF assms]
  define n where "n = nat \<bar>SIZ u\<bar>"
  have n: "length (PTR u) = n" using w(1) by (simp add: n_def ABSIZ_def)
  consider (zero) "SIZ u = 0" | (same) "SIZ u \<noteq> 0" "if sub then SIZ u < 0 else 0 \<le> SIZ u"
    | (small) "SIZ u \<noteq> 0" "\<not> (if sub then SIZ u < 0 else 0 \<le> SIZ u)" "n = 1 \<and> PTR u ! 0 < v"
    | (large) "SIZ u \<noteq> 0" "\<not> (if sub then SIZ u < 0 else 0 \<le> SIZ u)" "\<not> (n = 1 \<and> PTR u ! 0 < v)" by blast
  then show ?thesis
  proof cases
    case zero
    then have u: "mpz_int u = 0" using w(5) by (simp add: mpz_int_def)
    define k :: int where "k = (if sub then - of_bool (v \<noteq> 0) else of_bool (v \<noteq> 0))"
    have "mpz_aors_ui sub w u v = set_signed (MPZ_NEWALLOC w 1) [v] k" using zero by (simp add: mpz_aors_ui_def k_def)
    moreover have "nat \<bar>k\<bar> \<le> 1" "limbs_val (take (nat \<bar>k\<bar>) [v]) = unat v" "take (nat \<bar>k\<bar>) [v] \<noteq> [] \<Longrightarrow> last (take (nat \<bar>k\<bar>) [v]) \<noteq> 0"
      by (auto simp: k_def split: if_splits)
    moreover have "k < 0 \<longleftrightarrow> sub \<and> v \<noteq> 0" by (simp add: k_def)
    moreover have "mpz_wf (set_signed (MPZ_NEWALLOC w 1) [v] k)
      \<and> mpz_int (set_signed (MPZ_NEWALLOC w 1) [v] k) = (if k < 0 then - int (unat v) else int (unat v))"
      using calculation(2-4) by (intro conjI set_signed_spec) auto
    ultimately show ?thesis using u by (cases "v = 0") simp_all
  next
    case same
    obtain wp cy where a: "mpn_add_1 (PTR u) v = (wp, cy)" by fastforce
    have ne: "PTR u \<noteq> []" using w(3) same(1) by simp
    note s = mpn_add_1_spec [OF ne a]
    define k where "k = (if sub then - int (n + unat cy) else int (n + unat cy))"
    have r: "mpz_aors_ui sub w u v = set_signed (MPZ_NEWALLOC w (n + 1)) (wp @ [cy]) k"
      using same a by (simp add: mpz_aors_ui_def Let_def k_def n_def)
    have n0: "0 < n" using ne n by auto
    have "limbs_val (PTR u) \<ge> BB ^ (n - 1)" using limbs_val_ge [OF ne] w(2) [OF ne] n by simp
    then have top: "cy = 0 \<Longrightarrow> last wp \<noteq> 0" using limbs_val_ge [of wp] s n n0 by auto
    have "nat \<bar>if sub then - int m else int m\<bar> = m" for m by simp
    then have k: "nat \<bar>k\<bar> = n + unat cy" unfolding k_def .
    have "limbs_val (take (nat \<bar>k\<bar>) (wp @ [cy])) = limbs_val (PTR u) + unat v"
      unfolding k using s n by (auto simp: limbs_val_app)
    moreover have "nat \<bar>k\<bar> \<le> length (wp @ [cy])" unfolding k using s n by auto
    moreover have "last (take (nat \<bar>k\<bar>) (wp @ [cy])) \<noteq> 0" unfolding k using s n top by auto
    moreover have "(if sub then - int m else int m) < 0 \<longleftrightarrow> sub" if "0 < m" for m using that by simp
    then have "k < 0 \<longleftrightarrow> sub" using n0 unfolding k_def by (rule meta_mp) simp
    ultimately have "mpz_wf (mpz_aors_ui sub w u v)"
      "mpz_int (mpz_aors_ui sub w u v) = (if sub then - int (mpz_abs u + unat v) else int (mpz_abs u + unat v))"
      unfolding r using set_signed_spec [of k "wp @ [cy]" "limbs_val (PTR u) + unat v"] by (simp_all add: mpz_abs_def)
    then show ?thesis using same by (auto simp: mpz_int_def split: if_splits)
  next
    case small
    have u: "mpz_abs u = unat (PTR u ! 0)" using limbs_val_single [of "PTR u"] n small(3) by (simp add: mpz_abs_def)
    define k :: int where "k = (if sub then - 1 else 1)"
    have r: "mpz_aors_ui sub w u v = set_signed (MPZ_NEWALLOC w n) [v - PTR u ! 0] k"
      using small by (simp add: mpz_aors_ui_def Let_def k_def n_def)
    have d: "unat (v - PTR u ! 0) = unat v - mpz_abs u" "mpz_abs u < unat v" "v - PTR u ! 0 \<noteq> 0"
      using small(3) u by (auto simp: unat_sub word_less_nat_alt word_le_nat_alt)
    have "nat \<bar>k\<bar> = 1" "k < 0 \<longleftrightarrow> sub" by (simp_all add: k_def)
    then show ?thesis unfolding r
      using set_signed_spec [of k "[v - PTR u ! 0]" "unat v - mpz_abs u" "MPZ_NEWALLOC w n"] d small(1,2)
      by (auto simp: mpz_int_def of_nat_diff split: if_splits)
  next
    case large
    have ne: "PTR u \<noteq> []" using w(3) large(1) by simp
    then have n0: "0 < n" using n by auto
    have big: "BB ^ (n - 1) \<le> limbs_val (PTR u)" using limbs_val_ge [OF ne] w(2) [OF ne] n by simp
    have le: "unat v \<le> limbs_val (PTR u)"
    proof (cases "n = 1")
      case True
      then show ?thesis using large(3) limbs_val_single [of "PTR u"] n by (simp add: word_le_nat_alt not_less)
    next
      case False
      then have "BB ^ 1 \<le> BB ^ (n - 1)" using n0 BB_gt1 by (intro power_increasing) simp_all
      then show ?thesis using big unat_lt_BB [of v] by simp
    qed
    define wp where "wp = fst (mpn_sub_1 (PTR u) v)"
    note s = mpn_sub_1_spec [OF ne le, folded wp_def]
    define m where "m = n - of_bool (wp ! (n - 1) = 0)"
    have low: "BB ^ (n - 2) \<le> limbs_val wp" if "2 \<le> n"
    proof -
      have "n = Suc (Suc (n - 2))" using that by simp
      then obtain j where j: "n = Suc (Suc j)" by blast
      have "1 \<le> BB ^ j" by (rule one_le_power) (rule less_imp_le [OF BB_gt1])
      then have "(BB - 1) * 1 \<le> (BB - 1) * BB ^ j" by (rule mult_le_mono2)
      moreover have "BB ^ (n - 1) = Suc (BB - 1) * BB ^ j" by (simp add: j)
      then have "BB ^ (n - 1) = BB ^ j + (BB - 1) * BB ^ j" by (simp only: mult_Suc)
      ultimately have "BB ^ j + unat v \<le> limbs_val (PTR u)" using big unat_lt_BB [of v] by linarith
      then show ?thesis using s(2) by (simp add: j)
    qed
    note t = drop_zero_top [of wp n, OF _ n0 low, folded m_def]
    define k where "k = (if sub then int m else - int m)"
    have r: "mpz_aors_ui sub w u v = set_signed (MPZ_NEWALLOC w n) wp k"
      unfolding mpz_aors_ui_def Let_def n_def [symmetric] wp_def [symmetric] m_def [symmetric] k_def
      using large(1) by (simp only: large(2,3) if_False)
    have k: "nat \<bar>k\<bar> = m" by (simp add: k_def)
    have "length wp = n" using s n by simp
    have res: "mpz_wf (mpz_aors_ui sub w u v) \<and>
      mpz_int (mpz_aors_ui sub w u v) = (if k < 0 then - int (limbs_val wp) else int (limbs_val wp))"
      unfolding r
      by (intro conjI set_signed_spec) (use t \<open>length wp = n\<close> in \<open>simp_all only: k, auto\<close>)
    have "limbs_val wp = 0" if "k = 0" using t(1) that k \<open>length wp = n\<close> by simp
    then show ?thesis using res s(2) le large(1,2)
      by (auto simp: k_def mpz_int_def mpz_abs_def of_nat_diff split: if_splits)
  qed
qed

lemma mpz_int_nonneg:
  assumes "mpz_wf z" and "mpz_int z = int k"
  shows "0 \<le> SIZ z" and "mpz_abs z = k"
proof -
  have "\<not> SIZ z < 0"
  proof
    assume "SIZ z < 0"
    moreover from this have "0 < mpz_abs z" using mpz_wf_limbs(5) [OF assms(1)] by simp
    ultimately show False using assms(2) by (simp add: mpz_int_def)
  qed
  then show "0 \<le> SIZ z" and "mpz_abs z = k" using assms(2) by (simp_all add: mpz_int_def)
qed

lemma mpz_add_ui_spec:
  assumes "mpz_wf u" and "0 \<le> SIZ u"
  shows "mpz_wf (mpz_add_ui w u v)" and "mpz_abs (mpz_add_ui w u v) = mpz_abs u + unat v"
    and "0 \<le> SIZ (mpz_add_ui w u v)"
proof -
  have s: "mpz_wf (mpz_add_ui w u v)" "mpz_int (mpz_add_ui w u v) = int (mpz_abs u + unat v)"
    using mpz_aors_ui_spec [OF assms(1), of False w v] assms(2) by (simp_all add: mpz_add_ui_def mpz_int_def)
  then show "mpz_wf (mpz_add_ui w u v)" by simp
  show "0 \<le> SIZ (mpz_add_ui w u v)" "mpz_abs (mpz_add_ui w u v) = mpz_abs u + unat v"
    using mpz_int_nonneg [OF s] by simp_all
qed

lemma mpz_sub_ui_spec:
  assumes "mpz_wf u" and "0 \<le> SIZ u" and "unat v \<le> mpz_abs u"
  shows "mpz_wf (mpz_sub_ui w u v)" and "mpz_abs (mpz_sub_ui w u v) = mpz_abs u - unat v"
    and "0 \<le> SIZ (mpz_sub_ui w u v)"
proof -
  have s: "mpz_wf (mpz_sub_ui w u v)" "mpz_int (mpz_sub_ui w u v) = int (mpz_abs u - unat v)"
    using mpz_aors_ui_spec [OF assms(1), of True w v] assms(2,3) by (simp_all add: mpz_sub_ui_def mpz_int_def of_nat_diff)
  then show "mpz_wf (mpz_sub_ui w u v)" by simp
  show "0 \<le> SIZ (mpz_sub_ui w u v)" "mpz_abs (mpz_sub_ui w u v) = mpz_abs u - unat v"
    using mpz_int_nonneg [OF s] by simp_all
qed

section \<open>The distance to the next multiple\<close>

lemma mpz_cdiv_ui_spec:
  assumes "mod_1_ok cfg" and "mpz_wf z" and "0 \<le> SIZ z" and "d \<noteq> 0"
  obtains r where "mpz_cdiv_ui cfg z d = Inr r" and "unat r < unat d" and "(mpz_abs z + unat r) mod unat d = 0"
proof -
  note w = mpz_wf_limbs [OF assms(2)]
  have d: "0 < unat d" using assms(4) by (simp add: unat_gt_0)
  show ?thesis
  proof (cases "SIZ z = 0")
    case True
    then show ?thesis using that [of 0] w(5) assms(4) d by (simp add: mpz_cdiv_ui_def)
  next
    case False
    define rl where "rl = mpn_mod_1 cfg (PTR z) d"
    have rl: "unat rl = mpz_abs z mod unat d" using mpn_mod_1_spec [OF assms(1,4)] by (simp add: rl_def mpz_abs_def)
    have r: "mpz_cdiv_ui cfg z d = Inr (if rl = 0 then rl else d - rl)"
      using False assms(3,4) by (simp add: mpz_cdiv_ui_def Let_def rl_def)
    show ?thesis
    proof (cases "rl = 0")
      case True
      then show ?thesis using that [of 0] r rl d by simp
    next
      case rl0: False
      have "unat rl < unat d" using rl d by simp
      then have s: "unat (d - rl) = unat d - unat rl" by (intro unat_sub) (simp add: word_le_nat_alt)
      moreover have "0 < unat rl" using rl0 by (simp add: unat_gt_0)
      moreover have "(mpz_abs z + (unat d - unat rl)) mod unat d = 0"
      proof -
        have "mpz_abs z = unat d * (mpz_abs z div unat d) + unat rl" by (simp add: rl)
        then have "mpz_abs z + (unat d - unat rl) = unat d * (mpz_abs z div unat d) + unat d"
          using \<open>unat rl < unat d\<close> by linarith
        then show ?thesis by simp
      qed
      ultimately show ?thesis using that [of "d - rl"] r rl0 d by simp
    qed
  qed
qed

section \<open>Shift and scan\<close>

lemma mpz_tdiv_q_2exp_spec:
  assumes "mpz_wf u" and "0 \<le> SIZ u"
  shows "mpz_wf (mpz_tdiv_q_2exp r u cnt)" and "mpz_abs (mpz_tdiv_q_2exp r u cnt) = mpz_abs u div 2 ^ cnt"
    and "0 \<le> SIZ (mpz_tdiv_q_2exp r u cnt)"
proof -
  note w = mpz_wf_limbs [OF assms(1)]
  define l c up n where "l = cnt div 64" and "c = cnt mod 64" and "up = drop l (PTR u)" and "n = length up"
  have len: "nat (SIZ u) - l = n" using w(1) assms(2) by (simp add: n_def up_def ABSIZ_def)
  have "2 ^ cnt = 2 ^ (64 * l) * (2 ^ c :: nat)" by (simp add: l_def c_def flip: power_add)
  then have pw: "(2 :: nat) ^ cnt = BB ^ l * 2 ^ c" by (simp only: BB_power)
  have up: "limbs_val up = mpz_abs u div BB ^ l"
  proof (cases "l \<le> length (PTR u)")
    case True
    then have "mpz_abs u = limbs_val (take l (PTR u)) + BB ^ l * limbs_val up"
      using limbs_val_app [of "take l (PTR u)" up] by (simp add: up_def mpz_abs_def)
    moreover have "limbs_val (take l (PTR u)) < BB ^ l" using limbs_val_lt [of "take l (PTR u)"] True by simp
    ultimately show ?thesis by simp
  next
    case False
    then have "mpz_abs u < BB ^ l"
      unfolding mpz_abs_def using limbs_val_lt [of "PTR u"] BB_gt1 by (meson less_le_trans less_imp_le not_le power_increasing)
    then show ?thesis using False by (simp add: up_def)
  qed
  then have val: "mpz_abs u div 2 ^ cnt = limbs_val up div 2 ^ c" by (simp add: pw div_mult2_eq)
  have "mpz_wf (mpz_tdiv_q_2exp r u cnt) \<and> mpz_abs (mpz_tdiv_q_2exp r u cnt) = limbs_val up div 2 ^ c
    \<and> 0 \<le> SIZ (mpz_tdiv_q_2exp r u cnt)"
  proof (cases "n = 0")
    case True
    then show ?thesis using assms(2) len
      by (simp add: mpz_tdiv_q_2exp_def Let_def l_def [symmetric] set_signed_def mpz_wf_def mpz_abs_def n_def)
  next
    case n0: False
    then have ne: "up \<noteq> []" by (auto simp: n_def)
    then have "l < length (PTR u)" by (simp add: up_def)
    then have top: "last up \<noteq> 0" using w(2) by (force simp: up_def)
    show ?thesis
    proof (cases "c = 0")
      case True
      have "mpz_tdiv_q_2exp r u cnt = set_signed (MPZ_NEWALLOC r n) up (int n)"
        using n0 True assms(2) len by (simp add: mpz_tdiv_q_2exp_def Let_def l_def [symmetric] c_def [symmetric] up_def [symmetric])
      then show ?thesis using True top by (simp add: set_signed_def mpz_wf_def mpz_abs_def n_def)
    next
      case False
      define rp where "rp = fst (mpn_rshift up c)"
      have c64: "c < 64" by (simp add: c_def)
      have rp: "length rp = n" "limbs_val rp = limbs_val up div 2 ^ c"
        using mpn_rshift_spec [of c up rp] c64 ne by (simp_all add: rp_def n_def prod_eq_iff)
      have low: "BB ^ (n - 2) \<le> limbs_val rp" if "2 \<le> n"
      proof -
        have bb: "BB = 2 ^ (64 - c) * 2 ^ c" using c64 by (simp add: BB_def flip: power_add)
        have "n - 1 = Suc (n - 2)" using that by simp
        then have "BB ^ (n - 1) = BB ^ (n - 2) * BB" by (simp only: power_Suc2)
        also have "\<dots> = BB ^ (n - 2) * 2 ^ (64 - c) * 2 ^ c" by (subst (2) bb) (simp only: mult.assoc)
        finally have "BB ^ (n - 1) = BB ^ (n - 2) * 2 ^ (64 - c) * 2 ^ c" .
        moreover have "BB ^ (n - 1) \<le> limbs_val up" using limbs_val_ge [OF ne] top by (simp add: n_def)
        ultimately have "BB ^ (n - 2) * 2 ^ (64 - c) \<le> limbs_val rp" unfolding rp(2) by (simp add: less_eq_div_iff_mult_less_eq)
        moreover have "BB ^ (n - 2) * 1 \<le> BB ^ (n - 2) * 2 ^ (64 - c)" by (intro mult_le_mono2) simp
        ultimately show ?thesis by linarith
      qed
      define k where "k = n - of_bool (rp ! (n - 1) = 0)"
      note t = drop_zero_top [OF rp(1) _ low, folded k_def]
      have "mpz_tdiv_q_2exp r u cnt = set_signed (MPZ_NEWALLOC r n) rp (int k)"
        using n0 False assms(2) len
        by (simp add: mpz_tdiv_q_2exp_def Let_def l_def [symmetric] c_def [symmetric] up_def [symmetric] rp_def [symmetric] k_def)
      then show ?thesis using t n0 rp by (simp add: set_signed_def mpz_wf_def mpz_abs_def)
    qed
  qed
  then show "mpz_wf (mpz_tdiv_q_2exp r u cnt)" and "mpz_abs (mpz_tdiv_q_2exp r u cnt) = mpz_abs u div 2 ^ cnt"
    and "0 \<le> SIZ (mpz_tdiv_q_2exp r u cnt)" using val by simp_all
qed

lemma scan1_loop_spec:
  assumes "0 < limbs_val (a # p)"
  shows "\<exists>t. scan1_loop k a p = Some (64 * k + t) \<and> 2 ^ t dvd limbs_val (a # p) \<and> odd (limbs_val (a # p) div 2 ^ t)"
  using assms
proof (induction k a p rule: scan1_loop.induct)
  case (1 k a p)
  show ?case
  proof (cases "a = 0")
    case True
    then obtain x q where p: "p = x # q" using "1.prems" by (cases p) auto
    then obtain t where t: "scan1_loop (k + 1) x q = Some (64 * (k + 1) + t)"
      "2 ^ t dvd limbs_val p" "odd (limbs_val p div 2 ^ t)"
      using "1.IH" [OF True p] "1.prems" True by auto
    have "BB = 2 ^ 64" by (simp add: BB_def)
    then have "2 ^ (64 + t) dvd limbs_val (a # p)" "limbs_val (a # p) div 2 ^ (64 + t) = limbs_val p div 2 ^ t"
      using t(2) True by (simp_all add: power_add)
    moreover have "scan1_loop k a p = Some (64 * k + (64 + t))" using t(1) True p by (simp add: scan1_loop.simps)
    ultimately show ?thesis using t(3) by metis
  next
    case False
    define c where "c = count_trailing_zeros a"
    note ct = count_trailing_zeros_spec [OF False, folded c_def]
    have "c < 64"
    proof (rule ccontr)
      assume "\<not> c < 64"
      then have "2 ^ 64 dvd unat a" using ct(1) by (meson dvd_trans le_imp_power_dvd not_less)
      moreover have "0 < unat a" "unat a < 2 ^ 64" using False unat_limb_less [of a] by (simp_all add: unat_gt_0)
      ultimately show False by (meson dvd_imp_le not_less)
    qed
    have b: "BB = 2 ^ c * (2 * 2 ^ (63 - c))" using \<open>c < 64\<close> by (simp add: BB_def flip: power_add power_Suc)
    have "2 ^ c dvd BB * limbs_val p" unfolding b by (simp add: mult.assoc)
    then have "2 ^ c dvd limbs_val (a # p)" using ct(1) by (simp only: limbs_val_Cons dvd_add)
    moreover have "limbs_val (a # p) div 2 ^ c = unat a div 2 ^ c + 2 * (2 ^ (63 - c) * limbs_val p)"
      using ct(1) by (simp add: b div_plus_div_distrib_dvd_left mult.assoc)
    ultimately show ?thesis using False ct(2) by (auto simp: scan1_loop.simps c_def [symmetric])
  qed
qed

lemma mpn_scan1_spec:
  assumes "0 < limbs_val up"
  obtains k where "mpn_scan1 up 0 = Some k" and "2 ^ k dvd limbs_val up" and "odd (limbs_val up div 2 ^ k)"
proof -
  obtain a p where up: "up = a # p" using assms by (cases up) auto
  then show ?thesis using scan1_loop_spec [of a p 0] assms that by (auto simp: mpn_scan1_def)
qed

section \<open>A random number below a bound\<close>

lemma urandomm_loop_spec:
  assumes "nbits \<le> 64 * length np"
  shows "urandomm_loop np nbits (Suc j) s = (rp, k, s') \<Longrightarrow>
    length rp = length np \<and> limbs_val rp < 2 ^ nbits \<and> (k \<noteq> 0 \<longrightarrow> limbs_val rp < limbs_val np)
    \<and> (k = 0 \<longrightarrow> limbs_val np \<le> limbs_val rp) \<and> (rng_wf s \<longrightarrow> rng_wf s')"
proof (induction j arbitrary: s)
  case (0 s)
  obtain ls s1 where d: "randget_mt s nbits = (ls, s1)" by fastforce
  have "BITS_TO_LIMBS nbits \<le> length np" using assms by (simp add: BITS_TO_LIMBS_def)
  then have "length (ls @ replicate (length np - length ls) 0) = length np" using length_randget_mt [OF d] by simp
  then show ?case
    using 0 d randget_mt_less [OF d] mpn_cmp_ge [of "ls @ replicate (length np - length ls) 0" np] rng_wf_randget_mt [OF _ d]
    by (subst (asm) urandomm_loop.simps) (auto simp: Let_def limbs_val_pad split: if_splits)
next
  case (Suc j s)
  obtain ls s1 where d: "randget_mt s nbits = (ls, s1)" by fastforce
  have "BITS_TO_LIMBS nbits \<le> length np" using assms by (simp add: BITS_TO_LIMBS_def)
  then have "length (ls @ replicate (length np - length ls) 0) = length np" using length_randget_mt [OF d] by simp
  then show ?case
    using Suc.prems Suc.IH [of s1] d randget_mt_less [OF d] mpn_cmp_ge [of "ls @ replicate (length np - length ls) 0" np]
      rng_wf_randget_mt [OF _ d]
    by (subst (asm) urandomm_loop.simps) (auto simp: Let_def limbs_val_pad split: if_splits)
qed

lemma pow2_limb:
  assumes "POW2_P x" and "x \<noteq> 0"
  shows "unat x = 2 ^ (63 - count_leading_zeros x)"
proof -
  define c where "c = 63 - count_leading_zeros x"
  have b: "count_leading_zeros x < 64" "2 ^ c \<le> unat x" "unat x < 2 ^ Suc c"
  proof -
    note z = count_leading_zeros_bounds [OF assms(2)]
    then show "count_leading_zeros x < 64" "2 ^ c \<le> unat x" by (simp_all add: c_def)
    have "Suc c = 64 - count_leading_zeros x" using conjunct1 [OF z] by (simp add: c_def)
    then show "unat x < 2 ^ Suc c" using z by (simp only:)
  qed
  show ?thesis
  proof (rule ccontr)
    assume "unat x \<noteq> 2 ^ (63 - count_leading_zeros x)"
    then have g: "2 ^ c < unat x" using b(2) by (simp add: c_def)
    have one: "unat (x - 1) = unat x - 1" using assms(2) by (simp add: unat_minus_one)
    have "bit (unat x) c" "bit (unat x - 1) c"
    proof -
      have "unat x div 2 ^ c = 1" "(unat x - 1) div 2 ^ c = 1" using b(3) g by (auto intro!: div_nat_eqI)
      then show "bit (unat x) c" "bit (unat x - 1) c" by (simp_all add: bit_iff_odd)
    qed
    then have "bit x c" "bit (x - 1) c" unfolding one [symmetric] by (simp_all add: bit_unsigned_iff)
    then have "bit (x AND (x - 1)) c" by (simp add: bit_and_iff)
    then show False using assms(1) by (simp add: POW2_P_def)
  qed
qed

text \<open>The number of bits drawn: enough for every number below the bound, and less than twice the bound.\<close>

lemma urandomm_bits:
  assumes "np \<noteq> []" and "last np \<noteq> 0"
  defines "pow2 \<equiv> POW2_P (last np) \<and> (length np = 1 \<or> (\<forall>x\<in>set (butlast np). x = 0))"
  defines "nbits \<equiv> length np * 64 - count_leading_zeros (last np) - of_bool pow2"
  shows "2 ^ nbits \<le> 2 * limbs_val np" and "nbits = 0 \<longrightarrow> limbs_val np = 1" and "pow2 \<longrightarrow> limbs_val np = 2 ^ nbits"
    and "nbits \<le> 64 * length np"
proof -
  define t where "t = length np * 64 - count_leading_zeros (last np)"
  have t: "0 < t" "2 ^ (t - 1) \<le> limbs_val np" "limbs_val np < 2 ^ t" using limbs_bits [OF assms(1,2)] by (simp_all add: t_def)
  show "nbits \<le> 64 * length np" by (simp add: nbits_def)
  have two: "2 ^ t = 2 * (2 :: nat) ^ (t - 1)" using t(1) by (simp flip: power_Suc)
  show p: "pow2 \<longrightarrow> limbs_val np = 2 ^ nbits"
  proof
    assume pow2
    have z: "limbs_val (butlast np) = 0"
    proof -
      have zs: "limbs_val xs = 0" if "\<forall>x\<in>set xs. x = 0" for xs using that by (induction xs) simp_all
      have "butlast np = []" if "length np = 1" using that by (auto simp: length_Suc_conv)
      then show ?thesis using \<open>pow2\<close> zs [of "butlast np"] by (auto simp: pow2_def)
    qed
    have c: "count_leading_zeros (last np) < 64" using count_leading_zeros_bounds [OF assms(2)] by simp
    have "limbs_val np = BB ^ (length np - 1) * 2 ^ (63 - count_leading_zeros (last np))"
      using limbs_val_snoc [of "butlast np" "last np"] assms(1) z \<open>pow2\<close> pow2_limb [OF _ assms(2)] by (simp add: pow2_def)
    also have "\<dots> = 2 ^ (64 * (length np - 1) + (63 - count_leading_zeros (last np)))" by (simp add: power_add BB_power)
    also have "64 * (length np - 1) + (63 - count_leading_zeros (last np)) = nbits"
      using c assms(1) \<open>pow2\<close> by (cases np) (simp_all add: nbits_def)
    finally show "limbs_val np = 2 ^ nbits" .
  qed
  show "2 ^ nbits \<le> 2 * limbs_val np"
  proof (cases pow2)
    case False
    then show ?thesis using t(2) two by (simp add: nbits_def t_def)
  qed (use p in simp)
  show "nbits = 0 \<longrightarrow> limbs_val np = 1" using p t(1) by (cases pow2) (auto simp: nbits_def t_def)
qed

lemma mpz_urandomm_returns:
  assumes "SIZ n \<noteq> 0"
  shows "\<exists>z s'. mpz_urandomm r s n = Inr (z, s')"
proof -
  have "ABSIZ n \<noteq> 0" using assms by (simp add: ABSIZ_def)
  then show ?thesis
    unfolding mpz_urandomm_def Let_def by (simp only: if_False split: prod.split if_split) blast
qed

lemma mpz_urandomm_spec:
  assumes "mpz_wf n" and "SIZ n \<noteq> 0" and "mpz_urandomm r s n = Inr (z, s')"
  shows "mpz_wf z" and "0 \<le> SIZ z" and "mpz_abs z < mpz_abs n" and "rng_wf s \<Longrightarrow> rng_wf s'"
proof -
  note w = mpz_wf_limbs [OF assms(1)]
  let ?np = "PTR n"
  have ne: "?np \<noteq> []" and sz: "ABSIZ n = length ?np" "ABSIZ n \<noteq> 0" using w assms(2) by auto
  have top: "last ?np \<noteq> 0" using w(2) ne .
  have eq: "?np ! (length ?np - 1) = last ?np" "take (length ?np - 1) ?np = butlast ?np" "length ?np \<noteq> 0"
    using ne by (simp_all add: last_conv_nth butlast_conv_take)
  define pow2 where "pow2 \<longleftrightarrow> POW2_P (last ?np) \<and> (length ?np = 1 \<or> (\<forall>x\<in>set (butlast ?np). x = 0))"
  define nbits where "nbits = length ?np * 64 - count_leading_zeros (last ?np) - of_bool pow2"
  note nb = urandomm_bits [OF ne top, folded pow2_def, folded nbits_def]
  have def: "mpz_urandomm r s n =
     (if nbits = 0 then Inr (set_limbs r [] 0, s)
      else let (rp, count, rstate) = urandomm_loop ?np nbits MAX_URANDOMM_ITER s;
             rp = (if count = 0 then fst (mpn_sub_n rp ?np) else rp)
           in Inr (set_limbs (MPZ_NEWALLOC r (length ?np)) rp (MPN_NORMALIZE rp (length ?np)), rstate))"
    unfolding mpz_urandomm_def Let_def sz(1) eq(1,2) pow2_def [symmetric] nbits_def [symmetric] using eq(3) by simp
  have "mpz_wf z \<and> 0 \<le> SIZ z \<and> mpz_abs z < mpz_abs n \<and> (rng_wf s \<longrightarrow> rng_wf s')"
  proof (cases "nbits = 0")
    case True
    then have "z = set_limbs r [] 0" "s' = s"
      using assms(3) by (simp_all add: def)
    then show ?thesis using w(5) assms(2) by (simp add: set_limbs_def mpz_wf_def mpz_abs_def)
  next
    case False
    obtain rp k s1 where l: "urandomm_loop ?np nbits MAX_URANDOMM_ITER s = (rp, k, s1)" by (metis prod_cases3)
    have "MAX_URANDOMM_ITER = Suc 79" by (simp add: MAX_URANDOMM_ITER_def)
    note u = urandomm_loop_spec [OF nb(4) l [unfolded this]]
    define rp' where "rp' = (if k = 0 then fst (mpn_sub_n rp ?np) else rp)"
    have z: "z = set_limbs (MPZ_NEWALLOC r (length ?np)) rp' (MPN_NORMALIZE rp' (length ?np))" "s' = s1"
      using assms(3) False l by (simp_all add: def rp'_def Let_def)
    have "length rp' = length ?np \<and> limbs_val rp' < limbs_val ?np"
    proof (cases "k = 0")
      case True
      obtain d c where d: "mpn_sub_n rp ?np = (d, c)" by fastforce
      have "length rp = length ?np" "limbs_val ?np \<le> limbs_val rp" "limbs_val rp < 2 ^ nbits" using u True by auto
      moreover have dd: "length d = length rp" "limbs_val d + limbs_val ?np = limbs_val rp + BB ^ length rp * unat c"
        using mpn_sub_n_spec [OF calculation(1) d] by simp_all
      have "limbs_val ?np + limbs_val d = limbs_val rp + BB ^ length rp * unat c" using dd(2) by simp
      moreover have "limbs_val d < BB ^ length rp" "limbs_val rp - limbs_val ?np < BB ^ length rp"
        using limbs_val_lt [of d] limbs_val_lt [of rp] dd(1) by (auto intro: le_less_trans [OF diff_le_self])
      then have "limbs_val d = limbs_val rp - limbs_val ?np" 
        using below_radix_unique [of "limbs_val d" "BB ^ length rp" 0 "limbs_val rp - limbs_val ?np" "unat c"] dd(2) calculation(2) by simp
      ultimately have "length d = length ?np" "limbs_val d < limbs_val ?np"
        using nb(1) dd(1) by linarith+
      then show ?thesis using True d by (simp add: rp'_def)
    next
      case False
      then show ?thesis using u by (simp add: rp'_def)
    qed
    then show ?thesis
      using set_limbs_normalized [of "length ?np" rp' "MPZ_NEWALLOC r (length ?np)"] u z by (simp add: mpz_abs_def [of n])
  qed
  then show "mpz_wf z" and "0 \<le> SIZ z" and "mpz_abs z < mpz_abs n" and "rng_wf s \<Longrightarrow> rng_wf s'" by simp_all
qed

end
