(* ===== verification/Gmp_Powm_Ui.thy ===== *)
theory Gmp_Powm_Ui
  imports Gmp_Ui
begin

text \<open>
  The modular power with a one-limb exponent of \<open>mpz/powm_ui.c\<close>, by which the primality test
  squares: the modulus is shifted until its top bit is one, every product is reduced by a long
  division whose routine depends on the sizes, and the result is shifted back.  The division
  routines are fields of the configuration record \<open>prime_cfg\<close>, as are the other routines below the
  search for a prime that are not modelled.
\<close>

section \<open>Definitions\<close>

record prime_cfg =
  limb_cfg :: mpn_cfg
  DC_DIV_QR_THRESHOLD :: nat
  MUPI_DIV_QR_THRESHOLD :: nat
  MU_DIV_QR_THRESHOLD :: nat
  mpn_divrem_1 :: "limb list \<Rightarrow> limb \<Rightarrow> limb"
  mpn_div_qr_2n_pi1 :: "limb list \<Rightarrow> limb \<Rightarrow> limb \<Rightarrow> limb \<Rightarrow> limb list"
  mpn_sbpi1_div_qr :: "limb list \<Rightarrow> limb list \<Rightarrow> limb \<Rightarrow> limb list"
  mpn_dcpi1_div_qr :: "limb list \<Rightarrow> limb list \<Rightarrow> limb \<Rightarrow> limb list"
  mpn_mu_div_qr :: "limb list \<Rightarrow> limb list \<Rightarrow> limb list"
  mpz_mod :: "mpz \<Rightarrow> mpz \<Rightarrow> mpz"
  mpz_stronglucas :: "mpz \<Rightarrow> int"
  gmp_primesieve :: "limb \<Rightarrow> limb list \<times> limb"
  mpz_ui_pow_ui :: "limb \<Rightarrow> limb \<Rightarrow> mpz"
  mpz_tdiv_q_ui :: "mpz \<Rightarrow> limb \<Rightarrow> mpz"
  mpz_sqrt :: "mpz \<Rightarrow> mpz"

text \<open>The inverse of the two top limbs that the division routines take.\<close>

definition invert_pi1 :: "limb \<Rightarrow> limb \<Rightarrow> limb" where
  "invert_pi1 d1 d0 =
     (let v = invert_limb d1;
        p = d1 * v + d0;
        (v, p) = (if p < d0
          then let v = v - 1; mask = - of_bool (p \<ge> d1); p = p - d1 in (v + mask, p - (mask AND d1))
          else (v, p));
        (t1, t0) = umul_ppmm d0 v;
        p = p + t1
      in if p < t1
         then let v = v - 1 in if p \<ge> d1 \<and> (p > d1 \<or> t0 \<ge> d0) then v - 1 else v
         else v)"

text \<open>\<open>mod\<close>: the remainder that the routine for the sizes at hand leaves in place of the dividend.\<close>

definition mod_limbs :: "prime_cfg \<Rightarrow> limb list \<Rightarrow> limb list \<Rightarrow> limb \<Rightarrow> limb list" where
  "mod_limbs cfg np dp inv32 =
     (let nn = length np; dn = length dp
      in if dn = 1 then [mpn_divrem_1 cfg np (dp ! 0)]
         else if dn = 2 then mpn_div_qr_2n_pi1 cfg np (dp ! 1) (dp ! 0) inv32
         else if BELOW_THRESHOLD dn (DC_DIV_QR_THRESHOLD cfg) \<or> BELOW_THRESHOLD (nn - dn) (DC_DIV_QR_THRESHOLD cfg)
         then mpn_sbpi1_div_qr cfg np dp inv32
         else if BELOW_THRESHOLD dn (MUPI_DIV_QR_THRESHOLD cfg)
           \<or> BELOW_THRESHOLD nn (2 * MU_DIV_QR_THRESHOLD cfg)
           \<or> 2 * (int (MU_DIV_QR_THRESHOLD cfg) - int (MUPI_DIV_QR_THRESHOLD cfg)) * int dn
             + int (MUPI_DIV_QR_THRESHOLD cfg) * int nn > int dn * int nn
         then mpn_dcpi1_div_qr cfg np dp inv32
         else mpn_mu_div_qr cfg np dp)"

text \<open>After a product: leave out a top limb that is zero and divide unless the product is short.\<close>

definition reduce_product :: "prime_cfg \<Rightarrow> limb list \<Rightarrow> limb \<Rightarrow> limb list \<Rightarrow> limb list" where
  "reduce_product cfg mp inv32 tp =
     (let tn = length tp; tn = tn - of_bool (tp ! (tn - 1) = 0)
      in if tn < length mp then take tn tp else mod_limbs cfg (take tn tp) mp inv32)"

fun powm_ui_loop :: "prime_cfg \<Rightarrow> limb list \<Rightarrow> limb \<Rightarrow> limb list \<Rightarrow> nat \<Rightarrow> limb \<Rightarrow> limb list \<Rightarrow> limb list" where
  "powm_ui_loop cfg mp inv32 bp 0 e xp = xp"
| "powm_ui_loop cfg mp inv32 bp (Suc c) e xp =
     (let xp = reduce_product cfg mp inv32 (mpn_sqr (limb_cfg cfg) xp);
        xp = (if bit e 63 then reduce_product cfg mp inv32 (mpn_mul (limb_cfg cfg) xp bp) else xp)
      in powm_ui_loop cfg mp inv32 bp c (push_bit 1 e) xp)"

text \<open>Reduction modulo the shifted modulus becomes reduction modulo the modulus itself.\<close>

definition unshift :: "prime_cfg \<Rightarrow> limb list \<Rightarrow> limb \<Rightarrow> nat \<Rightarrow> limb list \<Rightarrow> limb list" where
  "unshift cfg mp inv32 m_zero_cnt xp =
     (if m_zero_cnt \<noteq> 0
      then let (tp, cy) = mpn_lshift xp m_zero_cnt;
             tp = (if cy \<noteq> 0 then tp @ [cy] else tp);
             tp = (if length tp \<ge> length mp then mod_limbs cfg tp mp inv32 else tp)
           in fst (mpn_rshift tp m_zero_cnt)
      else xp)"

definition mpz_powm_ui :: "prime_cfg \<Rightarrow> mpz \<Rightarrow> mpz \<Rightarrow> limb \<Rightarrow> mpz \<Rightarrow> mpz run" where
  "mpz_powm_ui cfg r b el m =
     (if el < 20
      then let mp0 = PTR m; mn = ABSIZ m
        in if mn = 0 then Some (Inl DivideByZero)
           else if el \<le> 1
           then Some (Inr (if el = 1 then mpz_mod cfg b m
                           else set_limbs (MPZ_NEWALLOC r 1) [1] (if mn \<noteq> 1 \<or> mp0 ! 0 \<noteq> 1 then 1 else 0)))
           else let m_zero_cnt = count_leading_zeros (mp0 ! (mn - 1));
                  mp = (if m_zero_cnt \<noteq> 0 then fst (mpn_lshift mp0 m_zero_cnt) else mp0);
                  m2 = (if mn = 1 then 0 else mp ! (mn - 2));
                  inv32 = invert_pi1 (mp ! (mn - 1)) m2;
                  bp = (if ABSIZ b > mn
                    then let new_bp = mod_limbs cfg (PTR b) mp inv32 in take (MPN_NORMALIZE new_bp mn) new_bp
                    else PTR b)
                in if bp = [] then Some (Inr (set_limbs r [] 0))
                   else let c = count_leading_zeros el;
                          e = push_bit 1 (push_bit c el);
                          xp = powm_ui_loop cfg mp inv32 bp (63 - c) e bp;
                          xp = unshift cfg mp inv32 m_zero_cnt xp;
                          xn = MPN_NORMALIZE xp (length xp);
                          (xp, xn) = (if el AND 1 \<noteq> 0 \<and> SIZ b < 0 \<and> xn \<noteq> 0
                            then let xp = fst (mpn_sub mp0 (take xn xp)) in (xp, MPN_NORMALIZE xp mn)
                            else (xp, xn))
                        in Some (Inr (set_limbs (MPZ_NEWALLOC r xn) xp xn))
      else mpz_powm (limb_cfg cfg) r b \<lparr>ALLOC = 1, SIZ = (if el \<noteq> 0 then 1 else 0), PTR = (if el \<noteq> 0 then [el] else [])\<rparr> m)"

section \<open>What the division routines promise\<close>

text \<open>
  The contracts of the division routines: a divisor whose top bit is one, the inverse that
  \<open>invert_pi1\<close> computes, and the sizes that the routines assert.
\<close>

definition div_ok :: "prime_cfg \<Rightarrow> bool" where
  "div_ok cfg \<longleftrightarrow>
     (\<forall>np d. d \<noteq> 0 \<longrightarrow> unat (mpn_divrem_1 cfg np d) = limbs_val np mod unat d)
   \<and> (\<forall>np d1 d0. 2 \<le> length np \<longrightarrow> bit d1 63 \<longrightarrow>
        length (mpn_div_qr_2n_pi1 cfg np d1 d0 (invert_pi1 d1 d0)) = 2
        \<and> limbs_val (mpn_div_qr_2n_pi1 cfg np d1 d0 (invert_pi1 d1 d0)) = limbs_val np mod limbs_val [d0, d1])
   \<and> (\<forall>np dp. 2 < length dp \<longrightarrow> length dp \<le> length np \<longrightarrow> bit (last dp) 63 \<longrightarrow>
        length (mpn_sbpi1_div_qr cfg np dp (invert_pi1 (last dp) (dp ! (length dp - 2)))) = length dp
        \<and> limbs_val (mpn_sbpi1_div_qr cfg np dp (invert_pi1 (last dp) (dp ! (length dp - 2)))) = limbs_val np mod limbs_val dp)
   \<and> (\<forall>np dp. 6 \<le> length dp \<longrightarrow> length dp + 3 \<le> length np \<longrightarrow> bit (last dp) 63 \<longrightarrow>
        length (mpn_dcpi1_div_qr cfg np dp (invert_pi1 (last dp) (dp ! (length dp - 2)))) = length dp
        \<and> limbs_val (mpn_dcpi1_div_qr cfg np dp (invert_pi1 (last dp) (dp ! (length dp - 2)))) = limbs_val np mod limbs_val dp)
   \<and> (\<forall>np dp. 2 \<le> length dp \<longrightarrow> length dp \<le> length np \<longrightarrow> bit (last dp) 63 \<longrightarrow>
        length (mpn_mu_div_qr cfg np dp) = length dp \<and> limbs_val (mpn_mu_div_qr cfg np dp) = limbs_val np mod limbs_val dp)
   \<and> 6 \<le> DC_DIV_QR_THRESHOLD cfg"

lemma mod_limbs_spec:
  assumes ok: "div_ok cfg" and mp: "mp \<noteq> []" "bit (last mp) 63" and le: "length mp \<le> length np"
    and inv: "inv32 = invert_pi1 (mp ! (length mp - 1)) (if length mp = 1 then 0 else mp ! (length mp - 2))"
  shows "length (mod_limbs cfg np mp inv32) = length mp"
    and "limbs_val (mod_limbs cfg np mp inv32) = limbs_val np mod limbs_val mp"
proof -
  have "last mp \<noteq> 0" using mp(2) by auto
  have "length (mod_limbs cfg np mp inv32) = length mp \<and> limbs_val (mod_limbs cfg np mp inv32) = limbs_val np mod limbs_val mp"
  proof -
    consider (one) "length mp = 1" | (two) "length mp = 2" | (more) "2 < length mp" using mp(1) by (metis One_nat_def Suc_1 length_0_conv less_2_cases linorder_neqE_nat)
    then show ?thesis
    proof cases
      case one
      then obtain d where d: "mp = [d]" by (auto simp: length_Suc_conv)
      then show ?thesis using ok mp(2) \<open>last mp \<noteq> 0\<close> by (simp add: div_ok_def mod_limbs_def)
    next
      case two
      then obtain d0 d1 where d: "mp = [d0, d1]" by (auto simp: length_Suc_conv numeral_2_eq_2)
      have "length (mpn_div_qr_2n_pi1 cfg np d1 d0 (invert_pi1 d1 d0)) = 2
        \<and> limbs_val (mpn_div_qr_2n_pi1 cfg np d1 d0 (invert_pi1 d1 d0)) = limbs_val np mod limbs_val [d0, d1]"
        using ok mp(2) le d unfolding div_ok_def by simp
      then show ?thesis using inv d by (simp add: mod_limbs_def)
    next
      case more
      then have inv': "inv32 = invert_pi1 (last mp) (mp ! (length mp - 2))" using inv mp(1) by (simp add: last_conv_nth)
      have th: "6 \<le> DC_DIV_QR_THRESHOLD cfg" using ok by (simp add: div_ok_def)
      let ?P = "\<lambda>r. length r = length mp \<and> limbs_val r = limbs_val np mod limbs_val mp"
      have sb: "?P (mpn_sbpi1_div_qr cfg np mp inv32)" using ok more le mp(2) unfolding inv' div_ok_def by blast
      have mu: "?P (mpn_mu_div_qr cfg np mp)" using ok more le mp(2) unfolding div_ok_def by force
      have dc: "?P (mpn_dcpi1_div_qr cfg np mp inv32)" if "6 \<le> length mp" "length mp + 3 \<le> length np"
        using ok mp(2) that unfolding inv' div_ok_def by blast
      show ?thesis
      proof (cases "BELOW_THRESHOLD (length mp) (DC_DIV_QR_THRESHOLD cfg)
          \<or> BELOW_THRESHOLD (length np - length mp) (DC_DIV_QR_THRESHOLD cfg)")
        case True
        then show ?thesis using more sb by (simp add: mod_limbs_def)
      next
        case False
        then have "6 \<le> length mp" "6 \<le> length np - length mp" using th not_below_ge [of _ "DC_DIV_QR_THRESHOLD cfg" 6] by auto
        then have "?P (mpn_dcpi1_div_qr cfg np mp inv32)" by (intro dc) linarith+
        then show ?thesis using more False mu by (simp add: mod_limbs_def Let_def)
      qed
    qed
  qed
  then show "length (mod_limbs cfg np mp inv32) = length mp"
    and "limbs_val (mod_limbs cfg np mp inv32) = limbs_val np mod limbs_val mp" by simp_all
qed

section \<open>The loop over the exponent\<close>

text \<open>What holds of the shifted modulus and the inverse of its top limbs.\<close>

definition divisor_ready :: "prime_cfg \<Rightarrow> limb list \<Rightarrow> limb \<Rightarrow> bool" where
  "divisor_ready cfg mp inv32 \<longleftrightarrow> div_ok cfg \<and> mp \<noteq> [] \<and> bit (last mp) 63
     \<and> inv32 = invert_pi1 (mp ! (length mp - 1)) (if length mp = 1 then 0 else mp ! (length mp - 2))"

lemma divisor_ready_mod:
  assumes "divisor_ready cfg mp inv32" and "length mp \<le> length np"
  shows "length (mod_limbs cfg np mp inv32) = length mp"
    and "limbs_val (mod_limbs cfg np mp inv32) = limbs_val np mod limbs_val mp"
  using mod_limbs_spec [of cfg mp np inv32] assms unfolding divisor_ready_def by auto

lemma divisor_ready_top:
  assumes "divisor_ready cfg mp inv32"
  shows "mp \<noteq> []" and "BB ^ (length mp - 1) \<le> limbs_val mp" and "0 < limbs_val mp"
proof -
  show ne: "mp \<noteq> []" using assms by (simp add: divisor_ready_def)
  have "last mp \<noteq> 0" using assms by (auto simp: divisor_ready_def)
  then show "BB ^ (length mp - 1) \<le> limbs_val mp" "0 < limbs_val mp" using limbs_val_ge [OF ne] limbs_val_pos [OF ne] by simp_all
qed

lemma short_below:
  assumes "divisor_ready cfg mp inv32" and "length p < length mp"
  shows "limbs_val p < limbs_val mp"
proof -
  have "limbs_val p < BB ^ length p" by (rule limbs_val_lt)
  also have "\<dots> \<le> BB ^ (length mp - 1)" using assms(2) BB_gt1 by (intro power_increasing) simp_all
  finally show ?thesis using divisor_ready_top(2) [OF assms(1)] by simp
qed

lemma reduce_product_spec:
  assumes d: "divisor_ready cfg mp inv32" and p: "2 \<le> length tp"
  shows "limbs_val (reduce_product cfg mp inv32 tp) = limbs_val tp mod limbs_val mp"
    and "min (length tp - 1) (length mp) \<le> length (reduce_product cfg mp inv32 tp)"
    and "length (reduce_product cfg mp inv32 tp) \<le> length mp"
proof -
  obtain ys y where tp: "tp = ys @ [y]" using p by (cases tp rule: rev_cases) auto
  define tn where "tn = length tp - of_bool (tp ! (length tp - 1) = 0)"
  have v: "limbs_val (take tn tp) = limbs_val tp" "length tp - 1 \<le> tn" "tn \<le> length tp"
    by (simp_all add: tn_def tp nth_append limbs_val_snoc)
  have r: "reduce_product cfg mp inv32 tp = (if tn < length mp then take tn tp else mod_limbs cfg (take tn tp) mp inv32)"
    by (simp add: reduce_product_def tn_def)
  have "limbs_val (reduce_product cfg mp inv32 tp) = limbs_val tp mod limbs_val mp
    \<and> min (length tp - 1) (length mp) \<le> length (reduce_product cfg mp inv32 tp)
    \<and> length (reduce_product cfg mp inv32 tp) \<le> length mp"
  proof (cases "tn < length mp")
    case True
    then have "limbs_val tp < limbs_val mp" using short_below [OF d, of "take tn tp"] v(1,3) by simp
    then show ?thesis using r True v by simp
  next
    case False
    then show ?thesis using r divisor_ready_mod [OF d, of "take tn tp"] v by simp
  qed
  then show "limbs_val (reduce_product cfg mp inv32 tp) = limbs_val tp mod limbs_val mp"
    and "min (length tp - 1) (length mp) \<le> length (reduce_product cfg mp inv32 tp)"
    and "length (reduce_product cfg mp inv32 tp) \<le> length mp" by simp_all
qed

lemma top_bit_split:
  assumes "unat (e :: limb) = r * 2 ^ (63 - c)" and "r < 2 ^ Suc c" and "c < 64"
  shows "bit e 63 \<longleftrightarrow> 2 ^ c \<le> r" and "unat (push_bit 1 e) = (r mod 2 ^ c) * 2 ^ (64 - c)"
proof -
  have "bit e 63 \<longleftrightarrow> bit (unat e) 63" by (simp add: bit_unsigned_iff)
  then have "bit e 63 \<longleftrightarrow> odd (unat e div 2 ^ 63)" by (simp only: bit_iff_odd)
  also have "unat e div 2 ^ 63 = r div 2 ^ c"
  proof -
    have "(2 :: nat) ^ 63 = 2 ^ c * 2 ^ (63 - c)" using assms(3) by (simp flip: power_add)
    moreover have "r * k div (2 ^ c * k) = r div 2 ^ c" if "0 < k" for k using that by simp
    ultimately show ?thesis unfolding assms(1) by (metis zero_less_power zero_less_numeral)
  qed
  also have "odd (r div 2 ^ c) \<longleftrightarrow> 2 ^ c \<le> r"
  proof (cases "2 ^ c \<le> r")
    case True
    then have "r div 2 ^ c = 1" using assms(2) by (intro div_nat_eqI) simp_all
    then show ?thesis using True by simp
  qed simp
  finally show "bit e 63 \<longleftrightarrow> 2 ^ c \<le> r" .
  have e: "2 * 2 ^ (63 - c) = (2 :: nat) ^ (64 - c)" using assms(3) by (simp flip: power_Suc add: Suc_diff_le)
  have "unat (push_bit 1 e) = r * (2 * 2 ^ (63 - c)) mod BB" by (simp only: unat_push_bit_limb assms(1) power_one_right mult.assoc mult.commute [of 2])
  also have "BB = 2 ^ c * 2 ^ (64 - c)" using assms(3) by (simp add: BB_def flip: power_add)
  finally show "unat (push_bit 1 e) = (r mod 2 ^ c) * 2 ^ (64 - c)" unfolding e by (simp add: mult_mod_left)
qed

lemma powm_ui_loop_spec:
  assumes d: "divisor_ready cfg mp inv32" and ok: "mul_ok (limb_cfg cfg)" and b: "bp \<noteq> []" "length bp \<le> length mp"
  shows "unat e = r * 2 ^ (64 - c) \<Longrightarrow> r < 2 ^ c \<Longrightarrow> c \<le> 63 \<Longrightarrow> length bp \<le> length xp \<Longrightarrow> length xp \<le> length mp \<Longrightarrow>
    (0 < c \<or> limbs_val xp < limbs_val mp) \<Longrightarrow>
    length (powm_ui_loop cfg mp inv32 bp c e xp) \<le> length mp \<and> length bp \<le> length (powm_ui_loop cfg mp inv32 bp c e xp)
    \<and> limbs_val (powm_ui_loop cfg mp inv32 bp c e xp) = limbs_val xp ^ (2 ^ c) * limbs_val bp ^ r mod limbs_val mp"
proof (induction c arbitrary: e r xp)
  case 0
  then show ?case by simp
next
  case (Suc c)
  let ?M = "limbs_val mp"
  have bit: "bit e 63 \<longleftrightarrow> 2 ^ c \<le> r" "unat (push_bit 1 e) = (r mod 2 ^ c) * 2 ^ (64 - c)"
    using top_bit_split [of e r c] Suc.prems(1-3) by simp_all
  have x: "xp \<noteq> []" "0 < length xp" "0 < length bp" using b(1) Suc.prems(4) by auto
  have len: "length bp \<le> min (2 * length xp - 1) (length mp)" "2 \<le> 2 * length xp" using x b(2) Suc.prems(4) by linarith+
  define x1 where "x1 = reduce_product cfg mp inv32 (mpn_sqr (limb_cfg cfg) xp)"
  note sq = mpn_sqr_spec [OF ok x(1)]
  have "2 \<le> length (mpn_sqr (limb_cfg cfg) xp)" using sq(1) len(2) by simp
  note rs = reduce_product_spec [OF d this, folded x1_def]
  have x1: "limbs_val x1 = limbs_val xp * limbs_val xp mod ?M" "length bp \<le> length x1" "length x1 \<le> length mp"
  proof -
    show "limbs_val x1 = limbs_val xp * limbs_val xp mod ?M" "length x1 \<le> length mp" using rs(1,3) sq(2) by simp_all
    have "min (2 * length xp - 1) (length mp) \<le> length x1" using rs(2) sq(1) by (simp only:)
    then show "length bp \<le> length x1" using len(1) by (rule le_trans [rotated])
  qed
  define x2 where "x2 = (if bit e 63 then reduce_product cfg mp inv32 (mpn_mul (limb_cfg cfg) x1 bp) else x1)"
  note mu = mpn_mul_spec [OF ok b(1) x1(2)]
  have x2: "limbs_val x2 = limbs_val xp * limbs_val xp * limbs_val bp ^ (r div 2 ^ c) mod ?M \<and> length bp \<le> length x2 \<and> length x2 \<le> length mp"
  proof (cases "bit e 63")
    case True
    then have "r div 2 ^ c = 1" using Suc.prems(2) bit(1) by (intro div_nat_eqI) simp_all
    moreover have "2 \<le> length x1 + length bp" "length bp \<le> min (length x1 + length bp - 1) (length mp)" using x x1(2) b(2) by linarith+
    moreover have "2 \<le> length (mpn_mul (limb_cfg cfg) x1 bp)" using mu(1) calculation(2) by simp
    note rm = reduce_product_spec [OF d this]
    have "min (length x1 + length bp - 1) (length mp) \<le> length (reduce_product cfg mp inv32 (mpn_mul (limb_cfg cfg) x1 bp))"
      using rm(2) mu(1) by (simp only:)
    then have "length bp \<le> length (reduce_product cfg mp inv32 (mpn_mul (limb_cfg cfg) x1 bp))"
      using calculation(3) by (rule le_trans [rotated])
    ultimately show ?thesis using True rm(1,3) mu(2) x1(1) by (simp add: x2_def mod_mult_left_eq)
  next
    case False
    then have "r div 2 ^ c = 0" using bit(1) by simp
    then show ?thesis using False x1 by (simp add: x2_def)
  qed
  have "powm_ui_loop cfg mp inv32 bp (Suc c) e xp = powm_ui_loop cfg mp inv32 bp c (push_bit 1 e) x2"
    by (simp add: x1_def x2_def Let_def)
  moreover have "limbs_val x2 < ?M" using x2 divisor_ready_top(3) [OF d] by simp
  ultimately have res: "length (powm_ui_loop cfg mp inv32 bp (Suc c) e xp) \<le> length mp"
    "length bp \<le> length (powm_ui_loop cfg mp inv32 bp (Suc c) e xp)"
    "limbs_val (powm_ui_loop cfg mp inv32 bp (Suc c) e xp) = limbs_val x2 ^ (2 ^ c) * limbs_val bp ^ (r mod 2 ^ c) mod ?M"
    using Suc.IH [OF bit(2)] Suc.prems(3) x2 by simp_all
  have "limbs_val x2 ^ (2 ^ c) * limbs_val bp ^ (r mod 2 ^ c) mod ?M
    = (limbs_val xp * limbs_val xp * limbs_val bp ^ (r div 2 ^ c)) ^ (2 ^ c) * limbs_val bp ^ (r mod 2 ^ c) mod ?M"
    using x2 by (metis mod_mult_left_eq power_mod)
  also have "(limbs_val xp * limbs_val xp * limbs_val bp ^ (r div 2 ^ c)) ^ (2 ^ c) * limbs_val bp ^ (r mod 2 ^ c)
    = limbs_val xp ^ (2 ^ Suc c) * limbs_val bp ^ (r div 2 ^ c * 2 ^ c + r mod 2 ^ c)"
    by (simp only: power_mult_distrib power_add power_mult [symmetric] power_Suc mult_2 mult.assoc)
  also have "r div 2 ^ c * 2 ^ c + r mod 2 ^ c = r" by (rule div_mult_mod_eq)
  finally show ?case using res by simp
qed

section \<open>Shifting back\<close>

lemma unshift_spec:
  assumes d: "divisor_ready cfg mp inv32" and v: "limbs_val mp = m * 2 ^ z" "z < 64"
    and x: "length xp \<le> length mp" "limbs_val xp < limbs_val mp" "xp \<noteq> []"
  shows "length (unshift cfg mp inv32 z xp) \<le> length mp" and "limbs_val (unshift cfg mp inv32 z xp) = limbs_val xp mod m"
proof -
  have "length (unshift cfg mp inv32 z xp) \<le> length mp \<and> limbs_val (unshift cfg mp inv32 z xp) = limbs_val xp mod m"
  proof (cases "z = 0")
    case True
    then show ?thesis using x v by (simp add: unshift_def)
  next
    case False
    obtain tp cy where t: "mpn_lshift xp z = (tp, cy)" by fastforce
    have l: "length tp = length xp" "limbs_val tp + BB ^ length xp * unat cy = limbs_val xp * 2 ^ z"
      using mpn_lshift_spec [OF _ x(3) t] v(2) by simp_all
    define t1 where "t1 = (if cy \<noteq> 0 then tp @ [cy] else tp)"
    have t1: "limbs_val t1 = limbs_val xp * 2 ^ z" "t1 \<noteq> []" using l x(3) by (auto simp: t1_def limbs_val_snoc)
    define t2 where "t2 = (if length t1 \<ge> length mp then mod_limbs cfg t1 mp inv32 else t1)"
    have t2: "limbs_val t2 = limbs_val xp * 2 ^ z mod limbs_val mp \<and> length t2 \<le> length mp \<and> t2 \<noteq> []"
    proof (cases "length t1 \<ge> length mp")
      case True
      then show ?thesis using divisor_ready_mod [OF d True] divisor_ready_top(1) [OF d] t1 by (auto simp: t2_def)
    next
      case False
      then show ?thesis using short_below [OF d, of t1] t1 by (simp add: t2_def)
    qed
    obtain rp c where r: "mpn_rshift t2 z = (rp, c)" by fastforce
    have "length rp = length t2" "limbs_val rp = limbs_val t2 div 2 ^ z" using mpn_rshift_spec [OF _ _ r] v(2) t2 by simp_all
    moreover have "unshift cfg mp inv32 z xp = rp" using False t r by (simp add: unshift_def t1_def [symmetric] t2_def [symmetric])
    moreover have "limbs_val xp * 2 ^ z mod limbs_val mp = (limbs_val xp mod m) * 2 ^ z" by (simp add: v(1) mult_mod_left)
    ultimately show ?thesis using t2 by simp
  qed
  then show "length (unshift cfg mp inv32 z xp) \<le> length mp" and "limbs_val (unshift cfg mp inv32 z xp) = limbs_val xp mod m"
    by simp_all
qed

section \<open>The modular power\<close>

lemma top_bit_iff:
  assumes "xs \<noteq> []"
  shows "bit (last xs) 63 \<longleftrightarrow> 2 ^ (64 * length xs - 1) \<le> limbs_val xs"
proof -
  obtain ys y where xs: "xs = ys @ [y]" using assms by (cases xs rule: rev_cases) auto
  have "bit y 63 \<longleftrightarrow> bit (unat y) 63" by (simp add: bit_unsigned_iff)
  also have "\<dots> \<longleftrightarrow> odd (unat y div 2 ^ 63)" by (simp only: bit_iff_odd)
  also have "\<dots> \<longleftrightarrow> 2 ^ 63 \<le> unat y"
  proof (cases "2 ^ 63 \<le> unat y")
    case True
    then have "unat y div 2 ^ 63 = 1" using unat_limb_less [of y] by (intro div_nat_eqI) simp_all
    then show ?thesis using True by simp
  qed simp
  also have "\<dots> \<longleftrightarrow> BB ^ length ys * 2 ^ 63 \<le> limbs_val ys + BB ^ length ys * unat y"
  proof
    assume "BB ^ length ys * 2 ^ 63 \<le> limbs_val ys + BB ^ length ys * unat y"
    then have "BB ^ length ys * 2 ^ 63 < BB ^ length ys * Suc (unat y)"
      using limbs_val_lt [of ys] unfolding mult_Suc_right by linarith
    then show "2 ^ 63 \<le> unat y" by (simp only: nat_mult_less_cancel_disj less_Suc_eq_le)
  qed (simp add: trans_le_add2)
  also have "BB ^ length ys * 2 ^ 63 = 2 ^ (64 * length xs - 1)"
  proof -
    have "64 * length xs - 1 = 64 * length ys + 63" by (simp add: xs)
    then show ?thesis by (simp only: power_add BB_power)
  qed
  finally show ?thesis by (simp add: xs limbs_val_snoc)
qed

lemma normalized_modulus:
  assumes m: "mp0 \<noteq> []" "last mp0 \<noteq> 0"
  defines "z \<equiv> count_leading_zeros (mp0 ! (length mp0 - 1))"
  defines "mp \<equiv> (if z \<noteq> 0 then fst (mpn_lshift mp0 z) else mp0)"
  shows "z < 64" and "length mp = length mp0" and "limbs_val mp = limbs_val mp0 * 2 ^ z" and "bit (last mp) 63"
proof -
  have z': "z = count_leading_zeros (last mp0)" using m(1) by (simp add: z_def last_conv_nth)
  show z: "z < 64" using count_leading_zeros_bounds [OF m(2)] by (simp add: z')
  define t where "t = length mp0 * 64 - z"
  have t: "2 ^ (t - 1) \<le> limbs_val mp0" "limbs_val mp0 < 2 ^ t" using limbs_bits [OF m] by (simp_all add: t_def z')
  have len: "1 \<le> length mp0" using m(1) by (cases mp0) auto
  have e: "t - 1 + z = 64 * length mp0 - 1" "t + z = 64 * length mp0" using z len by (simp_all add: t_def)
  have "2 ^ (t - 1) * 2 ^ z \<le> limbs_val mp0 * 2 ^ z" using t(1) by (rule mult_le_mono1)
  then have lo: "2 ^ (64 * length mp0 - 1) \<le> limbs_val mp0 * 2 ^ z" by (simp only: e flip: power_add)
  have "limbs_val mp0 * 2 ^ z < 2 ^ t * 2 ^ z" using t(2) by simp
  then have hi: "limbs_val mp0 * 2 ^ z < BB ^ length mp0" by (simp only: e flip: power_add BB_power)
  have l: "length mp = length mp0 \<and> limbs_val mp = limbs_val mp0 * 2 ^ z"
  proof (cases "z = 0")
    case False
    obtain r c where r: "mpn_lshift mp0 z = (r, c)" by fastforce
    have "length r = length mp0" "limbs_val r + BB ^ length mp0 * unat c = limbs_val mp0 * 2 ^ z"
      using mpn_lshift_spec [OF _ m(1) r] z by simp_all
    moreover from this have "unat c = 0" using hi by (cases "unat c") auto
    ultimately show ?thesis using False r by (simp add: mp_def)
  qed (simp add: mp_def)
  then show "length mp = length mp0" and "limbs_val mp = limbs_val mp0 * 2 ^ z" by simp_all
  have "mp \<noteq> []" using l m(1) by auto
  from top_bit_iff [OF this] show "bit (last mp) 63" using l lo by simp
qed

lemma cfg_ok_mul: "cfg_ok cfg \<Longrightarrow> mul_ok cfg \<and> mod_1_ok cfg"
  by (simp add: cfg_ok_def low_ok_def lo_ok_def)

lemma top_exponent_bit:
  assumes "1 < el"
  defines "c \<equiv> 63 - count_leading_zeros el"
  shows "0 < c" and "c \<le> 63" and "unat (push_bit 1 (push_bit (count_leading_zeros el) el)) = (unat el - 2 ^ c) * 2 ^ (64 - c)"
    and "unat el - 2 ^ c < 2 ^ c" and "2 ^ c \<le> unat el"
proof -
  have "el \<noteq> 0" using assms(1) by auto
  note z = count_leading_zeros_bounds [OF this]
  have cz: "count_leading_zeros el = 63 - c" "c \<le> 63" using z by (simp_all add: c_def)
  have hi: "unat el < 2 ^ Suc c" and lo: "2 ^ c \<le> unat el"
  proof -
    have "Suc c = 64 - count_leading_zeros el" using conjunct1 [OF z] by (simp add: c_def)
    then show "unat el < 2 ^ Suc c" using z by (simp only:)
    show "2 ^ c \<le> unat el" using z by (simp add: c_def)
  qed
  have "1 < unat el" using assms(1) by (simp add: word_less_nat_alt)
  then show "0 < c" using hi by (cases c) auto
  show "c \<le> 63" "2 ^ c \<le> unat el" "unat el - 2 ^ c < 2 ^ c" using cz lo hi by simp_all
  have "unat el * 2 ^ (63 - c) < 2 ^ Suc c * 2 ^ (63 - c)" using hi by simp
  also have "\<dots> = BB" using cz(2) by (simp add: BB_def flip: power_add power_Suc)
  finally have "unat (push_bit (63 - c) el) = unat el * 2 ^ (63 - c)" by (simp add: unat_push_bit_limb)
  from top_bit_split(2) [OF this hi] cz(2)
  have "unat (push_bit 1 (push_bit (63 - c) el)) = (unat el mod 2 ^ c) * 2 ^ (64 - c)" by simp
  also have "unat el mod 2 ^ c = unat el - 2 ^ c" using lo hi by (simp add: mod_nat_eqI)
  finally show "unat (push_bit 1 (push_bit (count_leading_zeros el) el)) = (unat el - 2 ^ c) * 2 ^ (64 - c)" by (simp only: cz(1))
qed

text \<open>The reduced base, the value \<open>x\<close> of the loop, and the sign.\<close>

lemma signed_short_result:
  fixes neg :: bool
  assumes "length xp \<le> length mp" and "limbs_val xp < limbs_val mp" and "limbs_val xp = a ^ e mod limbs_val mp"
  defines "xn \<equiv> MPN_NORMALIZE xp (length xp)"
  defines "res \<equiv> (if odd e \<and> neg \<and> xn \<noteq> 0 then let xp = fst (mpn_sub mp (take xn xp)) in (xp, MPN_NORMALIZE xp (length mp)) else (xp, xn))"
  shows "mpz_wf (set_limbs z (fst res) (snd res)) \<and> 0 \<le> SIZ (set_limbs z (fst res) (snd res))
    \<and> int (mpz_abs (set_limbs z (fst res) (snd res))) = (if neg then - int a else int a) ^ e mod int (limbs_val mp)"
proof -
  define pad where "pad = xp @ replicate (length mp - length xp) 0"
  have p: "length pad = length mp" "limbs_val pad = a ^ e mod limbs_val mp" using assms(1,3) by (simp_all add: pad_def limbs_val_pad)
  have nz: "MPN_NORMALIZE (ys @ replicate k 0) (length ys + k) = MPN_NORMALIZE ys (length ys)" for ys :: "limb list" and k
  proof (induction k)
    case 0
    then show ?case by simp
  next
    case (Suc k)
    have "MPN_NORMALIZE zs n = MPN_NORMALIZE zs' n" if "\<forall>i<n. zs ! i = zs' ! i" for zs zs' :: "limb list" and n
      using that by (induction n) simp_all
    then have "MPN_NORMALIZE (ys @ replicate (Suc k) 0) (length ys + k) = MPN_NORMALIZE (ys @ replicate k 0) (length ys + k)"
      by (auto simp: nth_append nth_Cons' simp del: replicate.simps)
    then show ?case using Suc.IH by (simp add: nth_append del: replicate.simps)
  qed
  have n: "MPN_NORMALIZE pad (length mp) = xn" using nz [of xp "length mp - length xp"] assms(1) by (simp add: pad_def xn_def)
  have "xn \<le> length xp" using MPN_NORMALIZE_spec [of "length xp" xp] by (simp add: xn_def)
  then have tk: "take xn pad = take xn xp" by (simp add: pad_def)
  obtain xs k where r: "signed_result (odd e \<and> neg) mp pad = (xs, k)" by fastforce
  then have "take k xs = take (snd res) (fst res) \<and> k = snd res"
    using tk by (auto simp: signed_result_def n res_def Let_def split: if_splits)
  then have eq: "take k xs = take (snd res) (fst res)" "k = snd res" by blast+
  have "set_limbs z (fst res) (snd res) = set_limbs z xs k" unfolding set_limbs_def eq(2) [symmetric] eq(1) [folded eq(2)] ..
  then show ?thesis using signed_result_power [OF p _ r, of z] assms(2) by simp
qed

lemma mpz_powm_ui_spec:
  assumes cfg: "cfg_ok (limb_cfg cfg)" and dv: "div_ok cfg" and wf: "mpz_wf b" "mpz_wf m"
    and m: "SIZ m \<noteq> 0" "ABSIZ m < 2 ^ 31" and el: "1 < el"
  shows "\<exists>z. mpz_powm_ui cfg r b el m = Some (Inr z) \<and> mpz_wf z \<and> 0 \<le> SIZ z
    \<and> int (mpz_abs z) = mpz_int b ^ unat el mod int (mpz_abs m)"
proof (cases "el < 20")
  case False
  define e where "e = \<lparr>ALLOC = 1, SIZ = 1, PTR = [el]\<rparr>"
  have "el \<noteq> 0" using el by auto
  then have e: "mpz_wf e" "mpz_abs e = unat el" "0 \<le> SIZ e" by (simp_all add: e_def mpz_wf_def mpz_abs_def)
  have "mpz_powm_ui cfg r b el m = mpz_powm (limb_cfg cfg) r b e m" using False \<open>el \<noteq> 0\<close> by (simp add: mpz_powm_ui_def e_def)
  then show ?thesis using mpz_powm_spec [OF cfg wf(1) e(1) wf(2) m e(3), of r] e(2) by simp
next
  case small: True
  note mw = mpz_wf_limbs [OF wf(2)] and bw = mpz_wf_limbs [OF wf(1)]
  define mp0 mn where "mp0 = PTR m" and "mn = length mp0"
  have mp0: "mp0 \<noteq> []" "last mp0 \<noteq> 0" "ABSIZ m = mn" "mn \<noteq> 0" using mw m(1) by (auto simp: mp0_def mn_def)
  define z where "z = count_leading_zeros (mp0 ! (mn - 1))"
  define mp where "mp = (if z \<noteq> 0 then fst (mpn_lshift mp0 z) else mp0)"
  note nm = normalized_modulus [OF mp0(1,2), folded mn_def, folded z_def, folded mp_def]
  define inv32 where "inv32 = invert_pi1 (mp ! (mn - 1)) (if mn = 1 then 0 else mp ! (mn - 2))"
  have d: "divisor_ready cfg mp inv32" using dv nm mp0 by (auto simp: divisor_ready_def inv32_def mn_def)
  define bp where "bp = (if ABSIZ b > mn then let new_bp = mod_limbs cfg (PTR b) mp inv32 in take (MPN_NORMALIZE new_bp mn) new_bp else PTR b)"
  have bp: "length bp \<le> length mp" "limbs_val bp mod limbs_val mp0 = mpz_abs b mod limbs_val mp0"
  proof -
    have "length bp \<le> length mp \<and> limbs_val bp mod limbs_val mp0 = mpz_abs b mod limbs_val mp0"
    proof (cases "ABSIZ b > mn")
      case True
      define nb where "nb = mod_limbs cfg (PTR b) mp inv32"
      have nb: "length nb = mn" "limbs_val nb = mpz_abs b mod limbs_val mp"
        using divisor_ready_mod [OF d, of "PTR b"] True bw(1) nm(2) by (simp_all add: nb_def mpz_abs_def)
      have "limbs_val nb mod limbs_val mp0 = mpz_abs b mod limbs_val mp0" by (simp add: nb(2) nm(3) mod_mod_cancel)
      then show ?thesis using True MPN_NORMALIZE_spec [of mn nb] nb(1) nm(2) by (simp add: bp_def nb_def [symmetric] Let_def)
    next
      case False
      then show ?thesis using bw(1) nm(2) by (simp add: bp_def mpz_abs_def)
    qed
    then show "length bp \<le> length mp" "limbs_val bp mod limbs_val mp0 = mpz_abs b mod limbs_val mp0" by simp_all
  qed
  have M: "mpz_abs m = limbs_val mp0" by (simp add: mpz_abs_def mp0_def)
  have el0: "unat el \<noteq> 0" using el by (auto simp: word_less_nat_alt)
  have step: "mpz_powm_ui cfg r b el m =
    (if bp = [] then Some (Inr (set_limbs r [] 0))
     else let xp = unshift cfg mp inv32 z (powm_ui_loop cfg mp inv32 bp (63 - count_leading_zeros el)
              (push_bit 1 (push_bit (count_leading_zeros el) el)) bp);
            xn = MPN_NORMALIZE xp (length xp);
            (xp, xn) = (if el AND 1 \<noteq> 0 \<and> SIZ b < 0 \<and> xn \<noteq> 0
              then let xp = fst (mpn_sub mp0 (take xn xp)) in (xp, MPN_NORMALIZE xp mn) else (xp, xn))
          in Some (Inr (set_limbs (MPZ_NEWALLOC r xn) xp xn)))"
    using small el mp0(4)
    unfolding mpz_powm_ui_def Let_def mp0(3) mp0_def [symmetric] z_def [symmetric] mp_def [symmetric]
      inv32_def [symmetric] bp_def [unfolded Let_def, symmetric] by (simp add: not_le)
  show ?thesis
  proof (cases "bp = []")
    case True
    then have "mpz_abs b mod limbs_val mp0 = 0" using bp(2) by simp
    then have "limbs_val mp0 dvd mpz_abs b" by (simp add: mod_eq_0_iff_dvd)
    then have "limbs_val mp0 dvd mpz_abs b ^ unat el" by (rule dvd_trans) (use el0 in \<open>simp add: dvd_power\<close>)
    then have "int (limbs_val mp0) dvd int (mpz_abs b) ^ unat el" by (simp only: of_nat_dvd_iff flip: of_nat_power)
    moreover have "\<bar>mpz_int b ^ unat el\<bar> = int (mpz_abs b) ^ unat el" by (simp add: mpz_int_def power_abs)
    ultimately have "int (limbs_val mp0) dvd mpz_int b ^ unat el" by (metis dvd_abs_iff)
    then have "mpz_int b ^ unat el mod int (mpz_abs m) = 0" unfolding M by (rule dvd_imp_mod_0)
    then show ?thesis using True step by (simp add: set_limbs_def mpz_wf_def mpz_abs_def [of "_\<lparr>PTR := _\<rparr>"])
  next
    case False
    note te = top_exponent_bit [OF el]
    define c where "c = 63 - count_leading_zeros el"
    define x where "x = powm_ui_loop cfg mp inv32 bp c (push_bit 1 (push_bit (count_leading_zeros el) el)) bp"
    have mul: "mul_ok (limb_cfg cfg)" using cfg_ok_mul [OF cfg] by simp
    have "length x \<le> length mp \<and> length bp \<le> length x \<and> limbs_val x = limbs_val bp ^ (2 ^ c) * limbs_val bp ^ (unat el - 2 ^ c) mod limbs_val mp"
      unfolding x_def using te bp(1) by (intro powm_ui_loop_spec [OF d mul False bp(1)]) (simp_all add: c_def)
    moreover have "limbs_val bp ^ (2 ^ c) * limbs_val bp ^ (unat el - 2 ^ c) = limbs_val bp ^ unat el"
      using te(5) by (simp add: c_def flip: power_add)
    ultimately have x: "length x \<le> length mp" "x \<noteq> []" "limbs_val x = limbs_val bp ^ unat el mod limbs_val mp" using False by auto
    define y where "y = unshift cfg mp inv32 z x"
    have "limbs_val x < limbs_val mp" using x(3) divisor_ready_top(3) [OF d] by simp
    note y = unshift_spec [OF d nm(3,1) x(1) this x(2), folded y_def]
    have yv: "limbs_val y = mpz_abs b ^ unat el mod limbs_val mp0"
      using y(2) x(3) bp(2) by (simp add: nm(3) mod_mod_cancel) (metis power_mod)
    have "limbs_val y < limbs_val mp0" using yv limbs_val_pos [OF mp0(1,2)] by simp
    have odd: "el AND 1 \<noteq> 0 \<longleftrightarrow> odd (unat el)" using odd_exponent [of "[el]"] by simp
    define xn where "xn = MPN_NORMALIZE y (length y)"
    define res where "res = (if odd (unat el) \<and> SIZ b < 0 \<and> xn \<noteq> 0
      then let xp = fst (mpn_sub mp0 (take xn y)) in (xp, MPN_NORMALIZE xp (length mp0)) else (y, xn))"
    have "mpz_powm_ui cfg r b el m = Some (Inr (set_limbs (MPZ_NEWALLOC r (snd res)) (fst res) (snd res)))"
      unfolding step Let_def c_def [symmetric] x_def [symmetric] y_def [symmetric] xn_def [symmetric] odd mn_def res_def
      using False by (simp add: split_beta)
    moreover have "length y \<le> length mp0" using y(1) nm(2) by (simp add: mn_def)
    note sr = signed_short_result [where neg = "SIZ b < 0" and z = "MPZ_NEWALLOC r (snd res)",
      OF this \<open>limbs_val y < limbs_val mp0\<close> yv, folded xn_def, folded res_def]
    ultimately show ?thesis using sr by (auto simp: M mpz_int_def)
  qed
qed

end
