(* ===== verification/Prime_Numbers.thy ===== *)
theory Prime_Numbers
  imports Complex_Main
begin

text \<open>
  Primes, as far as the primality test of \<open>mpz/millerrabin.c\<close> and the search of
  \<open>mpz/nextprime.c\<close> rest on them: Euclid's lemma, Fermat's little theorem, the square roots of
  one, and a bound on the next prime that is polynomial in the number.
\<close>

definition is_prime :: "nat \<Rightarrow> bool" where
  "is_prime p \<longleftrightarrow> 1 < p \<and> (\<forall>d. d dvd p \<longrightarrow> d = 1 \<or> d = p)"

lemma is_prime_gt1: "is_prime p \<Longrightarrow> 1 < p"
  by (simp add: is_prime_def)

lemma is_primeI: "1 < p \<Longrightarrow> (\<And>d. d dvd p \<Longrightarrow> 1 < d \<Longrightarrow> d < p \<Longrightarrow> False) \<Longrightarrow> is_prime p"
  unfolding is_prime_def
proof (intro conjI allI impI)
  fix d assume p: "1 < p" "\<And>d. d dvd p \<Longrightarrow> 1 < d \<Longrightarrow> d < p \<Longrightarrow> False" and d: "d dvd p"
  have "d \<le> p" "d \<noteq> 0" using p(1) d dvd_imp_le [OF d] by (auto intro: gr0I)
  then show "d = 1 \<or> d = p" using p(2) [OF d] by (cases "1 < d"; cases "d < p") auto
qed

lemma not_prime_divisor: "\<not> is_prime p \<Longrightarrow> 1 < p \<Longrightarrow> \<exists>d. d dvd p \<and> 1 < d \<and> d < p"
  using is_primeI by blast

lemma even_not_prime: "even n \<Longrightarrow> 2 < n \<Longrightarrow> \<not> is_prime n"
  unfolding is_prime_def by (auto intro!: exI [of _ 2])

lemma prime_coprime: "is_prime p \<Longrightarrow> \<not> p dvd a \<Longrightarrow> coprime p a"
  unfolding is_prime_def coprime_def by auto

lemma prime_dvd_mult: "is_prime p \<Longrightarrow> p dvd a * b \<Longrightarrow> p dvd a \<or> p dvd b"
  using prime_coprime coprime_dvd_mult_right_iff by blast

lemma prime_dvd_power: "is_prime p \<Longrightarrow> p dvd a ^ n \<Longrightarrow> p dvd a"
proof (induction n)
  case 0
  then show ?case using is_prime_gt1 by fastforce
next
  case (Suc n)
  then show ?case using prime_dvd_mult [of p a "a ^ n"] by auto
qed

lemma prime_factor: "1 < n \<Longrightarrow> \<exists>p. is_prime p \<and> p dvd n"
proof (induction n rule: less_induct)
  case (less n)
  show ?case
  proof (cases "is_prime n")
    case False
    then obtain d where "d dvd n" "1 < d" "d < n" using not_prime_divisor less.prems by blast
    then show ?thesis using less.IH [of d] dvd_trans by blast
  qed auto
qed

lemma small_factor:
  assumes "1 < n" and "\<not> is_prime n"
  shows "\<exists>p. is_prime p \<and> p dvd n \<and> p * p \<le> n"
proof -
  obtain d where d: "d dvd n" "1 < d" "d < n" using not_prime_divisor assms by blast
  obtain e where e: "n = d * e" using d(1) by (auto elim: dvdE)
  have e1: "1 < e" using e d by (cases "e = 0"; cases "e = 1") auto
  define c where "c = min d e"
  have c: "1 < c" "c dvd n" "c * c \<le> n"
  proof -
    show "1 < c" using d(2) e1 by (simp add: c_def)
    show "c dvd n" by (simp add: c_def min_def e)
    show "c * c \<le> n" unfolding e by (rule mult_le_mono) (simp_all add: c_def)
  qed
  obtain p where p: "is_prime p" "p dvd c" using prime_factor [OF c(1)] by blast
  have "p \<le> c" using p(2) c(1) by (simp add: dvd_imp_le)
  then have "p * p \<le> c * c" by (rule mult_le_mono) fact
  then have "p * p \<le> n" using c(3) by (rule le_trans)
  moreover have "p dvd n" using p(2) c(2) by (rule dvd_trans)
  ultimately show ?thesis using p(1) by auto
qed

section \<open>Fermat's little theorem\<close>

lemma prime_dvd_choose:
  assumes "is_prime p" and "0 < k" and "k < p"
  shows "p dvd p choose k"
proof -
  have "p dvd k * (p choose k)" using times_binomial_minus1_eq [OF assms(2), of p] by simp
  moreover have "\<not> p dvd k" using assms(2,3) by (auto dest: dvd_imp_le)
  ultimately show ?thesis using prime_dvd_mult [OF assms(1)] by blast
qed

lemma fermat_all:
  assumes p: "is_prime p"
  shows "a ^ p mod p = a mod p"
proof (induction a)
  case 0
  then show ?case using is_prime_gt1 [OF p] by (simp add: power_0_left)
next
  case (Suc a)
  have p1: "0 < p" "1 < p" using is_prime_gt1 [OF p] by simp_all
  have "(a + 1) ^ p = (\<Sum>k\<le>p. (p choose k) * a ^ k)" using binomial [of a 1 p] by simp
  also have "\<dots> = (\<Sum>k<p. (p choose k) * a ^ k) + a ^ p" by (simp add: lessThan_Suc_atMost [symmetric])
  also have "(\<Sum>k<p. (p choose k) * a ^ k) = 1 + (\<Sum>k=1..<p. (p choose k) * a ^ k)"
    using p1 by (simp add: sum.atLeast_Suc_lessThan lessThan_atLeast0)
  finally have e: "(a + 1) ^ p = (\<Sum>k=1..<p. (p choose k) * a ^ k) + (a ^ p + 1)" by simp
  have "p dvd (\<Sum>k=1..<p. (p choose k) * a ^ k)"
  proof (rule dvd_sum)
    fix k assume "k \<in> {1..<p}"
    then show "p dvd (p choose k) * a ^ k" by (intro dvd_mult2 prime_dvd_choose [OF p]) simp_all
  qed
  then have "(a + 1) ^ p mod p = (a ^ p + 1) mod p" unfolding e by (auto elim: dvdE)
  also have "\<dots> = (a + 1) mod p" using Suc.IH by (metis mod_add_left_eq)
  finally show ?case by simp
qed

lemma fermat:
  assumes "is_prime p" and "\<not> p dvd a"
  shows "a ^ (p - 1) mod p = 1"
proof -
  have p: "1 < p" using is_prime_gt1 [OF assms(1)] .
  then have e: "a ^ p = a * a ^ (p - 1)" by (simp add: power_eq_if)
  have a1: "1 \<le> a ^ (p - 1)" using assms(2) by (cases "a = 0") (simp_all add: Suc_leI)
  then have le: "a * 1 \<le> a * a ^ (p - 1)" by (rule mult_le_mono2)
  have "p dvd a * a ^ (p - 1) - a * 1"
    by (rule mod_eq_dvd_iff_nat [OF le, THEN iffD1]) (use fermat_all [OF assms(1), of a] e in simp)
  then have "p dvd a * (a ^ (p - 1) - 1)" by (simp add: diff_mult_distrib2)
  then have "p dvd a ^ (p - 1) - 1" using prime_dvd_mult assms by blast
  then have "a ^ (p - 1) mod p = 1 mod p" by (rule mod_eq_dvd_iff_nat [OF a1, THEN iffD2])
  then show ?thesis using p by simp
qed

lemma root_of_one:
  assumes "is_prime p" and "y < p" and "y * y mod p = 1"
  shows "y = 1 \<or> y = p - 1"
proof -
  have p: "1 < p" using is_prime_gt1 [OF assms(1)] .
  have y: "1 \<le> y" using assms(3) by (cases y) auto
  then have yy: "1 \<le> y * y" by (simp add: Suc_leI)
  have "y * y mod p = 1 mod p" using assms(3) p by simp
  then have "p dvd y * y - 1" by (rule mod_eq_dvd_iff_nat [OF yy, THEN iffD1])
  also have "y * y - 1 = (y - 1) * (y + 1)" using y by (simp add: algebra_simps)
  finally have "p dvd y - 1 \<or> p dvd y + 1" using prime_dvd_mult [OF assms(1)] by blast
  then show ?thesis
  proof
    assume "p dvd y - 1"
    moreover have "y - 1 < p" using assms(2) by simp
    ultimately have "y - 1 = 0" by (metis dvd_imp_le not_gr_zero not_less)
    then show ?thesis using y by simp
  next
    assume "p dvd y + 1"
    then have "p \<le> y + 1" by (rule dvd_imp_le) simp
    then show ?thesis using assms(2) by arith
  qed
qed

section \<open>The next prime is not far\<close>

lemma prime_part:
  assumes "is_prime p" and "0 < (a :: nat)"
  obtains i a' where "a = p ^ i * a'" and "\<not> p dvd a'"
  using assms(2)
proof (induction a arbitrary: thesis rule: less_induct)
  case (less a)
  show ?case
  proof (cases "p dvd a")
    case True
    then obtain b where b: "a = p * b" by (auto elim: dvdE)
    then have "0 < b" "b < a" using less.prems(2) is_prime_gt1 [OF assms(1)] by auto
    then obtain i a' where "b = p ^ i * a'" "\<not> p dvd a'" using less.IH [of b] by blast
    then show ?thesis using less.prems(1) [of "Suc i" a'] b by simp
  next
    case False
    then show ?thesis using less.prems(1) [of 0 a] by simp
  qed
qed

lemma prime_power_bound:
  assumes "is_prime p" and "\<not> p dvd c" and "p ^ e dvd p ^ i * c"
  shows "e \<le> i"
proof (rule ccontr)
  assume "\<not> e \<le> i"
  then have "p ^ e = p ^ i * (p * p ^ (e - i - 1))" by (simp flip: power_add power_Suc)
  then have "p ^ i * (p * p ^ (e - i - 1)) dvd p ^ i * c" using assms(3) by simp
  moreover have "p \<noteq> 0" using is_prime_gt1 [OF assms(1)] by simp
  ultimately have "p * p ^ (e - i - 1) dvd c" by simp
  then show False using assms(2) dvd_mult_left by blast
qed

lemma prime_power_dvd_lcm:
  assumes p: "is_prime p" and ab: "0 < a" "0 < b" and d: "p ^ e dvd lcm a b"
  shows "p ^ e dvd a \<or> p ^ e dvd b"
proof -
  obtain i a' where a: "a = p ^ i * a'" "\<not> p dvd a'" using prime_part [OF p ab(1)] .
  obtain j b' where b: "b = p ^ j * b'" "\<not> p dvd b'" using prime_part [OF p ab(2)] .
  define k where "k = max i j"
  have c: "\<not> p dvd a' * b'" using a(2) b(2) prime_dvd_mult [OF p] by blast
  have pw: "p ^ i dvd p ^ k" "p ^ j dvd p ^ k" by (simp_all add: k_def le_imp_power_dvd)
  have "a dvd p ^ k * (a' * b')" unfolding a(1) by (rule mult_dvd_mono) (simp_all add: pw)
  moreover have "b dvd p ^ k * (a' * b')" unfolding b(1) by (rule mult_dvd_mono) (simp_all add: pw)
  ultimately have "p ^ e dvd p ^ k * (a' * b')" using d by (meson dvd_trans lcm_least)
  then have "e \<le> k" by (rule prime_power_bound [OF p c])
  then have "e \<le> i \<or> e \<le> j" by (simp add: k_def le_max_iff_disj)
  then show ?thesis unfolding a(1) b(1) by (auto intro: le_imp_power_dvd dvd_mult2)
qed

lemma prime_power_dvd_Lcm:
  assumes "is_prime p" and "finite S" and "0 \<notin> S" and "p ^ e dvd Lcm S" and "0 < e"
  shows "\<exists>i\<in>S. p ^ e dvd (i :: nat)"
  using assms(2-4)
proof (induction S rule: finite_induct)
  case empty
  then show ?case using is_prime_gt1 [OF assms(1)] assms(5) by simp
next
  case (insert a S)
  have "Lcm S \<noteq> 0" using Lcm_0_iff [OF insert.hyps(1)] insert.prems(1) by simp
  then have "0 < Lcm S" by simp
  then show ?case using prime_power_dvd_lcm [OF assms(1), of a "Lcm S" e] insert by auto
qed

lemma smooth_bound:
  assumes "finite S" and "0 < M"
  shows "0 < D \<Longrightarrow> (\<And>p. is_prime p \<Longrightarrow> p dvd D \<Longrightarrow> p \<in> S) \<Longrightarrow> (\<And>p e. is_prime p \<Longrightarrow> p ^ e dvd D \<Longrightarrow> p ^ e \<le> M)
    \<Longrightarrow> D \<le> M ^ card S"
  using assms(1)
proof (induction S arbitrary: D rule: finite_induct)
  case empty
  then have "\<not> 1 < D" using prime_factor [of D] by blast
  then show ?case by simp
next
  case (insert p F)
  show ?case
  proof (cases "is_prime p")
    case False
    then have "D \<le> M ^ card F" using insert.prems by (intro insert.IH) auto
    also have "\<dots> \<le> M ^ Suc (card F)" using assms(2) by simp
    finally show ?thesis using insert.hyps by simp
  next
    case True
    obtain i D' where d: "D = p ^ i * D'" "\<not> p dvd D'" using prime_part [OF True insert.prems(1)] .
    have "D' \<le> M ^ card F"
    proof (rule insert.IH)
      show "0 < D'" using d insert.prems(1) by (cases D') auto
      fix q assume q: "is_prime q"
      show "q dvd D' \<Longrightarrow> q \<in> F" using insert.prems(2) [OF q] d by auto
      show "q ^ e dvd D' \<Longrightarrow> q ^ e \<le> M" for e using insert.prems(3) [OF q, of e] d(1) by simp
    qed
    moreover have "p ^ i \<le> M" using insert.prems(3) [OF True, of i] d(1) by simp
    ultimately show ?thesis using d(1) insert.hyps by (simp add: mult_le_mono)
  qed
qed

lemma harmonic_triangle:
  assumes "\<And>i. 0 < i \<Longrightarrow> i \<le> M \<Longrightarrow> i dvd L" and "0 < k" and "k \<le> m" and "m \<le> M"
  shows "k * (m choose k) dvd (L :: nat)"
  using assms(2-4)
proof (induction k arbitrary: m)
  case (Suc k)
  show ?case
  proof (cases "k = 0")
    case True
    then show ?thesis using assms(1) [of m] Suc.prems by simp
  next
    case False
    obtain m' where m: "m = Suc m'" using Suc.prems by (cases m) auto
    define a b c d where "a = k * (m' choose k)" and "b = k * (m choose k)" and "c = Suc k * (m choose Suc k)"
      and "d = k * (m' choose (k - 1))"
    have d: "0 < d" using False Suc.prems m by (simp add: d_def)
    obtain u where u: "L = a * u" using Suc.IH [of m'] Suc.prems m False by (auto simp: a_def elim: dvdE)
    obtain v where v: "L = b * v" using Suc.IH [of m] Suc.prems False by (auto simp: b_def elim: dvdE)
    have c: "c = Suc m' * (m' choose k)" using binomial_absorption [of k m] by (simp add: c_def m)
    have b: "b = a + d" using False by (cases k) (simp_all add: a_def b_def d_def m algebra_simps)
    have e: "k * (m choose k) = Suc m' * (m' choose (k - 1))"
      using binomial_absorption [of "k - 1" "Suc m'"] False by (simp add: m)
    have ab: "a * b = c * d" unfolding c a_def b_def d_def e by (simp only: mult_ac)
    have "L * d + L * a = L * b" by (simp add: b algebra_simps)
    also have "L * a = c * d * v" unfolding v ab [symmetric] by (simp only: mult_ac)
    also have "L * b = c * d * u" unfolding u ab [symmetric] by (simp only: mult_ac)
    finally have "d * (L + c * v) = d * (c * u)" by (simp add: algebra_simps)
    then have "L + c * v = c * u" using d by simp
    then have "c dvd L + c * v" by simp
    then show ?thesis unfolding c_def by (metis dvd_add_left_iff dvd_triv_left)
  qed
qed simp

lemma next_prime_bound:
  assumes "7 \<le> n"
  shows "\<exists>q. is_prime q \<and> n < q \<and> q \<le> 2 * n * n"
proof (rule ccontr)
  assume no: "\<not> ?thesis"
  define N where "N = n * n"
  define D where "D = N * (2 * N choose N)"
  define L where "L = Lcm {1 .. 2 * N}"
  have N: "0 < N" using assms by (simp add: N_def)
  have dvd: "D dvd L" unfolding D_def
  proof (rule harmonic_triangle)
    show "i dvd L" if "0 < i" "i \<le> 2 * N" for i using that by (simp add: L_def)
  qed (use N in simp_all)
  have pw: "p ^ e \<le> 2 * N" if is_prime: "is_prime p" and "p ^ e dvd D" for p e
  proof (cases "e = 0")
    case False
    have "p ^ e dvd Lcm {1 .. 2 * N}" using dvd_trans [OF that(2) dvd] by (simp add: L_def)
    then obtain i where "i \<in> {1 .. 2 * N}" "p ^ e dvd i"
      using prime_power_dvd_Lcm [of p "{1 .. 2 * N}" e] is_prime False by auto
    then show ?thesis by (auto dest: dvd_imp_le)
  qed (use N in simp)
  have "D \<le> (2 * N) ^ card {p. is_prime p \<and> p \<le> n}"
  proof (rule smooth_bound)
    show "p \<in> {p. is_prime p \<and> p \<le> n}" if "is_prime p" "p dvd D" for p
    proof -
      have "p \<le> 2 * n * n" using pw [OF that(1), of 1] that(2) by (simp add: N_def)
      then show ?thesis using no that(1) by (auto simp: not_less)
    qed
  qed (use N pw in \<open>simp_all add: D_def\<close>)
  also have "card {p. is_prime p \<and> p \<le> n} \<le> card {1 .. n}"
    by (rule card_mono) (use is_prime_gt1 in force)+
  then have "(2 * N) ^ card {p. is_prime p \<and> p \<le> n} \<le> (2 * N) ^ n" using N by (intro power_increasing) simp_all
  finally have up: "D \<le> (2 * N) ^ n" .
  have "4 ^ N \<le> 2 * real N * real (2 * N choose N)"
    using central_binomial_lower_bound [OF N] N by (simp add: field_simps)
  then have "real (4 ^ N) \<le> real (2 * D)" by (simp add: D_def)
  then have lo: "4 ^ N \<le> 2 * D" by (simp only: of_nat_le_iff)
  have four: "4 * k * k < (4 :: nat) ^ k" if "7 \<le> k" for k
    using that
  proof (induction k rule: dec_induct)
    case (step k)
    have "k * 7 \<le> k * k" using step.hyps(1) by (rule mult_le_mono2)
    moreover have "4 * (k * k) < 4 ^ k" using step.IH by (simp only: mult.assoc)
    moreover have "4 * Suc k * Suc k = 4 * (k * k) + 8 * k + 4" "(4 :: nat) ^ Suc k = 4 * 4 ^ k" by (simp_all add: algebra_simps)
    ultimately show ?case using step.hyps(1) by linarith
  qed simp
  have "2 * (2 * N) ^ n \<le> 2 ^ n * (2 * N) ^ n" using assms by (intro mult_le_mono1 self_le_power) simp_all
  then have "2 * (2 * N) ^ n \<le> (2 * (2 * N)) ^ n" by (simp only: power_mult_distrib [of 2 "2 * N"])
  also have "\<dots> < (4 ^ n) ^ n" using four [OF assms] assms by (intro power_strict_mono) (simp_all add: N_def)
  also have "\<dots> = 4 ^ N" by (simp add: N_def power_mult)
  finally show False using lo up by linarith
qed

end
