(* ===== verification/Gmp_Millerrabin.thy ===== *)
theory Gmp_Millerrabin
  imports Gmp_Powm_Ui Prime_Numbers
begin

text \<open>
  The primality test of \<open>mpz/millerrabin.c\<close>: a strong test to the base 2, a Lucas test, which is a
  field of the configuration, and above \<open>35 * 2 ^ 46\<close> strong tests to random bases.  The test
  terminates, and it never rejects a prime: the squarings that follow the power \<open>x ^ q\<close> pass
  through \<open>- 1\<close> because a prime has no other square roots of one.
\<close>

section \<open>Definitions\<close>

definition mod_eq_m1 :: "mpz \<Rightarrow> mpz \<Rightarrow> bool" where
  "mod_eq_m1 x m \<longleftrightarrow>
     (let ms = SIZ m; mp = PTR m; xp = PTR x
      in if SIZ x \<noteq> ms then False
         else if xp ! 0 XOR 1 XOR mp ! 0 \<noteq> 0 then False
         else mpn_cmp (tl xp) (tl mp) = 0)"

fun millerrabin_squares :: "prime_cfg \<Rightarrow> mpz \<Rightarrow> nat \<Rightarrow> mpz \<Rightarrow> int run" where
  "millerrabin_squares cfg n 0 y = Some (Inr 0)"
| "millerrabin_squares cfg n (Suc i) y =
     bindR (mpz_powm_ui cfg y y 2 n)
       (\<lambda>y. if mod_eq_m1 y n then Some (Inr 1) else millerrabin_squares cfg n i y)"

definition millerrabin :: "prime_cfg \<Rightarrow> mpz \<Rightarrow> mpz \<Rightarrow> mpz \<Rightarrow> mpz \<Rightarrow> nat \<Rightarrow> int run" where
  "millerrabin cfg n x y q k =
     bindR (mpz_powm (limb_cfg cfg) y x q n)
       (\<lambda>y. if mpz_cmp_ui y 1 = 0 \<or> mod_eq_m1 y n then Some (Inr 1) else millerrabin_squares cfg n (k - 1) y)"

text \<open>The temporaries: only their allocation is set.\<close>

definition MPZ_TMP_INIT :: "nat \<Rightarrow> mpz" where
  "MPZ_TMP_INIT limbs = \<lparr>ALLOC = limbs, SIZ = 0, PTR = []\<rparr>"

fun random_rounds :: "prime_cfg \<Rightarrow> mpz \<Rightarrow> mpz \<Rightarrow> mpz \<Rightarrow> mpz \<Rightarrow> mpz \<Rightarrow> nat \<Rightarrow> nat \<Rightarrow> rng \<Rightarrow> int run" where
  "random_rounds cfg n nm x y q k reps rstate =
     bindR (Some (mpz_urandomm x rstate nm))
       (\<lambda>(x, rstate). let x = mpz_add_ui x x 3
          in bindR (millerrabin cfg n x y q k)
               (\<lambda>is_prime. if 0 < reps - 1 \<and> is_prime \<noteq> 0
                  then random_rounds cfg n nm x y q k (reps - 1) rstate else Some (Inr is_prime)))"

declare random_rounds.simps [simp del]

definition mpz_millerrabin :: "prime_cfg \<Rightarrow> mpz \<Rightarrow> int \<Rightarrow> int run" where
  "mpz_millerrabin cfg n reps =
     (let sz = nat (SIZ n);
        nm = mpz_tdiv_q_2exp (MPZ_TMP_INIT (sz + 1)) n 1;
        x = MPZ_TMP_INIT (sz + 1); y = MPZ_TMP_INIT (2 * sz); q = MPZ_TMP_INIT sz
      in case mpn_scan1 (PTR nm) 0 of
           None \<Rightarrow> Some (Inl (Undefined OutOfBounds))
         | Some k \<Rightarrow>
             let q = mpz_tdiv_q_2exp q nm k; k = k + 1; x = mpz_set_ui x 2
             in bindR (millerrabin cfg n x y q k)
                  (\<lambda>r. let is_prime = (if r \<noteq> 0 \<and> mpz_stronglucas cfg n \<noteq> 0 then 1 else 0)
                     in if is_prime \<noteq> 0
                        then if SIZ n = of_bool (PTR n ! 0 < push_bit 46 35) then Some (Inr 2)
                             else let reps = reps - 24
                               in if reps > 0
                                  then random_rounds cfg n (mpz_sub_ui nm nm 2) x y q k (nat reps) gmp_randinit_mt
                                  else Some (Inr is_prime)
                        else Some (Inr is_prime)))"

section \<open>One less than the modulus\<close>

lemma odd_xor_one: "odd (unat (m :: limb)) \<Longrightarrow> m XOR 1 = m - 1"
  using even_limb [of m] by (simp add: xor_one_eq even_iff_mod_2_eq_zero)

lemma xor_zero_iff: "a XOR 1 XOR b = 0 \<longleftrightarrow> a = b XOR (1 :: limb)"
proof
  assume z: "a XOR 1 XOR b = 0"
  have "a = (a XOR 1 XOR b) XOR (b XOR 1)" by (rule bit_eqI) (auto simp: bit_xor_iff)
  then show "a = b XOR 1" by (simp add: z)
qed (auto intro!: bit_eqI simp: bit_xor_iff)

lemma mod_eq_m1_spec:
  assumes "mpz_wf x" and "mpz_wf m" and "0 \<le> SIZ x" and "0 < SIZ m" and "odd (mpz_abs m)" and "1 < mpz_abs m"
  shows "mod_eq_m1 x m \<longleftrightarrow> mpz_abs x = mpz_abs m - 1"
proof -
  note xw = mpz_wf_limbs [OF assms(1)] and mw = mpz_wf_limbs [OF assms(2)]
  obtain m0 ms where mp: "PTR m = m0 # ms" using mw(3) assms(4) by (cases "PTR m") auto
  have ml: "length (PTR m) = nat (SIZ m)" using mw(1) assms(4) by (simp add: ABSIZ_def)
  have xl: "length (PTR x) = nat (SIZ x)" using xw(1) assms(3) by (simp add: ABSIZ_def)
  have m0: "odd (unat m0)" using assms(5) by (simp add: mpz_abs_def mp BB_def)
  then have "m0 \<noteq> 0" by auto
  then have d: "unat (m0 - 1) = unat m0 - 1" "1 \<le> unat m0" using unat_gt_0 [of m0] by (simp_all add: unat_minus_one Suc_le_eq)
  show ?thesis
  proof (cases "SIZ x = SIZ m")
    case True
    then obtain x0 xs where xp: "PTR x = x0 # xs" using xw(3) assms(4) by (cases "PTR x") auto
    have l: "length xs = length ms" using xl ml True by (simp add: xp mp)
    have "mod_eq_m1 x m \<longleftrightarrow> x0 = m0 - 1 \<and> mpn_cmp xs ms = 0"
      using True by (simp add: mod_eq_m1_def xp mp xor_zero_iff odd_xor_one [OF m0])
    also have "mpn_cmp xs ms = 0 \<longleftrightarrow> limbs_val xs = limbs_val ms" using l by (simp add: mpn_cmp_def cmp_loop_spec)
    also have "x0 = m0 - 1 \<longleftrightarrow> unat x0 = unat m0 - 1" by (simp only: word_unat_eq_iff d)
    also have "unat x0 = unat m0 - 1 \<and> limbs_val xs = limbs_val ms \<longleftrightarrow> mpz_abs x = mpz_abs m - 1"
    proof
      assume "mpz_abs x = mpz_abs m - 1"
      then have e: "unat x0 + BB * limbs_val xs = (unat m0 - 1) + BB * limbs_val ms" using d by (simp add: mpz_abs_def xp mp)
      then have "unat x0 = unat m0 - 1"
        by (rule below_radix_unique) (use unat_lt_BB [of x0] unat_lt_BB [of m0] in simp_all)
      then show "unat x0 = unat m0 - 1 \<and> limbs_val xs = limbs_val ms" using e by simp
    qed (use d in \<open>simp add: mpz_abs_def xp mp\<close>)
    finally show ?thesis .
  next
    case False
    have "mpz_abs x \<noteq> mpz_abs m - 1"
    proof
      assume e: "mpz_abs x = mpz_abs m - 1"
      define n where "n = length (PTR m)"
      have n: "0 < n" "n = nat (SIZ m)" using ml by (simp_all add: n_def mp)
      have "BB ^ (n - 1) \<le> mpz_abs m" using limbs_val_ge [of "PTR m"] mw(2) by (simp add: n_def mp mpz_abs_def)
      moreover have "BB ^ (n - 1) \<noteq> mpz_abs m"
      proof (cases "n = 1")
        case False
        then have "even (BB ^ (n - 1))" using n by (simp add: BB_def)
        then show ?thesis using assms(5) by metis
      qed (use assms(6) in simp)
      ultimately have lo: "BB ^ (n - 1) \<le> mpz_abs x" using e by linarith
      have hi: "mpz_abs x < BB ^ n" using e limbs_val_lt [of "PTR m"] assms(6) by (simp add: n_def mpz_abs_def)
      define k where "k = length (PTR x)"
      have "PTR x \<noteq> []" using lo by (auto simp: mpz_abs_def)
      then have k: "BB ^ (k - 1) \<le> mpz_abs x" "mpz_abs x < BB ^ k" "0 < k"
        using limbs_val_ge [of "PTR x"] xw(2) limbs_val_lt [of "PTR x"] by (simp_all add: k_def mpz_abs_def)
      have "BB ^ (k - 1) < BB ^ n" "BB ^ (n - 1) < BB ^ k" using k lo hi by linarith+
      then have "k - 1 < n" "n - 1 < k" using BB_gt1 by (simp_all add: power_strict_increasing_iff)
      then have "k = n" using n(1) k(3) by linarith
      then show False using False xl assms(3,4) n(2) by (simp add: k_def)
    qed
    then show ?thesis using False by (simp add: mod_eq_m1_def)
  qed
qed

section \<open>The strong test\<close>

text \<open>The numbers under test, and the configuration.\<close>

definition candidate :: "prime_cfg \<Rightarrow> mpz \<Rightarrow> bool" where
  "candidate cfg n \<longleftrightarrow> cfg_ok (limb_cfg cfg) \<and> div_ok cfg
     \<and> mpz_wf n \<and> 0 < SIZ n \<and> ABSIZ n < 2 ^ 31 \<and> odd (mpz_abs n) \<and> 7 \<le> mpz_abs n"

lemma candidate_eq_m1:
  assumes "candidate cfg n" and "mpz_wf y" and "0 \<le> SIZ y"
  shows "mod_eq_m1 y n \<longleftrightarrow> mpz_abs y = mpz_abs n - 1"
  using mod_eq_m1_spec [of y n] assms by (simp add: candidate_def)

lemma candidate_power:
  assumes "candidate cfg n" and "mpz_wf x" and "0 \<le> SIZ x" and "mpz_wf q" and "0 \<le> SIZ q"
  obtains y where "mpz_powm (limb_cfg cfg) r x q n = Some (Inr y)" and "mpz_wf y" and "0 \<le> SIZ y"
    and "mpz_abs y = mpz_abs x ^ mpz_abs q mod mpz_abs n"
proof -
  have "\<exists>z. mpz_powm (limb_cfg cfg) r x q n = Some (Inr z) \<and> mpz_wf z \<and> 0 \<le> SIZ z
    \<and> int (mpz_abs z) = mpz_int x ^ mpz_abs q mod int (mpz_abs n)"
    using assms by (intro mpz_powm_spec) (simp_all add: candidate_def)
  moreover have "mpz_int x ^ mpz_abs q mod int (mpz_abs n) = int (mpz_abs x ^ mpz_abs q mod mpz_abs n)"
    using assms(3) by (simp add: mpz_int_def zmod_int)
  ultimately show ?thesis using that by (auto simp only: of_nat_eq_iff)
qed

lemma candidate_square:
  assumes "candidate cfg n" and "mpz_wf x" and "0 \<le> SIZ x"
  obtains y where "mpz_powm_ui cfg r x 2 n = Some (Inr y)" and "mpz_wf y" and "0 \<le> SIZ y"
    and "mpz_abs y = mpz_abs x * mpz_abs x mod mpz_abs n"
proof -
  have "\<exists>z. mpz_powm_ui cfg r x 2 n = Some (Inr z) \<and> mpz_wf z \<and> 0 \<le> SIZ z
    \<and> int (mpz_abs z) = mpz_int x ^ unat (2 :: limb) mod int (mpz_abs n)"
    using assms by (intro mpz_powm_ui_spec) (simp_all add: candidate_def)
  moreover have "mpz_int x ^ unat (2 :: limb) mod int (mpz_abs n) = int (mpz_abs x * mpz_abs x mod mpz_abs n)"
    using assms(3) by (simp add: mpz_int_def zmod_int power2_eq_square)
  ultimately show ?thesis using that by (auto simp only: of_nat_eq_iff)
qed

lemma millerrabin_squares_returns:
  assumes c: "candidate cfg n"
  shows "mpz_wf y \<Longrightarrow> 0 \<le> SIZ y \<Longrightarrow> \<exists>p. millerrabin_squares cfg n i y = Some (Inr p) \<and> p \<in> {0, 1}"
proof (induction i arbitrary: y)
  case (Suc i)
  obtain z where "mpz_powm_ui cfg y y 2 n = Some (Inr z)" "mpz_wf z" "0 \<le> SIZ z"
    using candidate_square [OF c Suc.prems] .
  then show ?case using Suc.IH [of z] by simp
qed simp

lemma millerrabin_squares_prime:
  assumes c: "candidate cfg n" and p: "is_prime (mpz_abs n)"
  shows "mpz_wf y \<Longrightarrow> 0 \<le> SIZ y \<Longrightarrow> mpz_abs y < mpz_abs n \<Longrightarrow> mpz_abs y \<noteq> 1 \<Longrightarrow> mpz_abs y \<noteq> mpz_abs n - 1 \<Longrightarrow>
    mpz_abs y ^ (2 ^ Suc i) mod mpz_abs n = 1 \<Longrightarrow> millerrabin_squares cfg n i y = Some (Inr 1)"
proof (induction i arbitrary: y)
  case 0
  then have "mpz_abs y * mpz_abs y mod mpz_abs n = 1" by (simp add: power2_eq_square)
  then show ?case using root_of_one [OF p] 0 by blast
next
  case (Suc i)
  obtain z where z: "mpz_powm_ui cfg y y 2 n = Some (Inr z)" "mpz_wf z" "0 \<le> SIZ z"
    "mpz_abs z = mpz_abs y * mpz_abs y mod mpz_abs n"
    using candidate_square [OF c Suc.prems(1,2)] .
  have less: "mpz_abs z < mpz_abs n" using c z(4) by (simp add: candidate_def)
  have one: "mpz_abs z \<noteq> 1" using root_of_one [OF p Suc.prems(3)] Suc.prems(4,5) z(4) by auto
  have "mpz_abs z ^ (2 ^ Suc i) mod mpz_abs n = (mpz_abs y * mpz_abs y) ^ (2 ^ Suc i) mod mpz_abs n"
    unfolding z(4) by (rule power_mod)
  also have "(mpz_abs y * mpz_abs y) ^ (2 ^ Suc i) = mpz_abs y ^ (2 ^ Suc (Suc i))"
    by (simp only: power2_eq_square [symmetric] power_mult [symmetric] power_Suc)
  finally have "mpz_abs z ^ (2 ^ Suc i) mod mpz_abs n = 1" using Suc.prems(6) by simp
  then show ?case using Suc.IH [OF z(2,3) less one] candidate_eq_m1 [OF c z(2,3)] z(1) by simp
qed

lemma mpz_cmp_one:
  assumes "mpz_wf y" and "0 \<le> SIZ y"
  shows "mpz_cmp_ui y 1 = 0 \<longleftrightarrow> mpz_abs y = 1"
  using mpz_cmp_ui_spec(2) [OF assms(1), of 1] assms(2) by (simp add: mpz_int_def)

lemma millerrabin_returns:
  assumes c: "candidate cfg n" and "mpz_wf x" and "0 \<le> SIZ x" and "mpz_wf q" and "0 \<le> SIZ q"
  shows "\<exists>p. millerrabin cfg n x y q k = Some (Inr p) \<and> p \<in> {0, 1}"
proof -
  obtain z where z: "mpz_powm (limb_cfg cfg) y x q n = Some (Inr z)" "mpz_wf z" "0 \<le> SIZ z"
    using candidate_power [OF assms] .
  then show ?thesis using millerrabin_squares_returns [OF c z(2,3), of "k - 1"] by (simp add: millerrabin_def)
qed

text \<open>A prime passes the strong test to every base that it does not divide.\<close>

lemma millerrabin_prime:
  assumes c: "candidate cfg n" and x: "mpz_wf x" "0 \<le> SIZ x" and q: "mpz_wf q" "0 \<le> SIZ q"
    and p: "is_prime (mpz_abs n)" and d: "\<not> mpz_abs n dvd mpz_abs x"
    and k: "mpz_abs n - 1 = 2 ^ k * mpz_abs q" "0 < k"
  shows "millerrabin cfg n x y q k = Some (Inr 1)"
proof -
  obtain z where z: "mpz_powm (limb_cfg cfg) y x q n = Some (Inr z)" "mpz_wf z" "0 \<le> SIZ z"
    "mpz_abs z = mpz_abs x ^ mpz_abs q mod mpz_abs n"
    using candidate_power [OF c x q] .
  have "mpz_abs z ^ (2 ^ k) mod mpz_abs n = (mpz_abs x ^ mpz_abs q) ^ (2 ^ k) mod mpz_abs n"
    unfolding z(4) by (rule power_mod)
  also have "(mpz_abs x ^ mpz_abs q) ^ (2 ^ k) = mpz_abs x ^ (mpz_abs n - 1)"
    by (simp only: k(1) power_mult [symmetric] mult.commute)
  also have "\<dots> mod mpz_abs n = 1" by (rule fermat [OF p d])
  finally have "mpz_abs z ^ (2 ^ Suc (k - 1)) mod mpz_abs n = 1" using k(2) by simp
  moreover have "mpz_abs z < mpz_abs n" using c z(4) by (simp add: candidate_def)
  ultimately show ?thesis
    using millerrabin_squares_prime [OF c p z(2,3)] mpz_cmp_one [OF z(2,3)] candidate_eq_m1 [OF c z(2,3)] z(1)
    by (auto simp: millerrabin_def)
qed

section \<open>The test\<close>

text \<open>What is asked of the Lucas test: it does not reject a prime above 5.\<close>

definition lucas_ok :: "prime_cfg \<Rightarrow> bool" where
  "lucas_ok cfg \<longleftrightarrow> (\<forall>n. mpz_wf n \<longrightarrow> 0 < SIZ n \<longrightarrow> is_prime (mpz_abs n) \<longrightarrow> 5 < mpz_abs n \<longrightarrow> mpz_stronglucas cfg n \<noteq> 0)"

lemma random_rounds_spec:
  assumes c: "candidate cfg n" and nm: "mpz_wf nm" "0 \<le> SIZ nm" "2 * mpz_abs nm + 5 = mpz_abs n" and q: "mpz_wf q" "0 \<le> SIZ q"
  shows "0 < reps \<Longrightarrow> \<exists>p. random_rounds cfg n nm x y q k reps s = Some (Inr p) \<and> p \<in> {0, 1}
    \<and> (is_prime (mpz_abs n) \<longrightarrow> mpz_abs n - 1 = 2 ^ k * mpz_abs q \<longrightarrow> 0 < k \<longrightarrow> p = 1)"
proof (induction reps arbitrary: x s)
  case (Suc j)
  have "0 < mpz_abs nm" using nm(3) c by (simp add: candidate_def)
  then have s0: "SIZ nm \<noteq> 0" using mpz_wf_limbs(5) [OF nm(1)] by simp
  obtain x1 s1 where u: "mpz_urandomm x s nm = Inr (x1, s1)"
    using mpz_urandomm_returns [OF s0] by blast
  note x1 = mpz_urandomm_spec [OF nm(1) s0 u]
  define x2 where "x2 = mpz_add_ui x1 x1 3"
  have x2: "mpz_wf x2" "0 \<le> SIZ x2" "mpz_abs x2 = mpz_abs x1 + 3"
    using mpz_add_ui_spec [OF x1(1,2), of x1 3] by (simp_all add: x2_def)
  have d: "\<not> mpz_abs n dvd mpz_abs x2" using x1(3) x2(3) nm(3) by (auto dest: dvd_imp_le)
  obtain p where p: "millerrabin cfg n x2 y q k = Some (Inr p)" "p \<in> {0, 1}"
    using millerrabin_returns [OF c x2(1,2) q] by blast
  have one: "is_prime (mpz_abs n) \<Longrightarrow> mpz_abs n - 1 = 2 ^ k * mpz_abs q \<Longrightarrow> 0 < k \<Longrightarrow> p = 1"
    using millerrabin_prime [OF c x2(1,2) q _ d] p(1) by simp
  have r: "random_rounds cfg n nm x y q k (Suc j) s
    = (if 0 < j \<and> p \<noteq> 0 then random_rounds cfg n nm x2 y q k j s1 else Some (Inr p))"
    using u p(1) by (subst random_rounds.simps) (simp add: x2_def [symmetric] Let_def)
  show ?case using r Suc.IH [of x2 s1] p(2) one by auto
qed simp

text \<open>The test returns 0, 1 or 2 for every odd number from 7 on, and not 0 for a prime.\<close>

lemma mpz_millerrabin_spec:
  assumes c: "candidate cfg n"
  obtains p where "mpz_millerrabin cfg n reps = Some (Inr p)" and "p \<in> {0, 1, 2}"
    and "lucas_ok cfg \<Longrightarrow> is_prime (mpz_abs n) \<Longrightarrow> p \<noteq> 0"
proof -
  have n: "mpz_wf n" "0 \<le> SIZ n" "0 < SIZ n" "odd (mpz_abs n)" "7 \<le> mpz_abs n" using c by (simp_all add: candidate_def)
  define sz nm where "sz = nat (SIZ n)" and "nm = mpz_tdiv_q_2exp (MPZ_TMP_INIT (sz + 1)) n 1"
  have nm: "mpz_wf nm" "0 \<le> SIZ nm" "mpz_abs nm = mpz_abs n div 2"
    using mpz_tdiv_q_2exp_spec [OF n(1,2), of "MPZ_TMP_INIT (sz + 1)" 1] by (simp_all add: nm_def)
  then have half: "2 * mpz_abs nm + 1 = mpz_abs n" using n(4) by simp
  have "0 < limbs_val (PTR nm)" using half n(5) by (simp add: mpz_abs_def)
  then obtain k where k: "mpn_scan1 (PTR nm) 0 = Some k" "2 ^ k dvd mpz_abs nm" "odd (mpz_abs nm div 2 ^ k)"
    using mpn_scan1_spec by (metis mpz_abs_def)
  define q where "q = mpz_tdiv_q_2exp (MPZ_TMP_INIT sz) nm k"
  have q: "mpz_wf q" "0 \<le> SIZ q" "mpz_abs q = mpz_abs nm div 2 ^ k"
    using mpz_tdiv_q_2exp_spec [OF nm(1,2), of "MPZ_TMP_INIT sz" k] by (simp_all add: q_def)
  have nq: "mpz_abs n - 1 = 2 ^ (k + 1) * mpz_abs q" using half k(2) by (simp add: q(3) mult.assoc)
  define x y where "x = mpz_set_ui (MPZ_TMP_INIT (sz + 1)) 2" and "y = MPZ_TMP_INIT (2 * sz)"
  have x: "mpz_wf x" "0 \<le> SIZ x" "mpz_abs x = 2" by (simp_all add: x_def mpz_set_ui_spec)
  have dx: "\<not> mpz_abs n dvd mpz_abs x" using n(5) x(3) by (auto dest: dvd_imp_le)
  obtain r where r: "millerrabin cfg n x y q (k + 1) = Some (Inr r)" "r \<in> {0, 1}"
    using millerrabin_returns [OF c x(1,2) q(1,2)] by blast
  have r1: "is_prime (mpz_abs n) \<Longrightarrow> r = 1" using millerrabin_prime [OF c x(1,2) q(1,2) _ dx nq] r(1) by simp
  define nm2 where "nm2 = mpz_sub_ui nm nm 2"
  have nm2: "mpz_wf nm2" "0 \<le> SIZ nm2" "2 * mpz_abs nm2 + 5 = mpz_abs n"
    using mpz_sub_ui_spec [OF nm(1,2), of 2 nm] half n(5) by (simp_all add: nm2_def)
  define b where "b \<longleftrightarrow> r \<noteq> 0 \<and> mpz_stronglucas cfg n \<noteq> 0"
  have b: "lucas_ok cfg \<Longrightarrow> is_prime (mpz_abs n) \<Longrightarrow> b" using r1 n by (simp add: b_def lucas_ok_def)
  have eq: "mpz_millerrabin cfg n reps =
    (if b then if SIZ n = of_bool (PTR n ! 0 < push_bit 46 35) then Some (Inr 2)
       else if reps - 24 > 0 then random_rounds cfg n nm2 x y q (k + 1) (nat (reps - 24)) gmp_randinit_mt else Some (Inr 1)
     else Some (Inr 0))"
    unfolding mpz_millerrabin_def Let_def sz_def [symmetric] nm_def [symmetric] k(1) option.case q_def [symmetric]
      x_def [symmetric] y_def [symmetric] nm2_def [symmetric] r(1) b_def by simp
  show ?thesis
  proof (cases "b \<and> SIZ n \<noteq> of_bool (PTR n ! 0 < push_bit 46 35) \<and> reps - 24 > 0")
    case True
    then have "0 < nat (reps - 24)" by simp
    then show ?thesis
      using random_rounds_spec [OF c nm2 q(1,2), of "nat (reps - 24)" x y "k + 1" gmp_randinit_mt] eq True nq that by auto
  next
    case False
    then show ?thesis using that eq b by (auto split: if_splits)
  qed
qed

end
