(* ===== verification/Gmp_Nextprime.thy ===== *)
theory Gmp_Nextprime
  imports Gmp_Millerrabin
begin

text \<open>
  The search for the next prime of \<open>mpz/nextprime.c\<close>: below \<open>NP_SMALL_LIMIT\<close> trial division by a
  table of prime gaps, above it a sieve of a segment of odd numbers by small primes and the
  primality test on what the sieve leaves.  This theory holds the definitions and the search below
  the limit, which returns exactly the next prime.
\<close>

section \<open>The table\<close>

type_synonym uint32 = "32 word"

definition primegap_small :: "byte list" where
  "primegap_small =
    [2,2,4,2,4,2,4,6,2,6,4,2,4,6,6,2,6,4,2,6,4,6,8,4,2,4,2,4,14,4,6,
     2,10,2,6,6,4,6,6,2,10,2,4,2,12,12,4,2,4,6,2,10,6,6,6,2,6,4,2,10,14,4,2,
     4,14,6,10,2,4,6,8,6,6,4,6,8,4,8,10,2,10,2,6,4,6,8,4,2,4,12,8,4,8,4,6,
     12,2,18,6,10]"

definition NUMBER_OF_PRIMES :: nat where "NUMBER_OF_PRIMES = 100"
definition NP_SMALL_LIMIT :: nat where "NP_SMALL_LIMIT = 310243"

section \<open>Small numbers\<close>

text \<open>The inner loop: trial division until the quotient is below the divisor.\<close>

fun small_trial :: "uint32 \<Rightarrow> uint32 \<Rightarrow> byte list \<Rightarrow> bool result" where
  "small_trial t prime gaps =
     (let q = t div prime; r = t - q * prime
      in if q < prime then Inr True
         else if r = 0 then Inr False
         else case gaps of [] \<Rightarrow> Inl (Undefined OutOfBounds) | g # gaps \<Rightarrow> small_trial t (prime + ucast g) gaps)"

declare small_trial.simps [simp del]

partial_function (option) findnext_small_loop :: "uint32 \<Rightarrow> int \<Rightarrow> uint32 run" where
  "findnext_small_loop t diff =
     bindR (Some (small_trial t 3 primegap_small))
       (\<lambda>found. if found then Some (Inr t) else findnext_small_loop (t + word_of_int diff) diff)"

definition findnext_small :: "uint32 \<Rightarrow> int \<Rightarrow> uint32 run" where
  "findnext_small t diff =
     findnext_small_loop
       (if diff > 0 then (t + 1) OR of_bool (t \<noteq> 1) else ((t - 2) OR 1) + of_bool (t = 3)) diff"

section \<open>The sieve of small primes\<close>

definition n_to_bit :: "limb \<Rightarrow> limb" where
  "n_to_bit n = ((n - 5) OR 1) div 3"

definition primesieve_size :: "limb \<Rightarrow> nat" where
  "primesieve_size n = unat (n_to_bit n) div 64 + 1"

definition calculate_sievelimit :: "prime_cfg \<Rightarrow> nat \<Rightarrow> limb" where
  "calculate_sievelimit cfg nbits =
     (if nbits < 12818
      then mpz_get_ui (mpz_sqrt cfg (mpz_tdiv_q_ui cfg (mpz_ui_pow_ui cfg (of_nat nbits) 5) (124 * 124)))
      else 150000001)"

text \<open>The gaps of the primes in one limb of the sieve, and the last prime seen.\<close>

function gap_bits :: "limb \<Rightarrow> limb \<Rightarrow> limb \<Rightarrow> byte list \<times> limb" where
  "gap_bits b x last_prime =
     (if x = 0 then ([], last_prime)
      else if x AND 1 \<noteq> 0
      then let prime = b OR 1; (gaps, l) = gap_bits (b + 3) (drop_bit 1 x) prime
           in (ucast (prime - last_prime) # gaps, l)
      else gap_bits (b + 3) (drop_bit 1 x) last_prime)"
  by pat_completeness auto
termination
proof (relation "measure (\<lambda>(b, x, l). unat x)")
  have less: "unat (drop_bit 1 x :: limb) < unat x" if "x \<noteq> 0" for x
    using that by (simp add: unat_drop_bit_limb unat_gt_0)
  show "((b + 3, drop_bit 1 x, prime), b, x, last_prime) \<in> measure (\<lambda>(b, x, l). unat x)" if "x \<noteq> 0"
    for b x last_prime prime :: limb using less [OF that] by simp
  show "((b + 3, drop_bit 1 x, last_prime), b, x, last_prime) \<in> measure (\<lambda>(b, x, l). unat x)" if "x \<noteq> 0"
    for b x last_prime :: limb using less [OF that] by simp
qed simp

declare gap_bits.simps [simp del]

fun sieve_gaps :: "limb \<Rightarrow> limb \<Rightarrow> limb \<Rightarrow> limb list \<Rightarrow> byte list result" where
  "sieve_gaps sieve_limit j last_prime [] = (if j < sieve_limit then Inl (Undefined OutOfBounds) else Inr [])"
| "sieve_gaps sieve_limit j last_prime (s # sp) =
     (if j < sieve_limit
      then let (gaps, l) = gap_bits j (NOT s) last_prime
           in bindE (sieve_gaps sieve_limit (j + 64 * 3) l sp) (\<lambda>rest. Inr (gaps @ rest))
      else Inr [])"

text \<open>The gaps and their number: from the table, or from a sieve whose count is the space for them.\<close>

definition trial_primes :: "prime_cfg \<Rightarrow> nat \<Rightarrow> (byte list \<times> nat) result" where
  "trial_primes cfg nbits =
     (if nbits div 2 \<le> NUMBER_OF_PRIMES then Inr (primegap_small, nbits div 2)
      else let sieve_limit = calculate_sievelimit cfg nbits;
             (sieve, prime_limit) = gmp_primesieve cfg sieve_limit
           in bindE (sieve_gaps sieve_limit 4 3 sieve)
                (\<lambda>primegap. if unat prime_limit < length primegap then Inl (Undefined OutOfBounds)
                             else Inr (primegap, unat prime_limit)))"

section \<open>A segment of odd numbers\<close>

text \<open>\<open>m\<close> is an \<open>int\<close>: its bits, sign-extended when a prime, which is an \<open>unsigned long\<close>, is added.\<close>

definition first_multiple :: "limb \<Rightarrow> limb \<Rightarrow> uint32" where
  "first_multiple r prime =
     (let m = ucast r; m = (if m AND 1 \<noteq> 0 then ucast (scast m + prime) else m) in signed_drop_bit 1 m)"

partial_function (option) mark_multiples :: "uint32 \<Rightarrow> limb \<Rightarrow> uint32 \<Rightarrow> bool list \<Rightarrow> bool list run" where
  "mark_multiples odds prime m composite =
     (if m < odds
      then if bit m 31 then Some (Inl (Undefined OutOfBounds))
           else mark_multiples odds prime (ucast (scast m + prime)) (composite[unat m := True])
      else Some (Inr composite))"

fun mark_primes ::
  "(mpz \<Rightarrow> limb \<Rightarrow> limb result) \<Rightarrow> mpz \<Rightarrow> uint32 \<Rightarrow> nat \<Rightarrow> limb \<Rightarrow> byte list \<Rightarrow> bool list \<Rightarrow> bool list run" where
  "mark_primes negative_mod_ui p odds 0 prime primegap composite = Some (Inr composite)"
| "mark_primes negative_mod_ui p odds (Suc k) prime primegap composite =
     bindR (Some (negative_mod_ui p prime))
       (\<lambda>r. bindR (mark_multiples odds prime (first_multiple r prime) composite)
          (\<lambda>composite. case primegap of
               [] \<Rightarrow> Some (Inl (Undefined Uninitialised))
             | g # primegap \<Rightarrow> mark_primes negative_mod_ui p odds k (prime + ucast g) primegap composite))"

text \<open>The candidates that the sieve left: the number found with the verdict of the test, or 0.\<close>

fun search_segment ::
  "prime_cfg \<Rightarrow> (mpz \<Rightarrow> mpz \<Rightarrow> limb \<Rightarrow> mpz) \<Rightarrow> bool list \<Rightarrow> mpz \<Rightarrow> limb \<Rightarrow> (mpz \<times> int) run" where
  "search_segment cfg increment_ui [] p difference = Some (Inr (increment_ui p p difference, 0))"
| "search_segment cfg increment_ui (c # composite) p difference =
     (if c then search_segment cfg increment_ui composite p (difference + 2)
      else let p = increment_ui p p difference
           in bindR (mpz_millerrabin cfg p 25)
                (\<lambda>primetest. if primetest \<noteq> 0 then Some (Inr (p, primetest))
                   else search_segment cfg increment_ui composite p (0 + 2)))"

partial_function (option) findnext_loop ::
  "prime_cfg \<Rightarrow> (mpz \<Rightarrow> limb \<Rightarrow> limb result) \<Rightarrow> (mpz \<Rightarrow> mpz \<Rightarrow> limb \<Rightarrow> mpz) \<Rightarrow> uint32 \<Rightarrow> byte list \<Rightarrow> nat \<Rightarrow> mpz \<Rightarrow> (mpz \<times> int) run" where
  "findnext_loop cfg negative_mod_ui increment_ui odds primegap prime_limit p =
     bindR (mark_primes negative_mod_ui p odds prime_limit 3 primegap (replicate (unat odds) False))
       (\<lambda>composite. bindR (search_segment cfg increment_ui composite p 0)
          (\<lambda>res. if snd res \<noteq> 0 then Some (Inr res)
             else findnext_loop cfg negative_mod_ui increment_ui odds primegap prime_limit (fst res)))"

definition findnext ::
  "prime_cfg \<Rightarrow> (mpz \<Rightarrow> limb \<Rightarrow> limb result) \<Rightarrow> (mpz \<Rightarrow> mpz \<Rightarrow> limb \<Rightarrow> mpz) \<Rightarrow> mpz \<Rightarrow> (mpz \<times> int) run" where
  "findnext cfg negative_mod_ui increment_ui p =
     (let pn = nat (SIZ p);
        nbits = MPN_SIZEINBASE_2EXP (PTR p) pn 1;
        p = p\<lparr>PTR := (PTR p)[0 := PTR p ! 0 OR 1]\<rparr>;
        odds_in_composite_sieve = (if nbits \<le> 32 then 336 div 2 else if nbits \<le> 64 then 1550 div 2 else of_nat (5 * nbits))
      in bindR (Some (trial_primes cfg nbits))
           (\<lambda>(primegap, prime_limit).
              findnext_loop cfg negative_mod_ui increment_ui odds_in_composite_sieve primegap prime_limit p))"

definition mpz_nextprime :: "prime_cfg \<Rightarrow> mpz \<Rightarrow> mpz \<Rightarrow> mpz run" where
  "mpz_nextprime cfg p n =
     (if mpz_cmp_ui n (of_nat NP_SMALL_LIMIT) < 0
      then bindR (findnext_small (if SIZ n > 0 then ucast (mpz_get_ui n) else 1) 2)
             (\<lambda>t. Some (Inr (mpz_set_ui p (ucast t))))
      else bindR (findnext cfg (mpz_cdiv_ui (limb_cfg cfg)) mpz_add_ui (mpz_add_ui p n 1))
             (\<lambda>(p, primetest). Some (Inr p)))"

section \<open>The table is complete\<close>

lemma table_values: "map unat primegap_small =
    [2,2,4,2,4,2,4,6,2,6,4,2,4,6,6,2,6,4,2,6,4,6,8,4,2,4,2,4,14,4,6,
     2,10,2,6,6,4,6,6,2,10,2,4,2,12,12,4,2,4,6,2,10,6,6,6,2,6,4,2,10,14,4,2,
     4,14,6,10,2,4,6,8,6,6,4,6,8,4,8,10,2,10,2,6,4,6,8,4,2,4,12,8,4,8,4,6,
     12,2,18,6,10]"
  by (simp add: primegap_small_def)

lemma table_size: "sum_list (map unat primegap_small) = 554" "length primegap_small = 100"
  unfolding table_values by (simp_all add: primegap_small_def)

text \<open>A factor of every odd number strictly inside a gap certifies that the gap skips no prime.\<close>

fun composites :: "nat \<Rightarrow> nat list \<Rightarrow> bool" where
  "composites d [] \<longleftrightarrow> True"
| "composites d (f # fs) \<longleftrightarrow> 1 < f \<and> f < d \<and> d mod f = 0 \<and> composites (d + 2) fs"

fun gaps_certified :: "nat \<Rightarrow> nat list \<Rightarrow> nat list list \<Rightarrow> bool" where
  "gaps_certified p [] fss \<longleftrightarrow> True"
| "gaps_certified p (g # gs) [] \<longleftrightarrow> False"
| "gaps_certified p (g # gs) (fs # fss) \<longleftrightarrow>
     g = 2 * length fs + 2 \<and> composites (p + 2) fs \<and> gaps_certified (p + g) gs fss"

definition gap_factors :: "nat list list" where
  "gap_factors =
    [[],[],[3],[],[3],[],[3],[5,3],[],[3,5],[3],[],[3],[7,3],[5,3],[],[3,5],[3],[],[3,7],[3],[5,3],[7,3,5],[3],
     [],[3],[],[3],[5,3,7,11,3,5],[3],[7,3],[],[3,11,5,3],[],[3,5],[3,7],[3],[13,3],[5,3],[],[3,5,11,3],[],[3],
     [],[3,7,5,3,11],[3,5,7,3,13],[3],[],[3],[5,3],[],[3,5,13,3],[11,3],[7,3],[5,3],[],[3,5],[3],[],[3,7,17,3],
     [5,3,13,7,3,5],[3],[],[3],[11,3,17,5,3,7],[3,5],[3,11,7,3],[],[3],[5,3],[19,3,5],[3,7],[3,13],[3],[5,3],
     [17,3,5],[3],[13,3,11],[3,7,5,3],[],[3,5,7,3],[],[3,19],[3],[5,3],[11,3,5],[3],[],[3],[7,3,11,5,3],
     [13,3,5],[3],[17,3,7],[3],[5,3],[7,3,5,11,3],[],[3,17,23,3,13,5,3,7],[3,5],[3,19,7,3]]"

lemma table_certified: "gaps_certified 3 (map unat primegap_small) gap_factors"
  unfolding table_values by (simp add: gap_factors_def)

lemma composites_not_prime:
  assumes "composites d fs" and "d \<le> q" and "q < d + 2 * length fs" and "even (q - d)"
  shows "\<not> is_prime q"
  using assms
proof (induction d fs rule: composites.induct)
  case (2 d f fs)
  show ?case
  proof (cases "q = d")
    case True
    then have "f dvd q" "f \<noteq> 1" "f \<noteq> q" using "2.prems"(1) by (auto simp: mod_eq_0_iff_dvd)
    then show ?thesis by (auto simp: is_prime_def)
  next
    case False
    then have "d + 2 \<le> q" using "2.prems"(2,4) by (cases "q = d + 1") auto
    then show ?thesis using 2 by (simp add: algebra_simps)
  qed
qed simp

lemma gap_no_prime:
  assumes "g = 2 * length fs + 2" and "composites (p + 2) fs" and "p < q" and "q < p + g" and "odd p" and "odd q"
  shows "\<not> is_prime q"
proof (rule composites_not_prime [OF assms(2)])
  have "q \<noteq> p + 1" using assms(5,6) by auto
  then show q: "p + 2 \<le> q" using assms(3) by simp
  show "q < p + 2 + 2 * length fs" using assms(1,4) by simp
  show "even (q - (p + 2))" using q assms(5,6) by simp
qed

section \<open>The next prime below the limit\<close>

lemma unat_add_gap:
  assumes "unat (p :: uint32) + unat (g :: byte) < 2 ^ 32"
  shows "unat (p + ucast g) = unat p + unat g"
proof -
  have "unat g < 2 ^ 32" using unat_byte_less [of g] by (rule less_trans) simp
  then have "unat (ucast g :: uint32) = unat g" by (simp add: unsigned_ucast_eq take_bit_nat_eq_self)
  then show ?thesis using assms unat_add_lem [of p "ucast g :: uint32"] by simp
qed

text \<open>One turn of the trial division.\<close>

lemma small_trial_turn:
  assumes "3 \<le> unat p" and "odd (unat t)" and "2 \<le> unat t"
    and "\<And>q. is_prime q \<Longrightarrow> odd q \<Longrightarrow> q < unat p \<Longrightarrow> \<not> q dvd unat t"
  shows "t div p < p \<Longrightarrow> is_prime (unat t)" and "t div p < p \<longleftrightarrow> unat t < unat p * unat p"
    and "\<not> t div p < p \<Longrightarrow> t - t div p * p = 0 \<Longrightarrow> \<not> is_prime (unat t)" and "t - t div p * p = 0 \<longleftrightarrow> unat p dvd unat t"
proof -
  show lt: "t div p < p \<longleftrightarrow> unat t < unat p * unat p"
    using assms(1) by (simp add: word_less_nat_alt unat_div less_mult_imp_div_less div_less_iff_less_mult)
  have "t - t div p * p = t mod p" by (simp add: minus_div_mult_eq_mod)
  then show dv: "t - t div p * p = 0 \<longleftrightarrow> unat p dvd unat t" by (simp add: word_unat_eq_iff unat_mod mod_eq_0_iff_dvd)
  show "is_prime (unat t)" if "t div p < p"
  proof (rule ccontr)
    assume "\<not> is_prime (unat t)"
    then obtain q where q: "is_prime q" "q dvd unat t" "q * q \<le> unat t" using small_factor [of "unat t"] assms(3) by auto
    have "q < unat p"
    proof (rule ccontr)
      assume "\<not> q < unat p"
      then have "unat p * unat p \<le> q * q" by (intro mult_le_mono) simp_all
      then show False using that lt q(3) by simp
    qed
    moreover have "odd q" using q(2) assms(2) by auto
    ultimately show False using assms(4) q by blast
  qed
  show "\<not> is_prime (unat t)" if "\<not> t div p < p" "t - t div p * p = 0"
  proof -
    have "unat p dvd unat t" "unat p * unat p \<le> unat t" using that lt dv by simp_all
    moreover have "unat p * 1 < unat p * unat p" using assms(1) by (intro mult_strict_left_mono) simp_all
    ultimately show ?thesis using assms(1) unfolding is_prime_def by auto
  qed
qed

lemma small_trial_spec:
  assumes "odd (unat t)" and "2 \<le> unat t"
  shows "gaps_certified (unat p) (map unat gs) fss \<Longrightarrow> odd (unat p) \<Longrightarrow> 3 \<le> unat p \<Longrightarrow>
    unat p + sum_list (map unat gs) < 2 ^ 16 \<Longrightarrow>
    unat t < (unat p + sum_list (map unat gs)) * (unat p + sum_list (map unat gs)) \<Longrightarrow>
    (\<And>q. is_prime q \<Longrightarrow> odd q \<Longrightarrow> q < unat p \<Longrightarrow> \<not> q dvd unat t) \<Longrightarrow>
    small_trial t p gs = Inr (is_prime (unat t))"
proof (induction gs arbitrary: p fss)
  case Nil
  note turn = small_trial_turn [OF Nil.prems(3) assms Nil.prems(6)]
  show ?case using turn(1,2) Nil.prems(5) by (subst small_trial.simps) simp
next
  case (Cons g gs)
  note turn = small_trial_turn [OF Cons.prems(3) assms Cons.prems(6)]
  obtain fs fss' where f: "fss = fs # fss'" using Cons.prems(1) by (cases fss) auto
  have "unat g = 2 * length fs + 2 \<and> composites (unat p + 2) fs \<and> gaps_certified (unat p + unat g) (map unat gs) fss'"
    by (rule gaps_certified.simps(3) [THEN iffD1]) (use Cons.prems(1) in \<open>simp only: f list.map\<close>)
  then have c: "unat g = 2 * length fs + 2" "composites (unat p + 2) fs" "gaps_certified (unat p + unat g) (map unat gs) fss'"
    by blast+
  have p': "unat (p + ucast g) = unat p + unat g" using Cons.prems(4) by (intro unat_add_gap) simp
  show ?case
  proof (cases "t div p < p \<or> t - t div p * p = 0")
    case True
    then show ?thesis using turn(1,3) by (subst small_trial.simps) (auto simp: Let_def)
  next
    case False
    have rest: "\<not> q dvd unat t" if "is_prime q" "odd q" "q < unat (p + ucast g)" for q
    proof -
      consider "q < unat p" | "q = unat p" | "unat p < q" by linarith
      then show ?thesis
      proof cases
        case 3
        then show ?thesis using gap_no_prime [OF c(1,2), of q] Cons.prems(2) that by (simp add: p')
      qed (use Cons.prems(6) that False turn(4) in auto)
    qed
    have "small_trial t (p + ucast g) gs = Inr (is_prime (unat t))"
    proof (rule Cons.IH)
      show "odd (unat (p + ucast g))" using Cons.prems(2) c(1) by (simp add: p')
    qed (use Cons.prems c(3) rest in \<open>simp_all add: p' algebra_simps\<close>)
    then show ?thesis using False by (subst small_trial.simps) (simp add: Let_def)
  qed
qed

lemma small_trial_table:
  assumes "odd (unat t)" and "2 \<le> unat t" and "unat t \<le> NP_SMALL_LIMIT"
  shows "small_trial t 3 primegap_small = Inr (is_prime (unat t))"
proof (rule small_trial_spec [OF assms(1,2)])
  have three: "unat (3 :: uint32) = 3" by simp
  show "gaps_certified (unat (3 :: uint32)) (map unat primegap_small) gap_factors" using table_certified by simp
  show "unat t < (unat (3 :: uint32) + sum_list (map unat primegap_small)) * (unat (3 :: uint32) + sum_list (map unat primegap_small))"
    using assms(3) by (simp add: table_size NP_SMALL_LIMIT_def)
  show "\<not> q dvd unat t" if "is_prime q" "odd q" "q < unat (3 :: uint32)" for q
    using that is_prime_gt1 [of q] by (cases "q = 2") auto
qed (simp_all add: table_size)

lemma limit_prime: "is_prime NP_SMALL_LIMIT"
proof -
  have "small_trial (of_nat NP_SMALL_LIMIT) 3 primegap_small = Inr True"
    by (simp add: NP_SMALL_LIMIT_def primegap_small_def small_trial.simps)
  moreover have "unat (of_nat NP_SMALL_LIMIT :: uint32) = NP_SMALL_LIMIT" by (simp add: NP_SMALL_LIMIT_def)
  moreover have "odd NP_SMALL_LIMIT" "2 \<le> NP_SMALL_LIMIT" by (simp_all add: NP_SMALL_LIMIT_def)
  ultimately show ?thesis using small_trial_table [of "of_nat NP_SMALL_LIMIT"] by simp
qed

lemma findnext_small_loop_spec:
  assumes "odd (unat t)" and "2 \<le> unat t" and "unat t \<le> NP_SMALL_LIMIT"
  shows "\<exists>z. findnext_small_loop t 2 = Some (Inr z) \<and> unat t \<le> unat z \<and> is_prime (unat z)
    \<and> (\<forall>k. unat t \<le> k \<longrightarrow> k < unat z \<longrightarrow> \<not> is_prime k)"
  using assms
proof (induction "NP_SMALL_LIMIT - unat t" arbitrary: t rule: less_induct)
  case less
  note tr = small_trial_table [OF less.prems]
  show ?case
  proof (cases "is_prime (unat t)")
    case True
    then show ?thesis using tr by (subst findnext_small_loop.simps) (auto intro!: exI [of _ t])
  next
    case False
    then have "unat t \<noteq> NP_SMALL_LIMIT" using limit_prime by auto
    moreover have "odd NP_SMALL_LIMIT" by (simp add: NP_SMALL_LIMIT_def)
    then have "unat t + 1 \<noteq> NP_SMALL_LIMIT" using less.prems(1) by (metis even_plus_one_iff)
    ultimately have le: "unat t + 2 \<le> NP_SMALL_LIMIT" using less.prems(3) by linarith
    then have t2: "unat (t + 2) = unat t + 2" using unat_add_lem [of t 2] by (simp add: NP_SMALL_LIMIT_def)
    have "odd (unat (t + 2))" "2 \<le> unat (t + 2)" "unat (t + 2) \<le> NP_SMALL_LIMIT" "NP_SMALL_LIMIT - unat (t + 2) < NP_SMALL_LIMIT - unat t"
      using less.prems(1) le by (simp_all add: t2)
    from less.hyps [OF this(4,1,2,3)] obtain z where z: "findnext_small_loop (t + 2) 2 = Some (Inr z)" "unat t + 2 \<le> unat z"
      "is_prime (unat z)" "\<forall>k. unat t + 2 \<le> k \<longrightarrow> k < unat z \<longrightarrow> \<not> is_prime k" by (auto simp: t2)
    have "\<not> is_prime (unat t + 1)"
      using less.prems(1,2) by (intro even_not_prime) simp_all
    then have "\<not> is_prime k" if "unat t \<le> k" "k < unat z" for k
      using that z(4) False by (cases "k = unat t"; cases "k = unat t + 1") auto
    moreover have "findnext_small_loop t 2 = Some (Inr z)" using tr False z(1) by (subst findnext_small_loop.simps) simp
    ultimately show ?thesis using z(2,3) by auto
  qed
qed

text \<open>What the number found is: the least prime above \<open>n\<close>.\<close>

definition next_prime_of :: "int \<Rightarrow> nat \<Rightarrow> bool" where
  "next_prime_of n p \<longleftrightarrow> is_prime p \<and> n < int p \<and> (\<forall>k. n < int k \<longrightarrow> k < p \<longrightarrow> \<not> is_prime k)"

lemma findnext_small_spec:
  assumes "1 \<le> unat t" and "unat t < NP_SMALL_LIMIT"
  shows "\<exists>z. findnext_small t 2 = Some (Inr z) \<and> next_prime_of (int (unat t)) (unat z)"
proof (cases "t = 1")
  case True
  have "small_trial 2 3 primegap_small = Inr True" by (subst small_trial.simps) simp
  then have "findnext_small t 2 = Some (Inr 2)"
    using True by (simp add: findnext_small_def findnext_small_loop.simps [of 2])
  moreover have "is_prime 2" by (rule is_primeI) auto
  ultimately show ?thesis using True by (auto simp: next_prime_of_def)
next
  case False
  define s where "s = (t + 1) OR 1"
  have t1: "unat (t + 1) = unat t + 1" using unat_add_lem [of t 1] assms(2) by (simp add: NP_SMALL_LIMIT_def)
  have "unat t \<noteq> 1" using False by (metis unat_1 word_unat_eq_iff)
  then have t2: "2 \<le> unat t" using assms(1) by linarith
  have s: "unat s = unat t + 1 + of_bool (odd (unat t))"
  proof -
    have "unat s = unat (t + 1) OR 1" by (simp add: s_def unsigned_or_eq)
    also have "\<dots> = unat t + 1 + of_bool (even (unat t + 1))" by (simp add: t1 or_Suc_0_eq)
    finally show ?thesis by simp
  qed
  have "odd NP_SMALL_LIMIT" by (simp add: NP_SMALL_LIMIT_def)
  then have le: "unat s \<le> NP_SMALL_LIMIT"
    using assms(2) unfolding s by (cases "odd (unat t)") (simp_all, metis Suc_leI even_Suc le_neq_implies_less)
  have "odd (unat s)" "2 \<le> unat s" using t2 by (auto simp: s)
  from findnext_small_loop_spec [OF this le] obtain z where z: "findnext_small_loop s 2 = Some (Inr z)" "unat s \<le> unat z"
    "is_prime (unat z)" "\<forall>k. unat s \<le> k \<longrightarrow> k < unat z \<longrightarrow> \<not> is_prime k" by auto
  have "\<not> is_prime k" if "unat t < k" "k < unat z" for k
  proof (cases "unat s \<le> k")
    case False
    then have "k = unat t + 1 \<and> even k" using that(1) unfolding s by (cases "odd (unat t)") (simp_all, presburger)
    then have "even k" "k = unat t + 1" by blast+
    then show ?thesis using t2 by (intro even_not_prime) simp_all
  qed (use z(4) that in simp)
  moreover have "findnext_small t 2 = Some (Inr z)" using z(1) False by (simp add: findnext_small_def s_def)
  moreover have "unat t < unat z" using z(2) by (simp add: s)
  ultimately show ?thesis using z(3) unfolding next_prime_of_def by (simp only: of_nat_less_iff) blast
qed

lemma mpz_nextprime_small:
  assumes "mpz_wf n" and "mpz_int n < int NP_SMALL_LIMIT"
  shows "\<exists>z. mpz_nextprime cfg p n = Some (Inr z) \<and> mpz_wf z \<and> 0 \<le> SIZ z \<and> next_prime_of (mpz_int n) (mpz_abs z)"
proof -
  have lim: "unat (of_nat NP_SMALL_LIMIT :: limb) = NP_SMALL_LIMIT" by (simp add: NP_SMALL_LIMIT_def)
  define t :: uint32 where "t = (if SIZ n > 0 then ucast (mpz_get_ui n) else 1)"
  have c: "mpz_cmp_ui n (of_nat NP_SMALL_LIMIT) < 0" using mpz_cmp_ui_spec(1) [OF assms(1)] assms(2) by (simp only: lim)
  have t: "1 \<le> unat t \<and> unat t < NP_SMALL_LIMIT \<and> (if 0 < SIZ n then mpz_int n = int (unat t) else mpz_int n \<le> 0 \<and> t = 1)"
  proof (cases "SIZ n > 0")
    case True
    then have i: "mpz_int n = int (mpz_abs n)" "0 < mpz_abs n" using mpz_wf_pos [OF assms(1)] by (simp_all add: mpz_int_def)
    then have less: "mpz_abs n < NP_SMALL_LIMIT" using assms(2) by simp
    then have "unat (mpz_get_ui n) = mpz_abs n" using mpz_get_ui_spec [OF assms(1)] by (simp add: NP_SMALL_LIMIT_def BB_def)
    moreover from this less have "unat (ucast (mpz_get_ui n) :: uint32) = mpz_abs n"
      by (simp add: unsigned_ucast_eq take_bit_nat_eq_self NP_SMALL_LIMIT_def)
    ultimately show ?thesis using True i less by (simp add: t_def)
  next
    case False
    then show ?thesis using mpz_wf_limbs(5) [OF assms(1)] by (auto simp: t_def mpz_int_def NP_SMALL_LIMIT_def)
  qed
  then obtain z where z: "findnext_small t 2 = Some (Inr z)" "next_prime_of (int (unat t)) (unat z)"
    using findnext_small_spec [of t] by auto
  have np: "next_prime_of (mpz_int n) (unat z)"
  proof (cases "SIZ n > 0")
    case False
    then have t1: "t = 1" "mpz_int n \<le> 0" using t by simp_all
    then have k: "\<not> is_prime k" if "1 < k" "k < unat z" for k using z(2) that by (auto simp: next_prime_of_def)
    moreover have "\<not> is_prime k" if "k \<le> 1" for k using that by (simp add: is_prime_def)
    ultimately have "\<not> is_prime k" if "k < unat z" for k using that by (cases "1 < k") (simp_all add: not_less)
    then show ?thesis using z(2) t1 by (auto simp: next_prime_of_def)
  qed (use t z(2) in simp)
  have uz: "unat (ucast z :: limb) = unat z" using unsigned_less [of z, where 'a = nat] by (simp add: unsigned_ucast_eq take_bit_nat_eq_self)
  have "mpz_nextprime cfg p n = Some (Inr (mpz_set_ui p (ucast z)))" using c z(1) by (simp add: mpz_nextprime_def t_def)
  then show ?thesis using np mpz_set_ui_spec [of p "ucast z"] by (simp add: uz)
qed

end
