(* ===== verification/Gmp_Nextprime_Search.thy ===== *)
theory Gmp_Nextprime_Search
  imports Gmp_Nextprime
begin

text \<open>
  The search for a prime above the table: the sieve marks only composite numbers, so that no prime
  is passed over, and since there is a prime not far above the start and the primality test never
  rejects a prime, the search ends.
\<close>

section \<open>The integer type of the sieve index\<close>

lemma int_bit_iff: "bit (m :: uint32) 31 \<longleftrightarrow> 2 ^ 31 \<le> unat m"
proof -
  have "bit m 31 \<longleftrightarrow> bit (unat m) 31" by (simp add: bit_unsigned_iff)
  also have "\<dots> \<longleftrightarrow> odd (unat m div 2 ^ 31)" by (simp only: bit_iff_odd)
  also have "\<dots> \<longleftrightarrow> 2 ^ 31 \<le> unat m"
  proof (cases "2 ^ 31 \<le> unat m")
    case True
    moreover have "unat m < 2 ^ 32" using unsigned_less [of m, where 'a = nat] by simp
    ultimately have "unat m div 2 ^ 31 = 1" by (intro div_nat_eqI) simp_all
    then show ?thesis using True by simp
  qed simp
  finally show ?thesis .
qed

lemma unat_scast_nonneg:
  assumes "unat (m :: uint32) < 2 ^ 31"
  shows "unat (scast m :: limb) = unat m"
proof -
  have b: "\<not> bit m 31" using assms by (simp add: int_bit_iff)
  have high: "bit m n \<Longrightarrow> n < 31" for n using b bit_imp_le_length [of m n] by (cases "n = 31") auto
  have "(scast m :: limb) = ucast m"
    by (rule bit_word_eqI) (use b in \<open>auto simp: bit_signed_iff bit_unsigned_iff min_def dest: high split: if_splits\<close>)
  moreover have "unat m < 2 ^ 64" using assms by simp
  ultimately show ?thesis by (simp add: unsigned_ucast_eq take_bit_nat_eq_self)
qed

lemma unat_int_add:
  assumes "unat (m :: uint32) < 2 ^ 31" and "unat m + unat (prime :: limb) < 2 ^ 32"
  shows "unat (ucast (scast m + prime) :: uint32) = unat m + unat prime"
proof -
  have "unat (scast m + prime) = unat m + unat prime"
    using unat_scast_nonneg [OF assms(1)] assms(2) by (subst unat_plus_limb) (simp add: BB_def)
  then show ?thesis using assms(2) by (simp add: unsigned_ucast_eq take_bit_nat_eq_self)
qed

lemma unat_int_half:
  assumes "unat (m :: uint32) < 2 ^ 31"
  shows "unat (signed_drop_bit 1 m) = unat m div 2"
proof -
  have b: "\<not> bit m 31" using assms by (simp add: int_bit_iff)
  have "signed_drop_bit 1 m = drop_bit 1 m"
    by (rule bit_word_eqI) (use b bit_imp_le_length in \<open>force simp: bit_signed_drop_bit_iff bit_drop_bit_eq\<close>)
  then show ?thesis by (simp only: unat_drop_bit_eq) (simp add: drop_bit_eq_div)
qed

section \<open>Marking the multiples\<close>

lemma mark_multiples_spec:
  assumes p: "0 < unat prime" "unat prime < 2 ^ 28" and odds: "unat odds \<le> 2 ^ 30"
  shows "length composite = unat odds \<Longrightarrow> unat m < 2 ^ 31 \<Longrightarrow>
    \<exists>c. mark_multiples odds prime m composite = Some (Inr c) \<and> length c = unat odds
      \<and> (\<forall>j<unat odds. c ! j \<longrightarrow> composite ! j \<or> (\<exists>k. j = unat m + k * unat prime))"
proof (induction "2 ^ 31 - unat m" arbitrary: m composite rule: less_induct)
  case less
  show ?case
  proof (cases "m < odds")
    case True
    then have lt: "unat m < unat odds" by (simp add: word_less_nat_alt)
    then have "\<not> bit m 31" using odds by (simp add: int_bit_iff)
    define m' where "m' = (ucast (scast m + prime) :: uint32)"
    have m': "unat m' = unat m + unat prime" unfolding m'_def using less.prems(2) p lt odds by (intro unat_int_add) simp_all
    have step: "mark_multiples odds prime m composite = mark_multiples odds prime m' (composite[unat m := True])"
      using True \<open>\<not> bit m 31\<close> by (subst mark_multiples.simps) (simp add: m'_def)
    have "unat m' < 2 ^ 31" using m' p lt odds by simp
    moreover have "2 ^ 31 - unat m' < 2 ^ 31 - unat m" using m' p less.prems(2) by simp
    moreover have "length (composite[unat m := True]) = unat odds" using less.prems(1) by simp
    ultimately obtain c where c: "mark_multiples odds prime m' (composite[unat m := True]) = Some (Inr c)" "length c = unat odds"
      "\<forall>j<unat odds. c ! j \<longrightarrow> composite[unat m := True] ! j \<or> (\<exists>k. j = unat m' + k * unat prime)"
      using less.hyps [of m' "composite[unat m := True]"] by blast
    have "composite ! j \<or> (\<exists>k. j = unat m + k * unat prime)" if "j < unat odds" "c ! j" for j
    proof -
      have "composite[unat m := True] ! j \<or> (\<exists>k. j = unat m' + k * unat prime)" using c(3) that by simp
      then consider "composite[unat m := True] ! j" | k where "j = unat m' + k * unat prime" by blast
      then show ?thesis
      proof cases
        case 1
        then show ?thesis using lt less.prems(1) by (cases "j = unat m") (auto intro: exI [of _ 0])
      next
        case (2 k)
        then have "j = unat m + Suc k * unat prime" by (simp add: m')
        then show ?thesis by blast
      qed
    qed
    then show ?thesis using step c(1,2) by auto
  next
    case False
    then show ?thesis using less.prems(1) by (subst mark_multiples.simps) simp
  qed
qed

lemma first_multiple_spec:
  assumes "unat r < unat prime" and "unat prime < 2 ^ 28" and "odd (unat prime)"
  shows "unat (first_multiple r prime) < 2 ^ 28" and "2 * unat (first_multiple r prime) \<in> {unat r, unat r + unat prime}"
proof -
  define m :: uint32 where "m = ucast r"
  have m: "unat m = unat r" using assms(1,2) by (simp add: m_def unsigned_ucast_eq take_bit_nat_eq_self)
  have odd: "m AND 1 \<noteq> 0 \<longleftrightarrow> odd (unat r)"
  proof -
    have "m AND 1 = 0 \<longleftrightarrow> unat (m AND 1) = 0" by (simp add: word_unat_eq_iff)
    also have "unat (m AND 1) = unat m mod 2" by (simp add: unsigned_and_eq and_one_eq unat_mod_distrib)
    finally show ?thesis by (auto simp: m odd_iff_mod_2_eq_one even_iff_mod_2_eq_zero)
  qed
  define m1 where "m1 = (if m AND 1 \<noteq> 0 then ucast (scast m + prime) else m)"
  have a: "unat (ucast (scast m + prime) :: uint32) = unat m + unat prime" using assms(1,2) m by (intro unat_int_add) simp_all
  have m1: "unat m1 = (if odd (unat r) then unat r + unat prime else unat r)" by (simp add: m1_def odd a m)
  have "first_multiple r prime = signed_drop_bit 1 m1" by (simp add: first_multiple_def m_def m1_def Let_def)
  moreover have "unat m1 < 2 ^ 31" using m1 assms(1,2) by simp
  ultimately have f: "unat (first_multiple r prime) = unat m1 div 2" by (simp only: unat_int_half)
  have "even (unat m1)" using assms(3) by (simp add: m1)
  then have "2 * unat (first_multiple r prime) = unat m1" by (simp add: f)
  then show "2 * unat (first_multiple r prime) \<in> {unat r, unat r + unat prime}" "unat (first_multiple r prime) < 2 ^ 28"
    using m1 assms(1,2) by (auto split: if_splits)
qed

text \<open>What a mark means: the number at that place has a divisor below the start of the segment.\<close>

definition marks_sound :: "nat \<Rightarrow> bool list \<Rightarrow> bool" where
  "marks_sound P c \<longleftrightarrow> (\<forall>j<length c. c ! j \<longrightarrow> (\<exists>d. 1 < d \<and> d < P \<and> d dvd P + 2 * j))"

lemma marks_sound_prime: "marks_sound P c \<Longrightarrow> j < length c \<Longrightarrow> c ! j \<Longrightarrow> \<not> is_prime (P + 2 * j)"
  by (fastforce simp: marks_sound_def is_prime_def)

lemma mark_primes_spec:
  assumes ok: "mod_1_ok cfg" and p: "mpz_wf p" "0 \<le> SIZ p" and odds: "unat odds \<le> 2 ^ 30"
  shows "k \<le> length gaps \<Longrightarrow> odd (unat prime) \<Longrightarrow> 1 < unat prime \<Longrightarrow> (\<forall>g\<in>set gaps. even (unat g)) \<Longrightarrow>
    unat prime + sum_list (map unat gaps) < 2 ^ 28 \<Longrightarrow> unat prime + sum_list (map unat gaps) < mpz_abs p \<Longrightarrow>
    length c = unat odds \<Longrightarrow> marks_sound (mpz_abs p) c \<Longrightarrow>
    \<exists>c'. mark_primes (mpz_cdiv_ui cfg) p odds k prime gaps c = Some (Inr c') \<and> length c' = unat odds \<and> marks_sound (mpz_abs p) c'"
proof (induction k arbitrary: prime gaps c)
  case (Suc k)
  obtain g gs where g: "gaps = g # gs" using Suc.prems(1) by (cases gaps) auto
  have p28: "unat prime < 2 ^ 28" "unat prime < mpz_abs p" using Suc.prems(5,6) by linarith+
  have "prime \<noteq> 0" using Suc.prems(3) by auto
  then obtain r where r: "mpz_cdiv_ui cfg p prime = Inr r" "unat r < unat prime" "(mpz_abs p + unat r) mod unat prime = 0"
    using mpz_cdiv_ui_spec [OF ok p] by blast
  note fm = first_multiple_spec [OF r(2) p28(1) Suc.prems(2)]
  have m31: "unat (first_multiple r prime) < 2 ^ 31" using fm(1) by simp
  obtain c1 where c1: "mark_multiples odds prime (first_multiple r prime) c = Some (Inr c1)" "length c1 = unat odds"
    "\<forall>j<unat odds. c1 ! j \<longrightarrow> c ! j \<or> (\<exists>k. j = unat (first_multiple r prime) + k * unat prime)"
    using mark_multiples_spec [OF _ p28(1) odds Suc.prems(7) m31] Suc.prems(3) by auto
  have "marks_sound (mpz_abs p) c1"
    unfolding marks_sound_def
  proof (intro allI impI)
    fix j assume j: "j < length c1" "c1 ! j"
    then consider "c ! j" | k where "j = unat (first_multiple r prime) + k * unat prime" using c1(2,3) by auto
    then show "\<exists>d. 1 < d \<and> d < mpz_abs p \<and> d dvd mpz_abs p + 2 * j"
    proof cases
      case 1
      then show ?thesis using Suc.prems(7,8) j(1) c1(2) by (auto simp: marks_sound_def)
    next
      case (2 k)
      then have e: "mpz_abs p + 2 * j = mpz_abs p + 2 * unat (first_multiple r prime) + unat prime * (2 * k)" by simp
      have "unat prime dvd mpz_abs p + 2 * unat (first_multiple r prime)"
        using fm(2) r(3) by (auto simp: mod_eq_0_iff_dvd add.assoc [symmetric])
      then have "unat prime dvd mpz_abs p + 2 * j" unfolding e by simp
      then show ?thesis using Suc.prems(3) p28(2) by blast
    qed
  qed
  moreover have g8: "unat (ucast g :: limb) = unat g"
  proof -
    have "unat g < 2 ^ 64" using unat_byte_less [of g] by (rule less_trans) simp
    then show ?thesis by (simp add: unsigned_ucast_eq take_bit_nat_eq_self)
  qed
  have p': "unat (prime + ucast g) = unat prime + unat g" using Suc.prems(5) by (subst unat_plus_limb) (simp add: g g8 BB_def)
  have "\<exists>c'. mark_primes (mpz_cdiv_ui cfg) p odds k (prime + ucast g) gs c1 = Some (Inr c') \<and> length c' = unat odds \<and> marks_sound (mpz_abs p) c'"
    using Suc.prems c1(2) calculation by (intro Suc.IH) (simp_all add: g p' add.assoc)
  then show ?case using r(1) c1(1) by (simp add: g)
qed simp

section \<open>The gaps from the sieve\<close>

definition zero_bits :: "limb list \<Rightarrow> nat" where
  "zero_bits sieve = sum_list (map (\<lambda>x. length (filter (bit (NOT x)) [0..<64])) sieve)"

text \<open>
  What is asked of the sieve and of the integer routines that choose its limit: the length that the
  caller allocates, a count of the zero bits, and the values of the power, the quotient and the
  square root.
\<close>

definition sieve_ok :: "prime_cfg \<Rightarrow> bool" where
  "sieve_ok cfg \<longleftrightarrow>
     (\<forall>n. 4 < n \<longrightarrow> length (fst (gmp_primesieve cfg n)) = primesieve_size n
        \<and> unat (snd (gmp_primesieve cfg n)) = zero_bits (fst (gmp_primesieve cfg n)))
   \<and> (\<forall>b e. mpz_wf (mpz_ui_pow_ui cfg b e) \<and> 0 \<le> SIZ (mpz_ui_pow_ui cfg b e)
        \<and> mpz_abs (mpz_ui_pow_ui cfg b e) = unat b ^ unat e)
   \<and> (\<forall>z d. mpz_wf z \<longrightarrow> 0 \<le> SIZ z \<longrightarrow> d \<noteq> 0 \<longrightarrow> mpz_wf (mpz_tdiv_q_ui cfg z d) \<and> 0 \<le> SIZ (mpz_tdiv_q_ui cfg z d)
        \<and> mpz_abs (mpz_tdiv_q_ui cfg z d) = mpz_abs z div unat d)
   \<and> (\<forall>z. mpz_wf z \<longrightarrow> 0 \<le> SIZ z \<longrightarrow> mpz_wf (mpz_sqrt cfg z) \<and> 0 \<le> SIZ (mpz_sqrt cfg z)
        \<and> mpz_abs (mpz_sqrt cfg z) ^ 2 \<le> mpz_abs z \<and> mpz_abs z < (mpz_abs (mpz_sqrt cfg z) + 1) ^ 2)"

lemma calculate_sievelimit_spec:
  assumes "sieve_ok cfg" and "202 \<le> nbits"
  shows "4 < unat (calculate_sievelimit cfg nbits)" and "unat (calculate_sievelimit cfg nbits) \<le> 150000001"
proof -
  have "4 < unat (calculate_sievelimit cfg nbits) \<and> unat (calculate_sievelimit cfg nbits) \<le> 150000001"
  proof (cases "nbits < 12818")
    case True
    define z1 where "z1 = mpz_ui_pow_ui cfg (of_nat nbits) 5"
    define z2 where "z2 = mpz_tdiv_q_ui cfg z1 (124 * 124)"
    define z3 where "z3 = mpz_sqrt cfg z2"
    have n: "unat (of_nat nbits :: limb) = nbits" using True by (simp add: unsigned_of_nat take_bit_nat_eq_self)
    have z1: "mpz_wf z1" "0 \<le> SIZ z1" "mpz_abs z1 = nbits ^ 5" using assms(1) n by (simp_all add: sieve_ok_def z1_def)
    have z2: "mpz_wf z2" "0 \<le> SIZ z2" "mpz_abs z2 = nbits ^ 5 div 15376"
      using assms(1) z1 by (simp_all add: sieve_ok_def z2_def)
    have z3: "mpz_wf z3" "mpz_abs z3 ^ 2 \<le> mpz_abs z2" "mpz_abs z2 < (mpz_abs z3 + 1) ^ 2"
      using assms(1) z2(1,2) by (simp_all add: sieve_ok_def z3_def)
    have "nbits ^ 5 \<le> 12817 ^ 5" "202 ^ 5 \<le> nbits ^ 5" using True assms(2) by (intro power_mono; simp)+
    then have v: "mpz_abs z2 \<le> 22495214610498210" "21000000 \<le> mpz_abs z2" unfolding z2(3) by simp_all
    have hi: "mpz_abs z3 \<le> 150000001"
    proof (rule ccontr)
      assume "\<not> mpz_abs z3 \<le> 150000001"
      then have "150000001 ^ 2 \<le> mpz_abs z3 ^ 2" by (intro power_mono) simp_all
      then show False using z3(2) v(1) by simp
    qed
    moreover have "4 < mpz_abs z3"
    proof (rule ccontr)
      assume "\<not> 4 < mpz_abs z3"
      then have "(mpz_abs z3 + 1) ^ 2 \<le> 5 ^ 2" by (intro power_mono) simp_all
      then show False using z3(3) v(2) by simp
    qed
    moreover have "unat (mpz_get_ui z3) = mpz_abs z3" using mpz_get_ui_spec [OF z3(1)] hi by (simp add: BB_def)
    ultimately show ?thesis using True by (simp add: calculate_sievelimit_def z1_def z2_def z3_def)
  qed (simp add: calculate_sievelimit_def)
  then show "4 < unat (calculate_sievelimit cfg nbits)" and "unat (calculate_sievelimit cfg nbits) \<le> 150000001" by simp_all
qed

lemma unat_or_one: "unat (x OR 1 :: limb) = unat x + of_bool (even (unat x))"
proof -
  have "unat (x OR 1) = unat x OR 1" by (simp add: unsigned_or_eq)
  then show ?thesis by (simp add: or_Suc_0_eq)
qed

lemma primesieve_size_spec:
  assumes "4 < unat n"
  shows "unat n \<le> 4 + 192 * primesieve_size n" and "4 + 192 * (primesieve_size n - 1) < unat n"
proof -
  define m where "m = unat n - 5 + of_bool (even (unat n - 5))"
  have five: "unat (n - 5) = unat n - 5" using assms by (subst unat_sub) (simp_all add: word_le_nat_alt)
  have "unat (n_to_bit n) = m div 3" by (simp add: n_to_bit_def unat_div five unat_or_one m_def)
  then have sz: "primesieve_size n = m div 192 + 1" by (simp add: primesieve_size_def div_mult2_eq [symmetric])
  have "unat n - 5 \<le> m" "m \<le> unat n - 4" using assms by (auto simp: m_def)
  moreover have "192 * (m div 192) \<le> m" "m < 192 * (m div 192) + 192"
    using mult_div_mod_eq [of 192 m] mod_less_divisor [of 192 m] by simp_all
  ultimately show "unat n \<le> 4 + 192 * primesieve_size n" using assms sz by linarith
  have "odd m" unfolding m_def by simp
  then have "192 * (m div 192) \<noteq> m" by (metis dvd_mult2 even_numeral)
  then have "192 * (m div 192) < m" using \<open>192 * (m div 192) \<le> m\<close> by linarith
  then have "4 + 192 * (m div 192) < 4 + m" by simp
  also have "4 + m \<le> unat n" using \<open>m \<le> unat n - 4\<close> assms by linarith
  finally show "4 + 192 * (primesieve_size n - 1) < unat n" by (simp add: sz)
qed

lemma count_bits_Suc:
  "length (filter (bit (x :: limb)) [0..<Suc k]) = of_bool (bit x 0) + length (filter (bit (drop_bit 1 x)) [0..<k])"
proof -
  have "[0..<Suc k] = 0 # map Suc [0..<k]" by (simp add: upt_conv_Cons map_Suc_upt del: upt_Suc)
  then show ?thesis by (simp add: filter_map o_def bit_drop_bit_eq del: upt_Suc)
qed

lemma gap_bits_spec:
  shows "unat x < 2 ^ k \<Longrightarrow> unat b + 3 * k < 2 ^ 40 \<Longrightarrow> unat last_prime < unat b \<Longrightarrow> odd (unat last_prime) \<Longrightarrow>
    gap_bits b x last_prime = (gs, l) \<Longrightarrow>
    length gs = length (filter (bit x) [0..<k]) \<and> (\<forall>g\<in>set gs. even (unat g)) \<and> odd (unat l)
    \<and> unat last_prime + sum_list (map unat gs) \<le> unat l \<and> unat l < unat b + 3 * k"
proof (induction k arbitrary: b x last_prime gs l)
  case 0
  then have "x = 0" by (simp add: unat_eq_0)
  then show ?case using 0 by (simp add: gap_bits.simps)
next
  case (Suc k)
  show ?case
  proof (cases "x = 0")
    case True
    then show ?thesis using Suc.prems by (simp add: gap_bits.simps)
  next
    case False
    define y where "y = drop_bit 1 x"
    have y: "unat y < 2 ^ k" using Suc.prems(1) by (simp add: y_def unat_drop_bit_limb)
    have b3: "unat (b + 3) = unat b + 3" using Suc.prems(2) by (subst unat_plus_limb) (simp add: BB_def)
    have bit0: "x AND 1 \<noteq> 0 \<longleftrightarrow> bit x 0" by (simp add: and_one_eq bit_0 odd_iff_mod_2_eq_one)
    show ?thesis
    proof (cases "bit x 0")
      case True
      define prime where "prime = b OR 1"
      obtain gs' where g: "gap_bits (b + 3) y prime = (gs', l)" "gs = ucast (prime - last_prime) # gs'"
        using Suc.prems(5) False True bit0 by (subst (asm) gap_bits.simps) (auto simp: y_def prime_def Let_def split: prod.splits)
      have pr: "unat prime = unat b + of_bool (even (unat b))" by (simp add: prime_def unat_or_one)
      have IH: "length gs' = length (filter (bit y) [0..<k]) \<and> (\<forall>g\<in>set gs'. even (unat g)) \<and> odd (unat l)
        \<and> unat prime + sum_list (map unat gs') \<le> unat l \<and> unat l < unat (b + 3) + 3 * k"
        by (rule Suc.IH [OF y _ _ _ g(1)]) (use Suc.prems(2) pr b3 in simp_all)
      have "unat (prime - last_prime) = unat prime - unat last_prime" using pr Suc.prems(3) by (subst unat_sub) (simp_all add: word_le_nat_alt)
      then have gap: "unat (ucast (prime - last_prime) :: byte) = (unat prime - unat last_prime) mod 256" by (simp add: unat_ucast_byte)
      have "even (unat prime - unat last_prime)" using pr Suc.prems(4) by simp
      then have "even ((unat prime - unat last_prime) mod 256)" by (simp add: dvd_mod_iff)
      moreover have "(unat prime - unat last_prime) mod 256 \<le> unat prime - unat last_prime" by (rule mod_less_eq_dividend)
      then have "unat last_prime + (unat prime - unat last_prime) mod 256 \<le> unat prime" using pr Suc.prems(3) by linarith
      ultimately show ?thesis using IH g(2) True gap b3 by (simp add: count_bits_Suc y_def del: upt_Suc)
    next
      case f: False
      have g: "gap_bits (b + 3) y last_prime = (gs, l)"
        using Suc.prems(5) False f bit0 by (subst (asm) gap_bits.simps) (simp add: y_def)
      have "length gs = length (filter (bit y) [0..<k]) \<and> (\<forall>g\<in>set gs. even (unat g)) \<and> odd (unat l)
        \<and> unat last_prime + sum_list (map unat gs) \<le> unat l \<and> unat l < unat (b + 3) + 3 * k"
        by (rule Suc.IH [OF y _ _ _ g]) (use Suc.prems b3 in simp_all)
      then show ?thesis using f b3 by (simp add: count_bits_Suc y_def del: upt_Suc)
    qed
  qed
qed

lemma sieve_gaps_spec:
  shows "unat limit \<le> unat j + 192 * length sp \<Longrightarrow> (sp \<noteq> [] \<Longrightarrow> unat j + 192 * (length sp - 1) < unat limit) \<Longrightarrow>
    unat j + 192 * length sp < 2 ^ 40 \<Longrightarrow> unat last_prime < unat j \<Longrightarrow> odd (unat last_prime) \<Longrightarrow>
    \<exists>gs. sieve_gaps limit j last_prime sp = Inr gs \<and> length gs = zero_bits sp \<and> (\<forall>g\<in>set gs. even (unat g))
      \<and> unat last_prime + sum_list (map unat gs) \<le> unat j + 192 * length sp"
proof (induction sp arbitrary: j last_prime)
  case Nil
  then show ?case by (simp add: word_less_nat_alt zero_bits_def)
next
  case (Cons s sp)
  have "unat j < unat limit" using Cons.prems(2) by simp
  then have lt: "j < limit" by (simp add: word_less_nat_alt)
  obtain gs l where g: "gap_bits j (NOT s) last_prime = (gs, l)" by fastforce
  have x: "unat (NOT s) < 2 ^ 64" by (rule unat_limb_less)
  have "unat j + 3 * 64 < 2 ^ 40" using Cons.prems(3) by simp
  note gb = gap_bits_spec [OF x this Cons.prems(4,5) g]
  have j': "unat (j + 64 * 3) = unat j + 192" using Cons.prems(3) by (subst unat_plus_limb) (simp add: BB_def)
  have "\<exists>rest. sieve_gaps limit (j + 64 * 3) l sp = Inr rest \<and> length rest = zero_bits sp \<and> (\<forall>g\<in>set rest. even (unat g))
      \<and> unat l + sum_list (map unat rest) \<le> unat (j + 64 * 3) + 192 * length sp"
  proof (rule Cons.IH)
    show "unat (j + 64 * 3) + 192 * (length sp - 1) < unat limit" if "sp \<noteq> []"
      using that Cons.prems(2) unfolding j' by (cases sp) simp_all
  next
    show "unat limit \<le> unat (j + 64 * 3) + 192 * length sp" "unat (j + 64 * 3) + 192 * length sp < 2 ^ 40" "unat l < unat (j + 64 * 3)"
      "odd (unat l)"
      unfolding j' using Cons.prems(1,3) gb by simp_all
  qed
  then obtain rest where r: "sieve_gaps limit (j + 64 * 3) l sp = Inr rest" "length rest = zero_bits sp" "\<forall>g\<in>set rest. even (unat g)"
    "unat l + sum_list (map unat rest) \<le> unat j + 192 + 192 * length sp" unfolding j' by blast
  have "sieve_gaps limit j last_prime (s # sp) = Inr (gs @ rest)" using lt g r(1) by simp
  then show ?case using r gb by (auto simp: zero_bits_def)
qed

lemma trial_primes_spec:
  assumes "sieve_ok cfg"
  shows "\<exists>gaps k. trial_primes cfg nbits = Inr (gaps, k) \<and> k \<le> length gaps \<and> (\<forall>g\<in>set gaps. even (unat g))
    \<and> 3 + sum_list (map unat gaps) < (if nbits div 2 \<le> 100 then 1000 else 2 ^ 28)"
proof (cases "nbits div 2 \<le> NUMBER_OF_PRIMES")
  case True
  have "\<forall>g\<in>set primegap_small. even (unat g)" by (simp add: primegap_small_def)
  then show ?thesis using True by (simp add: trial_primes_def table_size NUMBER_OF_PRIMES_def)
next
  case False
  then have nb: "202 \<le> nbits" by (simp add: NUMBER_OF_PRIMES_def)
  define limit where "limit = calculate_sievelimit cfg nbits"
  note lm = calculate_sievelimit_spec [OF assms nb, folded limit_def]
  obtain sieve cnt where s: "gmp_primesieve cfg limit = (sieve, cnt)" by fastforce
  have "4 < limit" using lm(1) by (simp add: word_less_nat_alt)
  then have sv: "length sieve = primesieve_size limit" "unat cnt = zero_bits sieve"
    using assms s unfolding sieve_ok_def by (metis fst_conv, metis fst_conv snd_conv)
  note ps = primesieve_size_spec [OF lm(1)]
  have "\<exists>gs. sieve_gaps limit 4 3 sieve = Inr gs \<and> length gs = zero_bits sieve \<and> (\<forall>g\<in>set gs. even (unat g))
      \<and> unat (3 :: limb) + sum_list (map unat gs) \<le> unat (4 :: limb) + 192 * length sieve"
    by (rule sieve_gaps_spec) (use ps lm(2) sv(1) in simp_all)
  then obtain gs where g: "sieve_gaps limit 4 3 sieve = Inr gs" "length gs = zero_bits sieve" "\<forall>g\<in>set gs. even (unat g)"
    "3 + sum_list (map unat gs) \<le> 4 + 192 * length sieve" by auto
  have "192 * length sieve < unat limit + 192" using ps(2) sv(1) by simp
  then have "3 + sum_list (map unat gs) < 2 ^ 28" using g(4) lm(2) by simp
  moreover have "trial_primes cfg nbits = Inr (gs, unat cnt)"
    using False s g(1,2) sv(2) by (simp add: trial_primes_def Let_def limit_def [symmetric])
  ultimately show ?thesis using g(2,3) sv(2) False by (simp add: NUMBER_OF_PRIMES_def)
qed

end
