(* ===== verification/Gmp_Nextprime_Found.thy ===== *)
theory Gmp_Nextprime_Found
  imports Gmp_Nextprime_Search
begin

text \<open>
  The search of \<open>findnext\<close> ends: a segment is left without a number found only when it has no prime,
  and there is a prime below a bound on the start, so the segments move towards it.  No prime
  between the argument and the number found is passed over.
\<close>

section \<open>One segment\<close>

lemma mpz_size_le:
  assumes "mpz_wf z" and "mpz_abs z < BB ^ K"
  shows "ABSIZ z \<le> K"
proof (cases "SIZ z = 0")
  case False
  note w = mpz_wf_limbs [OF assms(1)]
  have "PTR z \<noteq> []" using w(3) False by simp
  then have "BB ^ (ABSIZ z - 1) \<le> mpz_abs z" using limbs_val_ge [of "PTR z"] w(1,2) by (simp add: mpz_abs_def)
  then have "BB ^ (ABSIZ z - 1) < BB ^ K" using assms(2) by simp
  then have "ABSIZ z - 1 < K" by (rule power_less_imp_less_exp [OF BB_gt1])
  then show ?thesis by simp
qed (simp add: ABSIZ_def)

definition skips_no_prime :: "nat \<Rightarrow> nat \<Rightarrow> bool" where
  "skips_no_prime a b \<longleftrightarrow> (\<forall>k. a \<le> k \<longrightarrow> k < b \<longrightarrow> \<not> is_prime k)"

lemma skips_no_prime_step:
  assumes "\<not> is_prime a" and "odd a" and "2 < a" and "skips_no_prime (a + 2) b"
  shows "skips_no_prime a b"
  unfolding skips_no_prime_def
proof (intro allI impI)
  fix k assume "a \<le> k" "k < b"
  then consider "k = a" | "k = a + 1" | "a + 2 \<le> k" by linarith
  then show "\<not> is_prime k"
  proof cases
    case 2
    then show ?thesis using assms(2,3) by (intro even_not_prime) simp_all
  qed (use assms \<open>k < b\<close> in \<open>simp_all add: skips_no_prime_def\<close>)
qed

lemma skips_no_prime_trans: "skips_no_prime a b \<Longrightarrow> skips_no_prime b c \<Longrightarrow> skips_no_prime a c"
  unfolding skips_no_prime_def by (meson not_less)

text \<open>What the later proofs ask of the configuration.\<close>

definition search_ok :: "prime_cfg \<Rightarrow> bool" where
  "search_ok cfg \<longleftrightarrow> cfg_ok (limb_cfg cfg) \<and> div_ok cfg \<and> lucas_ok cfg"

text \<open>A number found is one that the primality test accepted.\<close>

definition passed :: "prime_cfg \<Rightarrow> mpz \<Rightarrow> int \<Rightarrow> bool" where
  "passed cfg p t \<longleftrightarrow> (t \<noteq> 0 \<longrightarrow> mpz_millerrabin cfg p 25 = Some (Inr t))"

lemma search_segment_spec:
  assumes ok: "search_ok cfg" and K: "K < 2 ^ 31"
  shows "mpz_wf p \<Longrightarrow> 0 < SIZ p \<Longrightarrow> 7 \<le> mpz_abs p \<Longrightarrow> odd (mpz_abs p + unat d) \<Longrightarrow> unat d + 2 * length cs < BB \<Longrightarrow>
    mpz_abs p + unat d + 2 * length cs < BB ^ K \<Longrightarrow> (\<And>j. j < length cs \<Longrightarrow> cs ! j \<Longrightarrow> \<not> is_prime (mpz_abs p + unat d + 2 * j)) \<Longrightarrow>
    \<exists>p' t. search_segment cfg mpz_add_ui cs p d = Some (Inr (p', t)) \<and> mpz_wf p' \<and> 0 < SIZ p'
      \<and> skips_no_prime (mpz_abs p + unat d) (mpz_abs p') \<and> mpz_abs p + unat d \<le> mpz_abs p'
      \<and> (t = 0 \<longrightarrow> mpz_abs p' = mpz_abs p + unat d + 2 * length cs) \<and> passed cfg p' t"
proof (induction cs arbitrary: p d)
  case Nil
  note add = mpz_add_ui_spec [OF Nil.prems(1) less_imp_le [OF Nil.prems(2)], of p d]
  have "0 < SIZ (mpz_add_ui p p d)" using mpz_wf_limbs(5) [OF add(1)] add(2,3) Nil.prems(3) by simp
  then show ?case using add by (simp add: skips_no_prime_def passed_def)
next
  case (Cons c cs)
  have d2: "unat (d + 2) = unat d + 2" using Cons.prems(5) by (subst unat_plus_limb) (simp_all add: BB_def)
  have two: "2 < mpz_abs p + unat d" using Cons.prems(3) by simp
  have marks: "\<not> is_prime (mpz_abs p + unat d + 2 + 2 * j)" if "j < length cs" "cs ! j" for j
    using Cons.prems(7) [of "Suc j"] that by (simp add: add.assoc)
  show ?case
  proof (cases c)
    case True
    then have np: "\<not> is_prime (mpz_abs p + unat d)" using Cons.prems(7) [of 0] by simp
    have "\<exists>p' t. search_segment cfg mpz_add_ui cs p (d + 2) = Some (Inr (p', t)) \<and> mpz_wf p' \<and> 0 < SIZ p'
      \<and> skips_no_prime (mpz_abs p + unat (d + 2)) (mpz_abs p') \<and> mpz_abs p + unat (d + 2) \<le> mpz_abs p'
      \<and> (t = 0 \<longrightarrow> mpz_abs p' = mpz_abs p + unat (d + 2) + 2 * length cs) \<and> passed cfg p' t"
    proof (rule Cons.IH [OF Cons.prems(1-3)])
      show "\<not> is_prime (mpz_abs p + unat (d + 2) + 2 * j)" if "j < length cs" "cs ! j" for j
        unfolding d2 using marks [OF that] by (simp add: add.assoc)
    qed (use Cons.prems(4-6) in \<open>simp_all add: d2\<close>)
    then obtain p' t where r: "search_segment cfg mpz_add_ui cs p (d + 2) = Some (Inr (p', t))" "mpz_wf p'" "0 < SIZ p'"
      "skips_no_prime (mpz_abs p + unat d + 2) (mpz_abs p')" "mpz_abs p + unat d + 2 \<le> mpz_abs p'"
      "t = 0 \<longrightarrow> mpz_abs p' = mpz_abs p + unat d + 2 + 2 * length cs" "passed cfg p' t" by (auto simp: d2 add.assoc [symmetric])
    then show ?thesis using skips_no_prime_step [OF np Cons.prems(4) two r(4)] True by simp
  next
    case False
    define p1 where "p1 = mpz_add_ui p p d"
    note p1 = mpz_add_ui_spec [OF Cons.prems(1) less_imp_le [OF Cons.prems(2)], of p d, folded p1_def]
    have s1: "0 < SIZ p1" using mpz_wf_limbs(5) [OF p1(1)] p1(2,3) Cons.prems(3) by simp
    have "mpz_abs p1 < BB ^ K" using p1(2) Cons.prems(6) by simp
    then have "ABSIZ p1 < 2 ^ 31" using mpz_size_le [OF p1(1)] K by fastforce
    then have cand: "candidate cfg p1" using ok p1 s1 Cons.prems(3,4) by (simp add: candidate_def search_ok_def)
    obtain t where t: "mpz_millerrabin cfg p1 25 = Some (Inr t)" "is_prime (mpz_abs p1) \<Longrightarrow> t \<noteq> 0"
      using mpz_millerrabin_spec [OF cand, of 25] ok unfolding search_ok_def by metis
    show ?thesis
    proof (cases "t = 0")
      case t0: True
      then have np: "\<not> is_prime (mpz_abs p + unat d)" using t(2) p1(2) by auto
      have "\<exists>p' t. search_segment cfg mpz_add_ui cs p1 (0 + 2) = Some (Inr (p', t)) \<and> mpz_wf p' \<and> 0 < SIZ p'
        \<and> skips_no_prime (mpz_abs p1 + unat (0 + 2 :: limb)) (mpz_abs p') \<and> mpz_abs p1 + unat (0 + 2 :: limb) \<le> mpz_abs p'
        \<and> (t = 0 \<longrightarrow> mpz_abs p' = mpz_abs p1 + unat (0 + 2 :: limb) + 2 * length cs) \<and> passed cfg p' t"
      proof (rule Cons.IH [OF p1(1) s1])
        show "\<not> is_prime (mpz_abs p1 + unat (0 + 2 :: limb) + 2 * j)" if "j < length cs" "cs ! j" for j
          using marks [OF that] by (simp add: p1(2) add.assoc)
      qed (use Cons.prems(3-6) in \<open>simp_all add: p1(2)\<close>)
      then obtain p' t' where r: "search_segment cfg mpz_add_ui cs p1 (0 + 2) = Some (Inr (p', t'))" "mpz_wf p'" "0 < SIZ p'"
        "skips_no_prime (mpz_abs p + unat d + 2) (mpz_abs p')" "mpz_abs p + unat d + 2 \<le> mpz_abs p'"
        "t' = 0 \<longrightarrow> mpz_abs p' = mpz_abs p + unat d + 2 + 2 * length cs" "passed cfg p' t'" by (auto simp: p1(2))
      then show ?thesis using skips_no_prime_step [OF np Cons.prems(4) two r(4)] False t(1) t0 by (simp add: p1_def [symmetric])
    next
      case t1: False
      then have "search_segment cfg mpz_add_ui (c # cs) p d = Some (Inr (p1, t))"
        using False t(1) by (simp add: p1_def [symmetric])
      then show ?thesis using p1 s1 t1 t(1) by (auto simp: passed_def skips_no_prime_def)
    qed
  qed
qed

section \<open>The loop over the segments\<close>

lemma findnext_loop_spec:
  assumes ok: "search_ok cfg" and K: "K < 2 ^ 31" and odds: "0 < unat odds" "unat odds \<le> 2 ^ 30"
    and gaps: "k \<le> length gaps" "\<forall>g\<in>set gaps. even (unat g)" "3 + sum_list (map unat gaps) < 2 ^ 28"
    and q: "is_prime q" "q + 2 ^ 32 < BB ^ K"
  shows "mpz_wf p \<Longrightarrow> 0 < SIZ p \<Longrightarrow> 7 \<le> mpz_abs p \<Longrightarrow> odd (mpz_abs p) \<Longrightarrow> 3 + sum_list (map unat gaps) < mpz_abs p \<Longrightarrow> mpz_abs p \<le> q \<Longrightarrow>
    \<exists>p' t. findnext_loop cfg (mpz_cdiv_ui (limb_cfg cfg)) mpz_add_ui odds gaps k p = Some (Inr (p', t)) \<and> mpz_wf p' \<and> 0 < SIZ p'
      \<and> skips_no_prime (mpz_abs p) (mpz_abs p') \<and> mpz_abs p \<le> mpz_abs p' \<and> t \<noteq> 0 \<and> passed cfg p' t"
proof (induction "q - mpz_abs p" arbitrary: p rule: less_induct)
  case less
  have m1: "mod_1_ok (limb_cfg cfg)" using ok cfg_ok_mul by (simp add: search_ok_def)
  have three: "unat (3 :: limb) = 3" by simp
  have "\<exists>c'. mark_primes (mpz_cdiv_ui (limb_cfg cfg)) p odds k 3 gaps (replicate (unat odds) False) = Some (Inr c')
    \<and> length c' = unat odds \<and> marks_sound (mpz_abs p) c'"
    by (rule mark_primes_spec [OF m1 less.prems(1) less_imp_le [OF less.prems(2)] odds(2) gaps(1)])
      (use gaps less.prems(5) in \<open>simp_all add: marks_sound_def\<close>)
  then obtain c where c: "mark_primes (mpz_cdiv_ui (limb_cfg cfg)) p odds k 3 gaps (replicate (unat odds) False) = Some (Inr c)"
    "length c = unat odds" "marks_sound (mpz_abs p) c" by blast
  have "\<exists>p' t. search_segment cfg mpz_add_ui c p 0 = Some (Inr (p', t)) \<and> mpz_wf p' \<and> 0 < SIZ p'
      \<and> skips_no_prime (mpz_abs p + unat (0 :: limb)) (mpz_abs p') \<and> mpz_abs p + unat (0 :: limb) \<le> mpz_abs p'
      \<and> (t = 0 \<longrightarrow> mpz_abs p' = mpz_abs p + unat (0 :: limb) + 2 * length c) \<and> passed cfg p' t"
  proof (rule search_segment_spec [OF ok K less.prems(1-3)])
    show "mpz_abs p + unat (0 :: limb) + 2 * length c < BB ^ K" using c(2) odds(2) q(2) less.prems(6) by simp
    show "\<not> is_prime (mpz_abs p + unat (0 :: limb) + 2 * j)" if "j < length c" "c ! j" for j
      using marks_sound_prime [OF c(3) that] by simp
  qed (use less.prems(4) c(2) odds(2) in \<open>simp_all add: BB_def\<close>)
  then obtain p1 t where s: "search_segment cfg mpz_add_ui c p 0 = Some (Inr (p1, t))" "mpz_wf p1" "0 < SIZ p1"
    "skips_no_prime (mpz_abs p) (mpz_abs p1)" "mpz_abs p \<le> mpz_abs p1" "t = 0 \<longrightarrow> mpz_abs p1 = mpz_abs p + 2 * unat odds"
    "passed cfg p1 t" by (auto simp: c(2))
  show ?case
  proof (cases "t = 0")
    case True
    then have e: "mpz_abs p1 = mpz_abs p + 2 * unat odds" using s(6) by simp
    have le: "mpz_abs p1 \<le> q" using s(4) q(1) less.prems(6) unfolding skips_no_prime_def by (meson not_less)
    have "q - mpz_abs p1 < q - mpz_abs p" using e le odds(1) by linarith
    then obtain p' t' where r: "findnext_loop cfg (mpz_cdiv_ui (limb_cfg cfg)) mpz_add_ui odds gaps k p1 = Some (Inr (p', t'))"
      "mpz_wf p'" "0 < SIZ p'" "skips_no_prime (mpz_abs p1) (mpz_abs p')" "mpz_abs p1 \<le> mpz_abs p'" "t' \<noteq> 0" "passed cfg p' t'"
      using less.hyps [of p1] s(2,3) le less.prems(3-5) by (auto simp: e)
    have "findnext_loop cfg (mpz_cdiv_ui (limb_cfg cfg)) mpz_add_ui odds gaps k p = Some (Inr (p', t'))"
      using c(1) s(1) True r(1) by (subst findnext_loop.simps) simp
    then show ?thesis using r skips_no_prime_trans [OF s(4) r(4)] s(5) by auto
  next
    case False
    then have "findnext_loop cfg (mpz_cdiv_ui (limb_cfg cfg)) mpz_add_ui odds gaps k p = Some (Inr (p1, t))"
      using c(1) s(1) by (subst findnext_loop.simps) simp
    then show ?thesis using s False by auto
  qed
qed

section \<open>The next prime\<close>

text \<open>The number found, its sign, and that it is the first one above \<open>n\<close> that can be a prime.\<close>

definition prime_candidate_above :: "prime_cfg \<Rightarrow> int \<Rightarrow> mpz \<Rightarrow> bool" where
  "prime_candidate_above cfg n z \<longleftrightarrow> mpz_wf z \<and> 0 < SIZ z \<and> n < mpz_int z
     \<and> (\<forall>k. n < int k \<longrightarrow> int k < mpz_int z \<longrightarrow> \<not> is_prime k)
     \<and> (if n < int NP_SMALL_LIMIT then is_prime (mpz_abs z) else \<exists>t. t \<noteq> 0 \<and> mpz_millerrabin cfg z 25 = Some (Inr t))"

lemma limbs_set_odd:
  assumes "xs \<noteq> []" and "last xs \<noteq> 0"
  defines "ys \<equiv> xs[0 := xs ! 0 OR 1]"
  shows "limbs_val ys = limbs_val xs + of_bool (even (limbs_val xs))" and "length ys = length xs" and "last ys \<noteq> 0"
proof -
  obtain x zs where x: "xs = x # zs" using assms(1) by (cases xs) auto
  have "even BB" by (simp add: BB_def)
  then have "even (limbs_val xs) \<longleftrightarrow> even (unat x)" by (simp add: x)
  then show "limbs_val ys = limbs_val xs + of_bool (even (limbs_val xs))" by (simp add: ys_def x unat_or_one)
  show "length ys = length xs" by (simp add: ys_def)
  have "unat (x OR 1) \<noteq> 0" using odd_pos [of "unat x"] by (auto simp: unat_or_one)
  then have "x OR 1 \<noteq> 0" by (metis unat_0)
  then show "last ys \<noteq> 0" using assms(2) by (cases zs) (simp_all add: ys_def x)
qed

lemma findnext_spec:
  assumes ok: "search_ok cfg" "sieve_ok cfg" and p: "mpz_wf p" "0 < SIZ p" "ABSIZ p \<le> 2 ^ 21" "1001 \<le> mpz_abs p"
  shows "\<exists>z t. findnext cfg (mpz_cdiv_ui (limb_cfg cfg)) mpz_add_ui p = Some (Inr (z, t)) \<and> mpz_wf z \<and> 0 < SIZ z
    \<and> skips_no_prime (mpz_abs p) (mpz_abs z) \<and> mpz_abs p \<le> mpz_abs z \<and> t \<noteq> 0 \<and> passed cfg z t"
proof -
  note w = mpz_wf_limbs [OF p(1)]
  have ne: "PTR p \<noteq> []" using w(3) p(2) by simp
  have pn: "nat (SIZ p) = length (PTR p)" using w(1) p(2) by (simp add: ABSIZ_def)
  define nbits where "nbits = MPN_SIZEINBASE_2EXP (PTR p) (nat (SIZ p)) 1"
  have nb: "nbits = length (PTR p) * 64 - count_leading_zeros (last (PTR p))"
    unfolding nbits_def pn using ne by (simp add: MPN_SIZEINBASE_2EXP_def Let_def last_conv_nth)
  have bits: "0 < nbits" "2 ^ (nbits - 1) \<le> mpz_abs p" using limbs_bits [OF ne w(2) [OF ne]] by (simp_all add: nb mpz_abs_def)
  have nb27: "nbits \<le> 2 ^ 27" using nb w(1) p(3) by simp
  define p1 where "p1 = p\<lparr>PTR := (PTR p)[0 := PTR p ! 0 OR 1]\<rparr>"
  note so = limbs_set_odd [OF ne w(2) [OF ne]]
  have p1: "mpz_wf p1" "0 < SIZ p1" "mpz_abs p1 = mpz_abs p + of_bool (even (mpz_abs p))"
    using so p(1,2) by (simp_all add: p1_def mpz_wf_def mpz_abs_def)
  define odds :: uint32 where
    "odds = (if nbits \<le> 32 then 336 div 2 else if nbits \<le> 64 then 1550 div 2 else of_nat (5 * nbits))"
  have "unat (of_nat (5 * nbits) :: uint32) = 5 * nbits" using nb27 by (subst unsigned_of_nat) (simp add: take_bit_nat_eq_self)
  then have odds: "0 < unat odds" "unat odds \<le> 2 ^ 30" using nb27 bits(1) by (simp_all add: odds_def)
  obtain gaps k where g: "trial_primes cfg nbits = Inr (gaps, k)" "k \<le> length gaps" "\<forall>g\<in>set gaps. even (unat g)"
    "3 + sum_list (map unat gaps) < (if nbits div 2 \<le> 100 then 1000 else 2 ^ 28)"
    using trial_primes_spec [OF ok(2)] by blast
  have "(if nbits div 2 \<le> 100 then 1000 else 2 ^ 28) \<le> mpz_abs p"
  proof (cases "nbits div 2 \<le> 100")
    case False
    then have "(2 :: nat) ^ 28 \<le> 2 ^ (nbits - 1)" by (intro power_increasing) simp_all
    then show ?thesis using bits(2) False by simp
  qed (use p(4) in simp)
  then have g': "3 + sum_list (map unat gaps) < mpz_abs p1" "3 + sum_list (map unat gaps) < 2 ^ 28"
    using g(4) p1(3) by (simp_all split: if_splits)
  have p1': "7 \<le> mpz_abs p1" "odd (mpz_abs p1)" using p1(3) p(4) by simp_all
  obtain q where q: "is_prime q" "mpz_abs p1 < q" "q \<le> 2 * mpz_abs p1 * mpz_abs p1" using next_prime_bound [OF p1'(1)] by blast
  define K where "K = 2 * length (PTR p) + 3"
  have "length (PTR p1) = length (PTR p)" by (simp add: p1_def)
  then have "mpz_abs p1 < BB ^ length (PTR p)" using limbs_val_lt [of "PTR p1"] by (simp add: mpz_abs_def)
  then have "mpz_abs p1 * mpz_abs p1 < BB ^ length (PTR p) * BB ^ length (PTR p)" by (intro mult_strict_mono) simp_all
  also have "\<dots> = BB ^ (2 * length (PTR p))" by (simp add: power_add mult_2)
  finally have "q + 2 ^ 32 < 2 * BB ^ (2 * length (PTR p)) + 2 ^ 32" using q(3) by simp
  also have "\<dots> \<le> BB ^ (2 * length (PTR p)) * (2 + 2 ^ 32)" using BB_gt1 by (simp add: algebra_simps)
  also have "\<dots> \<le> BB ^ (2 * length (PTR p)) * BB ^ 3" by (intro mult_le_mono2) (simp add: BB_def)
  also have "\<dots> = BB ^ K" by (simp only: K_def power_add)
  finally have qK: "q + 2 ^ 32 < BB ^ K" .
  have K: "K < 2 ^ 31" using w(1) p(3) by (simp add: K_def)
  obtain z t where z: "findnext_loop cfg (mpz_cdiv_ui (limb_cfg cfg)) mpz_add_ui odds gaps k p1 = Some (Inr (z, t))"
    "mpz_wf z" "0 < SIZ z" "skips_no_prime (mpz_abs p1) (mpz_abs z)" "mpz_abs p1 \<le> mpz_abs z" "t \<noteq> 0" "passed cfg z t"
    using findnext_loop_spec [OF ok(1) K odds g(2,3) g'(2) q(1) qK p1(1,2) p1' g'(1) less_imp_le [OF q(2)]] by blast
  have "skips_no_prime (mpz_abs p) (mpz_abs z)"
    unfolding skips_no_prime_def
  proof (intro allI impI)
    fix j assume j: "mpz_abs p \<le> j" "j < mpz_abs z"
    show "\<not> is_prime j"
    proof (cases "mpz_abs p1 \<le> j")
      case False
      then have "j = mpz_abs p \<and> even (mpz_abs p)" using p1(3) j(1) by (cases "even (mpz_abs p)") simp_all
      then show ?thesis using p(4) by (intro even_not_prime) simp_all
    qed (use z(4) j(2) in \<open>simp add: skips_no_prime_def\<close>)
  qed
  moreover have "findnext cfg (mpz_cdiv_ui (limb_cfg cfg)) mpz_add_ui p = Some (Inr (z, t))"
    unfolding findnext_def Let_def nbits_def [symmetric] p1_def [symmetric] odds_def [symmetric] using g(1) z(1) by simp
  ultimately show ?thesis using z p1(3) by auto
qed

lemma mpz_nextprime_spec:
  assumes ok: "search_ok cfg" "sieve_ok cfg" and n: "mpz_wf n" "ABSIZ n < 2 ^ 20"
  shows "\<exists>z. mpz_nextprime cfg p n = Some (Inr z) \<and> prime_candidate_above cfg (mpz_int n) z"
proof (cases "mpz_int n < int NP_SMALL_LIMIT")
  case True
  from mpz_nextprime_small [OF n(1) True] obtain z where z: "mpz_nextprime cfg p n = Some (Inr z)" "mpz_wf z" "0 \<le> SIZ z"
    "next_prime_of (mpz_int n) (mpz_abs z)" by blast
  have "is_prime (mpz_abs z)" using z(4) by (simp add: next_prime_of_def)
  then have "0 < mpz_abs z" using is_prime_gt1 by fastforce
  then have "0 < SIZ z" using mpz_wf_limbs(5) [OF z(2)] z(3) by simp
  then show ?thesis using z True by (auto simp: prime_candidate_above_def next_prime_of_def mpz_int_def)
next
  case False
  then have s: "0 \<le> SIZ n" by (simp add: mpz_int_def NP_SMALL_LIMIT_def split: if_splits)
  then have i: "mpz_int n = int (mpz_abs n)" by (simp add: mpz_int_def)
  have big: "NP_SMALL_LIMIT \<le> mpz_abs n" using False i by simp
  have "unat (of_nat NP_SMALL_LIMIT :: limb) = NP_SMALL_LIMIT" by (simp add: NP_SMALL_LIMIT_def)
  then have c: "\<not> mpz_cmp_ui n (of_nat NP_SMALL_LIMIT) < 0" unfolding mpz_cmp_ui_spec(1) [OF n(1)] using False by (simp only: not_False_eq_True)
  define p1 where "p1 = mpz_add_ui p n 1"
  note p1 = mpz_add_ui_spec [OF n(1) s, of p 1, folded p1_def]
  have s1: "0 < SIZ p1" using mpz_wf_limbs(5) [OF p1(1)] p1(2,3) by simp
  have "mpz_abs n < BB ^ ABSIZ n" using limbs_val_lt [of "PTR n"] mpz_wf_limbs(1) [OF n(1)] by (simp add: mpz_abs_def)
  then have "mpz_abs p1 < BB ^ ABSIZ n + BB ^ ABSIZ n" using p1(2) BB_gt1 by (simp add: Suc_leI)
  also have "\<dots> \<le> BB ^ (ABSIZ n + 1)" using BB_gt1 by (simp add: BB_def)
  finally have "ABSIZ p1 \<le> ABSIZ n + 1" by (rule mpz_size_le [OF p1(1)])
  then have sz: "ABSIZ p1 \<le> 2 ^ 21" using n(2) by simp
  have "1001 \<le> mpz_abs p1" using big p1(2) by (simp add: NP_SMALL_LIMIT_def)
  from findnext_spec [OF ok p1(1) s1 sz this] obtain z t where
    z: "findnext cfg (mpz_cdiv_ui (limb_cfg cfg)) mpz_add_ui p1 = Some (Inr (z, t))" "mpz_wf z" "0 < SIZ z"
      "skips_no_prime (mpz_abs p1) (mpz_abs z)" "mpz_abs p1 \<le> mpz_abs z" "t \<noteq> 0" "passed cfg z t" by blast
  have "mpz_nextprime cfg p n = Some (Inr z)" using c z(1) by (simp add: mpz_nextprime_def p1_def)
  moreover have "mpz_int z = int (mpz_abs z)" using z(3) by (simp add: mpz_int_def)
  moreover have "\<not> is_prime k" if "mpz_abs n < k" "k < mpz_abs z" for k
    using z(4) that p1(2) by (simp add: skips_no_prime_def)
  ultimately show ?thesis using z False p1(2) i by (auto simp: prime_candidate_above_def passed_def)
qed

end
