(* ===== verification/Example_Prime.thy ===== *)
theory Example_Prime
  imports Gmp_Nextprime_Found Example_Gmp Example_World
begin

text \<open>
  A configuration of the primality routines for the witnesses: for the routines that are not
  modelled functions that compute on the values, and a sieve by trial division in the layout of
  \<open>primesieve.c\<close>.
\<close>

section \<open>The routines\<close>

definition value_mod :: "limb list \<Rightarrow> limb list \<Rightarrow> limb list" where
  "value_mod np dp = limbs_of (length dp) (limbs_val np mod limbs_val dp)"

fun isqrt :: "nat \<Rightarrow> nat" where
  "isqrt 0 = 0"
| "isqrt (Suc n) = (let r = isqrt n in if (r + 1) * (r + 1) \<le> Suc n then r + 1 else r)"

text \<open>Bit \<open>b\<close> of the sieve stands for the number \<open>(3 * b + 4) OR 1\<close>; it is set when that is composite or above the limit.\<close>

definition sieve_bit :: "nat \<Rightarrow> nat \<Rightarrow> bool" where
  "sieve_bit n b = (let v = 3 * b + 4 + of_bool (odd b) in n < v \<or> (\<exists>d\<in>set [2..<v]. v mod d = 0))"

definition value_sieve :: "limb \<Rightarrow> limb list \<times> limb" where
  "value_sieve n =
     (let sieve = map (\<lambda>k. horner_sum of_bool 2 (map (\<lambda>i. sieve_bit (unat n) (64 * k + i)) [0..<64])) [0..<primesieve_size n]
      in (sieve, of_nat (zero_bits sieve)))"

definition example_cfg :: prime_cfg where
  "example_cfg =
     \<lparr>limb_cfg = reference_cfg, DC_DIV_QR_THRESHOLD = 56, MUPI_DIV_QR_THRESHOLD = 77, MU_DIV_QR_THRESHOLD = 1589,
      mpn_divrem_1 = (\<lambda>np d. of_nat (limbs_val np mod unat d)),
      mpn_div_qr_2n_pi1 = (\<lambda>np d1 d0 inv. value_mod np [d0, d1]),
      mpn_sbpi1_div_qr = (\<lambda>np dp inv. value_mod np dp), mpn_dcpi1_div_qr = (\<lambda>np dp inv. value_mod np dp),
      mpn_mu_div_qr = value_mod,
      mpz_mod = (\<lambda>z m. mpz_of_nat (mpz_abs z mod mpz_abs m)), mpz_stronglucas = (\<lambda>z. 1),
      gmp_primesieve = value_sieve,
      mpz_ui_pow_ui = (\<lambda>b e. mpz_of_nat (unat b ^ unat e)),
      mpz_tdiv_q_ui = (\<lambda>z d. mpz_of_nat (mpz_abs z div unat d)), mpz_sqrt = (\<lambda>z. mpz_of_nat (isqrt (mpz_abs z)))\<rparr>"

section \<open>They meet the assumptions\<close>

lemma value_mod_spec:
  assumes "dp \<noteq> []" and "last dp \<noteq> 0"
  shows "length (value_mod np dp) = length dp" and "limbs_val (value_mod np dp) = limbs_val np mod limbs_val dp"
proof -
  have "limbs_val np mod limbs_val dp < limbs_val dp" using limbs_val_pos [OF assms] by simp
  then have "limbs_val np mod limbs_val dp < BB ^ length dp" using limbs_val_lt [of dp] by (rule less_trans)
  then show "length (value_mod np dp) = length dp" "limbs_val (value_mod np dp) = limbs_val np mod limbs_val dp"
    by (simp_all add: value_mod_def limbs_of_spec)
qed

lemma value_mod_top:
  assumes "2 \<le> length dp" and "bit (last dp) 63"
  shows "length (value_mod np dp) = length dp \<and> limbs_val (value_mod np dp) = limbs_val np mod limbs_val dp"
proof -
  have "dp \<noteq> []" "last dp \<noteq> 0" using assms by auto
  then show ?thesis using value_mod_spec by blast
qed

lemma isqrt_spec: "isqrt n ^ 2 \<le> n \<and> n < (isqrt n + 1) ^ 2"
  by (induction n) (auto simp: Let_def power2_eq_square)

lemma example_div_ok: "div_ok example_cfg"
proof -
  have one: "unat (of_nat (limbs_val np mod unat d) :: limb) = limbs_val np mod unat d" if "d \<noteq> 0" for np and d :: limb
  proof -
    have "limbs_val np mod unat d < unat d" using that by (simp add: unat_gt_0)
    then have "limbs_val np mod unat d < BB" using unat_lt_BB [of d] by (rule less_trans)
    then show ?thesis by (simp add: unsigned_of_nat take_bit_nat_eq_self BB_def)
  qed
  have two: "length (value_mod np [d0, d1]) = 2 \<and> limbs_val (value_mod np [d0, d1]) = limbs_val np mod limbs_val [d0, d1]"
    if "bit d1 63" for np and d0 d1 :: limb
    using value_mod_top [of "[d0, d1]" np] that by (simp del: limbs_val_Cons)
  show ?thesis unfolding div_ok_def by (simp add: example_cfg_def one two value_mod_top del: limbs_val_Cons)
qed

lemma zero_bits_le: "zero_bits sieve \<le> 64 * length sieve"
proof (induction sieve)
  case (Cons s sieve)
  have "length (filter (bit (NOT s)) [0..<64]) \<le> 64" by (rule order_trans [OF length_filter_le]) simp
  then show ?case using Cons by (simp add: zero_bits_def)
qed (simp add: zero_bits_def)

lemma example_sieve_ok: "sieve_ok example_cfg"
proof -
  have "unat (of_nat (zero_bits (fst (value_sieve n))) :: limb) = zero_bits (fst (value_sieve n))" if "4 < n" for n
  proof -
    have "4 < unat n" using that by (simp add: word_less_nat_alt)
    then have "4 + 192 * (primesieve_size n - 1) < unat n" by (rule primesieve_size_spec(2))
    moreover have "length (fst (value_sieve n)) = primesieve_size n" by (simp add: value_sieve_def Let_def)
    ultimately have "zero_bits (fst (value_sieve n)) < BB" using zero_bits_le [of "fst (value_sieve n)"] unat_lt_BB [of n] by (simp add: BB_def)
    then show ?thesis by (simp add: unsigned_of_nat take_bit_nat_eq_self BB_def)
  qed
  then have "unat (snd (value_sieve n)) = zero_bits (fst (value_sieve n))" if "4 < n" for n
    using that by (simp add: value_sieve_def Let_def)
  moreover have "length (fst (value_sieve n)) = primesieve_size n" for n by (simp add: value_sieve_def Let_def)
  ultimately show ?thesis using isqrt_spec by (simp add: sieve_ok_def example_cfg_def)
qed

lemma example_search_ok: "search_ok example_cfg"
  using reference_cfg_ok example_div_ok by (simp add: search_ok_def lucas_ok_def) (simp add: example_cfg_def)

end
