(* ===== verification/Helper_Func.thy ===== *)
theory Helper_Func
  imports World
begin

text \<open>
  \<open>shared_functions/helper_func.c\<close>: random bytes, the Diffie-Hellman values, the HKDF
  session key, AES-256-GCM through the EVP interface, and the two functions every process
  uses to exchange messages, \<open>send_encypted_data\<close> and \<open>receive_encypted_data\<close>.

  The functions of the C file check the status codes of OpenSSL only to print a message
  and then go on; the model does the same and threads the context through the calls.
  Buffers are passed in with the contents they have, because \<open>mpz_export\<close> writes only the
  significant bytes of a number.
\<close>

section \<open>Constants of helper\_func.h\<close>

definition DH_NUM_BITS :: nat where [simp]: "DH_NUM_BITS = 2048"
definition DH_G :: limb where [simp]: "DH_G = 5"
definition DH_KEY_SIZE :: nat where [simp]: "DH_KEY_SIZE = 256"
definition DH_NONCE_SIZE :: nat where [simp]: "DH_NONCE_SIZE = 16"
definition AES_KEY_SIZE :: nat where [simp]: "AES_KEY_SIZE = 32"
definition AES_TAG_SIZE :: nat where [simp]: "AES_TAG_SIZE = 16"

section \<open>Random bytes and Diffie-Hellman values\<close>

definition get_random_bytes :: "bytes \<Rightarrow> nat \<Rightarrow> rng \<Rightarrow> (bytes \<times> rng) result" where
  "get_random_bytes bytes len state =
     (let (random_number, state') = mpz_urandomb (mpz_init2 (8 * len)) state (8 * len)
      in bindE (mpz_export bytes 0 1 1 1 0 random_number) (\<lambda>(bytes', _). Inr (bytes', state')))"

text \<open>
  The number in a variable of type \<open>mpz_t\<close>, \<open>None\<close> as long as it has not been initialised: using
  it then is undefined.  Only \<open>server_get_session_key\<close> has variables that can be in this state
  when they are used.
\<close>

definition read_mpz :: "mpz option \<Rightarrow> mpz result" where
  "read_mpz v = (case v of None \<Rightarrow> Inl (Undefined Uninitialised) | Some z \<Rightarrow> Inr z)"

lemma read_mpz_simps [simp]:
  "read_mpz (Some z) = Inr z" "read_mpz None = Inl (Undefined Uninitialised)"
  by (simp_all add: read_mpz_def)

definition initialize_values ::
  "('c, 'm, 'k) ext \<Rightarrow> mpz option \<Rightarrow> rng \<Rightarrow> (mpz \<times> mpz \<times> rng) result" where
  "initialize_values E prime state =
     (let g = mpz_init;
          secret = mpz_init2 DH_NUM_BITS;
          (secret, state') = mpz_urandomb secret state DH_NUM_BITS;
          g = mpz_set_ui g DH_G
      in bindE (read_mpz prime) (\<lambda>prime.
         bindE (gmp_powm E g secret prime) (\<lambda>dh. Inr (dh, secret, state'))))"

definition get_master_key ::
  "('c, 'm, 'k) ext \<Rightarrow> mpz \<Rightarrow> mpz \<Rightarrow> mpz \<Rightarrow> bytes \<Rightarrow> (mpz \<times> bytes) result" where
  "get_master_key E dh secret prime master_key_bytes =
     bindE (gmp_powm E dh secret prime) (\<lambda>master_key.
     bindE (mpz_export master_key_bytes 0 1 1 1 0 master_key) (\<lambda>(bytes', _).
     Inr (master_key, bytes')))"

definition create_salt :: "bytes \<Rightarrow> bytes \<Rightarrow> bytes \<Rightarrow> bytes" where
  "create_salt salt n0 n1 =
     memcpy (memcpy salt 0 n0 DH_NONCE_SIZE) DH_NONCE_SIZE n1 DH_NONCE_SIZE"

text \<open>HKDF with the parameters of the source; a failed derivation leaves the key as it was.\<close>

definition create_session_key ::
  "('c, 'm, 'k) ext \<Rightarrow> bytes \<Rightarrow> bytes \<Rightarrow> bytes \<Rightarrow> bytes result" where
  "create_session_key E master_key salt session_key =
     (if \<not> kdf_available E then Inl (Undefined NullPointer)
      else let params = [(''digest'', str ''SHA256''),
                         (''key'', take DH_KEY_SIZE master_key),
                         (''salt'', take (DH_NONCE_SIZE * 2) salt),
                         (''info'', str ''Session key'')];
               (r, out) = kdf_derive E params AES_KEY_SIZE
           in Inr (if r \<le> 0 then session_key else memcpy session_key 0 out AES_KEY_SIZE))"

definition generate_session_key ::
  "('c, 'm, 'k) ext \<Rightarrow> bytes \<Rightarrow> mpz \<Rightarrow> mpz \<Rightarrow> mpz \<Rightarrow> bytes \<Rightarrow> bytes \<Rightarrow> bytes \<Rightarrow> (bytes \<times> bytes) result" where
  "generate_session_key E session_key dh secret prime master_key_bytes n0 n1 =
     bindE (get_master_key E dh secret prime master_key_bytes) (\<lambda>(_, mkb).
     let salt = create_salt (uninit E ''salt'' (DH_NONCE_SIZE * 2)) n0 n1
     in bindE (create_session_key E mkb salt session_key) (\<lambda>sk. Inr (sk, mkb)))"

text \<open>What \<open>print_bytes\<close> writes to standard output.\<close>

definition print_bytes :: "bytes \<Rightarrow> nat \<Rightarrow> bytes" where
  "print_bytes bytes len = concat (map (\<lambda>b. dec (unat b) @ str '' '') (take len bytes)) @ [10]"

section \<open>AES-256-GCM\<close>

text \<open>The ciphertext and the contents of the tag buffer.\<close>

definition aes_encrypt ::
  "('c, 'm, 'k) ext \<Rightarrow> bytes \<Rightarrow> bytes \<Rightarrow> bytes \<Rightarrow> bytes \<Rightarrow> nat \<Rightarrow> bytes \<Rightarrow> (bytes \<times> bytes) result" where
  "aes_encrypt E plaintext aad key iv iv_len tag =
     (case cipher_ctx_new E of
        None \<Rightarrow> Inl (Undefined NullPointer)
      | Some ctx \<Rightarrow>
          let (_, ctx) = encrypt_init E ctx True None None;
              (_, ctx) = ctrl_set_ivlen E ctx iv_len;
              (_, ctx) = encrypt_init E ctx False (Some key) (Some iv);
              (_, ctx) = encrypt_aad E ctx aad;
              (_, out, ctx) = encrypt_update E ctx plaintext;
              (_, out', ctx) = encrypt_final E ctx;
              (r, t) = ctrl_get_tag E ctx 16
          in Inr (out @ out', if r = 1 then t else tag))"

text \<open>The return value (the length, or \<open>-1\<close>) and what was written to \<open>plaintext\<close>.\<close>

definition aes_decrypt ::
  "('c, 'm, 'k) ext \<Rightarrow> bytes \<Rightarrow> bytes \<Rightarrow> bytes \<Rightarrow> bytes \<Rightarrow> bytes \<Rightarrow> nat \<Rightarrow> (int \<times> bytes) result" where
  "aes_decrypt E ciphertext aad tag key iv iv_len =
     (case cipher_ctx_new E of
        None \<Rightarrow> Inl (Undefined NullPointer)
      | Some ctx \<Rightarrow>
          let (_, ctx) = decrypt_init E ctx True None None;
              (_, ctx) = ctrl_set_ivlen E ctx iv_len;
              (_, ctx) = decrypt_init E ctx False (Some key) (Some iv);
              (_, ctx) = decrypt_aad E ctx aad;
              (_, out, ctx) = decrypt_update E ctx ciphertext;
              (_, ctx) = ctrl_set_tag E ctx tag;
              (ret, out', ctx) = decrypt_final E ctx
          in Inr (if ret > 0 then (int (length out + length out'), out @ out') else (-1, out @ out')))"

section \<open>Messages\<close>

text \<open>
  \<open>send_encypted_data(socket, data, data_len, session_key, state)\<close>: nonce, tag and
  ciphertext in one \<open>send\<close>.  The result is the payload length, the socket and the generator.
  A failed \<open>malloc\<close> gives \<open>aes_encrypt\<close> a null pointer, on which it does arithmetic (line 213).
\<close>

definition send_encypted_data ::
  "('c, 'm, 'k) ext \<Rightarrow> sock \<Rightarrow> bytes \<Rightarrow> nat \<Rightarrow> bytes \<Rightarrow> rng \<Rightarrow> (nat \<times> sock \<times> rng) result" where
  "send_encypted_data E socket data data_len session_key state =
     bindE (get_random_bytes (uninit E ''nonce'' DH_NONCE_SIZE) DH_NONCE_SIZE state) (\<lambda>(nonce, state').
     if \<not> mem_available E ''ciphertext'' data_len nonce then Inl (Undefined NullPointer)
     else bindE (aes_encrypt E (take data_len data) [] session_key nonce DH_NONCE_SIZE
              (uninit E ''tag'' AES_TAG_SIZE)) (\<lambda>(ciphertext, tag).
     if length ciphertext > data_len then Inl (Undefined OutOfBounds)
     else let ciphertext_len = length ciphertext;
              payload_len = DH_NONCE_SIZE + AES_TAG_SIZE + ciphertext_len;
              payload = uninit E ''payload'' payload_len;
              payload = memcpy payload 0 nonce DH_NONCE_SIZE;
              payload = memcpy payload DH_NONCE_SIZE tag AES_TAG_SIZE;
              payload = memcpy payload (DH_NONCE_SIZE + AES_TAG_SIZE) ciphertext ciphertext_len
          in bindE (transmit E socket payload) (\<lambda>socket. Inr (payload_len, socket, state'))))"

text \<open>
  \<open>receive_encypted_data(socket, &data_len, session_key)\<close>: the value stored in \<open>data_len\<close>,
  the returned buffer (\<open>None\<close> for \<open>NULL\<close>) and the socket.  The buffer has twice the size
  of the ciphertext and holds the plaintext at its start.  The array \<open>ciphertext\<close> has the length
  of the received bytes less 32; at 32 bytes it is declared with size zero, which C does not
  define.  A failed \<open>malloc\<close> gives \<open>aes_decrypt\<close> a null pointer, on which it does arithmetic
  (line 162).
\<close>

definition receive_encypted_data ::
  "('c, 'm, 'k) ext \<Rightarrow> sock \<Rightarrow> bytes \<Rightarrow> (int \<times> bytes option \<times> sock) result" where
  "receive_encypted_data E socket session_key =
     (let expected_payload_len = DH_NONCE_SIZE + AES_TAG_SIZE + 2048
      in bindE (recv socket expected_payload_len) (\<lambda>(payload_len, payload, socket').
         if payload_len < int (DH_NONCE_SIZE + AES_TAG_SIZE) then Inr (-1, None, socket')
         else let ciphertext_len = nat payload_len - DH_NONCE_SIZE - AES_TAG_SIZE
         in if ciphertext_len = 0 then Inl (Undefined ZeroArraySize)
         else let nonce = take DH_NONCE_SIZE payload;
                  tag = take AES_TAG_SIZE (drop DH_NONCE_SIZE payload);
                  ciphertext = take ciphertext_len (drop (DH_NONCE_SIZE + AES_TAG_SIZE) payload)
         in if \<not> mem_available E ''plaintext'' (ciphertext_len * 2) payload
            then Inl (Undefined NullPointer)
         else let plaintext = uninit E ''plaintext'' (ciphertext_len * 2)
         in bindE (aes_decrypt E ciphertext [] tag session_key nonce DH_NONCE_SIZE)
              (\<lambda>(plaintext_len, out).
              if length out > ciphertext_len * 2 then Inl (Undefined OutOfBounds)
              else if plaintext_len < 0 then Inr (-1, None, socket')
              else Inr (plaintext_len, Some (memcpy plaintext 0 out (length out)), socket'))))"

section \<open>Random bytes\<close>

lemma nbytes_le: "v < 256 ^ n \<Longrightarrow> nbytes v \<le> n"
proof (cases "v = 0")
  case False
  assume "v < 256 ^ n"
  then have "256 ^ (nbytes v - 1) < (256::nat) ^ n"
    using nbytes_bounds [of v] False by (meson le_less_trans neq0_conv)
  then have "nbytes v - 1 < n" by simp
  then show ?thesis by simp
qed simp

lemma get_random_bytes_total:
  assumes "length b = n"
  obtains b' s' where "get_random_bytes b n s = Inr (b', s')" and "length b' = n"
    and "rng_wf s \<longrightarrow> rng_wf s'"
proof -
  obtain z s' where z: "mpz_urandomb (mpz_init2 (8 * n)) s (8 * n) = (z, s')" by fastforce
  note spec = mpz_urandomb_spec [OF z]
  have "nbytes (mpz_abs z) \<le> n" using spec(2) by (intro nbytes_le) (simp add: power_mult)
  then have "get_random_bytes b n s
      = Inr (be_bytes (nbytes (mpz_abs z)) (mpz_abs z) @ drop (nbytes (mpz_abs z)) b, s')"
    using z assms by (simp add: get_random_bytes_def mpz_export_1 [OF spec(1)])
  then show ?thesis using that spec(4) assms \<open>nbytes (mpz_abs z) \<le> n\<close> by simp
qed

lemma create_salt_append:
  "length salt = 32 \<Longrightarrow> length n0 = 16 \<Longrightarrow> length n1 = 16 \<Longrightarrow> create_salt salt n0 n1 = n0 @ n1"
  by (simp add: create_salt_def layout_simps)

section \<open>The cipher\<close>

lemma aes_encrypt_gcm:
  assumes "evp_gcm_ok E st ctr tagf" and "length key = 32"
  shows "aes_encrypt E p aad key iv (length iv) t =
    Inr (ctr key iv p, tagf key iv aad (ctr key iv p))"
proof -
  have ok: "gcm_encrypt_ok E st ctr tagf" using assms(1) by (simp add: evp_gcm_ok_def)
  note r = ok [unfolded gcm_encrypt_ok_def]
  note r1 = r [THEN conjunct1]
  note r2 = r [THEN conjunct2, THEN conjunct1]
  note r3 = r [THEN conjunct2, THEN conjunct2, THEN conjunct1]
  note r4 = r [THEN conjunct2, THEN conjunct2, THEN conjunct2, THEN conjunct1]
  note r5 = r [THEN conjunct2, THEN conjunct2, THEN conjunct2, THEN conjunct2, THEN conjunct1]
  note r6 = r [THEN conjunct2, THEN conjunct2, THEN conjunct2, THEN conjunct2, THEN conjunct2, THEN conjunct1]
  note r7 = r [THEN conjunct2, THEN conjunct2, THEN conjunct2, THEN conjunct2, THEN conjunct2, THEN conjunct2, THEN conjunct1]
  note r8 = r [THEN conjunct2, THEN conjunct2, THEN conjunct2, THEN conjunct2, THEN conjunct2, THEN conjunct2, THEN conjunct2]
  obtain c0 where c0: "cipher_ctx_new E = Some c0" "st c0 = Fresh" using r1 by blast
  obtain c1 where c1: "encrypt_init E c0 True None None = (1, c1)" "st c1 = Chosen"
    using r2 c0 by blast
  obtain c2 where c2: "ctrl_set_ivlen E c1 (length iv) = (1, c2)" "st c2 = IvLen (length iv)"
    using r3 c1 by blast
  obtain c3 where c3: "encrypt_init E c2 False (Some key) (Some iv) = (1, c3)" "st c3 = Keyed key iv"
    using r4 c2 assms(2) by blast
  obtain c4 where c4: "encrypt_aad E c3 aad = (1, c4)" "st c4 = Aad key iv aad"
    using r5 c3 by blast
  obtain c5 where c5: "encrypt_update E c4 p = (1, ctr key iv p, c5)"
      "st c5 = Data key iv aad (ctr key iv p)"
    using r6 c4 by blast
  obtain c6 where c6: "encrypt_final E c5 = (1, [], c6)" "st c6 = Final key iv aad (ctr key iv p)"
    using r7 c5 by blast
  have "ctrl_get_tag E c6 16 = (1, tagf key iv aad (ctr key iv p))" using r8 c6 by blast
  then show ?thesis using c0 c1 c2 c3 c4 c5 c6 by (simp add: aes_encrypt_def)
qed

lemma aes_decrypt_gcm:
  assumes "evp_gcm_ok E st ctr tagf" and "length key = 32"
  shows "aes_decrypt E d aad t key iv (length iv) =
    Inr (if t = tagf key iv aad d then int (length d) else -1, ctr key iv d)"
proof -
  have ok: "gcm_decrypt_ok E st ctr tagf" and g: "gcm_ok ctr tagf"
    using assms(1) by (simp_all add: evp_gcm_ok_def)
  note r = ok [unfolded gcm_decrypt_ok_def]
  note r1 = r [THEN conjunct1]
  note r2 = r [THEN conjunct2, THEN conjunct1]
  note r3 = r [THEN conjunct2, THEN conjunct2, THEN conjunct1]
  note r4 = r [THEN conjunct2, THEN conjunct2, THEN conjunct2, THEN conjunct1]
  note r5 = r [THEN conjunct2, THEN conjunct2, THEN conjunct2, THEN conjunct2, THEN conjunct1]
  note r6 = r [THEN conjunct2, THEN conjunct2, THEN conjunct2, THEN conjunct2, THEN conjunct2, THEN conjunct1]
  note r7 = r [THEN conjunct2, THEN conjunct2, THEN conjunct2, THEN conjunct2, THEN conjunct2, THEN conjunct2, THEN conjunct1]
  note r8 = r [THEN conjunct2, THEN conjunct2, THEN conjunct2, THEN conjunct2, THEN conjunct2, THEN conjunct2, THEN conjunct2]
  obtain c0 where c0: "cipher_ctx_new E = Some c0" "st c0 = Fresh" using r1 by blast
  obtain c1 where c1: "decrypt_init E c0 True None None = (1, c1)" "st c1 = Chosen"
    using r2 c0 by blast
  obtain c2 where c2: "ctrl_set_ivlen E c1 (length iv) = (1, c2)" "st c2 = IvLen (length iv)"
    using r3 c1 by blast
  obtain c3 where c3: "decrypt_init E c2 False (Some key) (Some iv) = (1, c3)" "st c3 = Keyed key iv"
    using r4 c2 assms(2) by blast
  obtain c4 where c4: "decrypt_aad E c3 aad = (1, c4)" "st c4 = Aad key iv aad"
    using r5 c3 by blast
  obtain c5 where c5: "decrypt_update E c4 d = (1, ctr key iv d, c5)" "st c5 = Data key iv aad d"
    using r6 c4 by blast
  obtain c6 where c6: "ctrl_set_tag E c5 t = (1, c6)" "st c6 = Tagged key iv aad d t"
    using r7 c5 by blast
  obtain r c7 where "decrypt_final E c6 = (r, [], c7)" "0 < r \<longleftrightarrow> t = tagf key iv aad d"
    using r8 c6 by blast
  moreover have "length (ctr key iv d) = length d" using g by (simp add: gcm_ok_def)
  ultimately show ?thesis using c0 c1 c2 c3 c4 c5 c6 by (simp add: aes_decrypt_def)
qed

section \<open>Messages on the wire\<close>

type_synonym gcm_alg =
  "(bytes \<Rightarrow> bytes \<Rightarrow> bytes \<Rightarrow> bytes) \<times> (bytes \<Rightarrow> bytes \<Rightarrow> bytes \<Rightarrow> bytes \<Rightarrow> bytes)"

text \<open>The payload of a message: nonce, tag, ciphertext.\<close>

fun sealed :: "gcm_alg \<Rightarrow> bytes \<Rightarrow> bytes \<Rightarrow> bytes \<Rightarrow> bytes" where
  "sealed (ctr, tagf) key nonce m = nonce @ tagf key nonce [] (ctr key nonce m) @ ctr key nonce m"

text \<open>
  The environments that implement the cipher, and among them those in which no allocation and
  no \<open>send\<close> fails.
\<close>

fun cipher_ok :: "gcm_alg \<Rightarrow> ('c, 'm, 'k) ext \<Rightarrow> bool" where
  "cipher_ok (ctr, tagf) E \<longleftrightarrow> memory_ok E \<and> (\<exists>st. evp_gcm_ok E st ctr tagf)"

definition channel_ok :: "gcm_alg \<Rightarrow> ('c, 'm, 'k) ext \<Rightarrow> bool" where
  "channel_ok a E \<longleftrightarrow> resources_ok E \<and> cipher_ok a E"

definition carries :: "gcm_alg \<Rightarrow> bytes \<Rightarrow> bytes \<Rightarrow> bytes \<Rightarrow> bool" where
  "carries a key m p \<longleftrightarrow> (\<exists>nonce. length nonce = 16 \<and> p = sealed a key nonce m)"

lemma gcm_ok_simps:
  assumes "gcm_ok ctr tagf"
  shows "ctr key iv (ctr key iv p) = p" and "length (ctr key iv p) = length p"
    and "length (tagf key iv a d) = 16"
  using assms by (simp_all add: gcm_ok_def)

lemma cipher_okE:
  assumes "cipher_ok a E"
  obtains ctr tagf st where "a = (ctr, tagf)" and "memory_ok E" and "evp_gcm_ok E st ctr tagf"
    and "gcm_ok ctr tagf"
  using assms by (cases a) (auto simp: evp_gcm_ok_def)

lemma channel_okE:
  assumes "channel_ok a E"
  obtains ctr tagf st where "a = (ctr, tagf)" and "memory_ok E" and "evp_gcm_ok E st ctr tagf"
    and "gcm_ok ctr tagf" and "resources_ok E"
  using assms by (auto simp: channel_ok_def elim: cipher_okE)

lemma channel_ok_resources [simp]:
  assumes "channel_ok a E"
  shows "mem_available E v n b" and "transmit E s b = Inr (send s b)"
  using assms by (simp_all add: channel_ok_def resources_ok_simps)

lemma send_encypted_data_transmit:
  assumes "cipher_ok a E" and "length key = 32" and "n \<le> length data"
  obtains nonce g' where "length nonce = 16" and "rng_wf g \<longrightarrow> rng_wf g'"
    and "\<And>s. send_encypted_data E s data n key g =
      (if \<not> mem_available E ''ciphertext'' n nonce then Inl (Undefined NullPointer)
       else bindE (transmit E s (sealed a key nonce (take n data))) (\<lambda>s. Inr (32 + n, s, g')))"
proof -
  obtain ctr tagf st where a: "a = (ctr, tagf)" and mem: "memory_ok E"
    and evp: "evp_gcm_ok E st ctr tagf" and gcm: "gcm_ok ctr tagf"
    using assms(1) by (rule cipher_okE)
  have "length (uninit E ''nonce'' 16) = 16" using mem by (simp add: memory_ok_def)
  then obtain nonce g' where r: "get_random_bytes (uninit E ''nonce'' 16) 16 g = Inr (nonce, g')"
    and nonce: "length nonce = 16" and wf: "rng_wf g \<longrightarrow> rng_wf g'"
    by (rule get_random_bytes_total [where s = g])
  let ?m = "take n data"
  let ?c = "ctr key nonce ?m"
  have len: "length ?c = n" "length (tagf key nonce [] ?c) = 16"
    using gcm assms(3) by (simp_all add: gcm_ok_simps)
  have enc: "aes_encrypt E ?m [] key nonce 16 t = Inr (?c, tagf key nonce [] ?c)" for t
    using aes_encrypt_gcm [OF evp assms(2), of ?m "[]" nonce t] nonce by simp
  have "length (uninit E ''payload'' (32 + n)) = 32 + n" using mem by (simp add: memory_ok_def)
  then have "memcpy (memcpy (memcpy (uninit E ''payload'' (32 + n)) 0 nonce 16) 16
      (tagf key nonce [] ?c) 16) 32 ?c n = nonce @ tagf key nonce [] ?c @ ?c"
    using nonce len by (simp add: memcpy_def)
  then have "send_encypted_data E s data n key g =
      (if \<not> mem_available E ''ciphertext'' n nonce then Inl (Undefined NullPointer)
       else bindE (transmit E s (sealed a key nonce ?m)) (\<lambda>s. Inr (32 + n, s, g')))" for s
    using r enc len by (simp add: send_encypted_data_def a Let_def)
  then show ?thesis using that nonce wf by blast
qed

lemma send_encypted_data_sealed:
  assumes "channel_ok a E" and "length key = 32" and "n \<le> length data"
  obtains nonce g' where "length nonce = 16" and "rng_wf g \<longrightarrow> rng_wf g'"
    and "\<And>s. send_encypted_data E s data n key g =
      Inr (32 + n, send s (sealed a key nonce (take n data)), g')"
proof -
  have c: "cipher_ok a E" "resources_ok E" using assms(1) by (simp_all add: channel_ok_def)
  show ?thesis
    by (rule send_encypted_data_transmit [OF c(1) assms(2,3), of g])
       (rule that, simp_all add: resources_ok_simps [OF c(2)])
qed

text \<open>When allocations and sends may fail: the function returns, or stops for one of these reasons.\<close>

lemma send_encypted_data_outcome:
  assumes "cipher_ok a E" and "length key = 32" and "n \<le> length data"
  shows "(\<exists>k s' g' q. send_encypted_data E s data n key g = Inr (k, s', g') \<and> rx s' = rx s \<and> tx s' = tx s @ q)
    \<or> (\<exists>f. send_encypted_data E s data n key g = Inl f \<and> explained E evs f)"
proof -
  obtain nonce g' where "\<And>s. send_encypted_data E s data n key g =
      (if \<not> mem_available E ''ciphertext'' n nonce then Inl (Undefined NullPointer)
       else bindE (transmit E s (sealed a key nonce (take n data))) (\<lambda>s. Inr (32 + n, s, g')))"
    by (rule send_encypted_data_transmit [OF assms, of g]) blast
  then show ?thesis using transmit_cases [of E s "sealed a key nonce (take n data)" evs] by auto
qed

text \<open>What the receiver makes of one segment, whoever sent it.\<close>

lemma receive_encypted_data_recv:
  assumes "cipher_ok (ctr, tagf) E" and "length key = 32" and "recv s 2080 = Inr (int (length p), p, s')"
    and "length nonce = 16" and "length t = 16" and "p = nonce @ t @ d"
  shows "receive_encypted_data E s key =
    (if d = [] then Inl (Undefined ZeroArraySize)
     else if \<not> mem_available E ''plaintext'' (length d * 2) p then Inl (Undefined NullPointer)
     else if t = tagf key nonce [] d
     then Inr (int (length d),
               Some (ctr key nonce d @ drop (length d) (uninit E ''plaintext'' (length d * 2))), s')
     else Inr (-1, None, s'))"
proof -
  obtain st where evp: "evp_gcm_ok E st ctr tagf" and gcm: "gcm_ok ctr tagf"
    using assms(1) by (auto simp: evp_gcm_ok_def)
  have "nat (32 + int (length d)) - 32 = length d" by linarith
  then show ?thesis
    using assms aes_decrypt_gcm [OF evp assms(2), of d "[]" t nonce] gcm
    by (simp add: receive_encypted_data_def Let_def gcm_ok_simps memcpy_def)
qed

lemma receive_encypted_data_Seg:
  assumes "channel_ok (ctr, tagf) E" and "length key = 32" and "rx s = Seg p # r"
    and "length nonce = 16" and "length t = 16" and "p = nonce @ t @ d" and "length d \<le> 2048"
  shows "receive_encypted_data E s key =
    (if d = [] then Inl (Undefined ZeroArraySize)
     else if t = tagf key nonce [] d
     then Inr (int (length d),
               Some (ctr key nonce d @ drop (length d) (uninit E ''plaintext'' (length d * 2))),
               s\<lparr>rx := r\<rparr>)
     else Inr (-1, None, s\<lparr>rx := r\<rparr>))"
proof -
  have c: "cipher_ok (ctr, tagf) E" "mem_available E v n b" for v n b
    using assms(1) by (simp_all add: channel_ok_def resources_ok_simps)
  have "recv s 2080 = Inr (int (length p), p, s\<lparr>rx := r\<rparr>)" using assms by simp
  from receive_encypted_data_recv [OF c(1) assms(2) this assms(4-6)] show ?thesis
    by (simp only: c(2) not_True_eq_False if_False)
qed

lemma receive_encypted_data_short:
  "recv s 2080 = Inr (m, p, s') \<Longrightarrow> m < 32 \<Longrightarrow> receive_encypted_data E s key = Inr (-1, None, s')"
  by (simp add: receive_encypted_data_def)

lemma receive_encypted_data_silent:
  "rx s = Silent # r \<Longrightarrow> receive_encypted_data E s key = Inl Waiting"
  by (simp add: receive_encypted_data_def recv_def)

text \<open>
  Whatever arrives, the function returns or stops for one of the reasons of \<open>explained\<close>; when it
  reports data, the buffer has room for the NUL byte the callers write behind them, and the socket
  has made progress.  \<open>evs\<close> is what the peer did from some earlier point of the session on.
\<close>

definition within :: "rx_event list \<Rightarrow> rx_event list \<Rightarrow> bool" where
  "within r evs \<longleftrightarrow> (Silent \<in> set r \<longrightarrow> Silent \<in> set evs)
     \<and> (empty_message 2080 r \<longrightarrow> empty_message 2080 evs)"

lemma within_refl [simp]: "within r r"
  by (simp add: within_def)

definition received_ok :: "sock \<Rightarrow> rx_event list \<Rightarrow> int \<times> bytes option \<times> sock \<Rightarrow> bool" where
  "received_ok s evs = (\<lambda>(len, d, s'). tx s' = tx s \<and> within (rx s') evs \<and> nat len \<le> 2048
     \<and> (len = -1 \<or> 0 < len \<and> (\<exists>buf. d = Some buf \<and> nat len < length buf \<and> rx_size (rx s') < rx_size (rx s))))"

lemma receive_encypted_data_outcome:
  assumes "cipher_ok a E" and "length key = 32" and evs: "within (rx s) evs"
  shows "(\<exists>x. receive_encypted_data E s key = Inr x \<and> received_ok s evs x)
    \<or> (\<exists>f. receive_encypted_data E s key = Inl f \<and> explained E evs f)"
proof (cases "recv s 2080")
  case (Inl f)
  then have "f = Waiting" "Silent \<in> set (rx s)" by (auto simp: recv_Silent)
  then show ?thesis using Inl evs by (simp add: receive_encypted_data_def within_def)
next
  case (Inr x)
  obtain ctr tagf where a: "a = (ctr, tagf)" and mem: "memory_ok E" and gcm: "gcm_ok ctr tagf"
    using assms(1) by (elim cipher_okE) auto
  obtain m p s' where r: "recv s 2080 = Inr (m, p, s')" using Inr by (cases x) auto
  note ev = recv_events [OF r]
  have tx: "tx s' = tx s" and evs': "within (rx s') evs"
    using recv_length [OF r] ev evs by (auto simp: within_def)
  show ?thesis
  proof (cases "m < 32")
    case True
    then show ?thesis using receive_encypted_data_short [OF r True, of E key] tx evs' by (simp add: received_ok_def)
  next
    case False
    then have m: "m = int (length p)" "32 \<le> length p" using recv_length [OF r] by auto
    let ?n = "take 16 p" and ?t = "take 16 (drop 16 p)" and ?d = "drop 32 p"
    have p: "length ?n = 16" "length ?t = 16" "p = ?n @ ?t @ ?d"
      using m(2) by (simp_all flip: drop_drop) (metis append_take_drop_id drop_drop numeral_Bit0)
    have bound: "length p \<le> 2080" using recv_length [OF r] m(1) by simp
    have "rx s \<noteq> []" using False r recv_closed [of s 2080] by auto
    then have less: "rx_size (rx s') < rx_size (rx s)" using recv_decreases [OF r] by simp
    note R = receive_encypted_data_recv [OF assms(1) [unfolded a] assms(2) r [unfolded m(1)] p]
    show ?thesis
    proof (cases "length p = 32")
      case True
      then have "empty_message 2080 evs" using ev(3) m(1) evs by (simp add: within_def)
      then show ?thesis using R True by simp
    next
      case long: False
      show ?thesis
      proof (cases "mem_available E ''plaintext'' (length ?d * 2) p")
        case True
        have arith: "nat (int (length p) - 32) < (length p - 32) * 2" "nat (int (length p) - 32) \<le> 2048"
          using m(2) long bound by linarith+
        then show ?thesis
          using R True long m tx evs' less gcm mem
          by (auto simp: gcm_ok_simps memory_ok_def received_ok_def)
      next
        case False
        then show ?thesis using R long m(2) by auto
      qed
    qed
  qed
qed

lemma receive_encypted_data_orderly:
  assumes "channel_ok a E" and "length key = 32" and "orderly 2080 (rx s)"
  obtains len d s' where "receive_encypted_data E s key = Inr (len, d, s')" and "tx s' = tx s"
    and "orderly 2080 (rx s')" and "nat len \<le> 2048"
    and "0 < len \<longrightarrow> (\<exists>buf. d = Some buf \<and> nat len < length buf \<and> rx_size (rx s') < rx_size (rx s))"
proof -
  have c: "cipher_ok a E" "resources_ok E" using assms(1) by (simp_all add: channel_ok_def)
  obtain x where x: "receive_encypted_data E s key = Inr x" "received_ok s (rx s) x"
    using receive_encypted_data_outcome [OF c(1) assms(2) within_refl] explained_orderly [OF c(2) assms(3)] by blast
  obtain len d s' where "x = (len, d, s')" by (metis prod_cases3)
  then show ?thesis using that [of len d s'] x assms(3)
    by (auto simp: received_ok_def within_def orderly_def)
qed

lemma receive_encypted_data_closed:
  "rx s = [] \<Longrightarrow> receive_encypted_data E s key = Inr (-1, None, s)"
  by (rule receive_encypted_data_short [OF recv_closed]) simp_all

section \<open>The channel interface\<close>

text \<open>
  What the processes rely on when they talk to each other: the bytes of a message do not
  depend on the socket; a message handed to the sender is what a receiver with the same key
  gets, when it is not empty, the segment arrives whole and has room in the receive buffer; a
  closed connection is reported as \<open>-1\<close>, and on a silent one the receiver waits.  \<open>good\<close> says
  which environments implement the cipher \<open>a\<close>.
\<close>

locale message_channel =
  fixes good :: "'a \<Rightarrow> 'e \<Rightarrow> bool"
    and send_msg :: "'e \<Rightarrow> sock \<Rightarrow> bytes \<Rightarrow> nat \<Rightarrow> bytes \<Rightarrow> rng \<Rightarrow> (nat \<times> sock \<times> rng) result"
    and recv_msg :: "'e \<Rightarrow> sock \<Rightarrow> bytes \<Rightarrow> (int \<times> bytes option \<times> sock) result"
    and wire :: "'a \<Rightarrow> bytes \<Rightarrow> bytes \<Rightarrow> bytes \<Rightarrow> bool"
  assumes sends_all: "good a e \<Longrightarrow> length key = 32 \<Longrightarrow> n \<le> length data \<Longrightarrow>
      \<exists>p g'. (\<forall>s. send_msg e s data n key g = Inr (32 + n, send s p, g')) \<and> wire a key (take n data) p"
    and receives: "good a e \<Longrightarrow> length key = 32 \<Longrightarrow> wire a key m p \<Longrightarrow> 0 < length m \<Longrightarrow> length m \<le> 2048 \<Longrightarrow>
      rx s = Seg p # r \<Longrightarrow>
      \<exists>rest. recv_msg e s key = Inr (int (length m), Some (m @ rest), s\<lparr>rx := r\<rparr>)
        \<and> length rest = length m"
    and receives_empty: "good a e \<Longrightarrow> length key = 32 \<Longrightarrow> wire a key [] p \<Longrightarrow>
      rx s = Seg p # r \<Longrightarrow> recv_msg e s key = Inl (Undefined ZeroArraySize)"
    and closed: "rx s = [] \<Longrightarrow> recv_msg e s key = Inr (-1, None, s)"
    and waits: "rx s = Silent # r \<Longrightarrow> recv_msg e s key = Inl Waiting"
begin

lemma sends:
  "good a e \<Longrightarrow> length key = 32 \<Longrightarrow> n \<le> length data \<Longrightarrow>
     \<exists>p g'. send_msg e s data n key g = Inr (32 + n, send s p, g') \<and> wire a key (take n data) p"
  using sends_all by blast

lemma received:
  assumes "good a e" and "length key = 32" and "wire a key m p" and "length m \<le> 2048"
    and "rx s = Seg p # r"
  shows "\<exists>rest. recv_msg e s key = (if length m = 0 then Inl (Undefined ZeroArraySize)
      else Inr (int (length m), Some (m @ rest), s\<lparr>rx := r\<rparr>))"
  using receives [OF assms(1-3) _ assms(4,5)] receives_empty [OF assms(1,2) _ assms(5)] assms(3)
  by (cases "m = []") auto

lemma transfer:
  assumes "good a e" and "good a e'" and "length key = 32" and "n \<le> length data" and "n \<le> 2048"
  obtains p g' where "send_msg e s data n key g = Inr (32 + n, send s p, g')"
    and "\<And>s' r. rx s' = Seg p # r \<Longrightarrow>
      \<exists>rest. recv_msg e' s' key = (if n = 0 then Inl (Undefined ZeroArraySize)
        else Inr (int n, Some (take n data @ rest), s'\<lparr>rx := r\<rparr>))"
proof -
  obtain p g' where p: "send_msg e s data n key g = Inr (32 + n, send s p, g')"
    and w: "wire a key (take n data) p"
    using sends [OF assms(1,3,4)] by blast
  have n: "length (take n data) = n" using assms(4) by simp
  have "\<exists>rest. recv_msg e' s' key = (if n = 0 then Inl (Undefined ZeroArraySize)
        else Inr (int n, Some (take n data @ rest), s'\<lparr>rx := r\<rparr>))"
    if "rx s' = Seg p # r" for s' r
    using received [OF assms(2,3) w _ that, unfolded n] assms(5) .
  then show ?thesis using that p by blast
qed

end

interpretation aes: message_channel "channel_ok :: gcm_alg \<Rightarrow> ('c, 'm, 'k) ext \<Rightarrow> bool"
  send_encypted_data receive_encypted_data carries
proof
  fix a :: gcm_alg and e :: "('c, 'm, 'k) ext" and key data :: bytes and n g
  assume "channel_ok a e" and "length key = 32" and "n \<le> length data"
  then obtain nonce g' where "length nonce = 16"
    and "\<And>s. send_encypted_data e s data n key g =
      Inr (32 + n, send s (sealed a key nonce (take n data)), g')"
    by (rule send_encypted_data_sealed [where g = g]) blast
  then show "\<exists>p g'. (\<forall>s. send_encypted_data e s data n key g = Inr (32 + n, send s p, g'))
      \<and> carries a key (take n data) p"
    by (auto simp: carries_def)
next
  fix a :: gcm_alg and e :: "('c, 'm, 'k) ext" and key m p :: bytes and r and s :: sock
  assume ok: "channel_ok a e" and key: "length key = 32" and c: "carries a key m p"
    and m: "0 < length m" "length m \<le> 2048" and rx: "rx s = Seg p # r"
  obtain ctr tagf where a: "a = (ctr, tagf)" and mem: "memory_ok e" and gcm: "gcm_ok ctr tagf"
    using ok by (elim channel_okE) auto
  obtain nonce where n: "length nonce = 16" and p: "p = sealed a key nonce m"
    using c by (auto simp: carries_def)
  have "ctr key nonce m \<noteq> []" using gcm m(1) by (metis gcm_ok_simps(2) length_greater_0_conv)
  then show "\<exists>rest. receive_encypted_data e s key = Inr (int (length m), Some (m @ rest), s\<lparr>rx := r\<rparr>)
      \<and> length rest = length m"
    using receive_encypted_data_Seg [OF ok [unfolded a] key rx n _ p [unfolded a sealed.simps]]
      m gcm mem by (simp add: gcm_ok_simps memory_ok_def)
next
  fix a :: gcm_alg and e :: "('c, 'm, 'k) ext" and key p :: bytes and r and s :: sock
  assume ok: "channel_ok a e" and key: "length key = 32" and c: "carries a key [] p" and rx: "rx s = Seg p # r"
  obtain ctr tagf where a: "a = (ctr, tagf)" and gcm: "gcm_ok ctr tagf"
    using ok by (elim channel_okE) auto
  obtain nonce where n: "length nonce = 16" and p: "p = sealed a key nonce []"
    using c by (auto simp: carries_def)
  have "ctr key nonce [] = []" using gcm by (metis gcm_ok_simps(2) length_0_conv)
  then show "receive_encypted_data e s key = Inl (Undefined ZeroArraySize)"
    using receive_encypted_data_Seg [OF ok [unfolded a] key rx n _ p [unfolded a sealed.simps]] gcm
    by (simp add: gcm_ok_simps)
next
  fix s :: sock and key and e :: "('c, 'm, 'k) ext"
  assume "rx s = []"
  then show "receive_encypted_data e s key = Inr (-1, None, s)"
    by (rule receive_encypted_data_closed)
next
  fix s :: sock and key r and e :: "('c, 'm, 'k) ext"
  assume "rx s = Silent # r"
  then show "receive_encypted_data e s key = Inl Waiting"
    by (rule receive_encypted_data_silent)
qed

end
