(* ===== verification/Certificates.thy ===== *)
theory Certificates
  imports World
begin

text \<open>
  \<open>shared_functions/certificates.c\<close>: signing with a private key file, checking a signature
  with a public key file, and printing the public half of a private key.  \<open>fopen\<close> is a
  look-up in the file table of the environment; a failing \<open>fopen\<close> hands a null pointer to
  OpenSSL except where the source tests it.  \<open>handle_openssl_error\<close> leaves the process.
\<close>

definition handle_openssl_error :: "'a result" where
  "handle_openssl_error = Inl ExitFailure"

text \<open>
  The digest context: \<open>EVP_DigestSignInit\<close>, \<open>Update\<close>, \<open>Final\<close> for the length, \<open>malloc\<close> and \<open>Final\<close>
  for the signature (lines 25 to 37).  The status codes are ignored.  Without a context OpenSSL
  gets a null pointer; when the length is not reported, \<open>signed_len\<close> is used uninitialised; when
  \<open>malloc\<close> fails the signature is a null pointer (\<open>None\<close>), with which \<open>Final\<close> only reports the
  length again.
\<close>

definition sign_digest :: "('c, 'm, 'k) ext \<Rightarrow> 'k \<Rightarrow> bytes \<Rightarrow> bytes option result" where
  "sign_digest E private_key data =
     (case md_ctx_new E of
        None \<Rightarrow> Inl (Undefined NullPointer)
      | Some ctx \<Rightarrow>
          let (_, ctx) = digest_sign_init E ctx private_key;
              (_, ctx) = digest_sign_update E ctx data;
              (r, signed_len) = digest_sign_length E ctx
          in if r \<noteq> 1 then Inl (Undefined Uninitialised)
          else if \<not> mem_available E ''signature'' (signed_len + 8) data then Inr None
          else let (r, signature, ctx) = digest_sign_final E ctx
          in if r \<noteq> 1 then Inr (Some (uninit E ''signature'' signed_len))
          else if length signature > signed_len + 8 then Inl (Undefined OutOfBounds)
          else Inr (Some signature))"

text \<open>The signature stored through \<open>signature\<close>; the C function always returns 0.\<close>

definition sign_data :: "('c, 'm, 'k) ext \<Rightarrow> string \<Rightarrow> bytes \<Rightarrow> string \<Rightarrow> bytes option result" where
  "sign_data E private_key_path data password =
     (case read_file E private_key_path of
        None \<Rightarrow> Inl (Undefined NullPointer)
      | Some key_file \<Rightarrow>
          (case PEM_read_PrivateKey E key_file (str password) of
             None \<Rightarrow> handle_openssl_error
           | Some private_key \<Rightarrow> sign_digest E private_key data))"

text \<open>The verification context (lines 61 to 69); the result of the last call is returned.\<close>

definition verify_digest :: "('c, 'm, 'k) ext \<Rightarrow> 'k \<Rightarrow> bytes \<Rightarrow> bytes \<Rightarrow> int result" where
  "verify_digest E public_key data signature =
     (case md_ctx_new E of
        None \<Rightarrow> Inl (Undefined NullPointer)
      | Some ctx \<Rightarrow>
          let (_, ctx) = digest_verify_init E ctx public_key;
              (_, ctx) = digest_verify_update E ctx data
          in Inr (digest_verify_final E ctx signature))"

definition validate_signed_data :: "('c, 'm, 'k) ext \<Rightarrow> string \<Rightarrow> bytes \<Rightarrow> bytes \<Rightarrow> int result" where
  "validate_signed_data E public_key_file data signature =
     (case read_file E public_key_file of
        None \<Rightarrow> Inr 1
      | Some key_file \<Rightarrow>
          (case PEM_read_PUBKEY E key_file of
             None \<Rightarrow> handle_openssl_error
           | Some public_key \<Rightarrow> verify_digest E public_key data signature))"

definition get_public_key :: "('c, 'm, 'k) ext \<Rightarrow> string \<Rightarrow> string \<Rightarrow> bytes result" where
  "get_public_key E private_key_path password =
     (case read_file E private_key_path of
        None \<Rightarrow> Inl (Undefined NullPointer)
      | Some key_file \<Rightarrow>
          (case PEM_read_PrivateKey E key_file (str password) of
             None \<Rightarrow> handle_openssl_error
           | Some private_key \<Rightarrow>
               let pem_data = PEM_write_bio_PUBKEY E private_key
               in if \<not> mem_available E ''public_key'' (length pem_data) pem_data
                  then Inl (Undefined NullPointer)
                  else Inr pem_data))"

text \<open>
  A server's identity: its private key file opens with the password and the key pair works.
\<close>

definition identity_ok :: "('c, 'm, 'k) ext \<Rightarrow> string \<Rightarrow> string \<Rightarrow> 'k \<Rightarrow> bool" where
  "identity_ok E path password sk \<longleftrightarrow> signature_ok E sk \<and>
     (\<exists>f. read_file E path = Some f \<and> PEM_read_PrivateKey E f (str password) = Some sk)"

text \<open>The signature of the key \<open>sk\<close>, where signing works.\<close>

definition signature_of :: "('c, 'm, 'k) ext \<Rightarrow> 'k \<Rightarrow> bytes \<Rightarrow> bytes" where
  "signature_of E sk d = (case sign_digest E sk d of Inr (Some s) \<Rightarrow> s | _ \<Rightarrow> [])"

lemma sign_digest_evp:
  assumes "evp_sign_ok E md sg" and "resources_ok E"
  shows "sign_digest E sk d = Inr (Some (sg sk d))"
proof -
  obtain c0 where c0: "md_ctx_new E = Some c0" "md c0 = MdFresh"
    using assms(1) unfolding evp_sign_ok_def by blast
  then obtain c1 where c1: "digest_sign_init E c0 sk = (1, c1)" "md c1 = Signing sk []"
    using assms(1) unfolding evp_sign_ok_def by blast
  then obtain c2 where c2: "digest_sign_update E c1 d = (1, c2)" "md c2 = Signing sk ([] @ d)"
    using assms(1) unfolding evp_sign_ok_def by blast
  then obtain c3 where "digest_sign_length E c2 = (1, length (sg sk d))" "digest_sign_final E c2 = (1, sg sk d, c3)"
    using assms(1) unfolding evp_sign_ok_def by fastforce
  then show ?thesis using c0(1) c1(1) c2(1) assms(2) by (simp add: sign_digest_def resources_ok_simps)
qed

lemma verify_digest_evp:
  assumes "evp_verify_ok E md vf"
  shows "verify_digest E pk d s = Inr (vf pk d s)"
proof -
  obtain c0 where c0: "md_ctx_new E = Some c0" "md c0 = MdFresh"
    using assms(1) unfolding evp_verify_ok_def by blast
  then obtain c1 where c1: "digest_verify_init E c0 pk = (1, c1)" "md c1 = Verifying pk []"
    using assms(1) unfolding evp_verify_ok_def by blast
  then obtain c2 where c2: "digest_verify_update E c1 d = (1, c2)" "md c2 = Verifying pk ([] @ d)"
    using assms(1) unfolding evp_verify_ok_def by blast
  then have "digest_verify_final E c2 s = vf pk d s" using assms(1) unfolding evp_verify_ok_def by simp
  then show ?thesis using c0(1) c1(1) c2(1) by (simp add: verify_digest_def)
qed

text \<open>
  Signing and checking fit together: what \<open>sign_data\<close> signs, \<open>validate_signed_data\<close> accepts
  with the file that \<open>get_public_key\<close> prints.
\<close>

lemma identity_signs:
  assumes "identity_ok E path pw sk" and "resources_ok E"
  shows "sign_data E path d pw = Inr (Some (signature_of E sk d))"
    and "length (signature_of E sk d) = 256"
    and "get_public_key E path pw = Inr (PEM_write_bio_PUBKEY E sk)"
    and "PEM_write_bio_PUBKEY E sk \<noteq> []"
    and "\<exists>pk. PEM_read_PUBKEY E (PEM_write_bio_PUBKEY E sk) = Some pk
      \<and> verify_digest E pk d (signature_of E sk d) = Inr 1"
proof -
  obtain md sg vf pk where e: "evp_sign_ok E md sg" "evp_verify_ok E md vf"
    "PEM_read_PUBKEY E (PEM_write_bio_PUBKEY E sk) = Some pk"
    "\<forall>d. length (sg sk d) = 256 \<and> vf pk d (sg sk d) = 1"
    using assms(1) unfolding identity_ok_def signature_ok_def by blast
  note S = sign_digest_evp [OF e(1) assms(2), of sk d]
  then show "sign_data E path d pw = Inr (Some (signature_of E sk d))"
    "length (signature_of E sk d) = 256"
    using assms(1) e(4) by (auto simp: identity_ok_def sign_data_def signature_of_def)
  show "get_public_key E path pw = Inr (PEM_write_bio_PUBKEY E sk)" "PEM_write_bio_PUBKEY E sk \<noteq> []"
    using assms by (auto simp: identity_ok_def signature_ok_def get_public_key_def resources_ok_simps)
  show "\<exists>pk. PEM_read_PUBKEY E (PEM_write_bio_PUBKEY E sk) = Some pk
      \<and> verify_digest E pk d (signature_of E sk d) = Inr 1"
    using e(3,4) S verify_digest_evp [OF e(2)] by (simp add: signature_of_def)
qed

lemma validate_signature:
  assumes "identity_ok E path pw sk" and "resources_ok E"
    and "read_file E' pub = Some (PEM_write_bio_PUBKEY E sk)"
    and "PEM_read_PUBKEY E' = PEM_read_PUBKEY E" and "verify_digest E' = verify_digest E"
  shows "validate_signed_data E' pub d (signature_of E sk d) = Inr 1"
  using identity_signs(5) [OF assms(1,2), of d] assms(3-5) by (auto simp: validate_signed_data_def)

end
