(* ===== verification/Key_Exchange.thy ===== *)
theory Key_Exchange
  imports Helper_Func Certificates Example_World
begin

text \<open>
  \<open>shared_functions/key_exchange.c\<close>: the handshake that both the client (or the router
  towards a server) and the server (or the router towards a client) run once per connection.
  The client sends a prime, its Diffie-Hellman value and a nonce; the server answers with
  its Diffie-Hellman value, its nonce and, encrypted under the new session key, a signature
  and its public key.

  The functions return the socket, the generator and the buffers they fill.  What the client
  makes of the signature is the component \<open>warned\<close>: whether it printed that the server
  response is invalid, the only effect the check has.
\<close>

section \<open>Client side\<close>

definition get_big_prime :: "('c, 'm, 'k) ext \<Rightarrow> rng \<Rightarrow> mpz \<times> rng" where
  "get_big_prime E state =
     (let (random_number, state') = mpz_urandomb mpz_init state DH_NUM_BITS
      in (gmp_nextprime E random_number, state'))"

definition send_client_hello ::
  "('c, 'm, 'k) ext \<Rightarrow> sock \<Rightarrow> mpz \<Rightarrow> mpz \<Rightarrow> rng \<Rightarrow> bytes \<Rightarrow> (sock \<times> rng \<times> bytes) result" where
  "send_client_hello E socket prime dhA_mpz state n0 =
     bindE (mpz_export (uninit E ''dhA_bytes'' DH_KEY_SIZE) 0 1 1 1 0 dhA_mpz) (\<lambda>(dhA_bytes, _).
     bindE (mpz_export (uninit E ''prime_bytes'' DH_KEY_SIZE) 0 1 1 1 0 prime) (\<lambda>(prime_bytes, _).
     bindE (get_random_bytes n0 DH_NONCE_SIZE state) (\<lambda>(n0, state').
     let payload = uninit E ''payload'' (DH_KEY_SIZE + DH_KEY_SIZE + DH_NONCE_SIZE);
         payload = memcpy payload 0 prime_bytes DH_KEY_SIZE;
         payload = memcpy payload DH_KEY_SIZE dhA_bytes DH_KEY_SIZE;
         payload = memcpy payload (DH_KEY_SIZE + DH_KEY_SIZE) n0 DH_NONCE_SIZE
     in bindE (transmit E socket payload) (\<lambda>socket. Inr (socket, state', n0)))))"

definition get_public_key_file :: "('c, 'm, 'k) ext \<Rightarrow> string \<Rightarrow> bytes result" where
  "get_public_key_file E server_public_key_file =
     (case read_file E server_public_key_file of
        None \<Rightarrow> Inl (Undefined NullPointer)
      | Some contents \<Rightarrow>
          if \<not> mem_available E ''server_public_key'' (length contents) contents
          then Inl (Undefined NullPointer)
          else Inr contents)"

definition is_server_response_sign_valid ::
  "('c, 'm, 'k) ext \<Rightarrow> bytes \<Rightarrow> bytes \<Rightarrow> bytes \<Rightarrow> bytes \<Rightarrow> bytes \<Rightarrow> bytes \<Rightarrow> int result" where
  "is_server_response_sign_valid E n0 n1 dhA_bytes dhB_bytes signature public_key_file =
     bindE (get_public_key_file E ''./keys/server.pem'') (\<lambda>server_public_key.
     let public_key_len = length public_key_file
     in if public_key_len > length server_public_key then Inl (Undefined OutOfBounds)
     else if take public_key_len server_public_key \<noteq> public_key_file then Inr 0
     else let data_len = DH_NONCE_SIZE * 2 + DH_KEY_SIZE * 2 + length server_public_key;
              data = uninit E ''data'' data_len;
              data = memcpy data 0 n0 DH_NONCE_SIZE;
              data = memcpy data DH_NONCE_SIZE n1 DH_NONCE_SIZE;
              data = memcpy data (DH_NONCE_SIZE * 2) dhA_bytes DH_KEY_SIZE;
              data = memcpy data (DH_NONCE_SIZE * 2 + DH_KEY_SIZE) dhB_bytes DH_KEY_SIZE;
              data = memcpy data (DH_NONCE_SIZE * 2 + DH_KEY_SIZE * 2) server_public_key
                       (length server_public_key)
          in validate_signed_data E ''./keys/server.pem'' data signature)"

record hello_result =
  hr_sock :: sock
  hr_session_key :: bytes
  hr_master_key :: bytes
  hr_n1 :: bytes
  hr_warned :: bool

text \<open>
  A payload shorter than its fixed part makes the function return early, with the session
  key as it was.  The array \<open>ciphertext\<close> has size zero when nothing follows the fixed part.  The
  array for the server's public key has the size \<open>plaintext_len - 256\<close>, which is negative when
  decryption fails or the plaintext is short, and zero for a plaintext of 256 bytes.
\<close>

definition receive_server_hello ::
  "('c, 'm, 'k) ext \<Rightarrow> sock \<Rightarrow> mpz \<Rightarrow> mpz \<Rightarrow> mpz \<Rightarrow> bytes \<Rightarrow> bytes \<Rightarrow> bytes \<Rightarrow> bytes \<Rightarrow> hello_result result" where
  "receive_server_hello E socket prime dhA_mpz a master_key_bytes n0 n1 session_key =
     (let client_payload_len = DH_KEY_SIZE + DH_NONCE_SIZE + AES_TAG_SIZE + 1024
      in bindE (recv socket client_payload_len) (\<lambda>(payload_len, client_payload, socket').
      if payload_len < int (DH_KEY_SIZE + DH_NONCE_SIZE + AES_TAG_SIZE)
      then Inr \<lparr>hr_sock = socket', hr_session_key = session_key, hr_master_key = master_key_bytes,
                hr_n1 = n1, hr_warned = False\<rparr>
      else let ciphertext_len = nat payload_len - DH_KEY_SIZE - DH_NONCE_SIZE - AES_TAG_SIZE
      in if ciphertext_len = 0 then Inl (Undefined ZeroArraySize)
      else let dhB_bytes = take DH_KEY_SIZE client_payload;
               n1 = take DH_NONCE_SIZE (drop DH_KEY_SIZE client_payload);
               tag = take AES_TAG_SIZE (drop (DH_KEY_SIZE + DH_NONCE_SIZE) client_payload);
               ciphertext = take ciphertext_len
                 (drop (DH_KEY_SIZE + DH_NONCE_SIZE + AES_TAG_SIZE) client_payload)
      in bindE (mpz_import (mpz_init2 DH_NUM_BITS) DH_KEY_SIZE 0 1 1 1 0 dhB_bytes) (\<lambda>dhB_mpz.
         bindE (generate_session_key E session_key dhB_mpz a prime master_key_bytes n0 n1)
           (\<lambda>(session_key, master_key_bytes).
         if \<not> mem_available E ''plaintext'' ciphertext_len client_payload then Inl (Undefined NullPointer)
         else bindE (aes_decrypt E ciphertext [] tag session_key n1 DH_NONCE_SIZE) (\<lambda>(plaintext_len, plaintext).
         let signature_len = 256; server_public_key_len = plaintext_len - signature_len
         in if length plaintext > ciphertext_len then Inl (Undefined OutOfBounds)
         else if server_public_key_len < 0 then Inl (Undefined NegativeArraySize)
         else if server_public_key_len = 0 then Inl (Undefined ZeroArraySize)
         else let signature = take (nat signature_len) plaintext;
                  server_public_key = take (nat server_public_key_len) (drop (nat signature_len) plaintext)
         in bindE (mpz_export (uninit E ''dhA_bytes'' DH_KEY_SIZE) 0 1 1 1 0 dhA_mpz) (\<lambda>(dhA_bytes, _).
            bindE (is_server_response_sign_valid E n0 n1 dhA_bytes dhB_bytes signature server_public_key)
              (\<lambda>valid.
            Inr \<lparr>hr_sock = socket', hr_session_key = session_key, hr_master_key = master_key_bytes,
                 hr_n1 = n1, hr_warned = (valid = 0)\<rparr>)))))))"

definition client_get_session_key ::
  "('c, 'm, 'k) ext \<Rightarrow> sock \<Rightarrow> bytes \<Rightarrow> rng \<Rightarrow> (sock \<times> bytes \<times> rng \<times> bool) result" where
  "client_get_session_key E socket session_key state =
     (let master_key = uninit E ''master_key'' DH_KEY_SIZE;
          n0 = uninit E ''n0'' DH_NONCE_SIZE;
          n1 = uninit E ''n1'' DH_NONCE_SIZE;
          (prime, state) = get_big_prime E state
      in bindE (initialize_values E (Some prime) state) (\<lambda>(dhA_mpz, a, state).
         bindE (send_client_hello E socket prime dhA_mpz state n0) (\<lambda>(socket, state, n0).
         bindE (receive_server_hello E socket prime dhA_mpz a master_key n0 n1 session_key) (\<lambda>r.
         Inr (hr_sock r, hr_session_key r, state, hr_warned r)))))"

section \<open>Server side\<close>

text \<open>
  The prime, the client's value and the nonce.  When the payload is too short the function
  returns without having initialised the two numbers (\<open>None\<close>) or written the nonce.
\<close>

definition receive_client_hello ::
  "sock \<Rightarrow> bytes \<Rightarrow> (mpz option \<times> mpz option \<times> bytes \<times> sock) result" where
  "receive_client_hello socket n0 =
     (let client_payload_len = DH_KEY_SIZE + DH_KEY_SIZE + DH_NONCE_SIZE
      in bindE (recv socket client_payload_len) (\<lambda>(payload_len, client_payload, socket').
      if payload_len < int (DH_KEY_SIZE + DH_KEY_SIZE + DH_NONCE_SIZE) then Inr (None, None, n0, socket')
      else let prime_bytes = take DH_KEY_SIZE client_payload;
               dhA_bytes = take DH_KEY_SIZE (drop DH_KEY_SIZE client_payload);
               n0 = take DH_NONCE_SIZE (drop (DH_KEY_SIZE + DH_KEY_SIZE) client_payload)
           in bindE (mpz_import (mpz_init2 DH_NUM_BITS) DH_KEY_SIZE 0 1 1 1 0 prime_bytes) (\<lambda>prime.
              bindE (mpz_import (mpz_init2 DH_NUM_BITS) DH_KEY_SIZE 0 1 1 1 0 dhA_bytes) (\<lambda>dhA_mpz.
              Inr (Some prime, Some dhA_mpz, n0, socket')))))"

definition sign_data_to_client ::
  "('c, 'm, 'k) ext \<Rightarrow> bytes \<Rightarrow> bytes \<Rightarrow> bytes \<Rightarrow> bytes \<Rightarrow> bytes \<Rightarrow> string \<Rightarrow> bytes option result" where
  "sign_data_to_client E n0 n1 dhA_bytes dhB_bytes public_key private_key_file =
     (let data_len = DH_NONCE_SIZE * 2 + DH_KEY_SIZE * 2 + length public_key;
          data = uninit E ''data'' data_len;
          data = memcpy data 0 n0 DH_NONCE_SIZE;
          data = memcpy data DH_NONCE_SIZE n1 DH_NONCE_SIZE;
          data = memcpy data (DH_NONCE_SIZE * 2) dhA_bytes DH_KEY_SIZE;
          data = memcpy data (DH_NONCE_SIZE * 2 + DH_KEY_SIZE) dhB_bytes DH_KEY_SIZE;
          data = memcpy data (DH_NONCE_SIZE * 2 + DH_KEY_SIZE * 2) public_key (length public_key)
      in sign_data E private_key_file data ''server'')"

definition send_server_hello ::
  "('c, 'm, 'k) ext \<Rightarrow> sock \<Rightarrow> mpz option \<Rightarrow> mpz option \<Rightarrow> rng \<Rightarrow> bytes \<Rightarrow> bytes \<Rightarrow> bytes \<Rightarrow> bytes \<Rightarrow>
   (sock \<times> bytes \<times> rng) result" where
  "send_server_hello E socket prime dhA_mpz state master_key_bytes n0 n1 session_key =
     bindE (initialize_values E prime state) (\<lambda>(dhB_mpz, b, state).
     bindE (mpz_export (uninit E ''dhB_bytes'' DH_KEY_SIZE) 0 1 1 1 0 dhB_mpz) (\<lambda>(dhB_bytes, _).
     bindE (get_random_bytes n1 DH_NONCE_SIZE state) (\<lambda>(n1, state).
     bindE (read_mpz dhA_mpz) (\<lambda>dhA_mpz.
     bindE (read_mpz prime) (\<lambda>prime.
     bindE (generate_session_key E session_key dhA_mpz b prime master_key_bytes n0 n1)
       (\<lambda>(session_key, master_key_bytes).
     bindE (mpz_export (uninit E ''dhA_bytes'' DH_KEY_SIZE) 0 1 1 1 0 dhA_mpz) (\<lambda>(dhA_bytes, _).
     bindE (get_public_key E ''./keys/private.pem'' ''server'') (\<lambda>public_key.
     bindE (sign_data_to_client E n0 n1 dhA_bytes dhB_bytes public_key ''./keys/private.pem'')
       (\<lambda>signature. case signature of None \<Rightarrow> Inl (Undefined NullPointer) | Some signature \<Rightarrow>
     let plaintext_len = length signature + length public_key
     in if \<not> mem_available E ''plaintext'' (plaintext_len + 10) signature then Inl (Undefined NullPointer)
     else let plaintext = uninit E ''plaintext'' (plaintext_len + 10);
              plaintext = memcpy plaintext 0 signature (length signature);
              plaintext = memcpy plaintext (length signature) public_key (length public_key)
     in if \<not> mem_available E ''ciphertext'' (plaintext_len + 10) signature then Inl (Undefined NullPointer)
     else bindE (aes_encrypt E (take plaintext_len plaintext) [] session_key n1 DH_NONCE_SIZE
                 (uninit E ''tag'' AES_TAG_SIZE)) (\<lambda>(ciphertext, tag).
     if length ciphertext > plaintext_len + 10 then Inl (Undefined OutOfBounds)
     else let ciphertext_len = length ciphertext;
              payload_len = DH_KEY_SIZE + DH_NONCE_SIZE + AES_TAG_SIZE + ciphertext_len
     in if \<not> mem_available E ''server_payload'' (payload_len + 100) signature then Inl (Undefined NullPointer)
     else let server_payload = uninit E ''server_payload'' (payload_len + 100);
              server_payload = memcpy server_payload 0 dhB_bytes DH_KEY_SIZE;
              server_payload = memcpy server_payload DH_KEY_SIZE n1 DH_NONCE_SIZE;
              server_payload = memcpy server_payload (DH_KEY_SIZE + DH_NONCE_SIZE) tag AES_TAG_SIZE;
              server_payload = memcpy server_payload (DH_KEY_SIZE + DH_NONCE_SIZE + AES_TAG_SIZE)
                                 ciphertext ciphertext_len
     in bindE (transmit E socket (take payload_len server_payload)) (\<lambda>socket.
        Inr (socket, session_key, state))))))))))))"

definition server_get_session_key ::
  "('c, 'm, 'k) ext \<Rightarrow> sock \<Rightarrow> bytes \<Rightarrow> rng \<Rightarrow> (sock \<times> bytes \<times> rng) result" where
  "server_get_session_key E socket session_key state =
     (let master_key = uninit E ''master_key'' DH_KEY_SIZE;
          n0 = uninit E ''n0'' DH_NONCE_SIZE;
          n1 = uninit E ''n1'' DH_NONCE_SIZE
      in bindE (receive_client_hello socket n0) (\<lambda>(prime, dhA_mpz, n0, socket).
         send_server_hello E socket prime dhA_mpz state master_key n0 n1 session_key))"

section \<open>The values on the wire\<close>

lemma initialize_values_spec:
  assumes "powm_ok E" and "mpz_wf prime" and "0 < SIZ prime" and "ABSIZ prime < 2 ^ 31"
    and "mpz_urandomb (mpz_init2 2048) g 2048 = (secret, g')"
  obtains dh where "initialize_values E (Some prime) g = Inr (dh, secret, g')" and "mpz_wf dh"
    and "0 \<le> SIZ dh" and "mpz_abs dh = 5 ^ mpz_abs secret mod mpz_abs prime"
proof -
  have "mpz_wf secret" "0 \<le> SIZ secret" using mpz_urandomb_spec [OF assms(5)] by simp_all
  then obtain dh where "gmp_powm E (mpz_set_ui mpz_init 5) secret prime = Inr dh"
    "mpz_wf dh" "0 \<le> SIZ dh" "mpz_abs dh = mpz_abs (mpz_set_ui mpz_init 5) ^ mpz_abs secret mod mpz_abs prime"
    using assms(1-4) unfolding powm_ok_def by (metis mpz_set_ui_spec(1,3))
  then show ?thesis
    using that assms(5) by (simp add: initialize_values_def mpz_set_ui_spec)
qed

text \<open>The HKDF call as a function of the shared value and the nonces.\<close>

definition session_kdf :: "('c, 'm, 'k) ext \<Rightarrow> nat \<Rightarrow> bytes \<Rightarrow> bytes \<Rightarrow> bytes" where
  "session_kdf E m n0 n1 = snd (kdf_derive E
     [(''digest'', str ''SHA256''), (''key'', be_bytes 256 m), (''salt'', n0 @ n1),
      (''info'', str ''Session key'')] 32)"

lemma length_session_kdf: "kdf_ok E \<Longrightarrow> length (session_kdf E m n0 n1) = 32"
  unfolding kdf_ok_def session_kdf_def by (metis snd_conv)

lemma generate_session_key_spec:
  assumes "powm_ok E" and "kdf_ok E" and "memory_ok E"
    and "mpz_wf dh" "0 \<le> SIZ dh" "mpz_wf secret" "0 \<le> SIZ secret" "mpz_wf prime" "0 < SIZ prime" "ABSIZ prime < 2 ^ 31"
    and m: "m = mpz_abs dh ^ mpz_abs secret mod mpz_abs prime" and "nbytes m = 256"
    and "length mk = 256" "length n0 = 16" "length n1 = 16" "length key = 32"
  shows "generate_session_key E key dh secret prime mk n0 n1 = Inr (session_kdf E m n0 n1, be_bytes 256 m)"
    and "length (session_kdf E m n0 n1) = 32"
proof -
  obtain r where r: "gmp_powm E dh secret prime = Inr r" "mpz_wf r" "mpz_abs r = m"
    using assms(1,4-10) unfolding powm_ok_def m by blast
  have "get_master_key E dh secret prime mk = Inr (r, be_bytes 256 m)"
    using r assms(12,13) mpz_export_fills [OF r(2)] by (simp add: get_master_key_def)
  moreover have "create_salt (uninit E ''salt'' 32) n0 n1 = n0 @ n1"
    using assms(3,14,15) by (simp add: create_salt_append memory_ok_def)
  moreover obtain k where k: "kdf_derive E [(''digest'', str ''SHA256''), (''key'', be_bytes 256 m),
      (''salt'', n0 @ n1), (''info'', str ''Session key'')] 32 = (1, k)" "length k = 32"
    using assms(2) unfolding kdf_ok_def by blast
  moreover have "create_session_key E (be_bytes 256 m) (n0 @ n1) key = Inr k"
    using assms(2,14,15,16) k by (simp add: create_session_key_def kdf_ok_def memcpy_def)
  ultimately show "generate_session_key E key dh secret prime mk n0 n1
      = Inr (session_kdf E m n0 n1, be_bytes 256 m)"
    by (simp add: generate_session_key_def session_kdf_def)
  show "length (session_kdf E m n0 n1) = 32" using k by (simp add: session_kdf_def)
qed

lemma send_client_hello_spec:
  assumes "memory_ok E" "resources_ok E" and "mpz_wf prime" "nbytes (mpz_abs prime) = 256"
    and "mpz_wf dhA" "nbytes (mpz_abs dhA) = 256" and "length n0 = 16"
  obtains n0' g' where "length n0' = 16"
    and "\<And>s. send_client_hello E s prime dhA g n0 =
      Inr (send s (be_bytes 256 (mpz_abs prime) @ be_bytes 256 (mpz_abs dhA) @ n0'), g', n0')"
proof -
  obtain n0' g' where r: "get_random_bytes n0 16 g = Inr (n0', g')" and n0': "length n0' = 16"
    using get_random_bytes_total [OF assms(7)] by metis
  have "send_client_hello E s prime dhA g n0 =
      Inr (send s (be_bytes 256 (mpz_abs prime) @ be_bytes 256 (mpz_abs dhA) @ n0'), g', n0')" for s
    using assms r n0' mpz_export_fills [OF assms(3,4)] mpz_export_fills [OF assms(5,6)]
    by (simp add: send_client_hello_def memory_ok_def memcpy_def resources_ok_simps)
  then show ?thesis using that n0' by blast
qed

lemma receive_client_hello_spec:
  assumes "length pb = 256" "length ab = 256" "length n0 = 16"
  obtains prime dhA where
    "\<And>s u r. rx s = Seg (pb @ ab @ n0) # r \<Longrightarrow>
      receive_client_hello s u = Inr (Some prime, Some dhA, n0, s\<lparr>rx := r\<rparr>)"
    and "mpz_wf prime" "mpz_abs prime = be_val pb" "0 \<le> SIZ prime"
    and "mpz_wf dhA" "mpz_abs dhA = be_val ab" "0 \<le> SIZ dhA"
proof -
  obtain prime where p: "mpz_import (mpz_init2 2048) 256 0 1 (Suc 0) 1 0 pb = Inr prime"
    "mpz_wf prime" "mpz_abs prime = be_val pb" "0 \<le> SIZ prime"
    using mpz_import_1 [of 256 pb "mpz_init2 2048" 0] assms(1) by auto
  obtain dhA where a: "mpz_import (mpz_init2 2048) 256 0 1 (Suc 0) 1 0 ab = Inr dhA"
    "mpz_wf dhA" "mpz_abs dhA = be_val ab" "0 \<le> SIZ dhA"
    using mpz_import_1 [of 256 ab "mpz_init2 2048" 0] assms(2) by auto
  have "receive_client_hello s u = Inr (Some prime, Some dhA, n0, s\<lparr>rx := r\<rparr>)"
    if "rx s = Seg (pb @ ab @ n0) # r" for s u r
  proof -
    have "recv s 528 = Inr (528, pb @ ab @ n0, s\<lparr>rx := r\<rparr>)" using assms that by simp
    then show ?thesis using assms p(1) a(1) by (simp add: receive_client_hello_def Let_def)
  qed
  then show ?thesis using that p a by blast
qed

text \<open>The bytes that are signed, the same on both sides.\<close>

definition transcript :: "bytes \<Rightarrow> bytes \<Rightarrow> bytes \<Rightarrow> bytes \<Rightarrow> bytes \<Rightarrow> bytes" where
  "transcript n0 n1 dhA_bytes dhB_bytes public_key = n0 @ n1 @ dhA_bytes @ dhB_bytes @ public_key"

lemma sign_data_to_client_transcript:
  assumes "memory_ok E" "length n0 = 16" "length n1 = 16" "length ab = 256" "length bb = 256"
  shows "sign_data_to_client E n0 n1 ab bb pub path = sign_data E path (transcript n0 n1 ab bb pub) ''server''"
  using assms by (simp add: sign_data_to_client_def transcript_def Let_def memcpy_def memory_ok_def)

lemma is_server_response_sign_valid_transcript:
  assumes "memory_ok E" "resources_ok E" "length n0 = 16" "length n1 = 16" "length ab = 256" "length bb = 256"
    and "read_file E ''./keys/server.pem'' = Some pub"
  shows "is_server_response_sign_valid E n0 n1 ab bb sig pk =
    (if length pk > length pub then Inl (Undefined OutOfBounds)
     else if take (length pk) pub \<noteq> pk then Inr 0
     else validate_signed_data E ''./keys/server.pem'' (transcript n0 n1 ab bb pub) sig)"
  using assms
  by (simp add: is_server_response_sign_valid_def transcript_def get_public_key_file_def Let_def
      memcpy_def memory_ok_def resources_ok_simps)

text \<open>The server's answer, as a function of the values it contains.\<close>

definition server_hello_bytes :: "gcm_alg \<Rightarrow> nat \<Rightarrow> bytes \<Rightarrow> bytes \<Rightarrow> bytes \<Rightarrow> bytes" where
  "server_hello_bytes alg dhB n1 key pt = be_bytes 256 dhB @ sealed alg key n1 pt"

lemma send_server_hello_spec:
  assumes alg: "channel_ok alg E" and E: "powm_ok E" "kdf_ok E"
    and id: "identity_ok E ''./keys/private.pem'' ''server'' sk"
    and p: "mpz_wf prime" "0 < SIZ prime" "ABSIZ prime < 2 ^ 31"
    and A: "mpz_wf dhA" "0 \<le> SIZ dhA" "nbytes (mpz_abs dhA) = 256"
    and b: "mpz_urandomb (mpz_init2 2048) g 2048 = (b, g1)"
    and B: "dhB = 5 ^ mpz_abs b mod mpz_abs prime" "nbytes dhB = 256"
    and m: "m = mpz_abs dhA ^ mpz_abs b mod mpz_abs prime" "nbytes m = 256"
    and len: "length mk = 256" "length n0 = 16" "length n1 = 16" "length key = 32"
    and pub: "pub = PEM_write_bio_PUBKEY E sk"
  obtains n1' g' where "length n1' = 16"
    and "\<And>s. send_server_hello E s (Some prime) (Some dhA) g mk n0 n1 key =
      Inr (send s (server_hello_bytes alg dhB n1' (session_kdf E m n0 n1')
        (signature_of E sk (transcript n0 n1' (be_bytes 256 (mpz_abs dhA)) (be_bytes 256 dhB) pub) @ pub)),
        session_kdf E m n0 n1', g')"
proof -
  obtain ctr tagf st where ct: "alg = (ctr, tagf)" and mem: "memory_ok E"
    and evp: "evp_gcm_ok E st ctr tagf" and gcm: "gcm_ok ctr tagf" and res: "resources_ok E"
    using alg by (rule channel_okE)
  have mem': "length (uninit E v n) = n" for v n using mem by (simp add: memory_ok_def)
  obtain dh where dh: "initialize_values E (Some prime) g = Inr (dh, b, g1)" "mpz_wf dh" "mpz_abs dh = dhB"
    using initialize_values_spec [OF E(1) p b] B(1) by metis
  obtain n1' g' where r: "get_random_bytes n1 16 g1 = Inr (n1', g')" and n1': "length n1' = 16"
    using get_random_bytes_total [OF len(3)] by metis
  have bw: "mpz_wf b" "0 \<le> SIZ b" using mpz_urandomb_spec [OF b] by simp_all
  let ?k = "session_kdf E m n0 n1'"
  note gen = generate_session_key_spec [OF E mem A(1,2) bw p m len(1,2) n1' len(4)]
  let ?sig = "signature_of E sk (transcript n0 n1' (be_bytes 256 (mpz_abs dhA)) (be_bytes 256 dhB) pub)"
  note sgn = identity_signs [OF id res]
  have sig: "length ?sig = 256" by (rule sgn(2))
  have sgd: "sign_data_to_client E n0 n1' (be_bytes 256 (mpz_abs dhA)) (be_bytes 256 dhB) pub
      ''./keys/private.pem'' = Inr (Some ?sig)"
    using sign_data_to_client_transcript [OF mem len(2) n1'] sgn(1) by simp
  have enc: "aes_encrypt E x [] ?k n1' 16 t = Inr (ctr ?k n1' x, tagf ?k n1' [] (ctr ?k n1' x))" for x t
    using aes_encrypt_gcm [OF evp gen(2), of x "[]" n1' t] n1' by simp
  have expA: "mpz_export (uninit E ''dhA_bytes'' 256) 0 1 (Suc 0) 1 0 dhA
      = Inr (be_bytes 256 (mpz_abs dhA), 256)"
    using mpz_export_fills [OF A(1,3)] mem' by simp
  have expB: "mpz_export (uninit E ''dhB_bytes'' 256) 0 1 (Suc 0) 1 0 dh = Inr (be_bytes 256 dhB, 256)"
    using mpz_export_fills [OF dh(2)] dh(3) B(2) mem' by simp
  have "send_server_hello E s (Some prime) (Some dhA) g mk n0 n1 key =
      Inr (send s (server_hello_bytes alg dhB n1' ?k (?sig @ pub)), ?k, g')" for s
    using dh(1) r n1' gen(1) sig sgd expA expB sgn(3) gcm
    by (simp add: send_server_hello_def Let_def enc memcpy_def mem' pub [symmetric] ct
        server_hello_bytes_def gcm_ok_simps resources_ok_simps [OF res])
  then show ?thesis using that n1' by blast
qed

lemma receive_server_hello_spec:
  assumes alg: "channel_ok alg E" and E: "powm_ok E" "kdf_ok E"
    and p: "mpz_wf prime" "0 < SIZ prime" "ABSIZ prime < 2 ^ 31"
    and A: "mpz_wf dhA" "nbytes (mpz_abs dhA) = 256" and a: "mpz_wf a" "0 \<le> SIZ a"
    and B: "dhB < 256 ^ 256"
    and m: "m = dhB ^ mpz_abs a mod mpz_abs prime" "nbytes m = 256"
    and len: "length mk = 256" "length n0 = 16" "length n1' = 16" "length key = 32"
    and rx: "rx s = Seg (server_hello_bytes alg dhB n1' (session_kdf E m n0 n1') (sig @ pk)) # r"
    and sig: "length sig = 256" "length pk \<le> 768" "pk \<noteq> []"
    and pub: "read_file E ''./keys/server.pem'' = Some pub"
  shows "receive_server_hello E s prime dhA a mk n0 n1 key =
    bindE (is_server_response_sign_valid E n0 n1' (be_bytes 256 (mpz_abs dhA)) (be_bytes 256 dhB) sig pk)
      (\<lambda>valid. Inr \<lparr>hr_sock = s\<lparr>rx := r\<rparr>, hr_session_key = session_kdf E m n0 n1',
        hr_master_key = be_bytes 256 m, hr_n1 = n1', hr_warned = (valid = 0)\<rparr>)"
proof -
  obtain ctr tagf st where ct: "alg = (ctr, tagf)" and mem: "memory_ok E"
    and evp: "evp_gcm_ok E st ctr tagf" and gcm: "gcm_ok ctr tagf" and res: "resources_ok E"
    using alg by (rule channel_okE)
  let ?k = "session_kdf E m n0 n1'" and ?pt = "sig @ pk"
  let ?c = "ctr ?k n1' ?pt"
  let ?t = "tagf ?k n1' [] ?c"
  have lc: "length ?c = 256 + length pk" "length ?t = 16" using gcm sig(1) by (simp_all add: gcm_ok_simps)
  obtain z where z: "mpz_import (mpz_init2 2048) 256 0 1 (Suc 0) 1 0 (be_bytes 256 dhB) = Inr z"
    "mpz_wf z" "mpz_abs z = dhB" "0 \<le> SIZ z"
    using mpz_import_1 [of 256 "be_bytes 256 dhB" "mpz_init2 2048" 0] B by (auto simp: be_val_be_bytes)
  have m': "m = mpz_abs z ^ mpz_abs a mod mpz_abs prime" using m(1) z(3) by simp
  note gen = generate_session_key_spec [OF E mem z(2,4) a p m' m(2) len]
  have dec: "aes_decrypt E ?c [] ?t ?k n1' 16 = Inr (256 + int (length pk), ?pt)"
    using aes_decrypt_gcm [OF evp gen(2), of ?c "[]" ?t n1'] len(3) gcm lc by (simp add: gcm_ok_simps)
  have expA: "mpz_export (uninit E ''dhA_bytes'' 256) 0 1 (Suc 0) 1 0 dhA
      = Inr (be_bytes 256 (mpz_abs dhA), 256)"
    using mpz_export_fills [OF A] mem by (simp add: memory_ok_def)
  have "recv s 1312 = Inr (544 + int (length pk), be_bytes 256 dhB @ n1' @ ?t @ ?c, s\<lparr>rx := r\<rparr>)"
    using rx lc len(3) sig(2) by (simp add: ct server_hello_bytes_def)
  moreover have "nat (544 + int (length pk)) - 288 = 256 + length pk" by linarith
  ultimately show ?thesis
    using z(1) gen(1) dec expA len(3) lc sig
    by (simp add: receive_server_hello_def Let_def ct resources_ok_simps [OF res])
qed

section \<open>Both sides derive the same key\<close>

text \<open>Two processes with the same OpenSSL.\<close>

definition same_crypto :: "('c, 'm, 'k) ext \<Rightarrow> ('d, 'm, 'k) ext \<Rightarrow> bool" where
  "same_crypto E E' \<longleftrightarrow> kdf_derive E = kdf_derive E' \<and> PEM_read_PUBKEY E = PEM_read_PUBKEY E'
     \<and> verify_digest E = verify_digest E'"

lemma session_kdf_same: "same_crypto E E' \<Longrightarrow> session_kdf E = session_kdf E'"
  by (intro ext) (simp add: session_kdf_def same_crypto_def)

lemma dh_commute: "(g ^ a mod p) ^ b mod p = (g ^ b mod p) ^ a mod (p :: nat)"
  by (simp add: power_mod mult.commute flip: power_mult)

definition handshake_ok :: "gcm_alg \<Rightarrow> ('c, 'm, 'k) ext \<Rightarrow> bool" where
  "handshake_ok alg E \<longleftrightarrow> channel_ok alg E \<and> powm_ok E \<and> kdf_ok E"

lemma nbytes_256_less: "nbytes v = 256 \<Longrightarrow> 0 < v \<and> v < 256 ^ 256"
  using nbytes_bounds [of v] by (cases "v = 0") auto

text \<open>The two messages exchanged and the key, from the client's choices to the server's answer.\<close>

lemma handshake_messages:
  assumes ok: "handshake_ok alg Ec" "handshake_ok alg Es" "same_crypto Ec Es"
    and id: "identity_ok Es ''./keys/private.pem'' ''server'' sk"
    and pin: "read_file Ec ''./keys/server.pem'' = Some (PEM_write_bio_PUBKEY Es sk)"
      "length (PEM_write_bio_PUBKEY Es sk) \<le> 768"
    and p: "mpz_wf prime" "0 < SIZ prime" "nbytes (mpz_abs prime) = 256"
    and a: "mpz_wf a" "0 \<le> SIZ a"
    and A: "mpz_wf dhA" "mpz_abs dhA = 5 ^ mpz_abs a mod mpz_abs prime" "nbytes (mpz_abs dhA) = 256"
    and b: "mpz_urandomb (mpz_init2 2048) gs 2048 = (b, gs1)"
    and B: "nbytes (5 ^ mpz_abs b mod mpz_abs prime) = 256"
    and M: "nbytes (5 ^ (mpz_abs a * mpz_abs b) mod mpz_abs prime) = 256"
    and len: "length n0 = 16" "length kc = 32" "length ks = 32"
  obtains n0' g' h2 key gs' where
    "\<And>s. send_client_hello Ec s prime dhA g n0 =
      Inr (send s (be_bytes 256 (mpz_abs prime) @ be_bytes 256 (mpz_abs dhA) @ n0'), g', n0')"
    and "\<And>s r. rx s = Seg (be_bytes 256 (mpz_abs prime) @ be_bytes 256 (mpz_abs dhA) @ n0') # r \<Longrightarrow>
      server_get_session_key Es s ks gs = Inr (send (s\<lparr>rx := r\<rparr>) h2, key, gs')"
    and "\<And>s r n1. rx s = Seg h2 # r \<Longrightarrow> \<exists>mk'.
      receive_server_hello Ec s prime dhA a (uninit Ec ''master_key'' 256) n0' n1 kc =
        Inr \<lparr>hr_sock = s\<lparr>rx := r\<rparr>, hr_session_key = key, hr_master_key = fst mk', hr_n1 = snd mk',
             hr_warned = False\<rparr>"
    and "length key = 32"
proof -
  have c: "channel_ok alg Ec" "powm_ok Ec" "kdf_ok Ec" and s: "channel_ok alg Es" "powm_ok Es" "kdf_ok Es"
    using ok(1,2) by (simp_all add: handshake_ok_def)
  have mem: "memory_ok Ec" "memory_ok Es" using c(1) s(1) by (auto elim: channel_okE)
  have res: "resources_ok Ec" "resources_ok Es" using c(1) s(1) by (simp_all add: channel_ok_def)
  have mem': "length (uninit Ec v n) = n" "length (uninit Es v n) = n" for v n
    using mem by (simp_all add: memory_ok_def)
  let ?P = "be_bytes 256 (mpz_abs prime)" and ?A = "be_bytes 256 (mpz_abs dhA)"
  have p256: "mpz_abs prime < 256 ^ 256" using nbytes_256_less [OF p(3)] by simp
  define dhB where "dhB = 5 ^ mpz_abs b mod mpz_abs prime"
  define m where "m = mpz_abs dhA ^ mpz_abs b mod mpz_abs prime"
  have m_c: "m = dhB ^ mpz_abs a mod mpz_abs prime"
    by (simp add: m_def dhB_def A(2) dh_commute [of 5 "mpz_abs a"])
  have m256: "nbytes m = 256" using M by (simp add: m_def A(2) power_mod flip: power_mult)
  obtain n0' g' where n0': "length n0' = 16"
    and hello: "\<And>s. send_client_hello Ec s prime dhA g n0 = Inr (send s (?P @ ?A @ n0'), g', n0')"
    using send_client_hello_spec [OF mem(1) res(1) p(1,3) A(1,3) len(1)] by metis
  have vals: "be_val ?P = mpz_abs prime" "be_val ?A = mpz_abs dhA"
    using nbytes_256_less [OF p(3)] nbytes_256_less [OF A(3)] by (simp_all add: be_val_be_bytes)
  obtain prime' dhA' where imp: "\<And>s u r. rx s = Seg (?P @ ?A @ n0') # r \<Longrightarrow>
      receive_client_hello s u = Inr (Some prime', Some dhA', n0', s\<lparr>rx := r\<rparr>)"
    and p': "mpz_wf prime'" "mpz_abs prime' = mpz_abs prime" "0 < SIZ prime'" "ABSIZ prime' < 2 ^ 31"
    and A': "mpz_wf dhA'" "mpz_abs dhA' = mpz_abs dhA" "0 \<le> SIZ dhA'"
  proof -
    have "length ?P = 256" "length ?A = 256" by simp_all
    from receive_client_hello_spec [OF this n0'] obtain prime' dhA' where
      "\<And>s u r. rx s = Seg (?P @ ?A @ n0') # r \<Longrightarrow>
        receive_client_hello s u = Inr (Some prime', Some dhA', n0', s\<lparr>rx := r\<rparr>)"
      "mpz_wf prime'" "mpz_abs prime' = be_val ?P" "0 \<le> SIZ prime'"
      "mpz_wf dhA'" "mpz_abs dhA' = be_val ?A" "0 \<le> SIZ dhA'" by blast
    then show ?thesis using that vals mpz_wf_sign [of prime'] mpz_wf_size [of prime'] nbytes_256_less [OF p(3)] by simp
  qed
  let ?pub = "PEM_write_bio_PUBKEY Es sk"
  obtain n1' gs' where n1': "length n1' = 16" and srv:
    "\<And>s. send_server_hello Es s (Some prime') (Some dhA') gs (uninit Es ''master_key'' 256) n0' (uninit Es ''n1'' 16) ks =
      Inr (send s (server_hello_bytes alg dhB n1' (session_kdf Es m n0' n1')
        (signature_of Es sk (transcript n0' n1' ?A (be_bytes 256 dhB) ?pub) @ ?pub)),
        session_kdf Es m n0' n1', gs')"
    using send_server_hello_spec [OF s id p'(1,3,4) A'(1,3) _ b, of dhB m "uninit Es ''master_key'' 256"
        n0' "uninit Es ''n1'' 16" ks ?pub] A(3) A'(2) B m256 mem' n0' len(3) p'(2)
    by (auto simp: dhB_def m_def)
  define key where "key = session_kdf Es m n0' n1'"
  define sig where "sig = signature_of Es sk (transcript n0' n1' ?A (be_bytes 256 dhB) ?pub)"
  define h2 where "h2 = server_hello_bytes alg dhB n1' key (sig @ ?pub)"
  have key_c: "session_kdf Ec m n0' n1' = key" using session_kdf_same [OF ok(3)] by (simp add: key_def)
  have server: "server_get_session_key Es s ks gs = Inr (send (s\<lparr>rx := r\<rparr>) h2, key, gs')"
    if "rx s = Seg (?P @ ?A @ n0') # r" for s r
    using imp [OF that] srv by (simp add: server_get_session_key_def h2_def key_def sig_def)
  have valid: "is_server_response_sign_valid Ec n0' n1' ?A (be_bytes 256 dhB) sig ?pub = Inr 1"
    using is_server_response_sign_valid_transcript [OF mem(1) res(1) n0' n1' _ _ pin(1), of ?A "be_bytes 256 dhB"]
      ok(3) validate_signature [OF id res(2) pin(1)] by (simp add: sig_def same_crypto_def)
  note sgn = identity_signs [OF id res(2)]
  have sig256: "length sig = 256" unfolding sig_def by (rule sgn(2))
  have client: "\<exists>mk'. receive_server_hello Ec s prime dhA a (uninit Ec ''master_key'' 256) n0' n1 kc =
        Inr \<lparr>hr_sock = s\<lparr>rx := r\<rparr>, hr_session_key = key, hr_master_key = fst mk', hr_n1 = snd mk',
             hr_warned = False\<rparr>" if "rx s = Seg h2 # r" for s r n1
    using receive_server_hello_spec [OF c p(1,2) mpz_wf_size [OF p(1) p256] A(1,3) a _ m_c m256 _ n0' n1' len(2) _ sig256 pin(2) sgn(4) pin(1),
        of "uninit Ec ''master_key'' 256" s r n1] that B nbytes_256_less [of dhB] mem' valid
    by (auto simp: h2_def key_c dhB_def)
  have "length key = 32" using length_session_kdf [OF s(3)] by (simp add: key_def)
  then show ?thesis using that [OF hello server client] by blast
qed

text \<open>Whatever the peer sends, a handshake that returns leaves a key of 32 bytes.\<close>

lemma generate_session_key_length:
  assumes "kdf_ok E" and "generate_session_key E key dh secret prime mk n0 n1 = Inr (key', mk')"
    and "length key = 32"
  shows "length key' = 32"
proof -
  have "length (snd (kdf_derive E ps 32)) = 32" for ps
    using assms(1) unfolding kdf_ok_def by (metis snd_conv)
  then show ?thesis
    using assms(2,3) by (auto simp: generate_session_key_def create_session_key_def Let_def split_beta
        memcpy_def split: if_splits)
qed

lemma receive_server_hello_key_length:
  assumes "kdf_ok E" and "receive_server_hello E s p A a mk n0 n1 key = Inr r" and "length key = 32"
  shows "length (hr_session_key r) = 32"
proof -
  obtain l c s' where recv: "recv s 1312 = Inr (l, c, s')"
    using assms(2) by (cases "recv s 1312") (auto simp: receive_server_hello_def)
  show ?thesis
    using assms(2,3) recv generate_session_key_length [OF assms(1)]
    by (cases "l < 288") (auto simp: receive_server_hello_def Let_def split: if_splits)
qed

lemma client_get_session_key_length:
  assumes "kdf_ok E" and "client_get_session_key E s key g = Inr (s', key', g', w)" and "length key = 32"
  shows "length key' = 32"
proof -
  obtain prime g1 where p: "get_big_prime E g = (prime, g1)" by fastforce
  show ?thesis
    using assms(2,3) p receive_server_hello_key_length [OF assms(1)]
    by (auto simp: client_get_session_key_def)
qed

lemma send_server_hello_key_length:
  assumes "kdf_ok E" and "send_server_hello E s prime dhA g mk n0 n1 key = Inr (s', key', g')"
    and "length key = 32"
  shows "length key' = 32"
  using assms(2,3) generate_session_key_length [OF assms(1)]
  by (auto simp: send_server_hello_def Let_def split: if_splits option.splits)

lemma server_get_session_key_length:
  assumes "kdf_ok E" and "server_get_session_key E s key g = Inr (s', key', g')" and "length key = 32"
  shows "length key' = 32"
  using assms(2,3) send_server_hello_key_length [OF assms(1)]
  by (auto simp: server_get_session_key_def split: option.splits)

text \<open>The numbers the two sides draw: the client's prime and the two secrets.\<close>

definition dh_prime :: "('c, 'm, 'k) ext \<Rightarrow> rng \<Rightarrow> nat" where
  "dh_prime E g = mpz_abs (fst (get_big_prime E g))"

definition dh_secret :: "rng \<Rightarrow> nat" where
  "dh_secret g = mpz_abs (fst (mpz_urandomb (mpz_init2 2048) g 2048))"

text \<open>
  The condition under which the exported numbers fill their 256-byte fields: prime, both
  public values and the shared secret have exactly 256 significant bytes.
\<close>

definition full_size :: "nat \<Rightarrow> nat \<Rightarrow> nat \<Rightarrow> bool" where
  "full_size p a b \<longleftrightarrow> nbytes p = 256 \<and> nbytes (5 ^ a mod p) = 256 \<and> nbytes (5 ^ b mod p) = 256
     \<and> nbytes (5 ^ (a * b) mod p) = 256"

lemma random_number_size:
  assumes "mpz_urandomb mpz_init g 2048 = (z, g')"
  shows "ABSIZ z \<le> 32"
proof -
  have "(256 :: nat) ^ 256 = (2 ^ 8) ^ 256" by simp
  also have "\<dots> = 2 ^ 2048" by (simp only: power_mult [symmetric]) simp
  finally show ?thesis using mpz_urandomb_spec(1,2) [OF assms] by (intro mpz_wf_size_32) simp_all
qed

lemma get_big_prime_spec:
  assumes "nextprime_ok E" and "get_big_prime E g = (prime, g')"
  shows "mpz_wf prime" "0 < SIZ prime"
proof -
  obtain z g1 where z: "mpz_urandomb mpz_init g 2048 = (z, g1)" by fastforce
  have "ABSIZ z < 2 ^ 20" using random_number_size [OF z] by simp
  then show "mpz_wf prime" "0 < SIZ prime"
    using assms mpz_urandomb_spec [OF z] z by (auto simp: get_big_prime_def nextprime_ok_def)
qed

lemma handshake_run:
  assumes ok: "handshake_ok alg Ec" "handshake_ok alg Es" "same_crypto Ec Es" "nextprime_ok Ec"
    and id: "identity_ok Es ''./keys/private.pem'' ''server'' sk"
    and pin: "read_file Ec ''./keys/server.pem'' = Some (PEM_write_bio_PUBKEY Es sk)"
      "length (PEM_write_bio_PUBKEY Es sk) \<le> 768"
    and full: "full_size (dh_prime Ec gc) (dh_secret (snd (get_big_prime Ec gc))) (dh_secret gs)"
    and len: "length kc = 32" "length ks = 32"
  shows "\<exists>hello answer key gc' gs'. length key = 32
    \<and> (\<forall>s r. rx s = Seg answer # r \<longrightarrow>
         client_get_session_key Ec s kc gc = Inr (send (s\<lparr>rx := r\<rparr>) hello, key, gc', False))
    \<and> (\<forall>s r. rx s = Seg hello # r \<longrightarrow>
         server_get_session_key Es s ks gs = Inr (send (s\<lparr>rx := r\<rparr>) answer, key, gs'))"
proof -
  obtain prime g1 where P: "get_big_prime Ec gc = (prime, g1)" by fastforce
  note p = get_big_prime_spec [OF ok(4) P]
  obtain a g2 where a: "mpz_urandomb (mpz_init2 2048) g1 2048 = (a, g2)" by fastforce
  obtain b gs1 where b: "mpz_urandomb (mpz_init2 2048) gs 2048 = (b, gs1)" by fastforce
  note aw = mpz_urandomb_spec [OF a]
  have c: "powm_ok Ec" "length (uninit Ec ''n0'' 16) = 16"
    using ok(1) by (auto simp: handshake_ok_def memory_ok_def elim: channel_okE)
  have f: "full_size (mpz_abs prime) (mpz_abs a) (mpz_abs b)"
    using full P a b by (simp add: dh_prime_def dh_secret_def)
  obtain dhA where A: "initialize_values Ec (Some prime) g1 = Inr (dhA, a, g2)" "mpz_wf dhA"
    "mpz_abs dhA = 5 ^ mpz_abs a mod mpz_abs prime"
    using initialize_values_spec [OF c(1) p mpz_wf_size [OF p(1)] a] nbytes_256_less f by (metis full_size_def)
  obtain n0' g' h2 key gs' where
    h1: "\<And>s. send_client_hello Ec s prime dhA g2 (uninit Ec ''n0'' 16) =
      Inr (send s (be_bytes 256 (mpz_abs prime) @ be_bytes 256 (mpz_abs dhA) @ n0'), g', n0')"
    and srv: "\<And>s r. rx s = Seg (be_bytes 256 (mpz_abs prime) @ be_bytes 256 (mpz_abs dhA) @ n0') # r \<Longrightarrow>
      server_get_session_key Es s ks gs = Inr (send (s\<lparr>rx := r\<rparr>) h2, key, gs')"
    and cl: "\<And>s r n1. rx s = Seg h2 # r \<Longrightarrow> \<exists>mk'.
      receive_server_hello Ec s prime dhA a (uninit Ec ''master_key'' 256) n0' n1 kc =
        Inr \<lparr>hr_sock = s\<lparr>rx := r\<rparr>, hr_session_key = key, hr_master_key = fst mk', hr_n1 = snd mk',
             hr_warned = False\<rparr>"
    and key: "length key = 32"
    by (rule handshake_messages [OF ok(1,2,3) id pin p _ aw(1) _ A(2,3) _ b _ _ c(2) len, of g2])
       (use f aw A(3) in \<open>auto simp: full_size_def\<close>)
  have "client_get_session_key Ec s kc gc = Inr (send (s\<lparr>rx := r\<rparr>)
      (be_bytes 256 (mpz_abs prime) @ be_bytes 256 (mpz_abs dhA) @ n0'), key, g', False)"
    if "rx s = Seg h2 # r" for s r
    using cl [of "send s (be_bytes 256 (mpz_abs prime) @ be_bytes 256 (mpz_abs dhA) @ n0')" r] that P A(1) h1
    by (fastforce simp: client_get_session_key_def send_def)
  then show ?thesis using srv key by blast
qed


text \<open>A handshake that can happen: the secrets 880 and 881 and the modulus \<open>5 ^ 881 + 5\<close>.\<close>

definition toy_client_rng :: rng where
  "toy_client_rng = rng_of (replicate 64 0 @ [2241372260])"

definition toy_server_rng :: rng where
  "toy_server_rng = rng_of [2512053421]"

lemma toy_temper: "unat (temper 2241372260) = 880" "unat (temper 2512053421) = 881"
  by (simp_all add: temper_def MASK_1_def MASK_2_def)

lemma toy_channel_ok: "channel_ok (toy_ctr, toy_tag) toy_ext"
  using toy_memory_ok toy_evp_gcm_ok toy_resources_ok by (auto simp: channel_ok_def)

lemma toy_handshake_ok: "handshake_ok (toy_ctr, toy_tag) toy_ext"
  using toy_channel_ok toy_powm_ok toy_kdf_ok by (simp add: handshake_ok_def)

lemma toy_identity_ok: "identity_ok toy_ext ''./keys/private.pem'' ''server'' toy_key"
  using toy_signature_ok by (simp add: identity_ok_def toy_ext_def)

lemma power_of_minus_base:
  fixes p :: nat
  assumes p: "10 \<le> p" "5 ^ k = p - 5" and n: "n = k * (2 * m)" and j: "j = 2 * m"
  shows "5 ^ n mod p = 5 ^ j mod p"
proof -
  have "(p - 5) * (p - 5) = p * (p - 10) + 25"
    using p(1) by (simp add: algebra_simps diff_mult_distrib diff_mult_distrib2)
  then have "(5 ^ k) ^ 2 mod p = 5 ^ 2 mod p" by (simp add: p(2) power2_eq_square)
  then have "((5 ^ k) ^ 2) ^ m mod p = (5 ^ 2) ^ m mod p" by (metis power_mod)
  then show ?thesis by (simp only: n j power_mult)
qed

lemma full_sizeI:
  "nbytes p = 256 \<Longrightarrow> nbytes x = 256 \<Longrightarrow> nbytes y = 256 \<Longrightarrow> x < p \<Longrightarrow> y < p \<Longrightarrow>
    5 ^ a = x \<Longrightarrow> 5 ^ b = y \<Longrightarrow> n = a * b \<Longrightarrow> 5 ^ n mod p = 5 ^ a mod p \<Longrightarrow> full_size p a b"
  by (simp add: full_size_def)

text \<open>Bounds on powers, with the exponents kept apart from the evaluation of numerals.\<close>

lemma power_bounds:
  fixes k m q r b c n :: nat
  shows "2 ^ b \<le> (5::nat) ^ a \<Longrightarrow> k = a * m \<Longrightarrow> n = b * m \<Longrightarrow> 2 ^ n \<le> (5::nat) ^ k"
    and "5 ^ a < (2::nat) ^ b \<Longrightarrow> 5 ^ q < (2::nat) ^ r \<Longrightarrow> k = a * m + q \<Longrightarrow> n = b * m + r \<Longrightarrow>
      5 ^ k < (2::nat) ^ n"
    and "(256::nat) ^ m = 2 ^ (8 * m)"
proof -
  show "2 ^ n \<le> (5::nat) ^ k" if "2 ^ b \<le> (5::nat) ^ a" "k = a * m" "n = b * m"
    using power_mono [OF that(1), of m] that(2,3) by (simp add: power_mult)
  show "5 ^ k < (2::nat) ^ n" if "5 ^ a < (2::nat) ^ b" "5 ^ q < (2::nat) ^ r" "k = a * m + q" "n = b * m + r"
  proof -
    have "((5::nat) ^ a) ^ m \<le> (2 ^ b) ^ m" using that(1) by (intro power_mono) simp_all
    then have "((5::nat) ^ a) ^ m * 5 ^ q < (2 ^ b) ^ m * 2 ^ r"
      using that(2) by (intro mult_le_less_imp_less) simp_all
    then show ?thesis by (simp only: that(3,4) power_add power_mult)
  qed
  show "(256::nat) ^ m = 2 ^ (8 * m)" by (simp add: power_mult)
qed

lemma toy_bounds: "256 ^ 255 \<le> (5::nat) ^ 880" "(5::nat) ^ 880 < 5 ^ 881" "(5::nat) ^ 881 < 2 ^ 2047"
proof -
  have "2 ^ 2040 \<le> (5::nat) ^ 880"
    by (rule power_bounds(1) [where a = 22 and b = 51 and m = 40]) simp_all
  moreover have "8 * 255 = (2040::nat)" by simp
  ultimately show "256 ^ 255 \<le> (5::nat) ^ 880" by (simp only: power_bounds(3))
  show "(5::nat) ^ 880 < 5 ^ 881" by (rule power_strict_increasing) simp_all
  show "(5::nat) ^ 881 < 2 ^ 2047"
    by (rule power_bounds(2) [where a = 31 and b = 72 and m = 28 and q = 13 and r = 31]) simp_all
qed

lemma toy_modulus_bounds: "5 ^ 881 < toy_modulus" "toy_modulus < 2 ^ 2048" "10 \<le> toy_modulus"
proof -
  have "x < x + 5" for x :: nat by simp
  then show "5 ^ 881 < toy_modulus" unfolding toy_modulus_def .
  have "x < 2 ^ n \<Longrightarrow> 5 \<le> x \<Longrightarrow> x + 5 < 2 ^ Suc n" for x n :: nat by simp
  moreover have n: "(5::nat) ^ 1 \<le> 5 ^ 881" by (rule power_increasing) simp_all
  moreover have "2048 = Suc 2047" by simp
  ultimately show "toy_modulus < 2 ^ 2048" unfolding toy_modulus_def by (metis toy_bounds(3) power_one_right)
  show "10 \<le> toy_modulus" unfolding toy_modulus_def using add_right_mono [OF n, of 5]
    by (simp only: power_one_right)
qed

lemma nbytes_256I: "256 ^ 255 \<le> v \<Longrightarrow> v < 2 ^ 2048 \<Longrightarrow> nbytes v = 256"
proof -
  assume v: "256 ^ 255 \<le> v" "v < 2 ^ 2048"
  have "8 * Suc 255 = 2048" by simp
  then have "v < 256 ^ Suc 255" using v(2) by (simp only: power_bounds(3))
  then show ?thesis using nbytes_unique [OF v(1)] by simp
qed

lemma toy_full_size: "full_size toy_modulus 880 881"
proof (rule full_sizeI)
  note lt = toy_bounds toy_modulus_bounds
  show b: "5 ^ 880 < toy_modulus" "5 ^ 881 < toy_modulus"
    using less_trans [OF lt(2,4)] lt(4) .
  show "nbytes toy_modulus = 256"
    by (rule nbytes_256I [OF le_trans [OF lt(1) less_imp_le [OF b(1)]] lt(5)])
  show "nbytes (5 ^ 880) = 256" by (rule nbytes_256I [OF lt(1) less_trans [OF b(1) lt(5)]])
  show "nbytes (5 ^ 881) = 256"
    by (rule nbytes_256I [OF le_trans [OF lt(1) less_imp_le [OF lt(2)]] less_trans [OF b(2) lt(5)]])
  show "5 ^ 775280 mod toy_modulus = 5 ^ 880 mod toy_modulus"
  proof (rule power_of_minus_base)
    show "10 \<le> toy_modulus" by (rule lt(6))
    show "5 ^ 881 = toy_modulus - 5" by (simp only: toy_modulus_def diff_add_inverse2)
    show "(775280::nat) = 881 * (2 * 440)" by simp
    show "(880::nat) = 2 * 440" by simp
  qed
qed (rule refl, rule refl, simp)

lemma toy_full:
  "full_size (dh_prime toy_ext toy_client_rng)
      (dh_secret (snd (get_big_prime toy_ext toy_client_rng))) (dh_secret toy_server_rng)"
proof -
  have zeros: "mt toy_client_rng ! i = 0" if "i < 64" for i
    using that by (simp add: toy_client_rng_def rng_of_def nth_append)
  have zeros2: "mt toy_client_rng ! i = 0" if "64 < i" "i < 624" for i
    using that by (simp add: toy_client_rng_def rng_of_def nth_append MT_N_def)
  have zeros3: "mt toy_server_rng ! i = 0" if "0 < i" "i < 624" for i
    using that by (simp add: toy_server_rng_def rng_of_def nth_append MT_N_def)
  have mti: "mti toy_client_rng = 0" "mti toy_server_rng = 0"
    by (simp_all add: toy_client_rng_def toy_server_rng_def rng_of_def)
  have words: "mt toy_client_rng ! 64 = 2241372260" "mt toy_server_rng ! 0 = 2512053421"
    by (simp_all add: toy_client_rng_def toy_server_rng_def rng_of_def nth_append)
  have "64 \<le> MT_N" by (simp add: MT_N_def)
  note first = mpz_urandomb_first_word [of toy_client_rng mpz_init, simplified mti, simplified, OF this]
  have "get_big_prime toy_ext toy_client_rng = (mpz_of_nat toy_modulus, toy_client_rng\<lparr>mti := 64\<rparr>)"
    using first zeros mti toy_modulus_bounds(3)
    by (simp add: get_big_prime_def toy_ext_def toy_nextprime_def split_beta)
  moreover have "dh_secret (toy_client_rng\<lparr>mti := 64\<rparr>) = 880"
    using mpz_urandomb_first_word(1) [of "toy_client_rng\<lparr>mti := 64\<rparr>"] zeros2 words
    by (simp add: dh_secret_def toy_temper MT_N_def)
  moreover have "dh_secret toy_server_rng = 881"
    using mpz_urandomb_first_word(1) [of toy_server_rng] zeros3 words mti
    by (simp add: dh_secret_def toy_temper MT_N_def)
  ultimately show ?thesis
    using toy_full_size by (simp add: dh_prime_def)
qed

lemma toy_pinned:
  "same_crypto toy_ext toy_ext"
  "read_file toy_ext ''./keys/server.pem'' = Some (PEM_write_bio_PUBKEY toy_ext toy_key)"
  "length (PEM_write_bio_PUBKEY toy_ext toy_key) \<le> 768"
  by (simp_all add: same_crypto_def toy_ext_def toy_key_def str_def)

lemmas toy_handshake = handshake_run [OF toy_handshake_ok toy_handshake_ok toy_pinned(1) toy_nextprime_ok
  toy_identity_ok toy_pinned(2,3) toy_full length_replicate length_replicate]

text \<open>
  C1.  A client and a server that run the handshake over a network which delivers the two
  messages whole, with the server's key pinned at the client, both return, with the same
  32-byte session key and without the warning about the server's identity, provided the
  numbers drawn are full size.
\<close>

theorem handshake_agreement:
  assumes ok: "handshake_ok alg Ec" "handshake_ok alg Es" "same_crypto Ec Es" "nextprime_ok Ec"
    and id: "identity_ok Es ''./keys/private.pem'' ''server'' sk"
    and pin: "read_file Ec ''./keys/server.pem'' = Some (PEM_write_bio_PUBKEY Es sk)"
      "length (PEM_write_bio_PUBKEY Es sk) \<le> 768"
    and full: "full_size (dh_prime Ec gc) (dh_secret (snd (get_big_prime Ec gc))) (dh_secret gs)"
    and len: "length kc = 32" "length ks = 32"
  shows "\<exists>hello answer key gc' gs'. length key = 32
    \<and> (\<forall>s r. rx s = Seg answer # r \<longrightarrow>
         client_get_session_key Ec s kc gc = Inr (send (s\<lparr>rx := r\<rparr>) hello, key, gc', False))
    \<and> (\<forall>s r. rx s = Seg hello # r \<longrightarrow>
         server_get_session_key Es s ks gs = Inr (send (s\<lparr>rx := r\<rparr>) answer, key, gs'))"
  by (rule handshake_run [OF assms])

text \<open>C1, witness: the handshake of the two example processes.\<close>

theorem handshake_agreement_witness:
  "\<exists>hello answer key gc' gs'. length key = 32
    \<and> (\<forall>s r. rx s = Seg answer # r \<longrightarrow>
         client_get_session_key toy_ext s (replicate 32 0) toy_client_rng
           = Inr (send (s\<lparr>rx := r\<rparr>) hello, key, gc', False))
    \<and> (\<forall>s r. rx s = Seg hello # r \<longrightarrow>
         server_get_session_key toy_ext s (replicate 32 0) toy_server_rng
           = Inr (send (s\<lparr>rx := r\<rparr>) answer, key, gs'))"
  by (rule handshake_agreement [OF toy_handshake_ok toy_handshake_ok toy_pinned(1) toy_nextprime_ok
    toy_identity_ok toy_pinned(2,3) toy_full length_replicate length_replicate])

end
