(* ===== verification/Gmp_Nextprime_Properties.thy ===== *)
theory Gmp_Nextprime_Properties
  imports Example_Prime Key_Exchange Gmp_Powm_Properties
begin

text \<open>
  What \<open>mpz_nextprime\<close> promises to the key exchange: below the limit of the table it returns
  exactly the next prime, above it it ends and passes over no prime, the primality test never
  rejects a prime, and with it the assumption \<open>nextprime_ok\<close> of the handshake holds.  Powers with
  an exponent of one limb are exact, and every number the program computes is normalised.
\<close>

section \<open>Primality\<close>

text \<open>
  C26.  For a modulus of either parity and an exponent of at least two \<open>mpz_powm_ui\<close>, which works
  with shifted operands and reduces after each square, terminates and returns the well-formed least
  non-negative residue of the power.
\<close>

theorem powm_ui_power:
  assumes "cfg_ok (limb_cfg cfg)" and "div_ok cfg" and "mpz_wf b" and "mpz_wf m"
    and "SIZ m \<noteq> 0" and "ABSIZ m < 2 ^ 31" and "1 < el"
  shows "\<exists>z. mpz_powm_ui cfg r b el m = Some (Inr z) \<and> mpz_wf z \<and> 0 \<le> SIZ z
    \<and> int (mpz_abs z) = mpz_int b ^ unat el mod int (mpz_abs m)"
  by (rule mpz_powm_ui_spec [OF assms])

text \<open>C26, witness: the fifth power of a number of two limbs modulo 14.\<close>

theorem powm_ui_power_witness:
  "\<exists>z. mpz_powm_ui example_cfg mpz_init (mpz_of_nat (2 ^ 64 + 3)) 5 (mpz_of_nat 14) = Some (Inr z) \<and> mpz_wf z \<and> 0 \<le> SIZ z
    \<and> int (mpz_abs z) = mpz_int (mpz_of_nat (2 ^ 64 + 3)) ^ unat (5 :: limb) mod int (mpz_abs (mpz_of_nat 14))"
proof (rule powm_ui_power [OF _ example_div_ok])
  show "cfg_ok (limb_cfg example_cfg)" using example_search_ok by (simp add: search_ok_def)
  show "SIZ (mpz_of_nat 14) \<noteq> 0" by (metis mpz_of_nat_spec(4) less_irrefl zero_less_numeral)
  show "ABSIZ (mpz_of_nat 14) < 2 ^ 31" by (rule mpz_wf_size) simp_all
qed simp_all

text \<open>The verdicts on a number: 0 for composite, 1 for probably prime, 2 for prime.\<close>

definition verdicts :: "nat \<Rightarrow> int set" where
  "verdicts m = (if is_prime m then {1, 2} else {0, 1, 2})"

text \<open>
  C20.  The primality test ends with one of its three verdicts on every odd number from 7 on, and it
  never calls a prime composite, whatever the random bases.
\<close>

theorem primality_test_keeps_primes:
  assumes "cfg_ok (limb_cfg cfg)" and "div_ok cfg" and "lucas_ok cfg"
    and "mpz_wf n" and "0 < SIZ n" and "ABSIZ n < 2 ^ 31" and "odd (mpz_abs n)" and "7 \<le> mpz_abs n"
  shows "\<exists>t. mpz_millerrabin cfg n reps = Some (Inr t) \<and> t \<in> verdicts (mpz_abs n)"
proof -
  have "candidate cfg n" using assms by (simp add: candidate_def)
  then obtain t where "mpz_millerrabin cfg n reps = Some (Inr t)" "t \<in> {0, 1, 2}" "is_prime (mpz_abs n) \<Longrightarrow> t \<noteq> 0"
    using mpz_millerrabin_spec [of cfg n reps] assms(3) by metis
  then show ?thesis by (auto simp: verdicts_def)
qed

text \<open>C20, witness: 25 rounds on the prime 7.\<close>

theorem primality_test_keeps_primes_witness:
  "\<exists>t. mpz_millerrabin example_cfg (mpz_of_nat 7) 25 = Some (Inr t) \<and> t \<in> verdicts (mpz_abs (mpz_of_nat 7))"
proof (rule primality_test_keeps_primes)
  show "cfg_ok (limb_cfg example_cfg)" "div_ok example_cfg" "lucas_ok example_cfg"
    using example_search_ok by (simp_all add: search_ok_def)
  show "ABSIZ (mpz_of_nat 7) < 2 ^ 31" by (rule mpz_wf_size) simp_all
qed simp_all

section \<open>The next prime\<close>

definition no_prime_between :: "int \<Rightarrow> int \<Rightarrow> bool" where
  "no_prime_between a b \<longleftrightarrow> (\<forall>k. a < int k \<longrightarrow> int k < b \<longrightarrow> \<not> is_prime k)"

text \<open>
  C19.  Below 310243, for negative numbers too, \<open>mpz_nextprime\<close> terminates and returns exactly the
  least prime above its argument: the table of gaps skips no prime and trial division by it decides
  primality.
\<close>

theorem small_next_prime:
  assumes "mpz_wf n" and "mpz_int n < int NP_SMALL_LIMIT"
  shows "\<exists>z. mpz_nextprime cfg p n = Some (Inr z) \<and> mpz_wf z \<and> 0 \<le> SIZ z
    \<and> is_prime (mpz_abs z) \<and> mpz_int n < mpz_int z \<and> no_prime_between (mpz_int n) (mpz_int z)"
proof -
  obtain z where z: "mpz_nextprime cfg p n = Some (Inr z)" "mpz_wf z" "0 \<le> SIZ z" "next_prime_of (mpz_int n) (mpz_abs z)"
    using mpz_nextprime_small [OF assms, of cfg p] by blast
  moreover have "mpz_int z = int (mpz_abs z)" using z(3) by (simp add: mpz_int_def)
  ultimately show ?thesis unfolding next_prime_of_def no_prime_between_def by (metis of_nat_less_iff)
qed

text \<open>C19, witness: the number below the limit.\<close>

theorem small_next_prime_witness:
  "\<exists>z. mpz_nextprime example_cfg mpz_init (mpz_of_nat 310242) = Some (Inr z) \<and> mpz_wf z \<and> 0 \<le> SIZ z
    \<and> is_prime (mpz_abs z) \<and> mpz_int (mpz_of_nat 310242) < mpz_int z
    \<and> no_prime_between (mpz_int (mpz_of_nat 310242)) (mpz_int z)"
  by (rule small_next_prime) (simp_all add: mpz_int_def NP_SMALL_LIMIT_def)

text \<open>
  C8.  On every number of fewer than \<open>2 ^ 26\<close> bits \<open>mpz_nextprime\<close> ends without undefined behaviour.
  It returns a greater number and there is no prime in between; what it returns is a prime
  below the limit of the table, and above it a number that the primality test accepts.
\<close>

theorem next_prime_found:
  assumes "cfg_ok (limb_cfg cfg)" and "div_ok cfg" and "lucas_ok cfg" and "sieve_ok cfg"
    and "mpz_wf n" and "ABSIZ n < 2 ^ 20"
  shows "\<exists>z. mpz_nextprime cfg p n = Some (Inr z) \<and> mpz_wf z \<and> 0 < SIZ z \<and> mpz_int n < mpz_int z
    \<and> no_prime_between (mpz_int n) (mpz_int z)
    \<and> (if mpz_int n < int NP_SMALL_LIMIT then is_prime (mpz_abs z) else \<exists>t. t \<noteq> 0 \<and> mpz_millerrabin cfg z 25 = Some (Inr t))"
proof -
  have "search_ok cfg" using assms by (simp add: search_ok_def)
  from mpz_nextprime_spec [OF this assms(4-6), of p] show ?thesis by (simp only: prime_candidate_above_def no_prime_between_def)
qed

text \<open>C8, witness: the search from a power of two of 250 bits, for which the sieve of small primes is computed.\<close>

theorem next_prime_found_witness:
  "\<exists>z. mpz_nextprime example_cfg mpz_init (mpz_of_nat (2 ^ 250)) = Some (Inr z) \<and> mpz_wf z \<and> 0 < SIZ z
    \<and> mpz_int (mpz_of_nat (2 ^ 250)) < mpz_int z
    \<and> no_prime_between (mpz_int (mpz_of_nat (2 ^ 250))) (mpz_int z)
    \<and> (if mpz_int (mpz_of_nat (2 ^ 250)) < int NP_SMALL_LIMIT then is_prime (mpz_abs z)
       else \<exists>t. t \<noteq> 0 \<and> mpz_millerrabin example_cfg z 25 = Some (Inr t))"
proof (rule next_prime_found)
  show "cfg_ok (limb_cfg example_cfg)" "div_ok example_cfg" "lucas_ok example_cfg"
    using example_search_ok by (simp_all add: search_ok_def)
  have "ABSIZ (mpz_of_nat (2 ^ 250)) \<le> 32" by (rule mpz_wf_size_32) simp_all
  then show "ABSIZ (mpz_of_nat (2 ^ 250)) < 2 ^ 20" by simp
qed (simp_all add: example_sieve_ok)

section \<open>Well-formed numbers\<close>

text \<open>
  C23.  Every function of the \<open>mpz\<close> layer with which the program sets a number leaves a well-formed
  one, with as many limbs as the size field says and the highest of them not zero: the two
  initialisations, the assignment of a limb, the random number, the import of bytes, the modular
  power for every sign of the exponent when it returns, and the next prime.
\<close>

theorem mpz_results_well_formed:
  assumes "cfg_ok (limb_cfg cfg)" and "div_ok cfg" and "lucas_ok cfg" and "sieve_ok cfg"
    and "mpz_wf b" and "mpz_wf e" and "mpz_wf m" and "ABSIZ m < 2 ^ 31"
    and "\<forall>b'. mpz_invert (limb_cfg cfg) b m = Some b' \<longrightarrow> mpz_wf b'" and "count \<le> length data"
    and "mpz_wf n" and "ABSIZ n < 2 ^ 20"
  shows "mpz_wf mpz_init \<and> mpz_wf (mpz_init2 bits) \<and> mpz_wf (mpz_set_ui r v) \<and> mpz_wf (fst (mpz_urandomb r s k))
    \<and> (case mpz_import r count 0 1 1 1 0 data of Inr z \<Rightarrow> mpz_wf z | Inl _ \<Rightarrow> False)
    \<and> (case mpz_powm (limb_cfg cfg) r b e m of Some (Inr z) \<Rightarrow> mpz_wf z | Some (Inl _) \<Rightarrow> True | None \<Rightarrow> False)
    \<and> (case mpz_nextprime cfg r n of Some (Inr z) \<Rightarrow> mpz_wf z | Some (Inl _) \<Rightarrow> False | None \<Rightarrow> False)"
proof -
  have "search_ok cfg" using assms by (simp add: search_ok_def)
  from mpz_nextprime_spec [OF this assms(4,11,12), of r]
  have next_prime: "case mpz_nextprime cfg r n of Some (Inr z) \<Rightarrow> mpz_wf z | Some (Inl _) \<Rightarrow> False | None \<Rightarrow> False"
    by (auto simp: prime_candidate_above_def)
  have "mpz_wf (fst (mpz_urandomb r s k))"
    using mpz_urandomb_spec [of r s k "fst (mpz_urandomb r s k)" "snd (mpz_urandomb r s k)"] by simp
  then show ?thesis
    using mpz_import_powm_wf [OF assms(1,5-10), of r] next_prime mpz_wf_init2 mpz_set_ui_spec(1) by blast
qed

text \<open>C23, witness: the numbers 3, 5 and 14, a buffer of 256 bytes and a search from a power of two.\<close>

theorem mpz_results_well_formed_witness:
  "mpz_wf mpz_init \<and> mpz_wf (mpz_init2 2048) \<and> mpz_wf (mpz_set_ui mpz_init 5)
    \<and> mpz_wf (fst (mpz_urandomb mpz_init gmp_randinit_mt 2048))
    \<and> (case mpz_import mpz_init 256 0 1 1 1 0 (replicate 256 7) of Inr z \<Rightarrow> mpz_wf z | Inl _ \<Rightarrow> False)
    \<and> (case mpz_powm (limb_cfg example_cfg) mpz_init (mpz_of_nat 3) (mpz_of_nat 5) (mpz_of_nat 14) of
         Some (Inr z) \<Rightarrow> mpz_wf z | Some (Inl _) \<Rightarrow> True | None \<Rightarrow> False)
    \<and> (case mpz_nextprime example_cfg mpz_init (mpz_of_nat (2 ^ 250)) of
         Some (Inr z) \<Rightarrow> mpz_wf z | Some (Inl _) \<Rightarrow> False | None \<Rightarrow> False)"
proof (rule mpz_results_well_formed)
  show "cfg_ok (limb_cfg example_cfg)" "div_ok example_cfg" "lucas_ok example_cfg"
    using example_search_ok by (simp_all add: search_ok_def)
  show "ABSIZ (mpz_of_nat 14) < 2 ^ 31" by (rule mpz_wf_size) simp_all
  show "\<forall>b'. mpz_invert (limb_cfg example_cfg) (mpz_of_nat 3) (mpz_of_nat 14) = Some b' \<longrightarrow> mpz_wf b'"
    by (simp add: example_cfg_def reference_cfg_def)
  have "ABSIZ (mpz_of_nat (2 ^ 250)) \<le> 32" by (rule mpz_wf_size_32) simp_all
  then show "ABSIZ (mpz_of_nat (2 ^ 250)) < 2 ^ 20" by simp
qed (simp_all add: example_sieve_ok)

section \<open>In the key exchange\<close>

text \<open>An environment whose next prime is GMP's.\<close>

definition runs_nextprime :: "prime_cfg \<Rightarrow> ('c, 'm, 'k) ext \<Rightarrow> bool" where
  "runs_nextprime cfg E \<longleftrightarrow> (\<forall>n z. mpz_nextprime cfg mpz_init n = Some (Inr z) \<longrightarrow> gmp_nextprime E n = z)"

text \<open>
  C7.  The routine of GMP meets the assumption of the key exchange, and the prime the client sends
  is the first number above the random one that can be a prime: none in between is.
\<close>

theorem gmp_nextprime_refines:
  assumes "cfg_ok (limb_cfg cfg)" and "div_ok cfg" and "lucas_ok cfg" and "sieve_ok cfg" and "runs_nextprime cfg E"
  shows "nextprime_ok E
    \<and> no_prime_between (mpz_int (fst (mpz_urandomb mpz_init g 2048))) (mpz_int (fst (get_big_prime E g)))"
proof -
  have ok: "search_ok cfg" using assms by (simp add: search_ok_def)
  have run: "prime_candidate_above cfg (mpz_int n) (gmp_nextprime E n)" if "mpz_wf n" "ABSIZ n < 2 ^ 20" for n
    using mpz_nextprime_spec [OF ok assms(4) that, of mpz_init] assms(5) unfolding runs_nextprime_def by metis
  have "nextprime_ok E"
    unfolding nextprime_ok_def
  proof (intro allI impI)
    fix z assume z: "mpz_wf z" "0 \<le> SIZ z" "ABSIZ z < 2 ^ 20"
    define y where "y = gmp_nextprime E z"
    have y: "mpz_wf y" "0 < SIZ y" "mpz_int z < mpz_int y" using run [OF z(1,3)] by (simp_all add: prime_candidate_above_def y_def)
    then have "mpz_abs z < mpz_abs y" using z(2) by (simp add: mpz_int_def)
    then show "mpz_wf (gmp_nextprime E z) \<and> 0 < SIZ (gmp_nextprime E z) \<and> mpz_abs z < mpz_abs (gmp_nextprime E z)"
      using y(1,2) by (simp add: y_def)
  qed
  moreover have "\<not> is_prime k"
    if k: "mpz_int (fst (mpz_urandomb mpz_init g 2048)) < int k" "int k < mpz_int (fst (get_big_prime E g))" for k
  proof -
    obtain z g1 where z: "mpz_urandomb mpz_init g 2048 = (z, g1)" by fastforce
    have "ABSIZ z < 2 ^ 20" using random_number_size [OF z] by simp
    then have "prime_candidate_above cfg (mpz_int z) (gmp_nextprime E z)" using run [of z] mpz_urandomb_spec(1) [OF z] by simp
    then show ?thesis using k by (simp add: prime_candidate_above_def get_big_prime_def DH_NUM_BITS_def z)
  qed
  ultimately show ?thesis by (simp add: no_prime_between_def)
qed

definition prime_ext :: "(gcm_state, bytes md_state, bytes) ext" where
  "prime_ext = toy_ext\<lparr>gmp_nextprime := \<lambda>n.
     case mpz_nextprime example_cfg mpz_init n of Some (Inr z) \<Rightarrow> z | _ \<Rightarrow> n\<rparr>"

lemma prime_ext_runs: "runs_nextprime example_cfg prime_ext"
  by (simp add: runs_nextprime_def prime_ext_def)

text \<open>C7, witness: the example environment with the next prime of the model.\<close>

theorem gmp_nextprime_refines_witness:
  "nextprime_ok prime_ext
    \<and> no_prime_between (mpz_int (fst (mpz_urandomb mpz_init gmp_randinit_mt 2048))) (mpz_int (fst (get_big_prime prime_ext gmp_randinit_mt)))"
proof (rule gmp_nextprime_refines [OF _ _ _ example_sieve_ok prime_ext_runs])
  show "cfg_ok (limb_cfg example_cfg)" "div_ok example_cfg" "lucas_ok example_cfg"
    using example_search_ok by (simp_all add: search_ok_def)
qed

end
