(* ===== verification/Key_Exchange_Properties.thy ===== *)
theory Key_Exchange_Properties
  imports Key_Exchange
begin

text \<open>
  What the message layer and the handshake promise beyond agreement on the key, and where
  they fall short: messages arrive or are rejected, over-long messages are lost, the
  outcome of the signature check has no effect on the session, and malformed hellos run
  into undefined behaviour.
\<close>

section \<open>Total functions\<close>

lemma generate_session_key_total:
  assumes "powm_ok E" and "kdf_ok E" and "memory_ok E"
    and "mpz_wf dh" "0 \<le> SIZ dh" "mpz_wf secret" "0 \<le> SIZ secret"
    and p: "mpz_wf prime" "0 < SIZ prime" "mpz_abs prime < 256 ^ 256"
    and "length mk = 256" "length n0 = 16" "length n1 = 16" "length key = 32"
  shows "\<exists>k mk'. generate_session_key E key dh secret prime mk n0 n1 = Inr (k, mk') \<and> length k = 32"
proof -
  obtain z where z: "gmp_powm E dh secret prime = Inr z" "mpz_wf z"
    "mpz_abs z = mpz_abs dh ^ mpz_abs secret mod mpz_abs prime"
    using assms(1,4-9) mpz_wf_size [OF p(1,3)] unfolding powm_ok_def by blast
  have "0 < mpz_abs prime" using mpz_wf_pos [OF p(1,2)] .
  then have "mpz_abs z < 256 ^ 256" using z(3) p(3) by (simp add: order_less_trans [OF mod_less_divisor])
  then have "nbytes (mpz_abs z) \<le> 256" by (rule nbytes_le)
  then obtain b n where e: "mpz_export mk 0 1 (Suc 0) 1 0 z = Inr (b, n)"
    using mpz_export_1 [OF z(2)] assms(11) by simp
  let ?ps = "[(''digest'', str ''SHA256''), (''key'', take 256 b), (''salt'', n0 @ n1), (''info'', str ''Session key'')]"
  obtain k where k: "kdf_derive E ?ps 32 = (1, k)" "length k = 32"
    using assms(2) unfolding kdf_ok_def by blast
  have "create_salt (uninit E ''salt'' 32) n0 n1 = n0 @ n1"
    using assms(3,12,13) by (simp add: create_salt_append memory_ok_def)
  then have "generate_session_key E key dh secret prime mk n0 n1 = Inr (k, b)"
    using z(1) e k assms(2,12,13,14)
    by (simp add: generate_session_key_def get_master_key_def create_session_key_def kdf_ok_def memcpy_def)
  then show ?thesis using k(2) by blast
qed

lemma nbytes_export:
  assumes "mpz_wf z" and "mpz_abs z < 256 ^ 256" and "length buf = 256"
  shows "\<exists>b n. mpz_export buf 0 1 (Suc 0) 1 0 z = Inr (b, n) \<and> length b = 256"
  using mpz_export_1 [OF assms(1)] nbytes_le [OF assms(2)] assms(3) by simp

lemma receive_client_hello_recv:
  assumes "recv s 528 = Inr (528, c, s')"
  obtains prime dhA where "\<And>u. receive_client_hello s u = Inr (Some prime, Some dhA, drop 512 c, s')"
    and "mpz_wf prime" "mpz_abs prime = be_val (take 256 c)" "0 \<le> SIZ prime" "mpz_abs prime < 256 ^ 256"
    and "mpz_wf dhA" "0 \<le> SIZ dhA" "mpz_abs dhA < 256 ^ 256" "length (drop 512 c) = 16"
proof -
  have c: "length c = 528" using recv_length [OF assms] by simp
  let ?p = "take 256 c" and ?a = "take 256 (drop 256 c)"
  obtain prime where p: "mpz_import (mpz_init2 2048) 256 0 1 (Suc 0) 1 0 ?p = Inr prime"
    "mpz_wf prime" "mpz_abs prime = be_val ?p" "0 \<le> SIZ prime"
    using mpz_import_1 [of 256 ?p "mpz_init2 2048" 0] c by auto
  obtain dhA where a: "mpz_import (mpz_init2 2048) 256 0 1 (Suc 0) 1 0 ?a = Inr dhA"
    "mpz_wf dhA" "mpz_abs dhA = be_val ?a" "0 \<le> SIZ dhA"
    using mpz_import_1 [of 256 ?a "mpz_init2 2048" 0] c by auto
  have "receive_client_hello s u = Inr (Some prime, Some dhA, drop 512 c, s')" for u
    using assms c p(1) a(1) by (simp add: receive_client_hello_def Let_def)
  moreover have "length ?p = 256" "length ?a = 256" using c by simp_all
  then have "be_val ?p < 256 ^ 256" "be_val ?a < 256 ^ 256" by (metis be_val_less)+
  ultimately show ?thesis using that p a c by simp
qed

text \<open>
  The server's side returns for every hello of 528 bytes whose prime is not zero, whatever the
  other numbers are, and leaves a key of 32 bytes.
\<close>

lemma server_handshake_returns:
  assumes ok: "handshake_ok alg E" and id: "identity_ok E ''./keys/private.pem'' ''server'' sk"
    and hello: "recv s 528 = Inr (528, c, s')" "0 < be_val (take 256 c)" and key: "length key = 32"
  shows "\<exists>h key' g'. server_get_session_key E s key g = Inr (send s' h, key', g') \<and> length key' = 32"
proof -
  have E: "channel_ok alg E" "powm_ok E" "kdf_ok E" using ok by (simp_all add: handshake_ok_def)
  obtain ctr tagf st where ct: "alg = (ctr, tagf)" and mem: "memory_ok E" and evp: "evp_gcm_ok E st ctr tagf"
    and gcm: "gcm_ok ctr tagf" and res: "resources_ok E" using E(1) by (rule channel_okE)
  have mem': "length (uninit E v n) = n" for v n using mem by (simp add: memory_ok_def)
  obtain prime dhA where h: "\<And>u. receive_client_hello s u = Inr (Some prime, Some dhA, drop 512 c, s')"
    and p: "mpz_wf prime" "mpz_abs prime = be_val (take 256 c)" "0 \<le> SIZ prime" "mpz_abs prime < 256 ^ 256"
    and A: "mpz_wf dhA" "0 \<le> SIZ dhA" "mpz_abs dhA < 256 ^ 256" and n0: "length (drop 512 c) = 16"
    using receive_client_hello_recv [OF hello(1)] by metis
  have pos: "0 < SIZ prime" using mpz_wf_sign [OF p(1,3)] p(2) hello(2) by simp
  obtain b g1 where b: "mpz_urandomb (mpz_init2 2048) g 2048 = (b, g1)" by fastforce
  note bw = mpz_urandomb_spec [OF b]
  obtain dhB where B: "initialize_values E (Some prime) g = Inr (dhB, b, g1)" "mpz_wf dhB"
    "mpz_abs dhB = 5 ^ mpz_abs b mod mpz_abs prime"
    using initialize_values_spec [OF E(2) p(1) pos mpz_wf_size [OF p(1,4)] b] by metis
  have "mpz_abs dhB < 256 ^ 256"
    using B(3) p(4) mpz_wf_pos [OF p(1) pos] by (simp add: order_less_trans [OF mod_less_divisor])
  from nbytes_export [OF B(2) this mem'] obtain bb nb
    where eB: "mpz_export (uninit E ''dhB_bytes'' 256) 0 1 (Suc 0) 1 0 dhB = Inr (bb, nb)" "length bb = 256" by blast
  from nbytes_export [OF A(1,3) mem'] obtain ab na
    where eA: "mpz_export (uninit E ''dhA_bytes'' 256) 0 1 (Suc 0) 1 0 dhA = Inr (ab, na)" "length ab = 256" by blast
  obtain n1 g2 where n1: "get_random_bytes (uninit E ''n1'' 16) 16 g1 = Inr (n1, g2)" "length n1 = 16"
    using get_random_bytes_total [OF mem'] by metis
  obtain k mk' where k: "generate_session_key E key dhA b prime (uninit E ''master_key'' 256) (drop 512 c) n1 = Inr (k, mk')"
    "length k = 32"
    using generate_session_key_total [OF E(2,3) mem A(1,2) bw(1,3) p(1) pos p(4) mem' n0 n1(2) key] by blast
  let ?pub = "PEM_write_bio_PUBKEY E sk"
  note sgn = identity_signs [OF id res]
  have sgd: "sign_data_to_client E (drop 512 c) n1 ab bb ?pub ''./keys/private.pem'' =
      Inr (Some (signature_of E sk (transcript (drop 512 c) n1 ab bb ?pub)))"
    using sign_data_to_client_transcript [OF mem n0 n1(2) eA(2) eB(2)] sgn(1) by simp
  have enc: "aes_encrypt E x [] k n1 16 t = Inr (ctr k n1 x, tagf k n1 [] (ctr k n1 x))" for x t
    using aes_encrypt_gcm [OF evp k(2), of x "[]" n1 t] n1(2) by simp
  have "\<exists>h g'. send_server_hello E s' (Some prime) (Some dhA) g (uninit E ''master_key'' 256) (drop 512 c)
      (uninit E ''n1'' 16) key = Inr (send s' h, k, g')"
    using B(1) eA(1) eB(1) n1(1) k(1) sgd sgn(2,3) gcm
    by (simp add: send_server_hello_def Let_def enc mem' gcm_ok_simps resources_ok_simps [OF res]) blast
  then show ?thesis using h k(2) by (auto simp: server_get_session_key_def)
qed

text \<open>A client hello that is cut: the server computes with a prime that was never initialised.\<close>

lemma server_handshake_short:
  assumes "recv s 528 = Inr (l, c, s')" and "l < 528"
  shows "server_get_session_key E s key g = Inl (Undefined Uninitialised)"
  using assms
  by (cases "mpz_urandomb (mpz_init2 2048) g 2048")
     (simp add: server_get_session_key_def receive_client_hello_def send_server_hello_def initialize_values_def)

lemma server_handshake_silent: "rx s = Silent # r \<Longrightarrow> server_get_session_key E s key g = Inl Waiting"
  by (simp add: server_get_session_key_def receive_client_hello_def recv_def)

text \<open>
  A client that keeps to the protocol as far as the server depends on it: its first segment is a
  hello of 528 bytes with a prime other than zero, and then it is never silent without closing the
  connection and sends no empty message.  What its messages contain is left open.
\<close>

definition greets :: "rx_event list \<Rightarrow> bool" where
  "greets evs \<longleftrightarrow> (\<exists>hello r. evs = Seg hello # r \<and> length hello = 528 \<and> 0 < be_val (take 256 hello)
     \<and> orderly 2080 r)"

text \<open>What becomes of its connection: the hello is answered, and in the end it is closed.\<close>

definition served :: "sock \<Rightarrow> sock \<Rightarrow> bool" where
  "served s s' \<longleftrightarrow> \<not> is_open s' \<and> (\<exists>h qs. tx s' = tx s @ h # qs)"

lemma server_handshake_greets:
  assumes "handshake_ok alg E" and "identity_ok E ''./keys/private.pem'' ''server'' sk"
    and "greets (rx s)" and "length key = 32"
  shows "\<exists>s' h key' g'. server_get_session_key E s key g = Inr (s', key', g') \<and> length key' = 32
    \<and> tx s' = tx s @ [h] \<and> orderly 2080 (rx s')"
proof -
  obtain hello r where h: "rx s = Seg hello # r" "length hello = 528" "0 < be_val (take 256 hello)" "orderly 2080 r"
    using assms(3) by (auto simp: greets_def)
  then have "recv s 528 = Inr (528, hello, s\<lparr>rx := r\<rparr>)" by simp
  from server_handshake_returns [OF assms(1,2) this h(3) assms(4), of g] show ?thesis using h(4) by fastforce
qed

section \<open>Messages\<close>

text \<open>
  C9.  A message of at most 2048 bytes that is sent with a key is received with that key: same
  length, same bytes, provided the segment arrives whole.  The empty message is the exception: it
  makes the receiver declare an array of size zero.
\<close>

theorem message_transfer:
  fixes E E' :: "('c, 'm, 'k) ext"
  assumes "channel_ok a E" and "channel_ok a E'" and "length key = 32"
    and "n \<le> length data" and "n \<le> 2048"
  shows "\<exists>p g'. send_encypted_data E s data n key g = Inr (32 + n, send s p, g') \<and>
    (\<forall>s' r. rx s' = Seg p # r \<longrightarrow>
      (\<exists>rest. receive_encypted_data E' s' key = (if n = 0 then Inl (Undefined ZeroArraySize)
         else Inr (int n, Some (take n data @ rest), s'\<lparr>rx := r\<rparr>))))"
proof -
  obtain p g' where "send_encypted_data E s data n key g = Inr (32 + n, send s p, g')"
    and "\<And>s' r. rx s' = Seg p # r \<Longrightarrow>
      \<exists>rest. receive_encypted_data E' s' key = (if n = 0 then Inl (Undefined ZeroArraySize)
         else Inr (int n, Some (take n data @ rest), s'\<lparr>rx := r\<rparr>))"
    by (rule aes.transfer [OF assms, of s g]) blast
  then show ?thesis by blast
qed

text \<open>C9, witness: a five-byte message in the example world.\<close>

theorem message_transfer_witness:
  "\<exists>p g'. send_encypted_data toy_ext \<lparr>rx = [], tx = [], is_open = True\<rparr> (str ''hello'') 5 (replicate 32 0) toy_client_rng
      = Inr (32 + 5, send \<lparr>rx = [], tx = [], is_open = True\<rparr> p, g') \<and>
    (\<forall>s' r. rx s' = Seg p # r \<longrightarrow>
      (\<exists>rest. receive_encypted_data toy_ext s' (replicate 32 0)
        = (if 5 = (0::nat) then Inl (Undefined ZeroArraySize)
           else Inr (int 5, Some (take 5 (str ''hello'') @ rest), s'\<lparr>rx := r\<rparr>))))"
  by (rule message_transfer [OF toy_channel_ok toy_channel_ok]) (simp_all add: str_def)

text \<open>
  C25.  What does not carry the right tag is rejected: whatever a segment of at least 32 bytes
  contains, \<open>receive_encypted_data\<close> returns \<open>NULL\<close> and \<open>-1\<close> unless bytes 16 to 31 are the
  GCM tag of the rest under the session key and the nonce in front.  A segment of exactly 32 bytes,
  with nothing after the tag, is not even looked at: the array for its ciphertext has size zero.
\<close>

theorem forged_message_rejected:
  assumes "channel_ok (ctr, tagf) E" and "length key = 32" and "rx s = Seg p # r"
    and "32 \<le> length p" and "length p \<le> 2080"
    and "take 16 (drop 16 p) \<noteq> tagf key (take 16 p) [] (drop 32 p)"
  shows "receive_encypted_data E s key =
    (if length p = 32 then Inl (Undefined ZeroArraySize) else Inr (-1, None, s\<lparr>rx := r\<rparr>))"
proof -
  have p: "length (take 16 p) = 16" "length (take 16 (drop 16 p)) = 16"
    "p = take 16 p @ take 16 (drop 16 p) @ drop 32 p"
    using assms(4) by (simp_all flip: drop_drop) (metis append_take_drop_id drop_drop numeral_Bit0)
  show ?thesis
    using receive_encypted_data_Seg [OF assms(1-3) p] assms(4-6) by simp
qed

text \<open>C25, witness: 40 zero bytes.\<close>

theorem forged_message_rejected_witness:
  "receive_encypted_data toy_ext \<lparr>rx = [Seg (replicate 40 0)], tx = [], is_open = True\<rparr> (replicate 32 0)
    = (if length (replicate 40 (0::byte)) = 32 then Inl (Undefined ZeroArraySize)
       else Inr (-1, None, \<lparr>rx = [Seg (replicate 40 0)], tx = [], is_open = True\<rparr>\<lparr>rx := []\<rparr>))"
proof (rule forged_message_rejected [OF toy_channel_ok])
  have "drop 8 (take 16 (drop 16 (replicate 40 0)))
      \<noteq> drop 8 (toy_tag (replicate 32 0) (take 16 (replicate 40 0)) [] (drop 32 (replicate 40 0)))"
    by (simp add: toy_tag_def)
  then show "take 16 (drop 16 (replicate 40 0))
      \<noteq> toy_tag (replicate 32 0) (take 16 (replicate 40 0)) [] (drop 32 (replicate 40 0))" by metis
qed simp_all

text \<open>
  C34.  A message of more than 2048 bytes is lost: the receive buffer cuts it, the tag does not
  fit the cut ciphertext (unless the two tags collide), the receiver gets \<open>-1\<close>, and the
  rest of the message stays in the stream, where the next call will take it for a message.
\<close>

theorem oversized_message_lost:
  assumes "channel_ok (ctr, tagf) E" and "length key = 32"
    and "length nonce = 16" and "length m > 2048" and "rx s = Seg (sealed (ctr, tagf) key nonce m) # r"
    and "tagf key nonce [] (ctr key nonce m) \<noteq> tagf key nonce [] (take 2048 (ctr key nonce m))"
  shows "receive_encypted_data E s key =
    Inr (-1, None, s\<lparr>rx := Seg (drop 2048 (ctr key nonce m)) # r\<rparr>)"
proof -
  have gcm: "gcm_ok ctr tagf" and ch: "cipher_ok (ctr, tagf) E" "resources_ok E"
    using assms(1) by (auto simp: channel_ok_def evp_gcm_ok_def)
  let ?c = "ctr key nonce m" and ?t = "tagf key nonce [] (ctr key nonce m)"
  have len: "length ?c = length m" "length ?t = 16" using gcm by (simp_all add: gcm_ok_simps)
  let ?p = "nonce @ ?t @ take 2048 ?c"
  have "recv s 2080 = Inr (int (length ?p), ?p, s\<lparr>rx := Seg (drop 2048 ?c) # r\<rparr>)"
    using assms(3,4,5) len by (simp add: recv_def)
  moreover have "take 2048 ?c \<noteq> []" using len(1) assms(4) by (cases ?c) auto
  ultimately show ?thesis
    using receive_encypted_data_recv [OF ch(1) assms(2) _ assms(3) len(2) refl] assms(6)
    by (simp only: resources_ok_simps [OF ch(2)] not_True_eq_False if_False)
qed

text \<open>The example environment with another tag.\<close>

definition tag_ext :: "(bytes \<Rightarrow> bytes \<Rightarrow> bytes \<Rightarrow> bytes \<Rightarrow> bytes) \<Rightarrow> (gcm_state, bytes md_state, bytes) ext" where
  "tag_ext tg = toy_ext\<lparr>
     ctrl_get_tag := (\<lambda>c n. case c of Final key iv a d \<Rightarrow> (1, tg key iv a d) | _ \<Rightarrow> (0, [])),
     decrypt_final := (\<lambda>c. case c of Tagged key iv a d t \<Rightarrow>
        (if t = tg key iv a d then (1, [], Final key iv a d) else (0, [], Fresh)) | _ \<Rightarrow> (0, [], c))\<rparr>"

lemma tag_channel_ok:
  assumes "\<And>key iv a d. length (tg key iv a d) = 16"
  shows "channel_ok (toy_ctr, tg) (tag_ext tg)"
  using toy_memory_ok toy_gcm_ok toy_resources_ok assms
  by (auto simp: channel_ok_def memory_ok_def resources_ok_def tag_ext_def evp_gcm_ok_def gcm_ok_def
      gcm_encrypt_ok_def gcm_decrypt_ok_def toy_ext_def intro!: exI [of _ id])

definition len_tag :: "bytes \<Rightarrow> bytes \<Rightarrow> bytes \<Rightarrow> bytes \<Rightarrow> bytes" where
  "len_tag key iv a d = be_bytes 16 (length d)"

definition len_ext :: "(gcm_state, bytes md_state, bytes) ext" where
  "len_ext = tag_ext len_tag"

lemma len_channel_ok: "channel_ok (toy_ctr, len_tag) len_ext"
  unfolding len_ext_def by (rule tag_channel_ok) (simp add: len_tag_def)

text \<open>C34, witness: 2049 bytes under a cipher whose tag is the length of the ciphertext.\<close>

theorem oversized_message_lost_witness:
  "receive_encypted_data len_ext
     \<lparr>rx = [Seg (sealed (toy_ctr, len_tag) (replicate 32 0) (replicate 16 1) (replicate 2049 0))], tx = [], is_open = True\<rparr>
     (replicate 32 0)
   = Inr (-1, None, \<lparr>rx = [Seg (sealed (toy_ctr, len_tag) (replicate 32 0) (replicate 16 1) (replicate 2049 0))], tx = [], is_open = True\<rparr>
       \<lparr>rx := [Seg (drop 2048 (toy_ctr (replicate 32 0) (replicate 16 1) (replicate 2049 0)))]\<rparr>)"
proof (rule oversized_message_lost [OF len_channel_ok])
  have "be_val (be_bytes 16 2049) \<noteq> be_val (be_bytes 16 2048)" by (simp add: be_val_be_bytes)
  then have "be_bytes 16 2049 \<noteq> be_bytes 16 2048" by metis
  then show "len_tag (replicate 32 0) (replicate 16 1) [] (toy_ctr (replicate 32 0) (replicate 16 1) (replicate 2049 0))
      \<noteq> len_tag (replicate 32 0) (replicate 16 1) [] (take 2048 (toy_ctr (replicate 32 0) (replicate 16 1) (replicate 2049 0)))"
    by (simp add: len_tag_def toy_ctr_def)
qed simp_all

section \<open>Signatures\<close>

lemma validate_other_verifier:
  "validate_signed_data E f d s = Inr v \<Longrightarrow> \<exists>v'. validate_signed_data (E\<lparr>digest_verify_final := V\<rparr>) f d s = Inr v'"
  by (auto simp: validate_signed_data_def verify_digest_def handle_openssl_error_def Let_def split_beta
      split: option.splits)

lemma sign_valid_other_verifier:
  assumes "is_server_response_sign_valid E n0 n1 ab bb sig pk = Inr v"
  shows "\<exists>v'. is_server_response_sign_valid (E\<lparr>digest_verify_final := V\<rparr>) n0 n1 ab bb sig pk = Inr v'"
proof (cases "read_file E ''./keys/server.pem''")
  case None
  then show ?thesis using assms by (simp add: is_server_response_sign_valid_def get_public_key_file_def)
next
  case (Some pub)
  show ?thesis
    using assms validate_other_verifier [of E "''./keys/server.pem''" _ sig v V] Some
    by (cases "length pub < length pk"; cases "take (length pk) pub = pk")
       (simp_all add: is_server_response_sign_valid_def get_public_key_file_def Let_def split: if_splits)
qed

lemma other_verifier_simps:
  "aes_decrypt (E\<lparr>digest_verify_final := V\<rparr>) = aes_decrypt E"
  "generate_session_key (E\<lparr>digest_verify_final := V\<rparr>) = generate_session_key E"
  "get_big_prime (E\<lparr>digest_verify_final := V\<rparr>) = get_big_prime E"
  "initialize_values (E\<lparr>digest_verify_final := V\<rparr>) = initialize_values E"
  "send_client_hello (E\<lparr>digest_verify_final := V\<rparr>) = send_client_hello E"
  by (intro ext; simp add: aes_decrypt_def generate_session_key_def get_master_key_def create_session_key_def
      get_big_prime_def initialize_values_def send_client_hello_def transmit_def Let_def
      cong: option.case_cong if_cong)+

lemma receive_server_hello_other_verifier:
  assumes "receive_server_hello E s p A a mk n0 n1 key = Inr r"
  shows "\<exists>w. receive_server_hello (E\<lparr>digest_verify_final := V\<rparr>) s p A a mk n0 n1 key = Inr (r\<lparr>hr_warned := w\<rparr>)"
proof -
  obtain l c s' where recv: "recv s 1312 = Inr (l, c, s')"
    using assms by (cases "recv s 1312") (auto simp: receive_server_hello_def)
  show ?thesis
  proof (cases "l < 288")
    case True
    then show ?thesis using assms recv by (auto simp: receive_server_hello_def)
  next
    case False
    then show ?thesis using assms recv sign_valid_other_verifier [of E, where V = V]
      by (fastforce simp: receive_server_hello_def Let_def other_verifier_simps split: if_splits)
  qed
qed

text \<open>
  C36.  The client does not act on the outcome of the signature check: if OpenSSL verified
  signatures in any other way, so also if it rejected them all, a handshake that completes
  would complete with the same session key, socket and generator.
\<close>

theorem signature_check_ignored:
  assumes "client_get_session_key E s key g = Inr (s', key', g', warned)"
  shows "\<exists>warned'. client_get_session_key (E\<lparr>digest_verify_final := V\<rparr>) s key g = Inr (s', key', g', warned')"
proof -
  obtain prime g1 where p: "get_big_prime E g = (prime, g1)" by fastforce
  obtain A a g2 s2 n0 r where h: "initialize_values E (Some prime) g1 = Inr (A, a, g2)"
    "send_client_hello E s prime A g2 (uninit E ''n0'' 16) = Inr (s2, g', n0)"
    "receive_server_hello E s2 prime A a (uninit E ''master_key'' 256) n0 (uninit E ''n1'' 16) key = Inr r"
    "s' = hr_sock r" "key' = hr_session_key r"
    using assms p by (auto simp: client_get_session_key_def)
  obtain w where "receive_server_hello (E\<lparr>digest_verify_final := V\<rparr>) s2 prime A a (uninit E ''master_key'' 256)
      n0 (uninit E ''n1'' 16) key = Inr (r\<lparr>hr_warned := w\<rparr>)"
    using receive_server_hello_other_verifier [OF h(3)] by blast
  then show ?thesis
    using h p by (simp add: client_get_session_key_def other_verifier_simps)
qed


text \<open>C36, witness: the example handshake with a verifier that rejects every signature.\<close>

theorem signature_check_ignored_witness:
  "\<exists>s s' key' g' warned. client_get_session_key (toy_ext\<lparr>digest_verify_final := \<lambda>_ _. 0\<rparr>) s (replicate 32 0) toy_client_rng
    = Inr (s', key', g', warned)"
proof -
  obtain answer hello key gc' where "\<forall>s r. rx s = Seg answer # r \<longrightarrow>
      client_get_session_key toy_ext s (replicate 32 0) toy_client_rng
        = Inr (send (s\<lparr>rx := r\<rparr>) hello, key, gc', False)"
    using toy_handshake by blast
  then have "client_get_session_key toy_ext \<lparr>rx = [Seg answer], tx = [], is_open = True\<rparr> (replicate 32 0) toy_client_rng
      = Inr (send (\<lparr>rx = [Seg answer], tx = [], is_open = True\<rparr>\<lparr>rx := []\<rparr>) hello, key, gc', False)"
    by simp
  from signature_check_ignored [OF this] show ?thesis by blast
qed

text \<open>
  C37.  The comparison with the pinned key has the length the peer sends.  Given a server's signature
  over the transcript of the handshake, the check accepts exactly the prefixes of the pinned key:
  a key that is only the beginning of the right one passes with the result 1, as does the right
  one; any other key that is not longer gives 0.
\<close>

theorem pinned_key_prefix_accepted:
  assumes ok: "channel_ok alg E" "channel_ok alg Es" "same_crypto E Es"
    and id: "identity_ok Es ''./keys/private.pem'' ''server'' sk"
    and pin: "read_file E ''./keys/server.pem'' = Some pub" "pub = PEM_write_bio_PUBKEY Es sk"
    and len: "length n0 = 16" "length n1 = 16" "length ab = 256" "length bb = 256" "length key \<le> length pub"
    and sig: "sign_data_to_client Es n0 n1 ab bb pub ''./keys/private.pem'' = Inr (Some sig)"
  shows "is_server_response_sign_valid E n0 n1 ab bb sig key = Inr (if take (length key) pub = key then 1 else 0)"
proof -
  have c: "memory_ok E" "resources_ok E" and s: "memory_ok Es" "resources_ok Es"
    using ok(1,2) by (auto simp: channel_ok_def elim: cipher_okE)
  have sig': "sig = signature_of Es sk (transcript n0 n1 ab bb pub)"
    using sig sign_data_to_client_transcript [OF s(1) len(1-4)] identity_signs(1) [OF id s(2)] by simp
  have "validate_signed_data E ''./keys/server.pem'' (transcript n0 n1 ab bb pub) sig = Inr 1"
    unfolding sig' by (rule validate_signature [OF id s(2)]) (use pin ok(3) in \<open>simp_all add: same_crypto_def\<close>)
  then show ?thesis
    using is_server_response_sign_valid_transcript [OF c len(1-4) pin(1), of sig key] len(5) by simp
qed

text \<open>C37, witness: of the pinned key \<open>key\<close> the beginning \<open>ke\<close> is accepted.\<close>

theorem pinned_key_prefix_accepted_witness:
  "\<exists>sig. sign_data_to_client toy_ext (replicate 16 1) (replicate 16 2) (replicate 256 3) (replicate 256 4) toy_key
        ''./keys/private.pem'' = Inr (Some sig)
    \<and> is_server_response_sign_valid toy_ext (replicate 16 1) (replicate 16 2) (replicate 256 3) (replicate 256 4)
        sig (str ''ke'') = Inr 1
    \<and> is_server_response_sign_valid toy_ext (replicate 16 1) (replicate 16 2) (replicate 256 3) (replicate 256 4)
        sig (str ''ky'') = Inr 0"
proof -
  have k: "toy_key = PEM_write_bio_PUBKEY toy_ext toy_key" by (simp add: toy_ext_def)
  have pin: "read_file toy_ext ''./keys/server.pem'' = Some toy_key" by (simp add: toy_ext_def)
  obtain sig where sig: "sign_data_to_client toy_ext (replicate 16 1) (replicate 16 2) (replicate 256 3)
      (replicate 256 4) toy_key ''./keys/private.pem'' = Inr (Some sig)"
    using sign_data_to_client_transcript [OF toy_memory_ok] identity_signs(1) [OF toy_identity_ok toy_resources_ok]
    by simp
  note P = pinned_key_prefix_accepted [OF toy_channel_ok toy_channel_ok toy_pinned(1) toy_identity_ok pin k _ _ _ _ _ sig]
  have "take 2 toy_key = str ''ke''" "take 2 toy_key \<noteq> str ''ky''" by (simp_all add: toy_key_def str_def)
  then show ?thesis using sig P [of "str ''ke''"] P [of "str ''ky''"] by (simp add: toy_key_def str_def)
qed

section \<open>Malformed hellos\<close>

text \<open>
  C39.  A server answer whose tag does not fit makes the client allocate an array of negative
  size: \<open>plaintext_len\<close> is \<open>-1\<close> and the array for the public key has \<open>-1 - 256\<close> bytes.  Here \<open>dhB\<close>
  is the server's value in the answer, \<open>k\<close> the session key that the client derives from it, and the
  tag is not the one of the ciphertext under \<open>k\<close>.
\<close>

theorem forged_server_hello_undefined:
  assumes alg: "channel_ok (ctr, tagf) E" and E: "kdf_ok E"
    and len: "length key = 32"
    and rx: "rx s = Seg (bb @ n1 @ t @ d) # r"
    and lens: "length bb = 256" "length n1 = 16" "length t = 16" "d \<noteq> []" "length d \<le> 1024"
    and dhB: "mpz_import (mpz_init2 2048) 256 0 1 1 1 0 bb = Inr dhB"
    and k: "generate_session_key E key dhB a prime mk n0 n1 = Inr (k, mk')"
    and forged: "t \<noteq> tagf k n1 [] d"
  shows "receive_server_hello E s prime dhA a mk n0 n1' key = Inl (Undefined NegativeArraySize)"
proof -
  obtain st where evp: "evp_gcm_ok E st ctr tagf" and gcm: "gcm_ok ctr tagf" and res: "resources_ok E"
    using alg by (elim channel_okE) auto
  have k32: "length k = 32" using generate_session_key_length [OF E k len] .
  have dec: "aes_decrypt E d [] t k n1 16 = Inr (-1, ctr k n1 d)"
    using aes_decrypt_gcm [OF evp k32, of d "[]" t n1] lens(2) forged by simp
  have "recv s 1312 = Inr (288 + int (length d), bb @ n1 @ t @ d, s\<lparr>rx := r\<rparr>)"
    using rx lens by simp
  moreover have "nat (288 + int (length d)) - 288 = length d" by linarith
  ultimately show ?thesis
    using dhB k dec lens gcm
    by (simp add: receive_server_hello_def Let_def gcm_ok_simps resources_ok_simps [OF res])
qed

text \<open>
  A tag that depends on the key: its first 16 bytes.  The key derived in the example environment
  begins with the name of the digest.
\<close>

definition key_tag :: "bytes \<Rightarrow> bytes \<Rightarrow> bytes \<Rightarrow> bytes \<Rightarrow> bytes" where
  "key_tag key iv a d = take 16 (key @ replicate 16 7)"

lemma key_tag_derived:
  assumes "generate_session_key (tag_ext tg) key dh b prime mk n0 n1 = Inr (k, mk')" and "length key = 32"
  shows "k ! 0 = 83"
  using assms by (auto simp: generate_session_key_def get_master_key_def create_session_key_def tag_ext_def
      toy_ext_def memcpy_def Let_def str_def)

text \<open>C39, witness: an answer of zeros under a tag that depends on the key.\<close>

theorem forged_server_hello_undefined_witness:
  "receive_server_hello (tag_ext key_tag) \<lparr>rx = [Seg (replicate 256 0 @ replicate 16 0 @ replicate 16 0 @ [0])], tx = [], is_open = True\<rparr>
     (mpz_of_nat 23) (mpz_of_nat 5) (mpz_of_nat 3) (replicate 256 0) (replicate 16 0) [] (replicate 32 0)
   = Inl (Undefined NegativeArraySize)"
proof -
  have E: "kdf_ok (tag_ext key_tag)" "powm_ok (tag_ext key_tag)" "memory_ok (tag_ext key_tag)"
    using toy_kdf_ok toy_powm_ok toy_memory_ok by (simp_all add: kdf_ok_def powm_ok_def memory_ok_def tag_ext_def)
  obtain dhB where z: "mpz_import (mpz_init2 2048) 256 0 1 1 1 0 (replicate 256 0) = Inr dhB" "mpz_wf dhB" "0 \<le> SIZ dhB"
    using mpz_import_1 [of 256 "replicate 256 0" "mpz_init2 2048" 0] by auto
  have "(23::nat) < 256 ^ 1" by simp
  also have "\<dots> \<le> 256 ^ 256" by (rule power_increasing) simp_all
  finally have p: "mpz_abs (mpz_of_nat 23) < 256 ^ 256" by simp
  obtain k mk' where k: "generate_session_key (tag_ext key_tag) (replicate 32 0) dhB (mpz_of_nat 3) (mpz_of_nat 23)
      (replicate 256 0) (replicate 16 0) (replicate 16 0) = Inr (k, mk')" "length k = 32"
    using generate_session_key_total [OF E(2,1,3) z(2,3) _ _ _ _ p length_replicate length_replicate
        length_replicate length_replicate, of "mpz_of_nat 3"] by (simp del: replicate.simps) blast
  have "k ! 0 = 83" using key_tag_derived [OF k(1)] by simp
  then have "key_tag k (replicate 16 0) [] [0] ! 0 = 83" using k(2) by (simp add: key_tag_def nth_append)
  moreover have "replicate 16 (0::byte) ! 0 \<noteq> 83" by simp
  ultimately have "replicate 16 0 \<noteq> key_tag k (replicate 16 0) [] [0]" by metis
  then show ?thesis
    using forged_server_hello_undefined [OF tag_channel_ok E(1) length_replicate _ length_replicate
      length_replicate length_replicate _ _ z(1) k(1)] by (simp add: key_tag_def)
qed

section \<open>A client's handshake in the example environment\<close>

text \<open>
  The cipher and the tag of the example environment do not depend on the key, so that one answer of
  a server, or one message of any peer, fits every key that a handshake may derive.  \<open>steady_ext\<close>
  always finds the same prime, of 256 bytes.
\<close>

definition steady_ext :: "(gcm_state, bytes md_state, bytes) ext" where
  "steady_ext = toy_ext\<lparr>gmp_nextprime := \<lambda>z. mpz_of_nat toy_modulus\<rparr>"

definition steady_plain :: bytes where
  "steady_plain = replicate 256 0 @ toy_key"

definition steady_answer :: bytes where
  "steady_answer = replicate 256 1 @ sealed (toy_ctr, toy_tag) [] (replicate 16 2) steady_plain"

lemma steady_ok:
  "channel_ok (toy_ctr, toy_tag) steady_ext" "powm_ok steady_ext" "kdf_ok steady_ext" "memory_ok steady_ext"
  "identity_ok steady_ext ''./keys/private.pem'' ''server'' toy_key"
proof -
  show mem: "memory_ok steady_ext" using toy_memory_ok by (simp add: memory_ok_def steady_ext_def)
  have "evp_gcm_ok steady_ext id toy_ctr toy_tag" using toy_evp_gcm_ok
    by (simp add: evp_gcm_ok_def gcm_encrypt_ok_def gcm_decrypt_ok_def steady_ext_def)
  then show "channel_ok (toy_ctr, toy_tag) steady_ext"
    using mem toy_resources_ok by (auto simp: channel_ok_def resources_ok_def steady_ext_def)
  show "powm_ok steady_ext" "kdf_ok steady_ext" using toy_powm_ok toy_kdf_ok
    by (simp_all add: powm_ok_def kdf_ok_def steady_ext_def)
  show "identity_ok steady_ext ''./keys/private.pem'' ''server'' toy_key"
    using toy_identity_ok by (simp add: identity_ok_def signature_ok_def evp_sign_ok_def evp_verify_ok_def steady_ext_def)
qed

lemma steady_sign_check:
  assumes "length n0 = 16" "length n1 = 16" "length ab = 256" "length bb = 256"
  shows "\<exists>v. is_server_response_sign_valid steady_ext n0 n1 ab bb sig toy_key = Inr v"
proof -
  have res: "resources_ok steady_ext" using steady_ok(1) by (simp add: channel_ok_def)
  have pin: "read_file steady_ext ''./keys/server.pem'' = Some toy_key" by (simp add: steady_ext_def toy_ext_def)
  have "\<exists>v. validate_signed_data steady_ext ''./keys/server.pem'' d sig = Inr v" for d
    by (simp add: validate_signed_data_def verify_digest_def steady_ext_def toy_ext_def)
  then show ?thesis
    using is_server_response_sign_valid_transcript [OF steady_ok(4) res assms pin, of sig toy_key] by simp
qed

lemma steady_client_handshake:
  assumes rx: "rx s = Seg steady_answer # r" and kc: "length kc = 32"
  shows "\<exists>hello key g' w. client_get_session_key steady_ext s kc g = Inr (send (s\<lparr>rx := r\<rparr>) hello, key, g', w)
    \<and> length key = 32"
proof -
  let ?E = steady_ext and ?p = "mpz_of_nat toy_modulus"
  have res: "resources_ok ?E" using steady_ok(1) by (simp add: channel_ok_def)
  have mem': "length (uninit ?E v n) = n" for v n using steady_ok(4) by (simp add: memory_ok_def)
  obtain st where evp: "evp_gcm_ok ?E st toy_ctr toy_tag" using steady_ok(1) by (auto simp: channel_ok_def)
  obtain g1 where P: "get_big_prime ?E g = (?p, g1)"
    by (cases "mpz_urandomb mpz_init g 2048") (simp add: get_big_prime_def steady_ext_def)
  have "(256 :: nat) ^ 256 = (2 ^ 8) ^ 256" by simp
  also have "\<dots> = 2 ^ 2048" by (simp only: power_mult [symmetric]) simp
  finally have p: "mpz_wf ?p" "0 < SIZ ?p" "mpz_abs ?p < 256 ^ 256"
    using toy_modulus_bounds(2,3) by simp_all
  obtain a g2 where a: "mpz_urandomb (mpz_init2 2048) g1 2048 = (a, g2)" by fastforce
  note aw = mpz_urandomb_spec [OF a]
  obtain A where A: "initialize_values ?E (Some ?p) g1 = Inr (A, a, g2)" "mpz_wf A"
    "mpz_abs A = 5 ^ mpz_abs a mod mpz_abs ?p"
    using initialize_values_spec [OF steady_ok(2) p(1,2) mpz_wf_size [OF p(1,3)] a] by metis
  have lt: "mpz_abs A < 256 ^ 256"
    using A(3) p(3) mpz_wf_pos [OF p(1,2)] by (simp add: order_less_trans [OF mod_less_divisor])
  from nbytes_export [OF A(2) lt mem'] obtain ab na
    where eA: "mpz_export (uninit ?E ''dhA_bytes'' 256) 0 1 (Suc 0) 1 0 A = Inr (ab, na)" "length ab = 256" by blast
  from nbytes_export [OF p(1,3) mem'] obtain pb np
    where eP: "mpz_export (uninit ?E ''prime_bytes'' 256) 0 1 (Suc 0) 1 0 ?p = Inr (pb, np)" by blast
  obtain n0 g3 where n0: "get_random_bytes (uninit ?E ''n0'' 16) 16 g2 = Inr (n0, g3)" "length n0 = 16"
    using get_random_bytes_total [OF mem'] by metis
  obtain hello where hello: "\<And>s. send_client_hello ?E s ?p A g2 (uninit ?E ''n0'' 16) = Inr (send s hello, g3, n0)"
    using eA eP n0 by (simp add: send_client_hello_def Let_def resources_ok_simps [OF res])
  let ?bb = "replicate 256 (1::byte)" and ?n1 = "replicate 16 (2::byte)"
  define d where "d = toy_ctr [] ?n1 steady_plain"
  define t where "t = toy_tag [] ?n1 [] d"
  obtain z where z: "mpz_import (mpz_init2 2048) 256 0 1 (Suc 0) 1 0 ?bb = Inr z" "mpz_wf z" "0 \<le> SIZ z"
    using mpz_import_1 [of 256 ?bb "mpz_init2 2048" 0] by auto
  obtain k mk' where k: "generate_session_key ?E kc z a ?p (uninit ?E ''master_key'' 256) n0 ?n1 = Inr (k, mk')"
    "length k = 32"
    using generate_session_key_total [OF steady_ok(2-4) z(2,3) aw(1,3) p mem' n0(2) length_replicate kc] by blast
  have ld: "length steady_plain = 259" "length d = 259" "length t = 16"
    by (simp_all add: steady_plain_def toy_key_def str_def d_def t_def toy_ctr_def toy_tag_def)
  have "toy_ctr k ?n1 d = steady_plain" "toy_tag k ?n1 [] d = t"
    using toy_gcm_ok by (simp_all add: d_def t_def toy_tag_def toy_ctr_def o_def xor.assoc)
  then have dec: "aes_decrypt ?E d [] t k ?n1 16 = Inr (259, steady_plain)"
    using aes_decrypt_gcm [OF evp k(2), of d "[]" t ?n1] ld by simp
  obtain v where v: "is_server_response_sign_valid ?E n0 ?n1 ab ?bb (replicate 256 0) toy_key = Inr v"
    using steady_sign_check [OF n0(2) length_replicate eA(2) length_replicate] by blast
  have plain: "take 256 steady_plain = replicate 256 0" "drop 256 steady_plain = toy_key" "take 3 toy_key = toy_key"
    by (simp_all add: steady_plain_def toy_key_def str_def)
  have "recv s' 1312 = Inr (547, ?bb @ ?n1 @ t @ d, s'\<lparr>rx := r\<rparr>)" if "rx s' = Seg steady_answer # r" for s'
    using that ld by (simp add: steady_answer_def d_def t_def)
  then have "\<exists>mk n1. receive_server_hello ?E s' ?p A a (uninit ?E ''master_key'' 256) n0 (uninit ?E ''n1'' 16) kc =
      Inr \<lparr>hr_sock = s'\<lparr>rx := r\<rparr>, hr_session_key = k, hr_master_key = mk, hr_n1 = n1, hr_warned = (v = 0)\<rparr>"
    if "rx s' = Seg steady_answer # r" for s'
    using that ld z(1) k(1) dec eA v plain
    by (simp add: receive_server_hello_def Let_def resources_ok_simps [OF res])
  moreover have "rx (send s hello) = Seg steady_answer # r" using rx by simp
  ultimately obtain mk n1 where "receive_server_hello ?E (send s hello) ?p A a (uninit ?E ''master_key'' 256) n0
      (uninit ?E ''n1'' 16) kc = Inr \<lparr>hr_sock = (send s hello)\<lparr>rx := r\<rparr>, hr_session_key = k,
        hr_master_key = mk, hr_n1 = n1, hr_warned = (v = 0)\<rparr>" by blast
  moreover have "(send s hello)\<lparr>rx := r\<rparr> = send (s\<lparr>rx := r\<rparr>) hello" by (simp add: send_def)
  ultimately show ?thesis
    using P A(1) hello k(2) by (simp add: client_get_session_key_def) blast
qed

text \<open>A message as the example cipher protects it, whose tag is the same under every key.\<close>

definition toy_seal :: "bytes \<Rightarrow> bytes" where
  "toy_seal m = sealed (toy_ctr, toy_tag) [] (replicate 16 9) m"

lemma toy_seal_carries: "carries (toy_ctr, toy_tag) key m (toy_seal m)"
proof -
  have "toy_seal m = sealed (toy_ctr, toy_tag) key (replicate 16 9) m"
    by (simp add: toy_seal_def toy_ctr_def toy_tag_def)
  then show ?thesis unfolding carries_def by (intro exI [of _ "replicate 16 9"]) simp
qed

end
