(* ===== verification/Server.thy ===== *)
theory Server
  imports Key_Exchange
begin

text \<open>
  \<open>server/server.h\<close> and \<open>server/server.c\<close>: the process that stores data in a linked list of
  hash-chained blocks and answers the requests of the router.

  The list lives in an explicit heap, a map from addresses to blocks in which address 0 is
  \<open>NULL\<close>.  Following a pointer to an address that is not allocated is a fault, and so is
  freeing it.  The loops along \<open>next\<close> are partial functions, for the list could be cyclic:
  not returning is the value \<open>None\<close> of the outer option, and the theorems prove that it
  does not occur.  \<open>malloc\<close> is a parameter.  Text printed on the console is not modelled,
  except that \<open>store_data\<close> returns the verdict it prints.
\<close>

section \<open>Data\<close>

definition MAX_LINE :: nat where [simp]: "MAX_LINE = 256"
definition HASH_SIZE :: nat where [simp]: "HASH_SIZE = 65"
definition SHA256_DIGEST_LENGTH :: nat where [simp]: "SHA256_DIGEST_LENGTH = 32"

type_synonym addr = nat

record Block =
  blk_data :: bytes
  blk_hash :: bytes
  blk_previous_hash :: bytes
  blk_next :: addr

type_synonym heap = "addr \<rightharpoonup> Block"

record server =
  heap :: heap
  blockchain_head :: addr

definition NULL :: addr where [simp]: "NULL = 0"

definition server_start :: server where
  "server_start = \<lparr>heap = Map.empty, blockchain_head = NULL\<rparr>"

section \<open>Operations\<close>

text \<open>The digest in \<open>output_hash\<close> and the block with its \<open>previous_hash\<close> field overwritten.\<close>

definition compute_hash :: "('c, 'm, 'k) ext \<Rightarrow> Block \<Rightarrow> bytes \<Rightarrow> bytes \<Rightarrow> bytes \<times> Block" where
  "compute_hash E block previous_hash output_hash =
     (let data_to_hash = replicate (MAX_LINE + HASH_SIZE) 0;
          data_to_hash = snprintf data_to_hash (length data_to_hash)
            (cstr (blk_data block) @ cstr previous_hash);
          hash = SHA256 E (take (strlen data_to_hash) data_to_hash);
          output_hash = fold (\<lambda>i out. memcpy out (i * 2) (hex2 (hash ! i) @ [0]) 3)
            [0..<SHA256_DIGEST_LENGTH] output_hash;
          output_hash = output_hash[HASH_SIZE - 1 := 0]
      in (output_hash, block\<lparr>blk_previous_hash :=
            (strncpy (blk_previous_hash block) previous_hash (HASH_SIZE - 1))[HASH_SIZE - 1 := 0]\<rparr>))"

partial_function (option) validate_loop ::
  "('c, 'm, 'k) ext \<Rightarrow> addr \<Rightarrow> addr \<Rightarrow> bytes \<Rightarrow> heap \<Rightarrow> (int \<times> heap) run" where
  "validate_loop E head current expected_previous_hash h =
     (if current = NULL then Some (Inr (1, h))
      else case h current of
        None \<Rightarrow> Some (Inl (Undefined DanglingPointer))
      | Some block \<Rightarrow>
          let (calculated_hash, block) =
                compute_hash E block expected_previous_hash (replicate HASH_SIZE 0);
              h = h(current \<mapsto> block)
          in if \<not> strncmp_eq (blk_hash block) calculated_hash (HASH_SIZE - 1) then Some (Inr (0, h))
             else if current \<noteq> head
                \<and> \<not> strncmp_eq (blk_previous_hash block) expected_previous_hash (HASH_SIZE - 1)
             then Some (Inr (0, h))
             else validate_loop E head (blk_next block)
               ((strncpy expected_previous_hash (blk_hash block) (HASH_SIZE - 1))[HASH_SIZE - 1 := 0]) h)"

definition validate_blockchain :: "('c, 'm, 'k) ext \<Rightarrow> server \<Rightarrow> (int \<times> server) run" where
  "validate_blockchain E st =
     bindR (validate_loop E (blockchain_head st) (blockchain_head st) (replicate HASH_SIZE 0) (heap st))
       (\<lambda>(r, h). Some (Inr (r, st\<lparr>heap := h\<rparr>)))"

text \<open>The traversal of \<open>store_data\<close> to the last block.\<close>

partial_function (option) last_block :: "addr \<Rightarrow> heap \<Rightarrow> addr run" where
  "last_block current h =
     (case h current of
        None \<Rightarrow> Some (Inl (Undefined DanglingPointer))
      | Some block \<Rightarrow> if blk_next block \<noteq> NULL then last_block (blk_next block) h
                      else Some (Inr current))"

text \<open>
  \<open>None\<close> when the allocation fails, otherwise whether the chain was found valid afterwards.
  The fields of a fresh block hold what the memory contained.
\<close>

definition store_data ::
  "('c, 'm, 'k) ext \<Rightarrow> (heap \<Rightarrow> addr option) \<Rightarrow> bytes \<Rightarrow> server \<Rightarrow> (int option \<times> server) run" where
  "store_data E malloc payload st =
     (case malloc (heap st) of
        None \<Rightarrow> Some (Inr (None, st))
      | Some new_block \<Rightarrow>
          let data = (strncpy (uninit E ''data'' MAX_LINE) payload (MAX_LINE - 1))[MAX_LINE - 1 := 0];
              blk = \<lparr>blk_data = data, blk_hash = uninit E ''hash'' HASH_SIZE,
                     blk_previous_hash = uninit E ''previous_hash'' HASH_SIZE, blk_next = NULL\<rparr>;
              previous_hash = replicate HASH_SIZE 0;
              computed_hash = replicate HASH_SIZE 0;
              head = blockchain_head st
          in bindR (if head = NULL then Some (Inr previous_hash)
                    else case heap st head of
                      None \<Rightarrow> Some (Inl (Undefined DanglingPointer))
                    | Some b \<Rightarrow> Some (Inr ((strncpy previous_hash (blk_hash b) (HASH_SIZE - 1))[HASH_SIZE - 1 := 0])))
             (\<lambda>previous_hash.
             let (computed_hash, blk) = compute_hash E blk previous_hash computed_hash;
                 blk = blk\<lparr>blk_hash := (strncpy (blk_hash blk) computed_hash (HASH_SIZE - 1))[HASH_SIZE - 1 := 0]\<rparr>;
                 h = (heap st)(new_block \<mapsto> blk)
             in bindR (if head = NULL then Some (Inr \<lparr>heap = h, blockchain_head = new_block\<rparr>)
                       else bindR (last_block head h) (\<lambda>current.
                              case h current of
                                None \<Rightarrow> Some (Inl (Undefined DanglingPointer))
                              | Some b \<Rightarrow> Some (Inr \<lparr>heap = h(current \<mapsto> b\<lparr>blk_next := new_block\<rparr>),
                                                     blockchain_head = head\<rparr>)))
                (\<lambda>st. bindR (validate_blockchain E st) (\<lambda>(r, st). Some (Inr (Some r, st))))))"

definition block_info :: "('c, 'm, 'k) ext \<Rightarrow> Block \<Rightarrow> bytes" where
  "block_info E b =
     snprintf (uninit E ''block_info'' (MAX_LINE + HASH_SIZE * 2 + 100)) (MAX_LINE + HASH_SIZE * 2 + 100)
       (str ''Data: '' @ cstr (blk_data b) @ str [CHR 0x0A] @ str ''Hash: '' @ cstr (blk_hash b)
        @ str [CHR 0x0A] @ str ''Previous Hash: '' @ cstr (blk_previous_hash b)
        @ str [CHR 0x0A, CHR 0x0A])"

partial_function (option) retrieve_loop ::
  "('c, 'm, 'k) ext \<Rightarrow> addr \<Rightarrow> heap \<Rightarrow> bytes \<Rightarrow> bytes run" where
  "retrieve_loop E current h response =
     (if current = NULL then Some (Inr response)
      else case h current of
        None \<Rightarrow> Some (Inl (Undefined DanglingPointer))
      | Some b \<Rightarrow> retrieve_loop E (blk_next b) h
          (strncat response (block_info E b) (MAX_LINE * 100 - strlen response - 1)))"

definition fail_response :: bytes where
  "fail_response = str ''Blockchain validation failed. Data retrieval aborted.'' @ [10, 0]"

text \<open>The response assembled by \<open>retrieve_data\<close> and the message sent.\<close>

definition retrieve_response :: "('c, 'm, 'k) ext \<Rightarrow> server \<Rightarrow> (bytes \<times> server) run" where
  "retrieve_response E st =
     (let max_response_length = MAX_LINE * 100;
          response = replicate (MAX_LINE * 100) 0
      in bindR (validate_blockchain E st) (\<lambda>(valid, st).
           if valid = 0 then Some (Inr (memcpy response 0 fail_response (length fail_response), st))
           else if blockchain_head st = NULL
           then Some (Inr (snprintf response max_response_length (str ''NO_DATA''), st))
           else bindR (retrieve_loop E (blockchain_head st) (heap st) response)
                  (\<lambda>response. Some (Inr (response, st)))))"

definition retrieve_data ::
  "('c, 'm, 'k) ext \<Rightarrow> sock \<Rightarrow> bytes \<Rightarrow> rng \<Rightarrow> server \<Rightarrow> (sock \<times> rng \<times> server) run" where
  "retrieve_data E client_sock session_key state st =
     bindR (retrieve_response E st) (\<lambda>(response, st).
     bindR (Some (send_encypted_data E client_sock response (strlen response) session_key state))
       (\<lambda>(_, client_sock, state). Some (Inr (client_sock, state, st))))"

partial_function (option) free_loop :: "addr \<Rightarrow> heap \<Rightarrow> heap run" where
  "free_loop current h =
     (if current = NULL then Some (Inr h)
      else case h current of
        None \<Rightarrow> Some (Inl (Undefined DanglingPointer))
      | Some b \<Rightarrow> free_loop (blk_next b) (h(current := None)))"

definition free_blockchain :: "server \<Rightarrow> server run" where
  "free_blockchain st =
     bindR (free_loop (blockchain_head st) (heap st)) (\<lambda>h. Some (Inr \<lparr>heap = h, blockchain_head = NULL\<rparr>))"

text \<open>The session with one router: the message loop, then the whole handler.\<close>

partial_function (option) message_loop ::
  "('c, 'm, 'k) ext \<Rightarrow> (heap \<Rightarrow> addr option) \<Rightarrow> sock \<Rightarrow> bytes \<Rightarrow> rng \<Rightarrow> server \<Rightarrow> (sock \<times> rng \<times> server) run" where
  "message_loop E malloc client_sock session_key state st =
     bindR (Some (receive_encypted_data E client_sock session_key)) (\<lambda>(len, decrypted_data, client_sock).
     if len \<le> 0 then Some (Inr (client_sock, state, st))
     else case decrypted_data of
       None \<Rightarrow> Some (Inl (Undefined NullPointer))
     | Some buf \<Rightarrow>
         if nat len \<ge> length buf then Some (Inl (Undefined OutOfBounds))
         else let buf = buf[nat len := 0]
         in if cstr buf = str ''RETRIEVE''
            then bindR (retrieve_data E client_sock session_key state st) (\<lambda>(client_sock, state, st).
                   message_loop E malloc client_sock session_key state st)
            else bindR (store_data E malloc buf st) (\<lambda>(_, st).
                 bindR (Some (send_encypted_data E client_sock (str ''DATA_STORED'') 11 session_key state))
                   (\<lambda>(_, client_sock, state). message_loop E malloc client_sock session_key state st)))"

definition handle_client ::
  "('c, 'm, 'k) ext \<Rightarrow> (heap \<Rightarrow> addr option) \<Rightarrow> sock \<Rightarrow> rng \<Rightarrow> server \<Rightarrow> (sock \<times> rng \<times> server) run" where
  "handle_client E malloc client_sock state st =
     bindR (Some (server_get_session_key E client_sock (replicate AES_KEY_SIZE 0) state))
       (\<lambda>(client_sock, session_key, state).
     bindR (message_loop E malloc client_sock session_key state st) (\<lambda>(client_sock, state, st).
     Some (Inr (close client_sock, state, st))))"


section \<open>Digests\<close>

definition sha_ok :: "('c, 'm, 'k) ext \<Rightarrow> bool" where
  "sha_ok E \<longleftrightarrow> (\<forall>x. length (SHA256 E x) = 32)"

definition hex :: "bytes \<Rightarrow> bytes" where
  "hex b = concat (map hex2 b)"

definition block_digest :: "('c, 'm, 'k) ext \<Rightarrow> bytes \<Rightarrow> bytes \<Rightarrow> bytes" where
  "block_digest E d prev = hex (SHA256 E (d @ prev))"

definition pad :: "nat \<Rightarrow> bytes \<Rightarrow> bytes" where
  "pad n s = s @ replicate (n - length s) 0"

lemma length_hex [simp]: "length (hex b) = 2 * length b"
  by (induction b) (simp_all add: hex_def)

lemma hex_nonzero [simp]: "0 \<notin> set (hex b)"
  by (auto simp: hex_def hex2_nonzero)

lemma hex_inj: "hex a = hex b \<Longrightarrow> a = b"
proof (induction a arbitrary: b)
  case Nil
  then show ?case by (cases b) (auto simp: hex_def hex2_def)
next
  case (Cons x a)
  then obtain y c where b: "b = y # c" by (cases b) (auto simp: hex_def hex2_def)
  then have "hex2 x @ hex a = hex2 y @ hex c" using Cons.prems by (simp add: hex_def)
  then have "hex2 x = hex2 y" and "hex a = hex c" by (simp_all add: append_eq_append_conv)
  then show ?case using Cons.IH hex2_inj b by blast
qed

lemma length_block_digest [simp]: "sha_ok E \<Longrightarrow> length (block_digest E d p) = 64"
  by (simp add: block_digest_def sha_ok_def)

lemma cstr_block_digest [simp]: "cstr (block_digest E d p) = block_digest E d p"
  by (simp add: cstr_id block_digest_def)

lemma cstr_pad [simp]: "0 \<notin> set s \<Longrightarrow> cstr (pad n s) = s"
  by (simp add: pad_def cstr_append_zeros)

lemma length_pad [simp]: "length s \<le> n \<Longrightarrow> length (pad n s) = n"
  by (simp add: pad_def)

text \<open>The \<open>sprintf\<close> loop writes the hexadecimal digits and a NUL after the last pair.\<close>

lemma hex_loop:
  "Suc n \<le> length hash \<Longrightarrow> 2 * Suc n < length out \<Longrightarrow>
   fold (\<lambda>i out. memcpy out (i * 2) (hex2 (hash ! i) @ [0]) 3) [0..<Suc n] out
     = hex (take (Suc n) hash) @ 0 # drop (2 * n + 3) out"
proof (induction n)
  case 0
  then show ?case by (cases hash) (simp_all add: memcpy_def hex_def)
next
  case (Suc n)
  have "hex (take (Suc (Suc n)) hash) = hex (take (Suc n) hash) @ hex2 (hash ! Suc n)"
    using Suc.prems(1) by (simp add: take_Suc_conv_app_nth hex_def)
  moreover have "length (hex (take (Suc n) hash)) = 2 * Suc n" using Suc.prems(1) by simp
  ultimately show ?case
    using Suc by (simp add: memcpy_def)
qed

lemma strncpy_pad:
  "length dst = Suc n \<Longrightarrow> length (cstr src) \<le> n \<Longrightarrow> (strncpy dst src n)[n := 0] = pad (Suc n) (cstr src)"
  using strncpy_terminated [of n dst src] by (simp add: pad_def min_def)

lemma compute_hash_spec:
  assumes sha: "sha_ok E" and d: "length (cstr (blk_data b)) < 256"
    and p: "length (cstr prev) < 65" and f: "length (blk_previous_hash b) = 65"
  shows "compute_hash E b prev (replicate 65 0) =
    (block_digest E (cstr (blk_data b)) (cstr prev) @ [0], b\<lparr>blk_previous_hash := pad 65 (cstr prev)\<rparr>)"
proof -
  let ?s = "cstr (blk_data b) @ cstr prev"
  have s: "cstr (snprintf (replicate 321 0) 321 ?s) = ?s"
    using d p by (simp add: cstr_simps)
  then have t: "take (strlen (snprintf (replicate 321 0) 321 ?s)) (snprintf (replicate 321 0) 321 ?s) = ?s"
    using d p by (simp add: strlen_def snprintf_def)
  let ?h = "SHA256 E ?s"
  have h: "length ?h = 32" using sha by (simp add: sha_ok_def)
  have "fold (\<lambda>i out. memcpy out (i * 2) (hex2 (?h ! i) @ [0]) 3) [0..<32] (replicate 65 0) = hex ?h @ [0]"
    using hex_loop [of 31 ?h "replicate 65 0"] h by (simp del: upt_rec_numeral)
  moreover have "(hex ?h @ [0])[64 := 0] = hex ?h @ [0]" using h by (simp add: list_update_append)
  ultimately show ?thesis
    using t strncpy_pad [of "blk_previous_hash b" 64 prev] f p
    by (simp add: compute_hash_def Let_def block_digest_def del: upt_rec_numeral)
qed

section \<open>The list in the heap\<close>

definition block_wf :: "Block \<Rightarrow> bool" where
  "block_wf b \<longleftrightarrow> length (blk_data b) = 256 \<and> length (cstr (blk_data b)) < 256
     \<and> length (blk_hash b) = 65 \<and> length (cstr (blk_hash b)) < 65
     \<and> length (blk_previous_hash b) = 65 \<and> length (cstr (blk_previous_hash b)) < 65"

text \<open>\<open>chain h p bs\<close>: from \<open>p\<close> the \<open>next\<close> pointers lead through the blocks \<open>bs\<close> to \<open>NULL\<close>.\<close>

fun chain :: "heap \<Rightarrow> addr \<Rightarrow> (addr \<times> Block) list \<Rightarrow> bool" where
  "chain h p [] \<longleftrightarrow> p = NULL"
| "chain h p ((a, b) # bs) \<longleftrightarrow> p = a \<and> a \<noteq> NULL \<and> h a = Some b \<and> a \<notin> fst ` set bs
     \<and> chain h (blk_next b) bs"

definition server_chain :: "server \<Rightarrow> (addr \<times> Block) list \<Rightarrow> bool" where
  "server_chain st bs \<longleftrightarrow> chain (heap st) (blockchain_head st) bs \<and> (\<forall>(a, b) \<in> set bs. block_wf b)
     \<and> dom (heap st) = fst ` set bs"

lemma chain_unique: "chain h p bs \<Longrightarrow> chain h p cs \<Longrightarrow> bs = cs"
proof (induction h p bs arbitrary: cs rule: chain.induct)
  case (1 h p)
  then show ?case by (cases cs) auto
next
  case (2 h p a b bs)
  obtain b' cs' where cs: "cs = (a, b') # cs'" using 2(2,3) by (cases cs) auto
  then have "b' = b" and "chain h (blk_next b) cs'" using 2(2,3) by simp_all
  then show ?case using 2(1) [of cs'] 2(2) cs by simp
qed

lemma chain_upd [simp]: "a \<notin> fst ` set bs \<Longrightarrow> chain (h(a := x)) p bs \<longleftrightarrow> chain h p bs"
  by (induction bs arbitrary: p) auto

lemma chain_dom: "chain h p bs \<Longrightarrow> (a, b) \<in> set bs \<Longrightarrow> h a = Some b"
  by (induction h p bs rule: chain.induct) auto

lemma chain_fresh: "chain h p bs \<Longrightarrow> h a = None \<Longrightarrow> a \<notin> fst ` set bs"
  using chain_dom by fastforce

lemma chain_append:
  "chain h p (bs @ [(a, b)]) \<Longrightarrow> c \<noteq> NULL \<Longrightarrow> c \<noteq> a \<Longrightarrow> c \<notin> fst ` set bs \<Longrightarrow> h c = Some b' \<Longrightarrow>
   blk_next b' = NULL \<Longrightarrow> chain (h(a \<mapsto> b\<lparr>blk_next := c\<rparr>)) p (bs @ [(a, b\<lparr>blk_next := c\<rparr>), (c, b')])"
proof (induction bs arbitrary: p)
  case (Cons ab bs)
  obtain a' b'' where "ab = (a', b'')" by fastforce
  then show ?case using Cons by auto
qed auto


lemma chain_relabel:
  "chain h p bs \<Longrightarrow> map fst cs = map fst bs \<Longrightarrow> map (blk_next \<circ> snd) cs = map (blk_next \<circ> snd) bs \<Longrightarrow>
   chain (h ++ map_of cs) p cs"
proof (induction h p bs arbitrary: cs rule: chain.induct)
  case (1 h p)
  then show ?case by simp
next
  case (2 h p a b bs)
  obtain c cs' where cs: "cs = (a, c) # cs'" "map fst cs' = map fst bs" "blk_next c = blk_next b"
    using 2(3,4) by (cases cs) auto
  have "fst ` set cs' = fst ` set bs" using cs(2) by (metis image_set)
  moreover have "chain (h ++ map_of cs') (blk_next b) cs'"
    using 2(1) [of cs'] 2(2,3,4) cs by simp
  ultimately have "chain ((h ++ map_of cs')(a \<mapsto> c)) (blk_next c) cs'" "a \<notin> fst ` set cs'"
    using 2(2) cs(3) by simp_all
  then show ?case using 2(2) cs(1) by (simp add: fun_upd_same del: fun_upd_apply)
qed

section \<open>The ledger a chain stands for\<close>

text \<open>
  The abstract state of the store: the list of the data and hash strings.  A ledger is valid
  when every hash is the digest of the data and the hash before it.
\<close>

type_synonym ledger = "(bytes \<times> bytes) list"

definition ledger :: "(addr \<times> Block) list \<Rightarrow> ledger" where
  "ledger bs = map (\<lambda>(a, b). (cstr (blk_data b), cstr (blk_hash b))) bs"

fun valid_from :: "(bytes \<Rightarrow> bytes \<Rightarrow> bytes) \<Rightarrow> bytes \<Rightarrow> ledger \<Rightarrow> bool" where
  "valid_from dig p [] \<longleftrightarrow> True"
| "valid_from dig p ((d, h) # l) \<longleftrightarrow> h = dig d p \<and> valid_from dig h l"

definition last_hash :: "bytes \<Rightarrow> ledger \<Rightarrow> bytes" where
  "last_hash p l = (if l = [] then p else snd (last l))"

lemma valid_from_append:
  "valid_from dig p (l @ m) \<longleftrightarrow> valid_from dig p l \<and> valid_from dig (last_hash p l) m"
  by (induction dig p l rule: valid_from.induct) (auto simp: last_hash_def)

text \<open>What \<open>validate_blockchain\<close> does to the blocks: it rewrites \<open>previous_hash\<close> as far as it gets.\<close>

fun relink :: "(bytes \<Rightarrow> bytes \<Rightarrow> bytes) \<Rightarrow> bytes \<Rightarrow> (addr \<times> Block) list \<Rightarrow> (addr \<times> Block) list" where
  "relink dig p [] = []"
| "relink dig p ((a, b) # bs) = (a, b\<lparr>blk_previous_hash := pad 65 p\<rparr>) #
     (if cstr (blk_hash b) = dig (cstr (blk_data b)) p then relink dig (cstr (blk_hash b)) bs else bs)"

lemma relink_sel [simp]:
  "map fst (relink dig p bs) = map fst bs"
  "map (blk_next \<circ> snd) (relink dig p bs) = map (blk_next \<circ> snd) bs"
  "ledger (relink dig p bs) = ledger bs"
  "relink dig p bs = [] \<longleftrightarrow> bs = []"
  by (induction dig p bs rule: relink.induct) (auto simp: ledger_def)

lemma relink_wf:
  "\<forall>(a, b) \<in> set bs. block_wf b \<Longrightarrow> length p < 65 \<Longrightarrow> 0 \<notin> set p \<Longrightarrow>
   \<forall>(a, b) \<in> set (relink dig p bs). block_wf b"
proof (induction dig p bs rule: relink.induct)
  case (2 dig p a b bs)
  have "block_wf (b\<lparr>blk_previous_hash := pad 65 p\<rparr>)" and "length (cstr (blk_hash b)) < 65"
    using 2(2-4) by (auto simp: block_wf_def)
  moreover have "\<forall>(a, b) \<in> set (relink dig (cstr (blk_hash b)) bs). block_wf b"
    if "cstr (blk_hash b) = dig (cstr (blk_data b)) p"
    using 2(1) [OF that] 2(2-4) calculation(2) by simp
  ultimately show ?case using 2(2) by (cases "cstr (blk_hash b) = dig (cstr (blk_data b)) p") auto
qed simp

lemma relink_valid_previous:
  "valid_from dig p (ledger bs) \<Longrightarrow> 0 \<notin> set p \<Longrightarrow>
   map (\<lambda>(a, b). cstr (blk_previous_hash b)) (relink dig p bs) = butlast (p # map snd (ledger bs))"
proof (induction dig p bs rule: relink.induct)
  case (2 dig p a b bs)
  have "cstr (blk_hash b) = dig (cstr (blk_data b)) p" using 2(2) by (simp add: ledger_def)
  then have "0 \<notin> set (dig (cstr (blk_data b)) p)" by (metis cstr_nonzero)
  then show ?case using 2 by (auto simp: ledger_def)
qed (simp add: ledger_def)

section \<open>Validation\<close>

lemma validate_loop_spec:
  assumes "sha_ok E"
  shows "chain h p bs \<Longrightarrow> \<forall>(a, b) \<in> set bs. block_wf b \<Longrightarrow> length e = 65 \<Longrightarrow> length (cstr e) < 65 \<Longrightarrow>
   validate_loop E head p e h =
     Some (Inr (if valid_from (block_digest E) (cstr e) (ledger bs) then 1 else 0,
                h ++ map_of (relink (block_digest E) (cstr e) bs)))"
proof (induction bs arbitrary: h p e)
  case Nil
  then show ?case by (subst validate_loop.simps) (simp add: ledger_def)
next
  case (Cons ab bs)
  obtain a b where ab: "ab = (a, b)" by fastforce
  let ?b = "b\<lparr>blk_previous_hash := pad 65 (cstr e)\<rparr>" and ?d = "block_digest E (cstr (blk_data b)) (cstr e)"
  have c: "p = a" "a \<noteq> 0" "h a = Some b" "a \<notin> fst ` set bs" "chain h (blk_next b) bs"
    and b: "block_wf b" and bs: "\<forall>(a, b) \<in> set bs. block_wf b"
    using Cons.prems ab by auto
  have ch: "compute_hash E b e (replicate 65 0) = (?d @ [0], ?b)"
    using compute_hash_spec [OF assms] b Cons.prems by (simp add: block_wf_def)
  have cmp: "strncmp_eq (blk_hash b) (?d @ [0]) 64 \<longleftrightarrow> cstr (blk_hash b) = ?d"
    using b cstr_append_NUL [of ?d "[]"] assms
    by (simp add: strncmp_eq_def block_wf_def block_digest_def sha_ok_def)
  have prev: "strncmp_eq (pad 65 (cstr e)) e 64" by (simp add: strncmp_eq_def)
  have e': "(strncpy e (blk_hash b) 64)[64 := 0] = pad 65 (cstr (blk_hash b))"
    using strncpy_pad [of e 64 "blk_hash b"] Cons.prems(3) b by (simp add: block_wf_def)
  have "chain (h(a \<mapsto> ?b)) (blk_next b) bs" using c by simp
  note IH = Cons.IH [OF this bs, of "pad 65 (cstr (blk_hash b))"]
  have "a \<notin> dom (map_of (relink (block_digest E) (cstr (blk_hash b)) bs))"
    using c(4) by (metis dom_map_of_conv_image_fst image_set relink_sel(1))
  then have up: "h(a \<mapsto> ?b) ++ map_of (relink (block_digest E) (cstr (blk_hash b)) bs)
      = h ++ (map_of (relink (block_digest E) (cstr (blk_hash b)) bs))(a \<mapsto> ?b)"
    by (simp add: map_add_upd_left)
  have bad: "h ++ (map_of bs)(a \<mapsto> ?b) = h(a \<mapsto> ?b)"
  proof -
    have "map_of bs x = Some y \<Longrightarrow> h x = Some y" for x y
      using chain_dom [OF c(5)] by (auto dest: map_of_SomeD)
    then have "h ++ map_of bs = h" by (auto simp: map_add_def fun_eq_iff split: option.split)
    then show ?thesis by simp
  qed
  have step: "validate_loop E head p e h =
      (if cstr (blk_hash b) = ?d
       then validate_loop E head (blk_next b) (pad 65 (cstr (blk_hash b))) (h(a \<mapsto> ?b))
       else Some (Inr (0, h(a \<mapsto> ?b))))"
    using c ch cmp prev e' by (subst validate_loop.simps) (simp add: Let_def del: fun_upd_apply)
  show ?case
  proof (cases "cstr (blk_hash b) = ?d")
    case True
    have pad65: "cstr (pad 65 ?d) = ?d" by (simp add: block_digest_def)
    have "valid_from (block_digest E) (cstr e) (ledger (ab # bs)) \<longleftrightarrow>
        valid_from (block_digest E) (cstr (blk_hash b)) (ledger bs)"
      using True by (simp add: ab ledger_def)
    then show ?thesis
      using step True IH b up by (simp add: ab block_wf_def pad65 del: fun_upd_apply map_add_upd)
  next
    case False
    then show ?thesis using step bad by (simp add: ab ledger_def del: fun_upd_apply)
  qed
qed

lemma validate_blockchain_spec:
  assumes "sha_ok E" and "server_chain st bs"
  shows "validate_blockchain E st =
      Some (Inr (if valid_from (block_digest E) [] (ledger bs) then 1 else 0,
                 st\<lparr>heap := heap st ++ map_of (relink (block_digest E) [] bs)\<rparr>))"
    and "server_chain (st\<lparr>heap := heap st ++ map_of (relink (block_digest E) [] bs)\<rparr>)
           (relink (block_digest E) [] bs)"
proof -
  have c: "chain (heap st) (blockchain_head st) bs" and w: "\<forall>(a, b) \<in> set bs. block_wf b"
    using assms(2) by (simp_all add: server_chain_def)
  show "validate_blockchain E st =
      Some (Inr (if valid_from (block_digest E) [] (ledger bs) then 1 else 0,
                 st\<lparr>heap := heap st ++ map_of (relink (block_digest E) [] bs)\<rparr>))"
    using validate_loop_spec [OF assms(1) c w, of "replicate 65 0"]
    by (simp add: validate_blockchain_def)
  show "server_chain (st\<lparr>heap := heap st ++ map_of (relink (block_digest E) [] bs)\<rparr>)
           (relink (block_digest E) [] bs)"
  proof -
    have "fst ` set (relink (block_digest E) [] bs) = fst ` set bs"
      using arg_cong [OF relink_sel(1) [of "block_digest E" "[]" bs], of set] by (simp only: set_map)
    then show ?thesis
      using chain_relabel [OF c] relink_wf [OF w, of "[]"] assms(2)
      by (simp add: server_chain_def dom_map_of_conv_image_fst)
  qed
qed


section \<open>Storing\<close>

text \<open>What the allocator promises: an address that is not in use, never \<open>NULL\<close>.\<close>

definition malloc_ok :: "(heap \<Rightarrow> addr option) \<Rightarrow> bool" where
  "malloc_ok malloc \<longleftrightarrow> (\<forall>h a. malloc h = Some a \<longrightarrow> a \<noteq> NULL \<and> h a = None)"

definition stored_data :: "bytes \<Rightarrow> bytes" where
  "stored_data payload = take (MAX_LINE - 1) (cstr payload)"

definition fresh_block :: "(bytes \<Rightarrow> bytes \<Rightarrow> bytes) \<Rightarrow> bytes \<Rightarrow> bytes \<Rightarrow> Block" where
  "fresh_block dig d prev = \<lparr>blk_data = pad 256 d, blk_hash = pad 65 (dig d prev),
     blk_previous_hash = pad 65 prev, blk_next = NULL\<rparr>"

definition append_block :: "(addr \<times> Block) list \<Rightarrow> addr \<Rightarrow> Block \<Rightarrow> (addr \<times> Block) list" where
  "append_block bs c b = (if bs = [] then [(c, b)]
     else butlast bs @ [(fst (last bs), snd (last bs)\<lparr>blk_next := c\<rparr>), (c, b)])"

text \<open>The specification of a store: the new entry is chained to the \<open>first\<close> hash of the ledger.\<close>

definition head_hash :: "ledger \<Rightarrow> bytes" where
  "head_hash l = (if l = [] then [] else snd (hd l))"

definition ledger_store :: "(bytes \<Rightarrow> bytes \<Rightarrow> bytes) \<Rightarrow> bytes \<Rightarrow> ledger \<Rightarrow> ledger" where
  "ledger_store dig d l = l @ [(d, dig d (head_hash l))]"

lemma stored_data_props [simp]: "0 \<notin> set (stored_data p)" "length (stored_data p) < 256"
  by (auto simp: stored_data_def dest: in_set_takeD)

lemma ledger_append_block:
  "ledger (append_block bs c b) = ledger bs @ [(cstr (blk_data b), cstr (blk_hash b))]"
proof (cases bs rule: rev_cases)
  case (snoc cs ab)
  then show ?thesis by (simp add: append_block_def ledger_def split_beta)
qed (simp add: append_block_def ledger_def)

lemma fresh_block_props:
  assumes "sha_ok E" and "0 \<notin> set d" "length d < 256" and "0 \<notin> set prev" "length prev < 65"
  shows "block_wf (fresh_block (block_digest E) d prev)"
    and "cstr (blk_data (fresh_block (block_digest E) d prev)) = d"
    and "cstr (blk_hash (fresh_block (block_digest E) d prev)) = block_digest E d prev"
  using assms by (simp_all add: fresh_block_def block_wf_def block_digest_def sha_ok_def)

lemma last_block_spec:
  "chain h p (bs @ [(a, b)]) \<Longrightarrow> last_block p h = Some (Inr a)"
proof (induction bs arbitrary: p)
  case Nil
  then show ?case by (subst last_block.simps) simp
next
  case (Cons ab bs)
  obtain a' b' where ab: "ab = (a', b')" by fastforce
  have "blk_next b' \<noteq> 0" using Cons.prems ab by (cases bs) auto
  then show ?case using Cons ab by (subst last_block.simps) simp
qed

lemma head_hash_ledger:
  "chain h p bs \<Longrightarrow> bs \<noteq> [] \<Longrightarrow> \<exists>b. h p = Some b \<and> p \<noteq> NULL \<and> head_hash (ledger bs) = cstr (blk_hash b)
     \<and> (p, b) \<in> set bs"
  by (cases bs) (auto simp: head_hash_def ledger_def)

text \<open>The new block, linked at the end, before the chain is validated.\<close>

lemma store_data_link:
  assumes sha: "sha_ok E" and mem: "memory_ok E" and m: "malloc_ok malloc"
    and st: "server_chain st bs" and c: "malloc (heap st) = Some c"
    and b_def: "b = fresh_block (block_digest E) (stored_data payload) (head_hash (ledger bs))"
  obtains st' where "server_chain st' (append_block bs c b)"
    and "store_data E malloc payload st =
      bindR (validate_blockchain E st') (\<lambda>(r, st). Some (Inr (Some r, st)))"
proof -
  let ?d = "stored_data payload" and ?p = "head_hash (ledger bs)" and ?h = "blockchain_head st"
  have c0: "c \<noteq> 0" "heap st c = None" using m c by (auto simp: malloc_ok_def)
  have ch: "chain (heap st) ?h bs" and wf: "\<forall>(a, b) \<in> set bs. block_wf b"
    using st by (simp_all add: server_chain_def)
  have p: "length ?p < 65" "0 \<notin> set ?p"
    using head_hash_ledger [OF ch] wf by (cases "bs = []"; force simp: head_hash_def ledger_def block_wf_def)+
  have bw: "block_wf b" unfolding b_def using fresh_block_props [OF sha _ _ p(2,1)] by simp
  have prev0: "bs = [] \<Longrightarrow> replicate 65 0 = pad 65 ?p"
    by (simp add: head_hash_def ledger_def pad_def)
  have prev1: "\<exists>b0. heap st ?h = Some b0 \<and> (strncpy (replicate 65 0) (blk_hash b0) 64)[64 := 0] = pad 65 ?p"
    if "bs \<noteq> []"
    using head_hash_ledger [OF ch that] p(1) strncpy_pad [of "replicate 65 0" 64] by force
  have data: "(strncpy (uninit E ''data'' 256) payload 255)[255 := 0] = pad 256 ?d"
    using strncpy_terminated [of 255 "uninit E ''data'' 256" payload] mem
    by (simp add: memory_ok_def pad_def stored_data_def)
  let ?b0 = "\<lparr>blk_data = pad 256 ?d, blk_hash = uninit E ''hash'' 65,
      blk_previous_hash = uninit E ''previous_hash'' 65, blk_next = 0\<rparr>"
  have hash: "compute_hash E ?b0 (pad 65 ?p) (replicate 65 0) =
      (block_digest E ?d ?p @ [0], ?b0\<lparr>blk_previous_hash := pad 65 ?p\<rparr>)"
    using compute_hash_spec [OF sha, of ?b0 "pad 65 ?p"] p mem by (simp add: memory_ok_def)
  have cstr_dig: "cstr (block_digest E ?d ?p @ [0]) = block_digest E ?d ?p"
    by (simp add: block_digest_def cstr_append_NUL)
  have "(strncpy (uninit E ''hash'' 65) (block_digest E ?d ?p @ [0]) 64)[64 := 0] = pad 65 (block_digest E ?d ?p)"
    using strncpy_pad [of "uninit E ''hash'' 65" 64 "block_digest E ?d ?p @ [0]"] mem sha
    by (simp add: memory_ok_def cstr_dig)
  then have blk: "?b0\<lparr>blk_previous_hash := pad 65 ?p,
      blk_hash := (strncpy (uninit E ''hash'' 65) (block_digest E ?d ?p @ [0]) 64)[64 := 0]\<rparr> = b"
    by (simp add: b_def fresh_block_def)
  show ?thesis
  proof (cases bs rule: rev_cases)
    case Nil
    let ?st = "\<lparr>heap = (heap st)(c \<mapsto> b), blockchain_head = c\<rparr>"
    have "server_chain ?st (append_block bs c b)"
      using Nil c0 bw st by (simp add: server_chain_def append_block_def b_def fresh_block_def)
    moreover have "store_data E malloc payload st =
        bindR (validate_blockchain E ?st) (\<lambda>(r, st). Some (Inr (Some r, st)))"
      using c prev0 data hash blk Nil ch by (simp add: store_data_def Let_def)
    ultimately show ?thesis using that by blast
  next
    case (snoc cs ab)
    obtain a b1 where ab: "ab = (a, b1)" by fastforce
    have fresh: "c \<notin> fst ` set bs" using chain_fresh [OF ch c0(2)] .
    let ?h' = "(heap st)(c \<mapsto> b)"
    have h': "chain ?h' ?h (cs @ [(a, b1)])" using ch fresh snoc ab by simp
    have a: "a \<noteq> c" "heap st a = Some b1" using chain_dom [OF ch] fresh snoc ab by auto
    let ?st = "\<lparr>heap = ?h'(a \<mapsto> b1\<lparr>blk_next := c\<rparr>), blockchain_head = ?h\<rparr>"
    have "chain (heap ?st) ?h (append_block bs c b)"
      using chain_append [OF h', of c b] c0 fresh snoc ab
      by (auto simp: append_block_def b_def fresh_block_def)
    then have "server_chain ?st (append_block bs c b)"
      using wf bw snoc ab st by (auto simp: server_chain_def append_block_def block_wf_def)
    moreover obtain b0 where "heap st ?h = Some b0"
      and "(strncpy (replicate 65 0) (blk_hash b0) 64)[64 := 0] = pad 65 ?p" using prev1 snoc by blast
    moreover have "?h \<noteq> 0" using ch snoc ab by (cases cs) auto
    ultimately have "store_data E malloc payload st =
        bindR (validate_blockchain E ?st) (\<lambda>(r, st). Some (Inr (Some r, st)))"
      using c data hash blk last_block_spec [OF h'] a by (simp add: store_data_def Let_def)
    then show ?thesis using that \<open>server_chain ?st (append_block bs c b)\<close> by blast
  qed
qed


text \<open>The ledger a state of the server holds, and the refinement of the two operations.\<close>

definition server_ledger :: "server \<Rightarrow> ledger \<Rightarrow> bool" where
  "server_ledger st l \<longleftrightarrow> (\<exists>bs. server_chain st bs \<and> ledger bs = l)"

lemma server_ledger_start: "server_ledger server_start []"
  unfolding server_ledger_def
  by (rule exI [of _ "[]"]) (simp add: server_chain_def server_start_def ledger_def)

lemma server_ledger_unique: "server_ledger st l \<Longrightarrow> server_ledger st l' \<Longrightarrow> l = l'"
  using chain_unique by (auto simp: server_ledger_def server_chain_def)

definition store_ok :: "('c, 'm, 'k) ext \<times> (heap \<Rightarrow> addr option) \<Rightarrow> bool" where
  "store_ok e \<longleftrightarrow> sha_ok (fst e) \<and> memory_ok (fst e) \<and> malloc_ok (snd e)"

definition verdict :: "(bytes \<Rightarrow> bytes \<Rightarrow> bytes) \<Rightarrow> ledger \<Rightarrow> int" where
  "verdict dig l = (if valid_from dig [] l then 1 else 0)"

lemma validate_refines:
  assumes "sha_ok E" and "server_ledger st l"
  shows "\<exists>st'. validate_blockchain E st = Some (Inr (verdict (block_digest E) l, st'))
    \<and> server_ledger st' l"
proof -
  obtain bs where "server_chain st bs" "ledger bs = l" using assms(2) by (auto simp: server_ledger_def)
  then show ?thesis
    using validate_blockchain_spec [OF assms(1)] by (fastforce simp: server_ledger_def verdict_def)
qed

lemma store_refines:
  assumes "store_ok (E, malloc)" and "server_ledger st l" and "malloc (heap st) = Some c"
  shows "\<exists>st'. store_data E malloc payload st = Some (Inr (Some (verdict (block_digest E)
      (ledger_store (block_digest E) (stored_data payload) l)), st'))
    \<and> server_ledger st' (ledger_store (block_digest E) (stored_data payload) l)"
proof -
  have ok: "sha_ok E" "memory_ok E" "malloc_ok malloc" using assms(1) by (simp_all add: store_ok_def)
  obtain bs where bs: "server_chain st bs" "ledger bs = l" using assms(2) by (auto simp: server_ledger_def)
  let ?b = "fresh_block (block_digest E) (stored_data payload) (head_hash (ledger bs))"
  obtain st' where st': "server_chain st' (append_block bs c ?b)"
    and eq: "store_data E malloc payload st =
      bindR (validate_blockchain E st') (\<lambda>(r, st). Some (Inr (Some r, st)))"
    using store_data_link [OF ok bs(1) assms(3) refl] by blast
  have "length (head_hash (ledger bs)) < 65 \<and> 0 \<notin> set (head_hash (ledger bs))"
    using bs(1) by (cases bs) (auto simp: head_hash_def ledger_def server_chain_def block_wf_def)
  then have "ledger (append_block bs c ?b) = ledger_store (block_digest E) (stored_data payload) l"
    using fresh_block_props(2,3) [OF ok(1)] bs(2) by (simp add: ledger_append_block ledger_store_def)
  then have "server_ledger st' (ledger_store (block_digest E) (stored_data payload) l)"
    using st' by (auto simp: server_ledger_def)
  then show ?thesis using validate_refines [OF ok(1)] eq by fastforce
qed

lemma store_out_of_memory:
  "malloc (heap st) = None \<Longrightarrow> store_data E malloc payload st = Some (Inr (None, st))"
  by (simp add: store_data_def)

section \<open>The store interface\<close>

text \<open>
  What the message handler relies on: a store either runs out of memory, and then keeps the
  ledger, or appends the entry and reports whether the whole ledger is valid; validation
  reports that and keeps the ledger.  Both always return.
\<close>

locale block_store =
  fixes ok :: "'e \<Rightarrow> bool"
    and dig :: "'e \<Rightarrow> bytes \<Rightarrow> bytes \<Rightarrow> bytes"
    and rep :: "'s \<Rightarrow> ledger \<Rightarrow> bool"
    and store :: "'e \<Rightarrow> bytes \<Rightarrow> 's \<Rightarrow> (int option \<times> 's) run"
    and validate :: "'e \<Rightarrow> 's \<Rightarrow> (int \<times> 's) run"
  assumes stores: "ok e \<Longrightarrow> rep s l \<Longrightarrow>
      (\<exists>s'. store e p s = Some (Inr (None, s')) \<and> rep s' l)
    \<or> (\<exists>s'. store e p s = Some (Inr (Some (verdict (dig e) (ledger_store (dig e) (stored_data p) l)), s'))
        \<and> rep s' (ledger_store (dig e) (stored_data p) l))"
    and validates: "ok e \<Longrightarrow> rep s l \<Longrightarrow>
      \<exists>s'. validate e s = Some (Inr (verdict (dig e) l, s')) \<and> rep s' l"
begin

lemma store_total:
  assumes "ok e" and "rep s l"
  obtains v s' l' where "store e p s = Some (Inr (v, s'))" and "rep s' l'"
    and "l' = l \<or> l' = ledger_store (dig e) (stored_data p) l"
  using stores [OF assms, of p] by blast

lemma short_chain_valid:
  assumes "ok e" and "rep s l" and "valid_from (dig e) [] l" and "length l \<le> 1"
  shows "\<exists>v s'. store e p s = Some (Inr (v, s')) \<and> v \<in> {None, Some 1}"
proof -
  have "head_hash l = last_hash [] l"
    using assms(4) by (cases l) (auto simp: head_hash_def last_hash_def)
  then have "valid_from (dig e) [] (ledger_store (dig e) (stored_data p) l)"
    using assms(3) by (simp add: ledger_store_def valid_from_append)
  then show ?thesis using stores [OF assms(1,2), of p] by (fastforce simp: verdict_def)
qed

lemma long_chain_invalid:
  assumes "ok e" and "rep s l"
    and "dig e (stored_data p) (head_hash l) \<noteq> dig e (stored_data p) (last_hash [] l)"
    and "store e p s = Some (Inr (Some v, s'))"
  shows "v = 0"
  using stores [OF assms(1,2), of p] assms(3,4)
  by (auto simp: verdict_def ledger_store_def valid_from_append)

lemma invalid_stays:
  assumes "ok e" and "rep s l" and "\<not> valid_from (dig e) [] l"
    and "store e p s = Some (Inr (v, s'))"
  shows "v \<noteq> Some 1 \<and> (\<exists>l'. rep s' l' \<and> \<not> valid_from (dig e) [] l')"
  using stores [OF assms(1,2), of p] assms(3,4)
  by (auto simp: verdict_def ledger_store_def valid_from_append)

end

interpretation chain_store: block_store
  "store_ok :: ('c, 'm, 'k) ext \<times> (heap \<Rightarrow> addr option) \<Rightarrow> bool" "\<lambda>e. block_digest (fst e)" server_ledger
  "\<lambda>e. store_data (fst e) (snd e)" "\<lambda>e. validate_blockchain (fst e)"
proof
  fix e :: "('c, 'm, 'k) ext \<times> (heap \<Rightarrow> addr option)" and s l p
  assume ok: "store_ok e" and rep: "server_ledger s l"
  show "(\<exists>s'. store_data (fst e) (snd e) p s = Some (Inr (None, s')) \<and> server_ledger s' l)
    \<or> (\<exists>s'. store_data (fst e) (snd e) p s = Some (Inr (Some (verdict (block_digest (fst e))
          (ledger_store (block_digest (fst e)) (stored_data p) l)), s'))
        \<and> server_ledger s' (ledger_store (block_digest (fst e)) (stored_data p) l))"
    using store_refines [of "fst e" "snd e" s l _ p] store_out_of_memory [of "snd e" s] ok rep
    by (cases "snd e (heap s)") auto
  show "\<exists>s'. validate_blockchain (fst e) s = Some (Inr (verdict (block_digest (fst e)) l, s'))
    \<and> server_ledger s' l"
    using validate_refines ok rep by (auto simp: store_ok_def)
qed

section \<open>Retrieving\<close>

definition entry_text :: "bytes \<Rightarrow> bytes \<Rightarrow> bytes \<Rightarrow> bytes" where
  "entry_text d h p = str ''Data: '' @ d @ str [CHR 0x0A] @ str ''Hash: '' @ h @ str [CHR 0x0A]
     @ str ''Previous Hash: '' @ p @ str [CHR 0x0A, CHR 0x0A]"

fun entries_text :: "bytes \<Rightarrow> ledger \<Rightarrow> bytes" where
  "entries_text p [] = []"
| "entries_text p ((d, h) # l) = entry_text d h p @ entries_text h l"

definition response_text :: "(bytes \<Rightarrow> bytes \<Rightarrow> bytes) \<Rightarrow> ledger \<Rightarrow> bytes" where
  "response_text dig l =
     (if \<not> valid_from dig [] l then butlast fail_response
      else if l = [] then str ''NO_DATA''
      else take 25599 (entries_text [] l))"

lemma entry_text_nonzero: "0 \<notin> set d \<Longrightarrow> 0 \<notin> set h \<Longrightarrow> 0 \<notin> set p \<Longrightarrow> 0 \<notin> set (entry_text d h p)"
  by (simp add: entry_text_def str_def)

lemma cstr_block_info:
  assumes "block_wf b"
  shows "cstr (block_info E b) =
    entry_text (cstr (blk_data b)) (cstr (blk_hash b)) (cstr (blk_previous_hash b))"
proof -
  let ?t = "entry_text (cstr (blk_data b)) (cstr (blk_hash b)) (cstr (blk_previous_hash b))"
  have "0 \<notin> set ?t" by (simp add: entry_text_nonzero)
  moreover have "length ?t \<le> 485" using assms by (simp add: entry_text_def str_def block_wf_def)
  ultimately show ?thesis
    by (simp add: block_info_def cstr_simps flip: entry_text_def)
qed

lemma take_take_append: "take n (take n x @ y) = take n (x @ y)"
  by (cases "length x \<le> n") simp_all

lemma retrieve_loop_spec:
  assumes "chain h p bs" and "\<forall>(a, b) \<in> set bs. block_wf b"
    and "length r = 25600" and "length (cstr r) < 25600"
  shows "\<exists>r'. retrieve_loop E p h r = Some (Inr r') \<and> length r' = 25600 \<and> cstr r' =
    take 25599 (cstr r @ concat (map (\<lambda>(a, b). entry_text (cstr (blk_data b)) (cstr (blk_hash b))
      (cstr (blk_previous_hash b))) bs))"
  using assms
proof (induction bs arbitrary: p r)
  case Nil
  then show ?case by (subst retrieve_loop.simps) simp
next
  case (Cons ab bs)
  have len_take: "length (take n xs) < Suc n" for n and xs :: bytes by simp
  obtain a b where ab: "ab = (a, b)" by fastforce
  have c: "p = a" "a \<noteq> 0" "h a = Some b" "chain h (blk_next b) bs" and b: "block_wf b"
    using Cons.prems ab by auto
  let ?t = "entry_text (cstr (blk_data b)) (cstr (blk_hash b)) (cstr (blk_previous_hash b))"
  let ?r = "strncat r (block_info E b) (25600 - strlen r - 1)"
  have r: "cstr ?r = take 25599 (cstr r @ ?t)"
    using Cons.prems(4) cstr_block_info [OF b, of E] by (simp add: cstr_simps strlen_def)
  have len: "length ?r = 25600" using Cons.prems(3,4) by (simp add: strlen_def)
  have "retrieve_loop E p h r = retrieve_loop E (blk_next b) h ?r"
    using c by (subst retrieve_loop.simps) simp
  moreover have "length (cstr ?r) < 25600" using len_take [of 25599 "cstr r @ ?t"] by (simp only: r)
  then obtain r' where "retrieve_loop E (blk_next b) h ?r = Some (Inr r')" "length r' = 25600"
    "cstr r' = take 25599 (cstr ?r @ concat (map (\<lambda>(a, b). entry_text (cstr (blk_data b))
      (cstr (blk_hash b)) (cstr (blk_previous_hash b))) bs))"
    using Cons.IH [OF c(4) _ len] Cons.prems(2) by auto
  ultimately show ?case
    by (intro exI [of _ r']) (simp only: r take_take_append ab list.map concat.simps prod.case append_assoc)
qed


lemma entries_text_relink:
  "valid_from dig p (ledger bs) \<Longrightarrow> 0 \<notin> set p \<Longrightarrow>
   concat (map (\<lambda>(a, b). entry_text (cstr (blk_data b)) (cstr (blk_hash b)) (cstr (blk_previous_hash b)))
     (relink dig p bs)) = entries_text p (ledger bs)"
proof (induction dig p bs rule: relink.induct)
  case (2 dig p a b bs)
  have "cstr (blk_hash b) = dig (cstr (blk_data b)) p" using 2(2) by (simp add: ledger_def)
  then have "0 \<notin> set (dig (cstr (blk_data b)) p)" by (metis cstr_nonzero)
  then show ?case using 2 by (auto simp: ledger_def)
qed (simp add: ledger_def)

lemma retrieve_response_spec:
  assumes "sha_ok E" and "server_ledger st l"
  shows "\<exists>r st'. retrieve_response E st = Some (Inr (r, st')) \<and> server_ledger st' l
    \<and> cstr r = response_text (block_digest E) l \<and> length r = 25600"
proof -
  obtain bs where bs: "server_chain st bs" "ledger bs = l" using assms(2) by (auto simp: server_ledger_def)
  let ?bs = "relink (block_digest E) [] bs"
  let ?st = "st\<lparr>heap := heap st ++ map_of ?bs\<rparr>"
  note v = validate_blockchain_spec [OF assms(1) bs(1)]
  have l: "server_ledger ?st l" using v(2) bs(2) by (auto simp: server_ledger_def)
  have head: "blockchain_head st = 0 \<longleftrightarrow> l = []"
    using bs by (cases bs) (auto simp: server_chain_def ledger_def)
  show ?thesis
  proof (cases "valid_from (block_digest E) [] l")
    case False
    have "fail_response = butlast fail_response @ [0]" by (simp add: fail_response_def butlast_append)
    moreover have "0 \<notin> set (butlast fail_response)"
      by (simp add: fail_response_def butlast_append str_def)
    ultimately have "cstr (fail_response @ x) = butlast fail_response" for x
      using cstr_append_NUL by (metis append_Cons append_Nil append_assoc)
    moreover have "length fail_response \<le> 25600" by (simp add: fail_response_def str_def)
    ultimately show ?thesis
      using False v(1) bs(2) l
      by (simp add: retrieve_response_def memcpy_def response_text_def)
  next
    case True
    show ?thesis
    proof (cases "l = []")
      case True
      moreover have "0 \<notin> set (str ''NO_DATA'')" by (simp add: str_def)
      ultimately show ?thesis
        using \<open>valid_from (block_digest E) [] l\<close> v(1) bs(2) l head
        by (simp add: retrieve_response_def response_text_def cstr_simps str_def)
    next
      case False
      have c: "chain (heap ?st) (blockchain_head ?st) ?bs" "\<forall>(a, b) \<in> set ?bs. block_wf b"
        using v(2) by (simp_all add: server_chain_def)
      have "length (replicate 25600 (0::byte)) = 25600" by simp
      from retrieve_loop_spec [OF c this] obtain r where
        "retrieve_loop E (blockchain_head ?st) (heap ?st) (replicate 25600 0) = Some (Inr r)"
        "length r = 25600" "cstr r = take 25599 (entries_text [] l)"
        using entries_text_relink [of "block_digest E" "[]" bs] True bs(2) by auto
      then show ?thesis
        using v(1) bs(2) l head True False by (simp add: retrieve_response_def response_text_def)
    qed
  qed
qed

lemma retrieve_data_spec:
  assumes "sha_ok E" and "channel_ok a E" and "length key = 32" and "server_ledger st l"
  shows "\<exists>p g' st'. retrieve_data E s key g st = Some (Inr (send s p, g', st')) \<and> server_ledger st' l
    \<and> carries a key (response_text (block_digest E) l) p"
proof -
  obtain r st' where r: "retrieve_response E st = Some (Inr (r, st'))" "server_ledger st' l"
    "cstr r = response_text (block_digest E) l"
    using retrieve_response_spec [OF assms(1,4)] by blast
  obtain p g' where "send_encypted_data E s r (strlen r) key g = Inr (32 + strlen r, send s p, g')"
    "carries a key (cstr r) p"
    using aes.sends [OF assms(2,3) strlen_le, of s r g] by (auto simp: take_strlen)
  then show ?thesis using r by (intro exI [of _ p]) (simp add: retrieve_data_def)
qed

section \<open>Freeing\<close>

lemma free_loop_spec: "chain h p bs \<Longrightarrow> free_loop p h = Some (Inr (h |` (- fst ` set bs)))"
proof (induction bs arbitrary: h p)
  case Nil
  then show ?case by (subst free_loop.simps) (simp add: restrict_map_def)
next
  case (Cons ab bs)
  obtain a b where ab: "ab = (a, b)" by fastforce
  have "free_loop p h = free_loop (blk_next b) (h(a := None))"
    using Cons.prems ab by (subst free_loop.simps) simp
  also have "\<dots> = Some (Inr ((h(a := None)) |` (- fst ` set bs)))"
    using Cons.IH [of "h(a := None)" "blk_next b"] Cons.prems ab by (simp del: fun_upd_apply)
  also have "(h(a := None)) |` (- fst ` set bs) = h |` (- fst ` set (ab # bs))"
    by (auto simp: ab restrict_map_def)
  finally show ?case .
qed

section \<open>A session\<close>

text \<open>The abstract server: the answer to one request and the ledger afterwards.\<close>

definition serve :: "(bytes \<Rightarrow> bytes \<Rightarrow> bytes) \<Rightarrow> bytes \<Rightarrow> ledger \<Rightarrow> bytes \<times> ledger" where
  "serve dig m l = (if cstr m = str ''RETRIEVE'' then (response_text dig l, l)
     else (str ''DATA_STORED'', ledger_store dig (stored_data m) l))"

fun serve_all :: "(bytes \<Rightarrow> bytes \<Rightarrow> bytes) \<Rightarrow> bytes list \<Rightarrow> ledger \<Rightarrow> bytes list \<times> ledger" where
  "serve_all dig [] l = ([], l)"
| "serve_all dig (m # ms) l = (let (a, l') = serve dig m l; (as, l'') = serve_all dig ms l'
     in (a # as, l''))"

text \<open>An allocator that does not run out of memory.\<close>

definition malloc_total :: "(heap \<Rightarrow> addr option) \<Rightarrow> bool" where
  "malloc_total malloc \<longleftrightarrow> (\<forall>h. finite (dom h) \<longrightarrow> malloc h \<noteq> None)"

lemma server_ledger_finite: "server_ledger st l \<Longrightarrow> finite (dom (heap st))"
  by (auto simp: server_ledger_def server_chain_def)

lemma message_loop_step:
  assumes a: "channel_ok a E" and key: "length key = 32"
    and st: "store_ok (E, malloc)" "malloc_total malloc" "server_ledger st l"
    and m: "carries a key m p" "length m \<le> 2048" "0 < length m" and rx: "rx s = Seg p # r"
  shows "\<exists>q g' st'. message_loop E malloc s key g st = message_loop E malloc (send (s\<lparr>rx := r\<rparr>) q) key g' st'
    \<and> carries a key (fst (serve (block_digest E) m l)) q
    \<and> server_ledger st' (snd (serve (block_digest E) m l))"
proof -
  obtain rest where rest: "length rest = length m"
    and recv: "receive_encypted_data E s key = Inr (int (length m), Some (m @ rest), s\<lparr>rx := r\<rparr>)"
    using aes.receives [OF a key m(1,3,2) rx] by blast
  let ?b = "(m @ rest)[length m := 0]" and ?s = "s\<lparr>rx := r\<rparr>"
  have b: "cstr ?b = cstr m" using cstr_terminated [OF rest m(3)] .
  have sha: "sha_ok E" using st(1) by (simp add: store_ok_def)
  show ?thesis
  proof (cases "cstr m = str ''RETRIEVE''")
    case True
    obtain q g' st' where "retrieve_data E ?s key g st = Some (Inr (send ?s q, g', st'))"
      "server_ledger st' l" "carries a key (response_text (block_digest E) l) q"
      using retrieve_data_spec [OF sha a key st(3)] by blast
    then show ?thesis
      using True recv rest m(3) b
      by (intro exI [of _ q] exI [of _ g'] exI [of _ st'])
         (simp add: serve_def message_loop.simps [of E malloc s])
  next
    case False
    obtain c where c: "malloc (heap st) = Some c"
      using st(2) server_ledger_finite [OF st(3)] by (auto simp: malloc_total_def)
    have "stored_data ?b = stored_data m" by (simp add: stored_data_def b)
    then obtain v st' where "store_data E malloc ?b st = Some (Inr (v, st'))"
      "server_ledger st' (ledger_store (block_digest E) (stored_data m) l)"
      using store_refines [OF st(1,3) c, of ?b] by auto
    moreover have "take 11 (str ''DATA_STORED'') = str ''DATA_STORED''" by (simp add: str_def)
    then obtain q g' where "send_encypted_data E ?s (str ''DATA_STORED'') 11 key g = Inr (43, send ?s q, g')"
      "carries a key (str ''DATA_STORED'') q"
      using aes.sends [OF a key, of 11 "str ''DATA_STORED''" ?s g] by (auto simp: str_def)
    ultimately show ?thesis
      using False recv rest m(3) b
      by (intro exI [of _ q] exI [of _ g'] exI [of _ st'])
         (simp add: serve_def message_loop.simps [of E malloc s])
  qed
qed


lemma message_loop_end:
  "rx s = [] \<Longrightarrow> message_loop E malloc s key g st = Some (Inr (s, g, st))"
  by (subst message_loop.simps) (simp add: receive_encypted_data_closed)

lemma message_loop_serves:
  assumes a: "channel_ok a E" and key: "length key = 32"
    and st: "store_ok (E, malloc)" "malloc_total malloc"
  shows "list_all2 (carries a key) ms ps \<Longrightarrow> \<forall>m \<in> set ms. 0 < length m \<and> length m \<le> 2048 \<Longrightarrow>
    server_ledger st l \<Longrightarrow> rx s = map Seg ps \<Longrightarrow>
    \<exists>qs g' st'. message_loop E malloc s key g st = Some (Inr (s\<lparr>rx := [], tx := tx s @ qs\<rparr>, g', st'))
      \<and> list_all2 (carries a key) (fst (serve_all (block_digest E) ms l)) qs
      \<and> server_ledger st' (snd (serve_all (block_digest E) ms l))"
proof (induction ms ps arbitrary: s g st l rule: list_all2_induct)
  case Nil
  have "s\<lparr>rx := [], tx := tx s @ []\<rparr> = s" using Nil.prems(3) by simp
  then have "message_loop E malloc s key g st = Some (Inr (s\<lparr>rx := [], tx := tx s @ []\<rparr>, g, st))"
    using message_loop_end [of s E malloc key g st] Nil.prems(3) by (simp only: list.map)
  then show ?case using Nil.prems(2) by (intro exI [of _ "[]"] exI conjI) (assumption | simp)+
next
  case (Cons m ms p ps)
  let ?a = "fst (serve (block_digest E) m l)" and ?l = "snd (serve (block_digest E) m l)"
  have m: "length m \<le> 2048" "0 < length m" using Cons.prems(1) by simp_all
  have rx: "rx s = Seg p # map Seg ps" using Cons.prems(3) by simp
  obtain q g1 st1 where step:
    "message_loop E malloc s key g st = message_loop E malloc (send (s\<lparr>rx := map Seg ps\<rparr>) q) key g1 st1"
    "carries a key ?a q" "server_ledger st1 ?l"
    using message_loop_step [OF a key st Cons.prems(2) Cons.hyps(1) m rx, of g] by (elim exE conjE) (rule that)
  let ?s = "send (s\<lparr>rx := map Seg ps\<rparr>) q"
  have ms: "\<forall>m \<in> set ms. 0 < length m \<and> length m \<le> 2048" and rx': "rx ?s = map Seg ps"
    using Cons.prems(1) by simp_all
  obtain qs g' st' where IH: "message_loop E malloc ?s key g1 st1 =
      Some (Inr (?s\<lparr>rx := [], tx := tx ?s @ qs\<rparr>, g', st'))"
    "list_all2 (carries a key) (fst (serve_all (block_digest E) ms ?l)) qs"
    "server_ledger st' (snd (serve_all (block_digest E) ms ?l))"
    using Cons.IH [OF ms step(3) rx'] by blast
  have "?s\<lparr>rx := [], tx := tx ?s @ qs\<rparr> = s\<lparr>rx := [], tx := tx s @ q # qs\<rparr>" by (simp add: send_def)
  then have "message_loop E malloc s key g st = Some (Inr (s\<lparr>rx := [], tx := tx s @ q # qs\<rparr>, g', st'))"
    using step(1) IH(1) by simp
  then show ?case
    using step(2) IH(2,3) by (intro exI [of _ "q # qs"] exI conjI) (assumption | simp add: split_beta Let_def)+
qed

text \<open>
  Whatever arrives, forged or not, and whatever resources fail: the loop ends with a ledger that
  extends the one before, or stops for one of the reasons of \<open>explained\<close>.  What the peer is sent is
  added to what it was sent before.
\<close>

definition session_end ::
  "('c, 'm, 'k) ext \<Rightarrow> sock \<Rightarrow> rx_event list \<Rightarrow> ledger \<Rightarrow> (sock \<times> rng \<times> server) result \<Rightarrow> bool" where
  "session_end E s evs l r = (case r of
     Inl f \<Rightarrow> explained E evs f
   | Inr (s', g', st') \<Rightarrow> (\<exists>qs m. tx s' = tx s @ qs \<and> server_ledger st' (l @ m)))"

lemma session_end_extend:
  "session_end E s1 evs (l @ m) r \<Longrightarrow> tx s1 = tx s @ q \<Longrightarrow> session_end E s evs l r"
  by (auto simp: session_end_def split: sum.splits)

lemma retrieve_data_outcome:
  assumes "sha_ok E" and "cipher_ok a E" and "length key = 32" and "server_ledger st l"
  shows "(\<exists>s' g' st' q. retrieve_data E s key g st = Some (Inr (s', g', st')) \<and> server_ledger st' l
      \<and> rx s' = rx s \<and> tx s' = tx s @ q)
    \<or> (\<exists>f. retrieve_data E s key g st = Some (Inl f) \<and> explained E evs f)"
proof -
  obtain r st' where r: "retrieve_response E st = Some (Inr (r, st'))" "server_ledger st' l"
    using retrieve_response_spec [OF assms(1,4)] by blast
  then show ?thesis
    using send_encypted_data_outcome [OF assms(2,3) strlen_le, where data = r and s = s and g = g and evs = evs]
    by (auto simp: retrieve_data_def)
qed

lemma message_loop_outcome:
  assumes "cipher_ok a E" and "length key = 32" and "store_ok (E, malloc)"
    and "server_ledger st l" and "within (rx s) evs"
  shows "\<exists>r. message_loop E malloc s key g st = Some r \<and> session_end E s evs l r"
  using assms(4,5)
proof (induction "rx_size (rx s)" arbitrary: s g st l rule: less_induct)
  case less
  have sha: "sha_ok E" using assms(3) by (simp add: store_ok_def)
  note loop = message_loop.simps [of E malloc s key g st]
  note recv = receive_encypted_data_outcome [OF assms(1,2) less.prems(2)]
  show ?case
  proof (cases "receive_encypted_data E s key")
    case (Inl f)
    then show ?thesis using recv by (auto simp: loop session_end_def)
  next
    case (Inr x)
    obtain len d s1 where x: "x = (len, d, s1)" by (metis prod_cases3)
    have ok: "received_ok s evs (len, d, s1)" using recv Inr x by auto
    then have tx: "tx s1 = tx s" and ev: "within (rx s1) evs" by (simp_all add: received_ok_def)
    show ?thesis
    proof (cases "0 < len")
      case False
      then show ?thesis using Inr x tx less.prems(1)
        by (auto simp: loop session_end_def intro!: exI [of _ "[]"])
    next
      case True
      then obtain buf where buf: "d = Some buf" "nat len < length buf" "rx_size (rx s1) < rx_size (rx s)"
        using ok by (auto simp: received_ok_def)
      let ?b = "buf[nat len := 0]"
      have next_step: "\<exists>r. message_loop E malloc s2 key g2 st2 = Some r \<and> session_end E s evs l r"
        if "rx s2 = rx s1" "tx s2 = tx s1 @ q" "server_ledger st2 (l @ m)" for s2 g2 st2 q m
        using less.hyps [of s2 st2 "l @ m" g2] that buf(3) ev tx session_end_extend by fastforce
      show ?thesis
      proof (cases "cstr ?b = str ''RETRIEVE''")
        case retrieve: True
        then have step: "message_loop E malloc s key g st =
            bindR (retrieve_data E s1 key g st) (\<lambda>(s, g, st). message_loop E malloc s key g st)"
          using Inr x buf True by (simp add: loop)
        consider s2 g2 st2 q where "retrieve_data E s1 key g st = Some (Inr (s2, g2, st2))"
            "server_ledger st2 l" "rx s2 = rx s1" "tx s2 = tx s1 @ q"
          | f where "retrieve_data E s1 key g st = Some (Inl f)" "explained E evs f"
          using retrieve_data_outcome [OF sha assms(1,2) less.prems(1), of s1 g evs] by blast
        then show ?thesis using next_step [where m = "[]"] by cases (auto simp: step session_end_def)
      next
        case store: False
        obtain v st' m where "store_data E malloc ?b st = Some (Inr (v, st'))" and st': "server_ledger st' (l @ m)"
          using chain_store.store_total [OF assms(3) less.prems(1), of ?b] unfolding fst_conv snd_conv
          by (metis append_Nil2 ledger_store_def)
        then have step: "message_loop E malloc s key g st =
            bindR (Some (send_encypted_data E s1 (str ''DATA_STORED'') 11 key g))
              (\<lambda>(_, s, g). message_loop E malloc s key g st')"
          using Inr x buf True store by (simp add: loop)
        have "11 \<le> length (str ''DATA_STORED'')" by (simp add: str_def)
        then consider k s2 g2 q where "send_encypted_data E s1 (str ''DATA_STORED'') 11 key g = Inr (k, s2, g2)"
            "rx s2 = rx s1" "tx s2 = tx s1 @ q"
          | f where "send_encypted_data E s1 (str ''DATA_STORED'') 11 key g = Inl f" "explained E evs f"
          using send_encypted_data_outcome [OF assms(1,2), where n = 11 and data = "str ''DATA_STORED''" and s = s1 and g = g and evs = evs] by blast
        then show ?thesis using next_step [OF _ _ st'] by cases (auto simp: step session_end_def)
      qed
    qed
  qed
qed

text \<open>With an orderly peer and without failing resources the loop always ends.\<close>

lemma message_loop_orderly:
  assumes "channel_ok a E" and "length key = 32" and "store_ok (E, malloc)" and "server_ledger st l"
    and "orderly 2080 (rx s)"
  shows "\<exists>s' g' st' m qs. message_loop E malloc s key g st = Some (Inr (s', g', st'))
    \<and> server_ledger st' (l @ m) \<and> tx s' = tx s @ qs"
proof -
  have c: "cipher_ok a E" "resources_ok E" using assms(1) by (simp_all add: channel_ok_def)
  from message_loop_outcome [OF c(1) assms(2-4) within_refl] obtain r where
    "message_loop E malloc s key g st = Some r" "session_end E s (rx s) l r" by blast
  then show ?thesis using explained_orderly [OF c(2) assms(5)]
    by (auto simp: session_end_def split: sum.splits)
qed

section \<open>The process\<close>

text \<open>
  \<open>main\<close>: the results of \<open>socket\<close>, \<open>bind\<close> and \<open>listen\<close>, the clock and the outcomes of
  \<open>accept\<close> (\<open>None\<close> for a failure) are what the process observes.  The C loop is endless; the
  model serves the connections of the list in order and yields the state after the last.
\<close>

fun accept_loop ::
  "('c, 'm, 'k) ext \<Rightarrow> (heap \<Rightarrow> addr option) \<Rightarrow> sock option list \<Rightarrow> rng \<Rightarrow> server \<Rightarrow>
   (sock list \<times> rng \<times> server) run" where
  "accept_loop E malloc [] state st = Some (Inr ([], state, st))"
| "accept_loop E malloc (None # cs) state st = accept_loop E malloc cs state st"
| "accept_loop E malloc (Some client_sock # cs) state st =
     bindR (handle_client E malloc client_sock state st) (\<lambda>(client_sock, state, st).
     bindR (accept_loop E malloc cs state st) (\<lambda>(socks, state, st).
     Some (Inr (client_sock # socks, state, st))))"

definition main ::
  "('c, 'm, 'k) ext \<Rightarrow> (heap \<Rightarrow> addr option) \<Rightarrow> startup \<Rightarrow> sock option list \<Rightarrow> (sock list \<times> rng \<times> server) run" where
  "main E malloc u connections =
     (if socket_result u < 0 then Some (Inl ExitFailure)
      else if bind_result u < 0 then Some (Inl ExitFailure)
      else if listen_result u < 0 then Some (Inl ExitFailure)
      else bindR (Some (gmp_randseed_ui gmp_randinit_mt (start_time u))) (\<lambda>state.
             accept_loop E malloc connections state server_start))"

end
