(* ===== verification/Server_Properties.thy ===== *)
theory Server_Properties
  imports Server Key_Exchange_Properties
begin

text \<open>
  What the block store and the server process promise: when validation succeeds, what a
  store does to the ledger, which changes to the stored blocks are noticed and which are
  not, what a client is sent, that memory is given back, how a session with an
  arbitrary peer ends, and that the process serves every client that keeps to the protocol.
\<close>

section \<open>Properties of the block store\<close>

text \<open>An environment and an allocator for the witnesses: the address after the last one used.\<close>

definition toy_malloc :: "heap \<Rightarrow> addr option" where
  "toy_malloc h = (if finite (dom h) then Some (Suc (Max (insert 0 (dom h)))) else None)"

lemma toy_malloc_ok: "malloc_ok toy_malloc" and toy_malloc_total: "malloc_total toy_malloc"
proof -
  have "h (Suc (Max (insert 0 (dom h)))) = None" if "finite (dom h)" for h :: heap
  proof (rule ccontr)
    assume "h (Suc (Max (insert 0 (dom h)))) \<noteq> None"
    then have "Suc (Max (insert 0 (dom h))) \<in> insert 0 (dom h)" by blast
    then have "Suc (Max (insert 0 (dom h))) \<le> Max (insert 0 (dom h))"
      using that by (intro Max_ge) simp_all
    then show False by simp
  qed
  then show "malloc_ok toy_malloc" by (auto simp: malloc_ok_def toy_malloc_def split: if_splits)
  show "malloc_total toy_malloc" by (simp add: malloc_total_def toy_malloc_def)
qed

lemma toy_sha_ok: "sha_ok toy_ext"
  by (auto simp: sha_ok_def toy_ext_def min_def)

lemma toy_store_ok: "store_ok (toy_ext, toy_malloc)"
  using toy_sha_ok toy_memory_ok toy_malloc_ok by (simp add: store_ok_def)

text \<open>A server with the two blocks \<open>a\<close> and \<open>b\<close>, chained as the program chains them.\<close>

definition toy_block :: "bytes \<Rightarrow> bytes \<Rightarrow> addr \<Rightarrow> Block" where
  "toy_block d prev n = (fresh_block (block_digest toy_ext) d prev)\<lparr>blk_next := n\<rparr>"

definition toy_hash :: bytes where
  "toy_hash = block_digest toy_ext (str ''a'') []"

definition toy_blocks :: "(addr \<times> Block) list" where
  "toy_blocks = [(1, toy_block (str ''a'') [] 2), (2, toy_block (str ''b'') toy_hash 0)]"

definition toy_server :: server where
  "toy_server = \<lparr>heap = map_of toy_blocks, blockchain_head = 1\<rparr>"

lemma toy_block_wf:
  assumes "0 \<notin> set d" "length d < 256" "0 \<notin> set p" "length p < 65"
  shows "block_wf (toy_block d p n)" "cstr (blk_data (toy_block d p n)) = d"
    "cstr (blk_hash (toy_block d p n)) = block_digest toy_ext d p" "blk_next (toy_block d p n) = n"
  using fresh_block_props [OF toy_sha_ok assms] by (simp_all add: toy_block_def block_wf_def)

lemma toy_hash_props: "0 \<notin> set toy_hash" "length toy_hash < 65"
  using toy_sha_ok by (simp_all add: toy_hash_def) (simp add: block_digest_def)

lemma toy_server_chain: "server_chain toy_server toy_blocks"
  using toy_block_wf [of "str ''a''" "[]" 2] toy_block_wf [of "str ''b''" toy_hash 0] toy_hash_props
  by (auto simp: server_chain_def toy_server_def toy_blocks_def str_def)

lemma toy_ledger: "ledger toy_blocks = [(str ''a'', toy_hash), (str ''b'', block_digest toy_ext (str ''b'') toy_hash)]"
  using toy_block_wf [of "str ''a''" "[]" 2] toy_block_wf [of "str ''b''" toy_hash 0] toy_hash_props
  by (simp add: toy_blocks_def ledger_def toy_hash_def str_def)

lemma toy_server_ledger: "server_ledger toy_server (ledger toy_blocks)"
  using toy_server_chain by (auto simp: server_ledger_def)

lemma toy_valid: "valid_from (block_digest toy_ext) [] (ledger toy_blocks)"
  by (simp add: toy_ledger toy_hash_def)

lemma valid_from_nth:
  "valid_from dig p l \<longleftrightarrow>
     (\<forall>i < length l. snd (l ! i) = dig (fst (l ! i)) (if i = 0 then p else snd (l ! (i - 1))))"
proof (induction dig p l rule: valid_from.induct)
  case (2 dig p d h l)
  show ?case unfolding valid_from.simps 2
    by (auto simp: All_less_Suc2 nth_Cons')
qed simp

text \<open>
  C12.  \<open>validate_blockchain\<close> returns on every well-formed list, with 1 exactly when each block's
  hash is the hexadecimal SHA-256 of its data followed by the hash of the block before it.
\<close>

theorem validate_blockchain_iff:
  assumes "sha_ok E" and "server_chain st bs"
  shows "\<exists>v st'. validate_blockchain E st = Some (Inr (v, st')) \<and> v \<in> {0, 1} \<and>
    (v = 1 \<longleftrightarrow> (\<forall>i < length bs. cstr (blk_hash (snd (bs ! i))) = hex (SHA256 E
       (cstr (blk_data (snd (bs ! i))) @ (if i = 0 then [] else cstr (blk_hash (snd (bs ! (i - 1)))))))))"
proof -
  have "valid_from (block_digest E) [] (ledger bs) \<longleftrightarrow>
     (\<forall>i < length bs. cstr (blk_hash (snd (bs ! i))) = hex (SHA256 E
       (cstr (blk_data (snd (bs ! i))) @ (if i = 0 then [] else cstr (blk_hash (snd (bs ! (i - 1))))))))"
    unfolding valid_from_nth by (auto simp: ledger_def split_beta block_digest_def)
  then show ?thesis using validate_blockchain_spec(1) [OF assms] by auto
qed

text \<open>C12, witness: the two-block example.\<close>

theorem validate_blockchain_iff_witness:
  "\<exists>v st'. validate_blockchain toy_ext toy_server = Some (Inr (v, st')) \<and> v \<in> {0, 1} \<and>
    (v = 1 \<longleftrightarrow> (\<forall>i < length toy_blocks. cstr (blk_hash (snd (toy_blocks ! i))) = hex (SHA256 toy_ext
       (cstr (blk_data (snd (toy_blocks ! i))) @ (if i = 0 then [] else cstr (blk_hash (snd (toy_blocks ! (i - 1)))))))))"
  by (rule validate_blockchain_iff [OF toy_sha_ok toy_server_chain])

text \<open>
  C2.  \<open>store_data\<close> refines the ledger: unless memory runs out, it returns with the new entry
  appended to what the list stood for before, the data cut to 255 bytes and hashed together
  with the hash of the first block, and reports whether the whole ledger is valid.
\<close>

theorem store_data_refines:
  assumes "store_ok (E, malloc)" and "server_ledger st l" and "malloc (heap st) = Some c"
  shows "\<exists>st'. store_data E malloc payload st =
      Some (Inr (Some (verdict (block_digest E) (l @ [(take 255 (cstr payload),
        hex (SHA256 E (take 255 (cstr payload) @ (if l = [] then [] else snd (hd l)))))])), st'))
    \<and> server_ledger st' (l @ [(take 255 (cstr payload),
        hex (SHA256 E (take 255 (cstr payload) @ (if l = [] then [] else snd (hd l)))))])"
  using store_refines [OF assms, of payload]
  by (simp add: ledger_store_def stored_data_def head_hash_def block_digest_def)

text \<open>C2, witness: a first block.\<close>

theorem store_data_refines_witness:
  "\<exists>st'. store_data toy_ext toy_malloc (str ''hello'') server_start =
      Some (Inr (Some (verdict (block_digest toy_ext) ([] @ [(take 255 (cstr (str ''hello'')),
        hex (SHA256 toy_ext (take 255 (cstr (str ''hello'')) @ (if [] = [] then [] else snd (hd ([] :: ledger))))))])), st'))
    \<and> server_ledger st' ([] @ [(take 255 (cstr (str ''hello'')),
        hex (SHA256 toy_ext (take 255 (cstr (str ''hello'')) @ (if [] = [] then [] else snd (hd ([] :: ledger))))))])"
  using store_data_refines [OF toy_store_ok server_ledger_start, of 1 "str ''hello''"]
  by (simp add: toy_malloc_def server_start_def)

lemma ledger_nth:
  "i < length bs \<Longrightarrow> ledger bs ! i = (cstr (blk_data (snd (bs ! i))), cstr (blk_hash (snd (bs ! i))))"
  by (simp add: ledger_def split_beta)

lemma length_ledger [simp]: "length (ledger bs) = length bs"
  by (simp add: ledger_def)

lemma fst_update:
  assumes "i < length bs" and "bs ! i = (a, b)"
  shows "fst ` set (bs[i := (a, b')]) = fst ` set bs"
proof -
  have "map fst (bs[i := (a, b')]) = map fst bs"
    using assms list_update_id [of "map fst bs" i] by (simp add: map_update)
  from arg_cong [OF this, of set] show ?thesis by (simp only: set_map)
qed

lemma chain_update:
  "chain h p bs \<Longrightarrow> i < length bs \<Longrightarrow> bs ! i = (a, b) \<Longrightarrow> blk_next b' = blk_next b \<Longrightarrow>
   chain (h(a \<mapsto> b')) p (bs[i := (a, b')])"
proof (induction bs arbitrary: p i)
  case (Cons xb bs)
  obtain x c where xb: "xb = (x, c)" by fastforce
  show ?case
  proof (cases i)
    case 0
    then show ?thesis using Cons.prems xb by (simp add: fun_upd_same del: fun_upd_apply)
  next
    case (Suc j)
    have j: "j < length bs" "bs ! j = (a, b)" using Cons.prems Suc by simp_all
    then have "a \<in> fst ` set bs" by (metis fst_conv image_eqI nth_mem)
    then have "a \<noteq> x" using Cons.prems(1) xb by auto
    moreover note fst_update [OF j, of b']
    ultimately show ?thesis using Cons.IH [OF _ j Cons.prems(4)] Cons.prems(1) xb Suc by simp
  qed
qed simp

lemma server_chain_update:
  assumes "server_chain st bs" and "i < length bs" and "bs ! i = (a, b)"
    and "block_wf b'" and "blk_next b' = blk_next b"
  shows "server_chain (st\<lparr>heap := (heap st)(a \<mapsto> b')\<rparr>) (bs[i := (a, b')])"
proof -
  note fst_update [OF assms(2,3), of b']
  moreover have "a \<in> fst ` set bs" using assms(2,3) by (metis fst_conv image_eqI nth_mem)
  moreover have "\<forall>(a, b) \<in> set (bs[i := (a, b')]). block_wf b"
  proof
    fix x assume "x \<in> set (bs[i := (a, b')])"
    then have "x = (a, b') \<or> x \<in> set bs" using set_update_subset_insert by fastforce
    then show "case x of (a, b) \<Rightarrow> block_wf b" using assms(1,4) by (auto simp: server_chain_def)
  qed
  moreover have "chain ((heap st)(a \<mapsto> b')) (blockchain_head st) (bs[i := (a, b')])"
    using assms(1) chain_update [OF _ assms(2,3,5)] by (simp add: server_chain_def)
  ultimately show ?thesis
    using assms(1) by (simp add: server_chain_def insert_absorb del: fun_upd_apply)
qed

text \<open>
  C13.  Changing the data of a stored block is noticed: whatever wrote the new data string into
  block \<open>i\<close> of a valid list, the next validation returns 0, unless the two strings
  together with the preceding hash collide under SHA-256.
\<close>

theorem tampered_data_detected:
  assumes "sha_ok E" and "server_chain st bs" and "valid_from (block_digest E) [] (ledger bs)"
    and i: "i < length bs" "bs ! i = (a, b)"
    and d: "length d = 256" "length (cstr d) < 256"
    and sha: "SHA256 E (cstr d @ p) \<noteq> SHA256 E (cstr (blk_data b) @ p)"
      "p = (if i = 0 then [] else cstr (blk_hash (snd (bs ! (i - 1)))))"
  shows "\<exists>st'. validate_blockchain E (st\<lparr>heap := (heap st)(a \<mapsto> b\<lparr>blk_data := d\<rparr>)\<rparr>) = Some (Inr (0, st'))"
proof -
  let ?st = "st\<lparr>heap := (heap st)(a \<mapsto> b\<lparr>blk_data := d\<rparr>)\<rparr>" and ?bs = "bs[i := (a, b\<lparr>blk_data := d\<rparr>)]"
  have "block_wf b" using assms(2) i nth_mem [OF i(1)] by (auto simp: server_chain_def)
  then have chain: "server_chain ?st ?bs"
    using server_chain_update [OF assms(2) i, of "b\<lparr>blk_data := d\<rparr>"] d by (simp add: block_wf_def)
  have "hex (SHA256 E (cstr d @ p)) \<noteq> hex (SHA256 E (cstr (blk_data b) @ p))" using sha(1) hex_inj by blast
  moreover have "cstr (blk_hash b) = hex (SHA256 E (cstr (blk_data b) @ p))"
    using valid_from_nth [THEN iffD1, OF assms(3), rule_format, of i] i sha(2)
    by (simp add: ledger_nth block_digest_def)
  ultimately have "snd (ledger ?bs ! i) \<noteq> block_digest E (fst (ledger ?bs ! i))
      (if i = 0 then [] else snd (ledger ?bs ! (i - 1)))"
    using i sha(2) by (cases "i = 0") (auto simp: ledger_nth block_digest_def)
  moreover have "i < length (ledger ?bs)" using i(1) by simp
  ultimately have "\<not> valid_from (block_digest E) [] (ledger ?bs)"
    unfolding valid_from_nth by blast
  then show ?thesis using validate_blockchain_spec(1) [OF assms(1) chain] by auto
qed

text \<open>C13, witness: the second block's data changed from \<open>b\<close> to \<open>x\<close>.\<close>

theorem tampered_data_detected_witness:
  "\<exists>st'. validate_blockchain toy_ext (toy_server\<lparr>heap := (heap toy_server)
     (2 \<mapsto> (toy_block (str ''b'') toy_hash 0)\<lparr>blk_data := pad 256 (str ''x'')\<rparr>)\<rparr>) = Some (Inr (0, st'))"
proof (rule tampered_data_detected [OF toy_sha_ok toy_server_chain toy_valid, of 1])
  have x: "0 \<notin> set (str ''x'')" "length (str ''x'') = 1" by (simp_all add: str_def)
  then show "length (pad 256 (str ''x'')) = 256" "length (cstr (pad 256 (str ''x''))) < 256" by simp_all
  have b: "cstr (blk_data (toy_block (str ''b'') toy_hash 0)) = str ''b''"
    using toy_block_wf(2) [of "str ''b''" toy_hash 0] toy_hash_props by (simp add: str_def)
  show "toy_blocks ! 1 = (2, toy_block (str ''b'') toy_hash 0)" "1 < length toy_blocks"
    by (simp_all add: toy_blocks_def)
  have "cstr (blk_hash (toy_block (str ''a'') [] 2)) = toy_hash"
    using toy_block_wf(3) [of "str ''a''" "[]" 2] by (simp add: str_def toy_hash_def)
  then show "toy_hash = (if 1 = (0::nat) then [] else cstr (blk_hash (snd (toy_blocks ! (1 - 1)))))"
    by (simp add: toy_blocks_def)
  show "SHA256 toy_ext (cstr (pad 256 (str ''x'')) @ toy_hash)
      \<noteq> SHA256 toy_ext (cstr (blk_data (toy_block (str ''b'') toy_hash 0)) @ toy_hash)"
    by (simp add: x b) (simp add: toy_ext_def str_def)
qed


text \<open>
  C31.  The \<open>previous_hash\<close> field of a stored block is not checked: whatever it is
  overwritten with, validation returns the same verdict as before and puts the same chain
  back.  The branch that reports a previous-hash mismatch is never taken, because
  \<open>compute_hash\<close> overwrites the field before it is compared.
\<close>

theorem previous_hash_not_checked:
  assumes "sha_ok E" and "server_chain st bs" and "i < length bs" and "bs ! i = (a, b)"
    and "length q = 65" and "length (cstr q) < 65"
  shows "\<exists>v st1 st2. validate_blockchain E st = Some (Inr (v, st1))
    \<and> validate_blockchain E (st\<lparr>heap := (heap st)(a \<mapsto> b\<lparr>blk_previous_hash := q\<rparr>)\<rparr>) = Some (Inr (v, st2))"
proof -
  let ?b = "b\<lparr>blk_previous_hash := q\<rparr>"
  have "block_wf b" using assms(2,3,4) nth_mem [OF assms(3)] by (auto simp: server_chain_def)
  then have chain: "server_chain (st\<lparr>heap := (heap st)(a \<mapsto> ?b)\<rparr>) (bs[i := (a, ?b)])"
    using server_chain_update [OF assms(2-4), of ?b] assms(5,6) by (simp add: block_wf_def)
  have "ledger (bs[i := (a, ?b)]) = ledger bs"
    by (rule nth_equalityI) (use assms(3,4) in \<open>auto simp: ledger_nth nth_list_update\<close>)
  then show ?thesis
    using validate_blockchain_spec(1) [OF assms(1,2)] validate_blockchain_spec(1) [OF assms(1) chain] by simp
qed

text \<open>C31, witness: the second block of the example with the previous hash replaced by \<open>x\<close>.\<close>

theorem previous_hash_not_checked_witness:
  "\<exists>v st1 st2. validate_blockchain toy_ext toy_server = Some (Inr (v, st1))
    \<and> validate_blockchain toy_ext (toy_server\<lparr>heap := (heap toy_server)
        (2 \<mapsto> (toy_block (str ''b'') toy_hash 0)\<lparr>blk_previous_hash := pad 65 (str ''x'')\<rparr>)\<rparr>) = Some (Inr (v, st2))"
  by (rule previous_hash_not_checked [OF toy_sha_ok toy_server_chain, of 1])
     (simp_all add: toy_blocks_def str_def)

text \<open>
  The first two blocks validate.  A store on a valid list of at most one block reports
  success (or runs out of memory).
\<close>

theorem first_blocks_valid:
  assumes "store_ok (E, malloc)" and "server_ledger st l"
    and "valid_from (block_digest E) [] l" and "length l \<le> 1"
  shows "\<exists>v st'. store_data E malloc payload st = Some (Inr (v, st')) \<and> v \<in> {None, Some 1}"
  using chain_store.short_chain_valid [OF assms(1,2)] assms(3,4) by simp

text \<open>Witness: the first block of an empty server.\<close>

theorem first_blocks_valid_witness:
  "\<exists>v st'. store_data toy_ext toy_malloc (str ''hello'') server_start = Some (Inr (v, st'))
    \<and> v \<in> {None, Some 1}"
  by (rule first_blocks_valid [OF toy_store_ok server_ledger_start]) simp_all

text \<open>
  C30.  The third block breaks the chain: \<open>store_data\<close> takes the previous hash from the first
  block, not from the last, so a store on a list of at least two blocks is followed by a
  failing validation, and from then on \<open>RETRIEVE\<close> is answered with the failure message
  instead of the data, unless the two candidate digests collide under SHA-256.
\<close>

theorem third_block_invalid:
  assumes "store_ok (E, malloc)" and "server_ledger st l" and "length l \<ge> 2"
    and "malloc (heap st) = Some c"
    and sha: "SHA256 E (take 255 (cstr payload) @ snd (hd l))
      \<noteq> SHA256 E (take 255 (cstr payload) @ snd (last l))"
  shows "\<exists>st'. store_data E malloc payload st = Some (Inr (Some 0, st'))
    \<and> (\<exists>r st''. retrieve_response E st' = Some (Inr (r, st''))
        \<and> cstr r = str ''Blockchain validation failed. Data retrieval aborted.'' @ [10])"
proof -
  let ?d = "stored_data payload" and ?D = "block_digest E"
  have ne: "l \<noteq> []" using assms(3) by auto
  have dig: "?D ?d (head_hash l) \<noteq> ?D ?d (last_hash [] l)"
    using sha ne hex_inj by (auto simp: block_digest_def head_hash_def last_hash_def stored_data_def)
  then have inv: "\<not> valid_from ?D [] (ledger_store ?D ?d l)"
    by (simp add: ledger_store_def valid_from_append)
  obtain st' where st': "store_data E malloc payload st = Some (Inr (Some 0, st'))"
    "server_ledger st' (ledger_store ?D ?d l)"
    using store_refines [OF assms(1,2,4), of payload] inv by (auto simp: verdict_def)
  have "sha_ok E" using assms(1) by (simp add: store_ok_def)
  from retrieve_response_spec [OF this st'(2)] show ?thesis
    using st'(1) inv by (auto simp: response_text_def fail_response_def butlast_append)
qed

text \<open>C30, witness: a third block \<open>c\<close> in the example.\<close>

theorem third_block_invalid_witness:
  "\<exists>st'. store_data toy_ext toy_malloc (str ''c'') toy_server = Some (Inr (Some 0, st'))
    \<and> (\<exists>r st''. retrieve_response toy_ext st' = Some (Inr (r, st''))
        \<and> cstr r = str ''Blockchain validation failed. Data retrieval aborted.'' @ [10])"
proof (rule third_block_invalid [OF toy_store_ok toy_server_ledger])
  show "2 \<le> length (ledger toy_blocks)" by (simp add: toy_blocks_def)
  have "dom (heap toy_server) = {1, 2}" by (auto simp: toy_server_def toy_blocks_def)
  then show "toy_malloc (heap toy_server) = Some 3" by (simp add: toy_malloc_def)
  show "SHA256 toy_ext (take 255 (cstr (str ''c'')) @ snd (hd (ledger toy_blocks)))
      \<noteq> SHA256 toy_ext (take 255 (cstr (str ''c'')) @ snd (last (ledger toy_blocks)))"
    by (simp add: toy_ledger toy_hash_def)
       (simp add: toy_ext_def str_def block_digest_def hex_def hex2_def hex_digit_def cstr_def)
qed

text \<open>
  A list that has become invalid stays invalid: no later store reports success, and the
  list is still invalid after it.
\<close>

theorem invalid_stays_invalid:
  assumes "store_ok (E, malloc)" and "server_ledger st l" and "\<not> valid_from (block_digest E) [] l"
  shows "\<exists>v st' l'. store_data E malloc payload st = Some (Inr (v, st')) \<and> v \<noteq> Some 1
    \<and> server_ledger st' l' \<and> \<not> valid_from (block_digest E) [] l'"
proof -
  obtain v st' where s: "store_data E malloc payload st = Some (Inr (v, st'))"
    using chain_store.store_total [OF assms(1,2), of payload] unfolding fst_conv snd_conv by blast
  then show ?thesis
    using chain_store.invalid_stays [OF assms(1,2), of payload v st'] assms(3) by auto
qed

text \<open>Witness: a single block with a wrong hash.\<close>

theorem invalid_stays_invalid_witness:
  "\<exists>v st' l'. store_data toy_ext toy_malloc (str ''d'')
      \<lparr>heap = [1 \<mapsto> (toy_block (str ''a'') [] 0)\<lparr>blk_hash := pad 65 (str ''x'')\<rparr>], blockchain_head = 1\<rparr>
      = Some (Inr (v, st')) \<and> v \<noteq> Some 1
    \<and> server_ledger st' l' \<and> \<not> valid_from (block_digest toy_ext) [] l'"
proof (rule invalid_stays_invalid [OF toy_store_ok])
  let ?b = "(toy_block (str ''a'') [] 0)\<lparr>blk_hash := pad 65 (str ''x'')\<rparr>"
  have x: "0 \<notin> set (str ''x'')" "length (str ''x'') = 1" by (simp_all add: str_def)
  have "block_wf ?b" "cstr (blk_data ?b) = str ''a''" "blk_next ?b = 0"
    using toy_block_wf [of "str ''a''" "[]" 0] x by (simp_all add: block_wf_def str_def)
  then show "server_ledger \<lparr>heap = [1 \<mapsto> ?b], blockchain_head = 1\<rparr> [(str ''a'', str ''x'')]"
    unfolding server_ledger_def using x
    by (intro exI [of _ "[(1, ?b)]"]) (simp add: server_chain_def ledger_def)
  have "length (block_digest toy_ext (str ''a'') []) = 64" using toy_sha_ok by simp
  then show "\<not> valid_from (block_digest toy_ext) [] [(str ''a'', str ''x'')]" using x(2) by auto
qed


section \<open>Properties of the process\<close>

text \<open>
  C17.  What a client is sent for \<open>RETRIEVE\<close>: when the list is valid, the text of its entries in
  order, each with the hash of the entry before it as the previous hash, cut at 25599
  bytes; \<open>NO_DATA\<close> for an empty list; the failure message when it is invalid.  The list is
  still the same afterwards.
\<close>

theorem retrieve_data_answer:
  assumes "sha_ok E" and "channel_ok a E" and "length key = 32" and "server_ledger st l"
  shows "\<exists>p g' st'. retrieve_data E s key g st = Some (Inr (send s p, g', st')) \<and> server_ledger st' l
    \<and> carries a key
        (if \<not> valid_from (block_digest E) [] l
         then str ''Blockchain validation failed. Data retrieval aborted.'' @ [10]
         else if l = [] then str ''NO_DATA'' else take 25599 (entries_text [] l)) p"
proof -
  have "butlast fail_response = str ''Blockchain validation failed. Data retrieval aborted.'' @ [10]"
    by (simp add: fail_response_def butlast_append)
  then show ?thesis
    using retrieve_data_spec [OF assms, of s g] by (simp only: response_text_def)
qed

text \<open>C17, witness: the two-block example.\<close>

theorem retrieve_data_answer_witness:
  "\<exists>p g' st'. retrieve_data toy_ext \<lparr>rx = [], tx = [], is_open = True\<rparr> (replicate 32 0) toy_server_rng toy_server
      = Some (Inr (send \<lparr>rx = [], tx = [], is_open = True\<rparr> p, g', st')) \<and> server_ledger st' (ledger toy_blocks)
    \<and> carries (toy_ctr, toy_tag) (replicate 32 0)
        (if \<not> valid_from (block_digest toy_ext) [] (ledger toy_blocks)
         then str ''Blockchain validation failed. Data retrieval aborted.'' @ [10]
         else if ledger toy_blocks = [] then str ''NO_DATA''
         else take 25599 (entries_text [] (ledger toy_blocks))) p"
  by (rule retrieve_data_answer [OF toy_sha_ok toy_channel_ok _ toy_server_ledger]) simp

text \<open>
  C18.  No block is lost: in every state the operations lead to, \<open>free_blockchain\<close> returns with an
  empty heap and an empty list, without freeing a block twice.
\<close>

theorem free_blockchain_frees_all:
  assumes "server_ledger st l"
  shows "free_blockchain st = Some (Inr server_start)"
proof -
  obtain bs where bs: "chain (heap st) (blockchain_head st) bs" "dom (heap st) = fst ` set bs"
    using assms by (auto simp: server_ledger_def server_chain_def)
  have "heap st |` (- fst ` set bs) = Map.empty"
    unfolding bs(2) [symmetric] by (auto simp: restrict_map_def fun_eq_iff)
  then show ?thesis
    using free_loop_spec [OF bs(1)] by (simp add: free_blockchain_def server_start_def)
qed

text \<open>C18, witness: the two-block example.\<close>

theorem free_blockchain_frees_all_witness: "free_blockchain toy_server = Some (Inr server_start)"
  by (rule free_blockchain_frees_all [OF toy_server_ledger])

text \<open>
  C3.  The message loop refines the abstract server: it answers a sequence of encrypted requests,
  each with the answer the ledger gives, and leaves a list that stands for the resulting
  ledger.  Requests are at most 2048 bytes, the room of the receive buffer.
\<close>

theorem message_loop_refines:
  assumes "channel_ok a E" and "length key = 32" and "store_ok (E, malloc)" and "malloc_total malloc"
    and "list_all2 (carries a key) ms ps" and "\<forall>m \<in> set ms. 0 < length m \<and> length m \<le> 2048"
    and "server_ledger st l" and "rx s = map Seg ps"
  shows "\<exists>qs g' st'. message_loop E malloc s key g st = Some (Inr (s\<lparr>rx := [], tx := tx s @ qs\<rparr>, g', st'))
      \<and> list_all2 (carries a key) (fst (serve_all (block_digest E) ms l)) qs
      \<and> server_ledger st' (snd (serve_all (block_digest E) ms l))"
  by (rule message_loop_serves [OF assms(1-8)])

definition toy_sealed :: "bytes \<Rightarrow> bytes" where
  "toy_sealed m = sealed (toy_ctr, toy_tag) (replicate 32 0) (replicate 16 9) m"

lemma toy_sealed_carries: "carries (toy_ctr, toy_tag) (replicate 32 0) m (toy_sealed m)"
  unfolding carries_def toy_sealed_def by (rule exI [of _ "replicate 16 9"]) simp

text \<open>C3, witness: a store followed by a retrieval.\<close>

theorem message_loop_refines_witness:
  "\<exists>qs g' st'. message_loop toy_ext toy_malloc
      \<lparr>rx = map Seg [toy_sealed (str ''hello''), toy_sealed (str ''RETRIEVE'')], tx = [], is_open = True\<rparr>
      (replicate 32 0) toy_server_rng server_start
      = Some (Inr (\<lparr>rx = map Seg [toy_sealed (str ''hello''), toy_sealed (str ''RETRIEVE'')], tx = [], is_open = True\<rparr>
          \<lparr>rx := [], tx := tx \<lparr>rx = map Seg [toy_sealed (str ''hello''), toy_sealed (str ''RETRIEVE'')], tx = [], is_open = True\<rparr> @ qs\<rparr>, g', st'))
      \<and> list_all2 (carries (toy_ctr, toy_tag) (replicate 32 0))
          (fst (serve_all (block_digest toy_ext) [str ''hello'', str ''RETRIEVE''] [])) qs
      \<and> server_ledger st' (snd (serve_all (block_digest toy_ext) [str ''hello'', str ''RETRIEVE''] []))"
  by (rule message_loop_refines [OF toy_channel_ok _ toy_store_ok toy_malloc_total _ _ server_ledger_start,
        where ps = "[toy_sealed (str ''hello''), toy_sealed (str ''RETRIEVE'')]"])
     (simp_all add: toy_sealed_carries, simp_all add: str_def)

text \<open>
  C16.  What a session can come to, whatever the peer sends, forged, cut or empty, and whatever
  allocations and sends fail.  Either it ends, and the list of blocks is well formed and stands for
  the ledger it stood for before, with entries added at the end; or the process stops, and for one
  of these reasons only (\<open>explained\<close>): the peer keeps silent without closing the connection or does
  not read its answers, so that the process waits; the peer is gone when an answer is sent; the
  peer sent an empty message of 32 bytes, for which an array of size zero is declared; an
  allocation of the message layer failed.  No other undefined behaviour is possible.
\<close>

theorem message_loop_robust:
  assumes "cipher_ok a E" and "length key = 32" and "store_ok (E, malloc)" and "server_ledger st l"
  shows "\<exists>r. message_loop E malloc s key g st = Some r \<and> session_end E s (rx s) l r"
  by (rule message_loop_outcome [OF assms within_refl])

text \<open>C16, witness: a store, an empty message and silence, without memory for a block.\<close>

theorem message_loop_robust_witness:
  "\<exists>r. message_loop toy_ext (\<lambda>h. None)
      \<lparr>rx = [Seg (toy_sealed (str ''x'')), Seg (toy_sealed []), Silent], tx = [], is_open = True\<rparr>
      (replicate 32 0) toy_server_rng toy_server = Some r
    \<and> session_end toy_ext \<lparr>rx = [Seg (toy_sealed (str ''x'')), Seg (toy_sealed []), Silent], tx = [], is_open = True\<rparr>
        (rx \<lparr>rx = [Seg (toy_sealed (str ''x'')), Seg (toy_sealed []), Silent], tx = [], is_open = True\<rparr>)
        (ledger toy_blocks) r"
proof (rule message_loop_robust [OF _ _ _ toy_server_ledger])
  show "cipher_ok (toy_ctr, toy_tag) toy_ext" using toy_channel_ok by (simp add: channel_ok_def)
  show "store_ok (toy_ext, \<lambda>h. None)" using toy_sha_ok toy_memory_ok by (simp add: store_ok_def malloc_ok_def)
qed simp

text \<open>
  C33.  A client is told \<open>DATA_STORED\<close> even when memory ran out and nothing was stored.
\<close>

theorem stored_despite_no_memory:
  assumes "channel_ok a E" and "length key = 32" and "malloc (heap st) = None"
    and "carries a key m p" and "length m \<le> 2048" and "0 < length m" and "cstr m \<noteq> str ''RETRIEVE''"
    and "rx s = [Seg p]"
  shows "\<exists>q g'. message_loop E malloc s key g st = Some (Inr (send (s\<lparr>rx := []\<rparr>) q, g', st))
    \<and> carries a key (str ''DATA_STORED'') q"
proof -
  obtain rest where rest: "length rest = length m"
    and recv: "receive_encypted_data E s key = Inr (int (length m), Some (m @ rest), s\<lparr>rx := []\<rparr>)"
    using aes.receives [OF assms(1,2,4,6,5,8)] by blast
  have b: "cstr ((m @ rest)[length m := 0]) = cstr m" by (rule cstr_terminated [OF rest assms(6)])
  obtain q g' where q: "send_encypted_data E (s\<lparr>rx := []\<rparr>) (str ''DATA_STORED'') 11 key g
      = Inr (43, send (s\<lparr>rx := []\<rparr>) q, g')" "carries a key (str ''DATA_STORED'') q"
    using aes.sends [OF assms(1,2), of 11 "str ''DATA_STORED''" "s\<lparr>rx := []\<rparr>" g] by (auto simp: str_def)
  have "message_loop E malloc s key g st = message_loop E malloc (send (s\<lparr>rx := []\<rparr>) q) key g' st"
    using recv rest assms(6,7) b q(1) store_out_of_memory [of malloc st E, OF assms(3)]
    by (simp add: message_loop.simps [of E malloc s])
  then show ?thesis using q(2) message_loop_end [of "send (s\<lparr>rx := []\<rparr>) q"] by (intro exI conjI) simp_all
qed

text \<open>C33, witness: an allocator that always fails.\<close>

theorem stored_despite_no_memory_witness:
  "\<exists>q g'. message_loop toy_ext (\<lambda>h. None) \<lparr>rx = [Seg (toy_sealed (str ''x''))], tx = [], is_open = True\<rparr>
      (replicate 32 0) toy_server_rng server_start
      = Some (Inr (send (\<lparr>rx = [Seg (toy_sealed (str ''x''))], tx = [], is_open = True\<rparr>\<lparr>rx := []\<rparr>) q, g', server_start))
    \<and> carries (toy_ctr, toy_tag) (replicate 32 0) (str ''DATA_STORED'') q"
  by (rule stored_despite_no_memory [OF toy_channel_ok _ _ toy_sealed_carries])
     (simp_all add: str_def cstr_def)


section \<open>Serving clients\<close>

lemma server_handle_client_greets:
  assumes "handshake_ok a E" and "identity_ok E ''./keys/private.pem'' ''server'' sk" and "store_ok (E, malloc)"
    and "server_ledger st l" and "greets (rx s)"
  shows "\<exists>s' g' st' m. handle_client E malloc s g st = Some (Inr (s', g', st')) \<and> served s s'
    \<and> server_ledger st' (l @ m)"
proof -
  have ch: "channel_ok a E" using assms(1) by (simp add: handshake_ok_def)
  obtain s1 h key g1 where k: "server_get_session_key E s (replicate 32 0) g = Inr (s1, key, g1)"
    "length key = 32" "tx s1 = tx s @ [h]" "orderly 2080 (rx s1)"
    using server_handshake_greets [OF assms(1,2,5) length_replicate] by blast
  from message_loop_orderly [OF ch k(2) assms(3,4) k(4), of g1] show ?thesis
    using k(1,3) by (fastforce simp: handle_client_def served_def close_def)
qed

lemma server_accept_loop_greets:
  assumes "handshake_ok a E" and "identity_ok E ''./keys/private.pem'' ''server'' sk" and "store_ok (E, malloc)"
  shows "server_ledger st l \<Longrightarrow> \<forall>s \<in> set (accepted cs). greets (rx s) \<Longrightarrow>
    \<exists>socks g' st' m. accept_loop E malloc cs g st = Some (Inr (socks, g', st'))
      \<and> list_all2 served (accepted cs) socks \<and> server_ledger st' (l @ m)"
proof (induction cs arbitrary: g st l)
  case Nil
  then show ?case by (auto intro: exI [of _ "[]"])
next
  case (Cons c cs)
  show ?case
  proof (cases c)
    case None
    then show ?thesis using Cons.IH [OF Cons.prems(1), of g] Cons.prems(2) by simp
  next
    case (Some s)
    obtain s' g1 st1 m1 where 1: "handle_client E malloc s g st = Some (Inr (s', g1, st1))" "served s s'"
      "server_ledger st1 (l @ m1)"
      using server_handle_client_greets [OF assms Cons.prems(1), of s g] Cons.prems(2) Some by auto
    obtain socks g2 st2 m2 where 2: "accept_loop E malloc cs g1 st1 = Some (Inr (socks, g2, st2))"
      "list_all2 served (accepted cs) socks" "server_ledger st2 ((l @ m1) @ m2)"
      using Cons.IH [OF 1(3), of g1] Cons.prems(2) Some by auto
    show ?thesis using 1 2 Some by (auto intro: exI [of _ "m1 @ m2"])
  qed
qed

lemma accept_loop_append:
  "accept_loop E malloc cs g st = Some (Inr (socks, g', st')) \<Longrightarrow> accept_loop E malloc ds g' st' = Some (Inl f) \<Longrightarrow>
   accept_loop E malloc (cs @ ds) g st = Some (Inl f)"
proof (induction cs arbitrary: g st socks)
  case (Cons c cs)
  show ?case
  proof (cases c)
    case None
    then show ?thesis using Cons by simp
  next
    case (Some s)
    obtain s1 g1 st1 where h: "handle_client E malloc s g st = Some (Inr (s1, g1, st1))"
      using Cons.prems(1) Some by (auto simp: bindR_def split: Option.bind_splits sum.splits)
    then obtain socks' where "accept_loop E malloc cs g1 st1 = Some (Inr (socks', g', st'))"
      using Cons.prems(1) Some by (auto simp: bindR_def split: Option.bind_splits sum.splits)
    then show ?thesis using Cons.IH Cons.prems(2) h Some by simp
  qed
qed simp

lemma silent_client_blocks:
  "rx s = Silent # r \<Longrightarrow> accept_loop E malloc (Some s # cs) g st = Some (Inl Waiting)"
  by (simp add: handle_client_def server_handshake_silent)


text \<open>A hello with the prime 257 and a client that sends it, stores an item and closes.\<close>

definition toy_hello :: bytes where
  "toy_hello = replicate 254 0 @ [1, 1] @ replicate 256 3 @ replicate 16 4"

definition toy_client :: sock where
  "toy_client = \<lparr>rx = [Seg toy_hello, Seg (toy_sealed (str ''x''))], tx = [], is_open = True\<rparr>"

lemma toy_greets: "orderly 2080 r \<Longrightarrow> greets (Seg toy_hello # r)"
  by (simp add: greets_def toy_hello_def be_val_append be_val_zeros be_val_def [of "[1, 1]"])


end
