(* ===== verification/Router.thy ===== *)
theory Router
  imports Key_Exchange
begin

text \<open>
  \<open>router/router.h\<close> and \<open>router/router.c\<close>: the process between the clients and the three
  servers.  It keeps one connection and one session key per server for its whole life,
  gives each client a session key of its own, hands the data of a client to the servers in
  turn and collects the answers of all servers for a retrieval.
\<close>

section \<open>State\<close>

definition SERVER_PORT :: nat where "SERVER_PORT = 5432"
definition MAX_LINE :: nat where [simp]: "MAX_LINE = 1024"
definition NUM_SERVERS :: nat where [simp]: "NUM_SERVERS = 3"

definition server_ips :: "string list" where
  "server_ips = [''10.0.1.1'', ''10.0.2.1'', ''10.0.3.1'']"

record router =
  current_server :: nat
  server_sockets :: "sock list"
  server_session_keys :: "bytes list"

text \<open>
  What the router observes when it connects to a server: the results of \<open>socket\<close>,
  \<open>inet_pton\<close> and \<open>connect\<close>, and the connection.
\<close>

record dial =
  dial_socket :: int
  dial_pton :: int
  dial_connect :: int
  dial_sock :: sock

section \<open>Operations\<close>

text \<open>The loop over the addresses of the servers; \<open>net\<close> is what the network answers for each.\<close>

fun connect_and_key_exchange_with_servers ::
  "('c, 'm, 'k) ext \<Rightarrow> (string \<Rightarrow> dial) \<Rightarrow> string list \<Rightarrow> rng \<Rightarrow> (sock list \<times> bytes list \<times> rng) result" where
  "connect_and_key_exchange_with_servers E net [] state = Inr ([], [], state)"
| "connect_and_key_exchange_with_servers E net (ip # ips) state =
     (if dial_socket (net ip) < 0 then Inl ExitFailure
      else if dial_pton (net ip) \<le> 0 then Inl ExitFailure
      else if dial_connect (net ip) < 0 then Inl ExitFailure
      else bindE (client_get_session_key E (dial_sock (net ip)) (replicate AES_KEY_SIZE 0) state)
             (\<lambda>(sockfd, session_key, state, _).
           bindE (connect_and_key_exchange_with_servers E net ips state) (\<lambda>(socks, keys, state).
           Inr (sockfd # socks, session_key # keys, state))))"

definition no_response :: bytes where
  "no_response = str ''Reached size limit for server response''"

text \<open>The contents of \<open>response\<close>, the generator and the sockets afterwards.\<close>

definition send_command_to_server ::
  "('c, 'm, 'k) ext \<Rightarrow> nat \<Rightarrow> bytes \<Rightarrow> bytes \<Rightarrow> rng \<Rightarrow> router \<Rightarrow> (bytes \<times> rng \<times> router) result" where
  "send_command_to_server E server_index message response state rt =
     (if server_index \<ge> length (server_sockets rt) \<or> server_index \<ge> length (server_session_keys rt)
      then Inl (Undefined OutOfBounds)
      else let sockfd = server_sockets rt ! server_index;
               session_key = server_session_keys rt ! server_index
           in bindE (send_encypted_data E sockfd message (strlen message) session_key state)
                (\<lambda>(_, sockfd, state).
              bindE (receive_encypted_data E sockfd session_key) (\<lambda>(len, ubuffer, sockfd).
              let rt = rt\<lparr>server_sockets := (server_sockets rt)[server_index := sockfd]\<rparr>
              in if len > 0
              then case ubuffer of
                     None \<Rightarrow> Inl (Undefined NullPointer)
                   | Some u \<Rightarrow> if nat len > length u \<or> nat len \<ge> length response
                               then Inl (Undefined OutOfBounds)
                               else Inr ((memcpy response 0 u (nat len))[nat len := 0], state, rt)
              else Inr (memcpy response 0 (no_response @ [0]) (length no_response + 1), state, rt))))"

definition format_server_response :: "('c, 'm, 'k) ext \<Rightarrow> nat \<Rightarrow> bytes \<Rightarrow> bytes" where
  "format_server_response E i server_response =
     snprintf (uninit E ''formatted_server_response'' (MAX_LINE * 2)) (MAX_LINE * 2)
       (str ''Server '' @ dec (i + 1) @ str [CHR '':'', CHR 0x0A] @ cstr server_response @ str [CHR 0x0A])"

text \<open>The loop over the servers for a retrieval.\<close>

fun retrieve_from ::
  "('c, 'm, 'k) ext \<Rightarrow> nat list \<Rightarrow> bytes \<Rightarrow> bytes \<Rightarrow> rng \<Rightarrow> router \<Rightarrow> (bytes \<times> rng \<times> router) result" where
  "retrieve_from E [] message formatted_response state rt = Inr (formatted_response, state, rt)"
| "retrieve_from E (i # is) message formatted_response state rt =
     bindE (send_command_to_server E i message (replicate (MAX_LINE * 100) 0) state rt)
       (\<lambda>(server_response, state, rt).
     retrieve_from E is message
       (strncat formatted_response (format_server_response E i server_response)
          (MAX_LINE * NUM_SERVERS * 100 - strlen formatted_response - 1)) state rt)"

text \<open>One command of a client: the answer for the client and the router afterwards.\<close>

definition client_command ::
  "('c, 'm, 'k) ext \<Rightarrow> bytes \<Rightarrow> rng \<Rightarrow> router \<Rightarrow> (bytes \<times> rng \<times> router) result" where
  "client_command E decrypted_data state rt =
     (if cstr decrypted_data = str ''RETRIEVE''
      then retrieve_from E [0..<NUM_SERVERS] decrypted_data
             (replicate (MAX_LINE * NUM_SERVERS * 100) 0) state rt
      else let server_index = current_server rt;
               rt = rt\<lparr>current_server := (current_server rt + 1) mod NUM_SERVERS\<rparr>
           in send_command_to_server E server_index decrypted_data (replicate (MAX_LINE * 100) 0) state rt)"

partial_function (option) client_loop ::
  "('c, 'm, 'k) ext \<Rightarrow> sock \<Rightarrow> bytes \<Rightarrow> rng \<Rightarrow> router \<Rightarrow> (sock \<times> rng \<times> router) run" where
  "client_loop E client_sock session_key state rt =
     bindR (Some (receive_encypted_data E client_sock session_key)) (\<lambda>(data_len, decrypted_data, client_sock).
     if data_len \<le> 0 then Some (Inr (client_sock, state, rt))
     else case decrypted_data of
       None \<Rightarrow> Some (Inl (Undefined NullPointer))
     | Some buf \<Rightarrow>
         if nat data_len \<ge> length buf then Some (Inl (Undefined OutOfBounds))
         else let buf = buf[nat data_len := 0]
         in if cstr buf = str ''EXIT'' then Some (Inr (client_sock, state, rt))
         else bindR (Some (client_command E buf state rt)) (\<lambda>(response, state, rt).
              bindR (Some (send_encypted_data E client_sock response (strlen response) session_key state))
                (\<lambda>(_, client_sock, state). client_loop E client_sock session_key state rt)))"

definition handle_client ::
  "('c, 'm, 'k) ext \<Rightarrow> sock \<Rightarrow> rng \<Rightarrow> router \<Rightarrow> (sock \<times> rng \<times> router) run" where
  "handle_client E client_sock state rt =
     bindR (Some (server_get_session_key E client_sock (replicate AES_KEY_SIZE 0) state))
       (\<lambda>(client_sock, session_key, state).
     bindR (client_loop E client_sock session_key state rt) (\<lambda>(client_sock, state, rt).
     Some (Inr (close client_sock, state, rt))))"

text \<open>The endless accept loop, over the outcomes of \<open>accept\<close> so far (\<open>None\<close> for a failure).\<close>

fun accept_loop ::
  "('c, 'm, 'k) ext \<Rightarrow> sock option list \<Rightarrow> rng \<Rightarrow> router \<Rightarrow> (sock list \<times> rng \<times> router) run" where
  "accept_loop E [] state rt = Some (Inr ([], state, rt))"
| "accept_loop E (None # cs) state rt = accept_loop E cs state rt"
| "accept_loop E (Some client_sock # cs) state rt =
     bindR (handle_client E client_sock state rt) (\<lambda>(client_sock, state, rt).
     bindR (accept_loop E cs state rt) (\<lambda>(socks, state, rt).
     Some (Inr (client_sock # socks, state, rt))))"

definition main ::
  "('c, 'm, 'k) ext \<Rightarrow> startup \<Rightarrow> (string \<Rightarrow> dial) \<Rightarrow> sock option list \<Rightarrow> (sock list \<times> rng \<times> router) run" where
  "main E u net connections =
     (if socket_result u < 0 then Some (Inl ExitFailure)
      else if bind_result u < 0 then Some (Inl ExitFailure)
      else if listen_result u < 0 then Some (Inl ExitFailure)
      else bindR (Some (gmp_randseed_ui gmp_randinit_mt (start_time u))) (\<lambda>state.
           bindR (Some (connect_and_key_exchange_with_servers E net server_ips state))
             (\<lambda>(socks, keys, state).
           accept_loop E connections state
             \<lparr>current_server = 0, server_sockets = socks, server_session_keys = keys\<rparr>)))"


section \<open>One command to one server\<close>

definition router_wf :: "router \<Rightarrow> bool" where
  "router_wf rt \<longleftrightarrow> length (server_sockets rt) = 3 \<and> length (server_session_keys rt) = 3
     \<and> (\<forall>k \<in> set (server_session_keys rt). length k = 32) \<and> current_server rt < 3"

lemma router_wf_key: "router_wf rt \<Longrightarrow> i < 3 \<Longrightarrow> length (server_session_keys rt ! i) = 32"
  by (simp add: router_wf_def)

lemma no_response_props: "0 \<notin> set no_response" "length no_response = 38"
  by (simp_all add: no_response_def str_def)

text \<open>
  Whatever an orderly server answers, the command reaches it encrypted under its key, and the
  router has the answer, or the fixed text when there is none.
\<close>

lemma send_command_returns:
  assumes a: "channel_ok a E" and rt: "router_wf rt" and i: "i < 3" and r: "length response = 102400"
    and o: "orderly 2080 (rx (server_sockets rt ! i))"
  obtains p g' resp len d s' where
    "send_command_to_server E i message response g rt =
       Inr (resp, g', rt\<lparr>server_sockets := (server_sockets rt)[i := s']\<rparr>)"
    and "carries a (server_session_keys rt ! i) (cstr message) p"
    and "receive_encypted_data E (send (server_sockets rt ! i) p) (server_session_keys rt ! i) = Inr (len, d, s')"
    and "tx s' = tx (server_sockets rt ! i) @ [p]"
    and "cstr resp = (if 0 < len then cstr (take (nat len) (the d)) else no_response)"
    and "length resp = 102400" and "orderly 2080 (rx s')"
proof -
  let ?k = "server_session_keys rt ! i" and ?s = "server_sockets rt ! i"
  have k: "length ?k = 32" using router_wf_key [OF rt i] .
  obtain p g' where p: "send_encypted_data E ?s message (strlen message) ?k g = Inr (32 + strlen message, send ?s p, g')"
    "carries a ?k (cstr message) p"
    using aes.sends [OF a k strlen_le, of ?s message g] by (auto simp: take_strlen)
  obtain len d s' where l: "receive_encypted_data E (send ?s p) ?k = Inr (len, d, s')"
    "tx s' = tx (send ?s p)" "0 < len \<longrightarrow> (\<exists>buf. d = Some buf \<and> nat len < length buf)"
    "nat len \<le> 2048" "orderly 2080 (rx s')"
    using receive_encypted_data_orderly [OF a k, of "send ?s p"] o by (metis send_sel(1))
  let ?rt = "rt\<lparr>server_sockets := (server_sockets rt)[i := s']\<rparr>"
  have idx: "\<not> i \<ge> length (server_sockets rt)" "\<not> i \<ge> length (server_session_keys rt)"
    using rt i by (simp_all add: router_wf_def)
  show ?thesis
  proof (cases "0 < len")
    case True
    then obtain u where u: "d = Some u" "nat len < length u" using l(3) by blast
    let ?r = "(memcpy response 0 u (nat len))[nat len := 0]"
    have "cstr ?r = cstr (take (nat len) u)"
      using u(2) r l(4) by (cases "drop (nat len) response") (simp_all add: memcpy_def list_update_append cstr_cut)
    moreover have "send_command_to_server E i message response g rt = Inr (?r, g', ?rt)"
      using p(1) l(1,4) u True idx r by (simp add: send_command_to_server_def Let_def)
    ultimately show ?thesis using that [of ?r g' s' p len d] p(2) l u(1,2) True r by simp
  next
    case False
    let ?r = "memcpy response 0 (no_response @ [0]) (length no_response + 1)"
    have "cstr ?r = no_response"
      using no_response_props by (simp add: memcpy_def cstr_append_NUL)
    moreover have "send_command_to_server E i message response g rt = Inr (?r, g', ?rt)"
      using p(1) l(1) False idx by (simp add: send_command_to_server_def Let_def)
    moreover have "length ?r = 102400" using no_response_props(2) r by simp
    ultimately show ?thesis using that [of ?r g' s' p len d] p(2) l False by simp
  qed
qed

lemma router_wf_update [simp]: "router_wf (rt\<lparr>server_sockets := (server_sockets rt)[i := s]\<rparr>) \<longleftrightarrow> router_wf rt"
  by (simp add: router_wf_def)

text \<open>
  With an answer waiting.  The bytes sent do not depend on the answer, so that a server which
  is given them can be the one that answers.
\<close>

lemma send_command_wire:
  assumes a: "channel_ok a E" and k: "length k = 32"
  obtains p g' where "carries a k (cstr message) p"
    and "\<And>rt i response q rest m. router_wf rt \<Longrightarrow> i < 3 \<Longrightarrow> server_session_keys rt ! i = k \<Longrightarrow>
      length response = 102400 \<Longrightarrow> rx (server_sockets rt ! i) = Seg q # rest \<Longrightarrow> carries a k m q \<Longrightarrow>
      0 < length m \<Longrightarrow> length m \<le> 2048 \<Longrightarrow>
      \<exists>resp. send_command_to_server E i message response g rt =
         Inr (resp, g', rt\<lparr>server_sockets := (server_sockets rt)
           [i := (send (server_sockets rt ! i) p)\<lparr>rx := rest\<rparr>]\<rparr>)
        \<and> cstr resp = cstr m \<and> length resp = 102400"
proof -
  obtain p g' where p: "\<And>s. send_encypted_data E s message (strlen message) k g = Inr (32 + strlen message, send s p, g')"
    "carries a k (cstr message) p"
    using aes.sends_all [OF a k strlen_le, of message g] by (auto simp: take_strlen)
  show ?thesis
  proof (rule that [OF p(2), of g'])
    fix rt i response q rest m
    assume rt: "router_wf rt" and i: "i < 3" and key: "server_session_keys rt ! i = k"
      and r: "length (response :: bytes) = 102400" and rx: "rx (server_sockets rt ! i) = Seg q # rest"
      and m: "carries a k m q" "0 < length m" "length m \<le> 2048"
    let ?s = "server_sockets rt ! i"
    obtain b where l: "receive_encypted_data E (send ?s p) k = Inr (int (length m), Some (m @ b), (send ?s p)\<lparr>rx := rest\<rparr>)"
      using aes.receives [OF a k m(1,2,3), of "send ?s p" rest] rx by auto
    let ?r = "(memcpy response 0 (m @ b) (length m))[length m := 0]"
    have "send_command_to_server E i message response g rt =
       Inr (?r, g', rt\<lparr>server_sockets := (server_sockets rt)[i := (send ?s p)\<lparr>rx := rest\<rparr>]\<rparr>)"
      using p(1) l key m rt i r by (simp add: send_command_to_server_def router_wf_def Let_def)
    moreover have "cstr ?r = cstr m"
      using m r by (cases "drop (length m) response") (simp_all add: memcpy_def list_update_append cstr_cut)
    ultimately show "\<exists>resp. send_command_to_server E i message response g rt =
         Inr (resp, g', rt\<lparr>server_sockets := (server_sockets rt)
           [i := (send (server_sockets rt ! i) p)\<lparr>rx := rest\<rparr>]\<rparr>)
        \<and> cstr resp = cstr m \<and> length resp = 102400"
      using m r by (intro exI [of _ ?r]) simp
  qed
qed

section \<open>Commands of a client\<close>

text \<open>The state of the router while it serves: three orderly servers with the keys \<open>ks\<close>.\<close>

definition router_ok :: "bytes list \<Rightarrow> router \<Rightarrow> bool" where
  "router_ok ks rt \<longleftrightarrow> router_wf rt \<and> server_session_keys rt = ks
     \<and> (\<forall>s \<in> set (server_sockets rt). orderly 2080 (rx s))"

lemma router_ok_update:
  "router_ok ks rt \<Longrightarrow> orderly 2080 (rx s) \<Longrightarrow> router_ok ks (rt\<lparr>server_sockets := (server_sockets rt)[i := s]\<rparr>)"
  by (auto simp: router_ok_def dest: set_update_subset_insert [THEN subsetD])

lemma client_command_total:
  assumes a: "channel_ok a E" and rt: "router_ok ks rt"
  shows "\<exists>resp g' rt'. client_command E msg g rt = Inr (resp, g', rt') \<and> router_ok ks rt'"
proof -
  have cmd: "\<exists>resp g' rt'. send_command_to_server E i m (replicate 102400 0) g rt = Inr (resp, g', rt') \<and> router_ok ks rt'"
    if "router_ok ks rt" "i < 3" for i m g rt
  proof -
    have wf: "router_wf rt" and o: "orderly 2080 (rx (server_sockets rt ! i))"
      using that by (auto simp: router_ok_def router_wf_def)
    show ?thesis
      using send_command_returns [OF a wf that(2) length_replicate o, where message = m and g = g]
        router_ok_update [OF that(1)] by metis
  qed
  have all: "\<exists>resp g' rt'. retrieve_from E is m f g rt = Inr (resp, g', rt') \<and> router_ok ks rt'"
    if "router_ok ks rt" "\<forall>i \<in> set is. i < 3" for "is" m f g rt
    using that
  proof (induction "is" arbitrary: f g rt)
    case (Cons i "is")
    obtain resp g1 rt1 where "send_command_to_server E i m (replicate 102400 0) g rt = Inr (resp, g1, rt1)"
      "router_ok ks rt1" using cmd [of rt i m g] Cons.prems by auto
    then show ?case using Cons.IH [of rt1] Cons.prems(2) by simp
  qed simp
  show ?thesis
  proof (cases "cstr msg = str ''RETRIEVE''")
    case True
    then show ?thesis using all [OF rt, of "[0..<3]"] by (simp add: client_command_def)
  next
    case False
    let ?rt = "rt\<lparr>current_server := (current_server rt + 1) mod 3\<rparr>"
    have "router_ok ks ?rt" "current_server rt < 3" using rt by (auto simp: router_ok_def router_wf_def)
    then show ?thesis using cmd [of ?rt "current_server rt" msg g] False
      by (simp add: client_command_def Let_def)
  qed
qed

lemma client_loop_total:
  assumes "channel_ok a E" and "length key = 32" and "router_ok ks rt" and "orderly 2080 (rx s)"
  shows "\<exists>s' g' rt' qs. client_loop E s key g rt = Some (Inr (s', g', rt')) \<and> router_ok ks rt' \<and> tx s' = tx s @ qs"
  using assms(3,4)
proof (induction "rx_size (rx s)" arbitrary: s g rt rule: less_induct)
  case less
  obtain len d s1 where r: "receive_encypted_data E s key = Inr (len, d, s1)" "tx s1 = tx s" "orderly 2080 (rx s1)"
    and b: "0 < len \<longrightarrow> (\<exists>buf. d = Some buf \<and> nat len < length buf \<and> rx_size (rx s1) < rx_size (rx s))"
    using receive_encypted_data_orderly [OF assms(1,2) less.prems(2)] by metis
  show ?case
  proof (cases "0 < len")
    case False
    then show ?thesis using r less.prems by (subst client_loop.simps) auto
  next
    case True
    then obtain buf where buf: "d = Some buf" "nat len < length buf" "rx_size (rx s1) < rx_size (rx s)"
      using b by blast
    let ?b = "buf[nat len := 0]"
    obtain resp g1 rt1 where c: "client_command E ?b g rt = Inr (resp, g1, rt1)" "router_ok ks rt1"
      using client_command_total [OF assms(1) less.prems(1)] by blast
    obtain p g2 where "send_encypted_data E s1 resp (strlen resp) key g1 = Inr (32 + strlen resp, send s1 p, g2)"
      using aes.sends [OF assms(1,2) strlen_le] by blast
    moreover obtain s' g' rt' qs where "client_loop E (send s1 p) key g2 rt1 = Some (Inr (s', g', rt'))"
      "router_ok ks rt'" "tx s' = tx (send s1 p) @ qs"
      using less.hyps [of "send s1 p" rt1 g2] buf(3) c(2) r(3) by auto
    ultimately show ?thesis
      using r buf c less.prems True by (subst client_loop.simps) (simp add: Let_def)
  qed
qed

text \<open>The text of one server in the answer to a retrieval.\<close>

definition server_text :: "nat \<Rightarrow> bytes \<Rightarrow> bytes" where
  "server_text i t = take 2047 (str ''Server '' @ dec (i + 1) @ str [CHR '':'', CHR 0x0A] @ t @ str [CHR 0x0A])"

lemma cstr_format: "0 \<notin> set (cstr t) \<Longrightarrow> cstr (format_server_response E i t) = server_text i (cstr t)"
  by (simp add: format_server_response_def server_text_def cstr_simps dec_nonzero str_def)

definition answers :: "gcm_alg \<Rightarrow> router \<Rightarrow> nat \<Rightarrow> bytes \<Rightarrow> bool" where
  "answers a rt i m \<longleftrightarrow> 0 < length m \<and> length m \<le> 2048 \<and>
     (\<exists>q rest. rx (server_sockets rt ! i) = Seg q # rest \<and> carries a (server_session_keys rt ! i) m q)"

text \<open>All servers in turn; again the bytes sent are fixed before the answers are known.\<close>

lemma retrieve_from_wire:
  assumes a: "channel_ok a E" and ks: "length ks = 3" "\<forall>k \<in> set ks. length k = 32"
  shows "\<forall>i \<in> set is. i < 3 \<Longrightarrow> distinct is \<Longrightarrow>
    \<exists>ps g'. (\<forall>i \<in> set is. carries a (ks ! i) (cstr msg) (ps i)) \<and>
      (\<forall>rt f m. router_wf rt \<longrightarrow> server_session_keys rt = ks \<longrightarrow> (\<forall>i \<in> set is. answers a rt i (m i)) \<longrightarrow>
         length f = 307200 \<longrightarrow> length (cstr f) + 2047 * length is < 307200 \<longrightarrow>
         (\<exists>r rt'. retrieve_from E is msg f g rt = Inr (r, g', rt')
           \<and> cstr r = cstr f @ concat (map (\<lambda>i. server_text i (cstr (m i))) is)
           \<and> router_wf rt' \<and> current_server rt' = current_server rt \<and> server_session_keys rt' = ks
           \<and> (\<forall>i \<in> set is. tx (server_sockets rt' ! i) = tx (server_sockets rt ! i) @ [ps i])
           \<and> (\<forall>i. i \<notin> set is \<longrightarrow> server_sockets rt' ! i = server_sockets rt ! i)))"
proof (induction "is" arbitrary: g)
  case Nil
  then show ?case by auto
next
  case (Cons i "is")
  have i: "i < 3" "i \<notin> set is" and is_ok: "\<forall>i \<in> set is. i < 3" "distinct is" using Cons.prems by auto
  have k: "length (ks ! i) = 32" using ks i(1) by simp
  obtain p g1 where p: "carries a (ks ! i) (cstr msg) p"
    and cmd: "\<And>rt j response q rest m. router_wf rt \<Longrightarrow> j < 3 \<Longrightarrow> server_session_keys rt ! j = ks ! i \<Longrightarrow>
      length response = 102400 \<Longrightarrow> rx (server_sockets rt ! j) = Seg q # rest \<Longrightarrow> carries a (ks ! i) m q \<Longrightarrow>
      0 < length m \<Longrightarrow> length m \<le> 2048 \<Longrightarrow>
      \<exists>resp. send_command_to_server E j msg response g rt =
         Inr (resp, g1, rt\<lparr>server_sockets := (server_sockets rt)
           [j := (send (server_sockets rt ! j) p)\<lparr>rx := rest\<rparr>]\<rparr>)
        \<and> cstr resp = cstr m \<and> length resp = 102400"
    using send_command_wire [OF a k, of msg g] by blast
  obtain ps g' where ps: "\<forall>i \<in> set is. carries a (ks ! i) (cstr msg) (ps i)"
    and IH: "\<And>rt f m. router_wf rt \<Longrightarrow> server_session_keys rt = ks \<Longrightarrow> (\<forall>i \<in> set is. answers a rt i (m i)) \<Longrightarrow>
         length f = 307200 \<Longrightarrow> length (cstr f) + 2047 * length is < 307200 \<Longrightarrow>
         (\<exists>r rt'. retrieve_from E is msg f g1 rt = Inr (r, g', rt')
           \<and> cstr r = cstr f @ concat (map (\<lambda>i. server_text i (cstr (m i))) is)
           \<and> router_wf rt' \<and> current_server rt' = current_server rt \<and> server_session_keys rt' = ks
           \<and> (\<forall>i \<in> set is. tx (server_sockets rt' ! i) = tx (server_sockets rt ! i) @ [ps i])
           \<and> (\<forall>i. i \<notin> set is \<longrightarrow> server_sockets rt' ! i = server_sockets rt ! i))"
    using Cons.IH [OF is_ok, of g1] by blast
  have "\<exists>r rt'. retrieve_from E (i # is) msg f g rt = Inr (r, g', rt')
        \<and> cstr r = cstr f @ concat (map (\<lambda>i. server_text i (cstr (m i))) (i # is))
        \<and> router_wf rt' \<and> current_server rt' = current_server rt \<and> server_session_keys rt' = ks
        \<and> (\<forall>j \<in> set (i # is). tx (server_sockets rt' ! j) = tx (server_sockets rt ! j) @ [(ps(i := p)) j])
        \<and> (\<forall>j. j \<notin> set (i # is) \<longrightarrow> server_sockets rt' ! j = server_sockets rt ! j)"
    if rt: "router_wf rt" "server_session_keys rt = ks" and ans: "\<forall>j \<in> set (i # is). answers a rt j (m j)"
      and f: "length f = 307200" "length (cstr f) + 2047 * length (i # is) < 307200" for rt f m
  proof -
    let ?s = "server_sockets rt ! i"
    obtain q rest where q: "rx ?s = Seg q # rest" "carries a (ks ! i) (m i) q" "0 < length (m i)" "length (m i) \<le> 2048"
      using ans rt(2) by (auto simp: answers_def)
    let ?rt = "rt\<lparr>server_sockets := (server_sockets rt)[i := (send ?s p)\<lparr>rx := rest\<rparr>]\<rparr>"
    obtain resp where c: "send_command_to_server E i msg (replicate 102400 0) g rt = Inr (resp, g1, ?rt)"
      and resp: "cstr resp = cstr (m i)"
      using cmd [OF rt(1) i(1) _ length_replicate q] rt(2) by auto
    let ?f = "strncat f (format_server_response E i resp) (307200 - strlen f - 1)"
    have l2: "length (server_text i (cstr (m i))) \<le> 2047" by (simp add: server_text_def)
    have f': "cstr ?f = cstr f @ server_text i (cstr (m i))"
      using f(2) l2 cstr_format [of resp E i] resp by (simp add: cstr_simps strlen_def)
    have f2: "length ?f = 307200" "length (cstr ?f) + 2047 * length is < 307200"
      using f l2 by (simp_all only: f') (simp_all add: strlen_def)
    have nth: "server_sockets ?rt ! j = (if j = i then (send ?s p)\<lparr>rx := rest\<rparr> else server_sockets rt ! j)" for j
      using i(1) rt(1) by (simp add: router_wf_def nth_list_update)
    have ans': "\<forall>j \<in> set is. answers a ?rt j (m j)"
      using ans i(2) unfolding answers_def nth by auto
    obtain r rt' where R: "retrieve_from E is msg ?f g1 ?rt = Inr (r, g', rt')"
      "cstr r = cstr ?f @ concat (map (\<lambda>i. server_text i (cstr (m i))) is)"
      "router_wf rt'" "current_server rt' = current_server ?rt" "server_session_keys rt' = ks"
      "\<forall>i \<in> set is. tx (server_sockets rt' ! i) = tx (server_sockets ?rt ! i) @ [ps i]"
      "\<forall>i. i \<notin> set is \<longrightarrow> server_sockets rt' ! i = server_sockets ?rt ! i"
      using IH [OF _ _ ans' f2] rt by auto
    have "retrieve_from E (i # is) msg f g rt = Inr (r, g', rt')" using c R(1) by simp
    then show ?thesis
      using R(2-7) f' i(2) unfolding nth by (intro exI [of _ r] exI [of _ rt']) auto
  qed
  moreover have "\<forall>j \<in> set (i # is). carries a (ks ! j) (cstr msg) ((ps(i := p)) j)"
    using p ps i(2) by auto
  ultimately show ?case by (intro exI [of _ "ps(i := p)"] exI [of _ g']) blast
qed

end
