(* ===== verification/Router_Properties.thy ===== *)
theory Router_Properties
  imports Router Key_Exchange_Properties
begin

text \<open>
  What the router promises: data go to the servers in turn, a retrieval asks all of them,
  puts the answers together and sends them to the client, a server that has closed its connection
  is replaced by a fixed text, and clients and servers that keep to the protocol, whatever they
  send, cannot break its state or keep it from serving the next client.
\<close>

section \<open>Example\<close>

text \<open>Three servers, each about to answer \<open>ok\<close>.\<close>

definition toy_sock :: sock where
  "toy_sock = \<lparr>rx = [Seg (toy_seal (str ''ok''))], tx = [], is_open = True\<rparr>"

definition toy_router :: router where
  "toy_router = \<lparr>current_server = 2, server_sockets = [toy_sock, toy_sock, toy_sock],
     server_session_keys = [replicate 32 0, replicate 32 0, replicate 32 0]\<rparr>"

lemma toy_router_wf: "router_wf toy_router"
  by (simp add: router_wf_def toy_router_def)

lemma toy_answers: "i < 3 \<Longrightarrow> answers (toy_ctr, toy_tag) toy_router i (str ''ok'')"
  using toy_seal_carries [of "replicate 32 0" "str ''ok''"]
  by (auto simp: answers_def toy_router_def toy_sock_def str_def less_Suc_eq numeral_3_eq_3)

section \<open>Data\<close>

text \<open>
  C14.  Round robin: data from a client go, encrypted under that server's key, to the server whose
  turn it is and to no other; its answer is what the client is told; the turn passes to the
  next of the three.
\<close>

theorem data_to_current_server:
  assumes "channel_ok a E" and "router_wf rt" and "cstr msg \<noteq> str ''RETRIEVE''"
    and "c = current_server rt" and "rx (server_sockets rt ! c) = Seg q # rest"
    and "carries a (server_session_keys rt ! c) m q" and "0 < length m" and "length m \<le> 2048"
  shows "\<exists>p g' resp. client_command E msg g rt = Inr (resp, g', rt\<lparr>current_server := (c + 1) mod 3,
      server_sockets := (server_sockets rt)[c := (send (server_sockets rt ! c) p)\<lparr>rx := rest\<rparr>]\<rparr>)
    \<and> carries a (server_session_keys rt ! c) (cstr msg) p \<and> cstr resp = cstr m"
proof -
  let ?rt = "rt\<lparr>current_server := (c + 1) mod 3\<rparr>"
  have c: "c < 3" "length (server_session_keys rt ! c) = 32" and rt: "router_wf ?rt"
    using assms(2,4) router_wf_key [OF assms(2)] by (simp_all add: router_wf_def)
  define k where "k = server_session_keys rt ! c"
  have k: "length k = 32" "server_session_keys ?rt ! c = k" using c(2) by (simp_all add: k_def)
  obtain p g' where p: "carries a k (cstr msg) p"
    and cmd: "\<And>rt i response q rest m. router_wf rt \<Longrightarrow> i < 3 \<Longrightarrow> server_session_keys rt ! i = k \<Longrightarrow>
      length response = 102400 \<Longrightarrow> rx (server_sockets rt ! i) = Seg q # rest \<Longrightarrow> carries a k m q \<Longrightarrow>
      0 < length m \<Longrightarrow> length m \<le> 2048 \<Longrightarrow>
      \<exists>resp. send_command_to_server E i msg response g rt =
         Inr (resp, g', rt\<lparr>server_sockets := (server_sockets rt)
           [i := (send (server_sockets rt ! i) p)\<lparr>rx := rest\<rparr>]\<rparr>)
        \<and> cstr resp = cstr m \<and> length resp = 102400"
    by (rule send_command_wire [OF assms(1) k(1), where message = msg and g = g]) blast
  obtain resp where "send_command_to_server E c msg (replicate 102400 0) g ?rt =
         Inr (resp, g', ?rt\<lparr>server_sockets := (server_sockets ?rt)
           [c := (send (server_sockets ?rt ! c) p)\<lparr>rx := rest\<rparr>]\<rparr>)" "cstr resp = cstr m"
    using cmd [OF rt c(1) k(2) length_replicate, of q rest m] assms(5-8) by (auto simp: k_def)
  then show ?thesis
    using assms(3,4) p unfolding k_def
    by (intro exI [of _ p] exI [of _ g'] exI [of _ resp]) (simp add: client_command_def)
qed

text \<open>C14, witness: the third server's turn in the example.\<close>

theorem data_to_current_server_witness:
  "\<exists>p g' resp. client_command toy_ext (str ''data'') toy_server_rng toy_router
      = Inr (resp, g', toy_router\<lparr>current_server := (2 + 1) mod 3,
      server_sockets := (server_sockets toy_router)[2 := (send (server_sockets toy_router ! 2) p)\<lparr>rx := []\<rparr>]\<rparr>)
    \<and> carries (toy_ctr, toy_tag) (server_session_keys toy_router ! 2) (cstr (str ''data'')) p
    \<and> cstr resp = cstr (str ''ok'')"
  by (rule data_to_current_server [OF toy_channel_ok toy_router_wf, where q = "toy_seal (str ''ok'')"])
     (use toy_seal_carries in \<open>simp_all add: toy_router_def toy_sock_def\<close>, simp_all add: str_def cstr_def)

section \<open>Retrieval\<close>

lemma retrieve_command:
  assumes "channel_ok a E" and "router_wf rt" and "cstr msg = str ''RETRIEVE''"
    and "\<forall>i < 3. answers a rt i (m i)"
  shows "\<exists>r g' rt'. client_command E msg g rt = Inr (r, g', rt')
    \<and> cstr r = server_text 0 (cstr (m 0)) @ server_text 1 (cstr (m 1)) @ server_text 2 (cstr (m 2))
    \<and> current_server rt' = current_server rt
    \<and> (\<forall>i < 3. \<exists>p. tx (server_sockets rt' ! i) = tx (server_sockets rt ! i) @ [p]
          \<and> carries a (server_session_keys rt ! i) (str ''RETRIEVE'') p)"
proof -
  let ?ks = "server_session_keys rt" and ?f = "replicate 307200 (0::byte)"
  have ks: "length ?ks = 3" "\<forall>k \<in> set ?ks. length k = 32" using assms(2) by (simp_all add: router_wf_def)
  have is3: "\<forall>i \<in> set [0, 1, 2::nat]. i < 3" "distinct [0, 1, 2::nat]" by simp_all
  obtain ps g' where ps: "\<forall>i \<in> set [0, 1, 2]. carries a (?ks ! i) (cstr msg) (ps i)"
    and run: "\<forall>rt' f m. router_wf rt' \<longrightarrow> server_session_keys rt' = ?ks \<longrightarrow> (\<forall>i \<in> set [0, 1, 2]. answers a rt' i (m i)) \<longrightarrow>
         length f = 307200 \<longrightarrow> length (cstr f) + 2047 * length [0, 1, 2::nat] < 307200 \<longrightarrow>
         (\<exists>r rt''. retrieve_from E [0, 1, 2] msg f g rt' = Inr (r, g', rt'')
           \<and> cstr r = cstr f @ concat (map (\<lambda>i. server_text i (cstr (m i))) [0, 1, 2])
           \<and> router_wf rt'' \<and> current_server rt'' = current_server rt' \<and> server_session_keys rt'' = ?ks
           \<and> (\<forall>i \<in> set [0, 1, 2]. tx (server_sockets rt'' ! i) = tx (server_sockets rt' ! i) @ [ps i])
           \<and> (\<forall>i. i \<notin> set [0, 1, 2] \<longrightarrow> server_sockets rt'' ! i = server_sockets rt' ! i))"
    using retrieve_from_wire [OF assms(1) ks is3, of msg g] by blast
  have ans: "\<forall>i \<in> set [0, 1, 2]. answers a rt i (m i)" using assms(4) by simp
  have "length ?f = 307200" "length (cstr ?f) + 2047 * length [0, 1, 2::nat] < 307200" by simp_all
  with run assms(2) ans obtain r rt' where R: "retrieve_from E [0, 1, 2] msg ?f g rt = Inr (r, g', rt')"
    "cstr r = cstr ?f @ concat (map (\<lambda>i. server_text i (cstr (m i))) [0, 1, 2])"
    "current_server rt' = current_server rt"
    "\<forall>i \<in> set [0, 1, 2]. tx (server_sockets rt' ! i) = tx (server_sockets rt ! i) @ [ps i]"
    by blast
  have three: "[0..<3] = [0, 1, 2::nat]" by (simp add: upt_rec)
  have "client_command E msg g rt = Inr (r, g', rt')"
    using assms(3) R(1) three by (simp add: client_command_def del: upt_rec_numeral)
  moreover have "i < 3 \<Longrightarrow> i \<in> set [0, 1, 2::nat]" for i by auto
  ultimately show ?thesis using R(2-4) ps assms(3) by (intro exI [of _ r] exI [of _ g'] exI [of _ rt']) auto
qed

lemma client_loop_end: "rx s = [] \<Longrightarrow> client_loop E s key g rt = Some (Inr (s, g, rt))"
  by (subst client_loop.simps) (simp add: receive_encypted_data_closed)

text \<open>
  C15.  A client that asks for the data and closes the connection: each of the three servers is sent
  one \<open>RETRIEVE\<close>, encrypted under its key, and nothing else; the client is sent one message that
  carries the answers of the servers one after the other, in the order of their numbers, each headed
  by \<open>Server n:\<close> and cut so that the piece has at most 2047 bytes; the turn stays where it was.
  The message can have up to 6141 bytes; what becomes of one of more than 2048 is
  \<open>oversized_message_lost\<close>.
\<close>

theorem retrieve_asks_all_servers:
  assumes "channel_ok a E" and "length key = 32" and "router_wf rt"
    and "rx s = [Seg p]" and "carries a key msg p" and "length msg \<le> 2048" and "cstr msg = str ''RETRIEVE''"
    and "\<forall>i < 3. answers a rt i (m i)"
  shows "\<exists>q g' rt'. client_loop E s key g rt = Some (Inr (send (s\<lparr>rx := []\<rparr>) q, g', rt'))
    \<and> carries a key (server_text 0 (cstr (m 0)) @ server_text 1 (cstr (m 1)) @ server_text 2 (cstr (m 2))) q
    \<and> current_server rt' = current_server rt
    \<and> (\<forall>i < 3. \<exists>p. tx (server_sockets rt' ! i) = tx (server_sockets rt ! i) @ [p]
          \<and> carries a (server_session_keys rt ! i) (str ''RETRIEVE'') p)"
proof -
  let ?s = "s\<lparr>rx := []\<rparr>"
  have pos: "0 < length msg" using assms(7) by (cases msg) (auto simp: str_def)
  obtain rest where rest: "length rest = length msg"
    and recv: "receive_encypted_data E s key = Inr (int (length msg), Some (msg @ rest), ?s)"
    using aes.receives [OF assms(1,2,5) pos assms(6,4)] by blast
  let ?b = "(msg @ rest)[length msg := 0]"
  have b: "cstr ?b = str ''RETRIEVE''" using cstr_terminated [OF rest pos] assms(7) by simp
  obtain r g1 rt' where R: "client_command E ?b g rt = Inr (r, g1, rt')"
    "cstr r = server_text 0 (cstr (m 0)) @ server_text 1 (cstr (m 1)) @ server_text 2 (cstr (m 2))"
    "current_server rt' = current_server rt"
    "\<forall>i < 3. \<exists>p. tx (server_sockets rt' ! i) = tx (server_sockets rt ! i) @ [p]
          \<and> carries a (server_session_keys rt ! i) (str ''RETRIEVE'') p"
    using retrieve_command [OF assms(1,3) b assms(8), of g] by blast
  obtain q g2 where q: "send_encypted_data E ?s r (strlen r) key g1 = Inr (32 + strlen r, send ?s q, g2)"
    "carries a key (cstr r) q"
    using aes.sends [OF assms(1,2) strlen_le, of ?s r g1] by (auto simp: take_strlen)
  have "str ''RETRIEVE'' \<noteq> str ''EXIT''" by (simp add: str_def)
  then have "client_loop E s key g rt = client_loop E (send ?s q) key g2 rt'"
    using recv rest pos b R(1) q(1) by (simp add: client_loop.simps [of E s])
  then show ?thesis using R(2-4) q(2) client_loop_end [of "send ?s q"] by (intro exI conjI) simp_all
qed

text \<open>C15, witness: the request of the client program and the three example servers.\<close>

theorem retrieve_asks_all_servers_witness:
  "\<exists>q g' rt'. client_loop toy_ext
      \<lparr>rx = [Seg (toy_seal (str ''RETRIEVE'' @ replicate 248 0))], tx = [], is_open = True\<rparr> (replicate 32 0)
      toy_server_rng toy_router
    = Some (Inr (send (\<lparr>rx = [Seg (toy_seal (str ''RETRIEVE'' @ replicate 248 0))], tx = [], is_open = True\<rparr>\<lparr>rx := []\<rparr>) q,
        g', rt'))
    \<and> carries (toy_ctr, toy_tag) (replicate 32 0)
        (server_text 0 (cstr (str ''ok'')) @ server_text 1 (cstr (str ''ok'')) @ server_text 2 (cstr (str ''ok''))) q
    \<and> current_server rt' = current_server toy_router
    \<and> (\<forall>i < 3. \<exists>p. tx (server_sockets rt' ! i) = tx (server_sockets toy_router ! i) @ [p]
          \<and> carries (toy_ctr, toy_tag) (server_session_keys toy_router ! i) (str ''RETRIEVE'') p)"
proof (rule retrieve_asks_all_servers [OF toy_channel_ok _ toy_router_wf _ toy_seal_carries])
  have "0 \<notin> set (str ''RETRIEVE'')" by (simp add: str_def)
  then show "cstr (str ''RETRIEVE'' @ replicate 248 0) = str ''RETRIEVE''" by (rule cstr_append_zeros)
  show "length (str ''RETRIEVE'' @ replicate 248 (0::byte)) \<le> 2048" by (simp add: str_def)
qed (simp_all add: toy_answers)

text \<open>
  When the server whose turn it is has closed its connection, the client is told the fixed text
  \<open>Reached size limit for server response\<close>; when it keeps silent, the router waits.
\<close>

theorem closed_server_text:
  assumes "channel_ok a E" and "router_wf rt" and "cstr msg \<noteq> str ''RETRIEVE''"
    and "rx (server_sockets rt ! current_server rt) = []"
  shows "\<exists>g' resp rt'. client_command E msg g rt = Inr (resp, g', rt') \<and> router_wf rt'
    \<and> cstr resp = str ''Reached size limit for server response''"
proof -
  let ?rt = "rt\<lparr>current_server := (current_server rt + 1) mod 3\<rparr>"
  have rt: "router_wf ?rt" and c: "current_server rt < 3" using assms(2) by (simp_all add: router_wf_def)
  have o: "orderly 2080 (rx (server_sockets ?rt ! current_server rt))"
    using assms(4) by (simp add: orderly_def empty_message_def)
  obtain p g' resp len d s' where c: "send_command_to_server E (current_server rt) msg (replicate 102400 0) g ?rt =
       Inr (resp, g', ?rt\<lparr>server_sockets := (server_sockets ?rt)[current_server rt := s']\<rparr>)"
    and l: "receive_encypted_data E (send (server_sockets ?rt ! current_server rt) p)
         (server_session_keys ?rt ! current_server rt) = Inr (len, d, s')"
    and t: "cstr resp = (if 0 < len then cstr (take (nat len) (the d)) else no_response)"
    using send_command_returns [OF assms(1) rt c length_replicate o, where message = msg and g = g] by metis
  have "len = -1" using l assms(4) receive_encypted_data_closed [of "send (server_sockets rt ! current_server rt) p" E]
    by simp
  then show ?thesis
    using c t rt assms(3) by (intro exI) (auto simp: client_command_def Let_def no_response_def router_wf_def)
qed

text \<open>A third server that has closed its connection.\<close>

theorem closed_server_text_witness:
  "\<exists>g' resp rt'. client_command toy_ext (str ''data'') toy_server_rng
      (toy_router\<lparr>server_sockets := [toy_sock, toy_sock, close toy_sock]\<rparr>) = Inr (resp, g', rt') \<and> router_wf rt'
    \<and> cstr resp = str ''Reached size limit for server response''"
  by (rule closed_server_text [OF toy_channel_ok])
     (simp_all add: router_wf_def toy_router_def, simp add: str_def cstr_def)

section \<open>The process\<close>

lemma connect_and_key_exchange_wf:
  assumes "kdf_ok E"
  shows "connect_and_key_exchange_with_servers E net ips g = Inr (socks, keys, g') \<Longrightarrow>
    length socks = length ips \<and> length keys = length ips \<and> (\<forall>k \<in> set keys. length k = 32)
    \<and> (\<forall>ip \<in> set ips. 0 \<le> dial_socket (net ip) \<and> 0 < dial_pton (net ip) \<and> 0 \<le> dial_connect (net ip))"
proof (induction ips arbitrary: socks keys g)
  case (Cons ip ips)
  obtain s k g1 w socks' keys' where "client_get_session_key E (dial_sock (net ip)) (replicate 32 0) g = Inr (s, k, g1, w)"
    "connect_and_key_exchange_with_servers E net ips g1 = Inr (socks', keys', g')"
    "socks = s # socks'" "keys = k # keys'"
    "\<not> dial_socket (net ip) < 0" "\<not> dial_pton (net ip) \<le> 0" "\<not> dial_connect (net ip) < 0"
    using Cons.prems by (auto split: if_splits)
  then show ?case
    using Cons.IH [of g1 socks' keys'] client_get_session_key_length [OF assms, of "dial_sock (net ip)" "replicate 32 0" g]
    by auto
qed simp

lemma router_handle_client_greets:
  assumes "handshake_ok a E" and "identity_ok E ''./keys/private.pem'' ''server'' sk"
    and "router_ok ks rt" and "greets (rx s)"
  shows "\<exists>s' g' rt'. handle_client E s g rt = Some (Inr (s', g', rt')) \<and> served s s' \<and> router_ok ks rt'"
proof -
  have ch: "channel_ok a E" using assms(1) by (simp add: handshake_ok_def)
  obtain s1 h key g1 where k: "server_get_session_key E s (replicate 32 0) g = Inr (s1, key, g1)"
    "length key = 32" "tx s1 = tx s @ [h]" "orderly 2080 (rx s1)"
    using server_handshake_greets [OF assms(1,2,4) length_replicate] by blast
  from client_loop_total [OF ch k(2) assms(3) k(4), of g1] show ?thesis
    using k(1,3) by (fastforce simp: handle_client_def served_def close_def)
qed

lemma router_accept_loop_greets:
  assumes "handshake_ok a E" and "identity_ok E ''./keys/private.pem'' ''server'' sk"
  shows "router_ok ks rt \<Longrightarrow> \<forall>s \<in> set (accepted cs). greets (rx s) \<Longrightarrow>
    \<exists>socks g' rt'. accept_loop E cs g rt = Some (Inr (socks, g', rt'))
      \<and> list_all2 served (accepted cs) socks \<and> router_ok ks rt'"
proof (induction cs arbitrary: g rt)
  case (Cons c cs)
  show ?case
  proof (cases c)
    case None
    then show ?thesis using Cons.IH [OF Cons.prems(1), of g] Cons.prems(2) by simp
  next
    case (Some s)
    obtain s' g1 rt1 where 1: "handle_client E s g rt = Some (Inr (s', g1, rt1))" "served s s'" "router_ok ks rt1"
      using router_handle_client_greets [OF assms Cons.prems(1), of s g] Cons.prems(2) Some by auto
    obtain socks g2 rt2 where 2: "accept_loop E cs g1 rt1 = Some (Inr (socks, g2, rt2))"
      "list_all2 served (accepted cs) socks" "router_ok ks rt2"
      using Cons.IH [OF 1(3), of g1] Cons.prems(2) Some by auto
    show ?thesis using 1 2 Some by auto
  qed
qed auto

lemma router_accept_loop_append:
  "accept_loop E cs g rt = Some (Inr (socks, g', rt')) \<Longrightarrow> accept_loop E ds g' rt' = Some (Inl f) \<Longrightarrow>
   accept_loop E (cs @ ds) g rt = Some (Inl f)"
proof (induction cs arbitrary: g rt socks)
  case (Cons c cs)
  show ?case
  proof (cases c)
    case None
    then show ?thesis using Cons by simp
  next
    case (Some s)
    obtain s1 g1 rt1 where h: "handle_client E s g rt = Some (Inr (s1, g1, rt1))"
      using Cons.prems(1) Some by (auto simp: bindR_def split: Option.bind_splits sum.splits)
    then obtain socks' where "accept_loop E cs g1 rt1 = Some (Inr (socks', g', rt'))"
      using Cons.prems(1) Some by (auto simp: bindR_def split: Option.bind_splits sum.splits)
    then show ?thesis using Cons.IH Cons.prems(2) h Some by simp
  qed
qed simp


text \<open>
  Three servers that complete the handshake and answer one request, and a client that says hello and
  sends an item.
\<close>

definition steady_net :: "string \<Rightarrow> dial" where
  "steady_net ip = \<lparr>dial_socket = 3, dial_pton = 1, dial_connect = 0,
     dial_sock = \<lparr>rx = [Seg steady_answer, Seg (toy_seal (str ''ok''))], tx = [], is_open = True\<rparr>\<rparr>"

definition steady_client :: sock where
  "steady_client = \<lparr>rx = [Seg (replicate 254 0 @ [1, 1] @ replicate 256 3 @ replicate 16 4), Seg (toy_seal (str ''x''))],
     tx = [], is_open = True\<rparr>"

lemma steady_orderly:
  "orderly 2080 [Seg (toy_seal (str ''ok''))]" "orderly 2080 [Seg (toy_seal (str ''x''))]"
  by (simp_all add: orderly_def empty_message_def toy_seal_def str_def toy_ctr_def toy_tag_def)

lemma steady_connects:
  "\<exists>socks keys g'. connect_and_key_exchange_with_servers steady_ext steady_net ips g = Inr (socks, keys, g')
    \<and> (\<forall>s \<in> set socks. orderly 2080 (rx s))"
proof (induction ips arbitrary: g)
  case (Cons ip ips)
  let ?s = "dial_sock (steady_net ip)"
  have "rx ?s = Seg steady_answer # [Seg (toy_seal (str ''ok''))]" by (simp add: steady_net_def)
  from steady_client_handshake [OF this length_replicate, of 0 g] obtain hello key g1 w where
    "client_get_session_key steady_ext ?s (replicate 32 0) g =
       Inr (send (?s\<lparr>rx := [Seg (toy_seal (str ''ok''))]\<rparr>) hello, key, g1, w)" by blast
  then show ?case using Cons.IH [of g1] steady_orderly(1) by (auto simp: steady_net_def)
qed auto


end
