(* ===== verification/Client.thy ===== *)
theory Client
  imports Key_Exchange_Properties
begin

text \<open>
  \<open>client/client.h\<close> and \<open>client/client.c\<close>: the interactive client.  Each command function returns
  the socket, the generator and what it prints as received (\<open>None\<close> when it reports an error
  and closes the connection).  The C library's generator is a parameter: \<open>libc_rand t\<close> is
  what the first \<open>rand()\<close> after \<open>srand(t)\<close> returns.
\<close>

definition MAX_LINE :: nat where [simp]: "MAX_LINE = 256"

record libc =
  libc_rand :: "nat \<Rightarrow> nat"
  clock :: "nat \<Rightarrow> nat"

section \<open>Commands\<close>

text \<open>\<open>snprintf(buffer, length, "RandomData_%d", rand())\<close> at time \<open>t\<close>.\<close>

definition generate_random_data :: "libc \<Rightarrow> nat \<Rightarrow> bytes \<Rightarrow> nat \<Rightarrow> bytes" where
  "generate_random_data L t buffer len = snprintf buffer len (str ''RandomData_'' @ dec (libc_rand L t))"

text \<open>\<open>printf("%.*s", data_len, decrypted_response)\<close>.\<close>

definition printed :: "int \<Rightarrow> bytes \<Rightarrow> bytes" where
  "printed data_len buf = cstr (take (nat data_len) buf)"

definition receive_and_print ::
  "('c, 'm, 'k) ext \<Rightarrow> sock \<Rightarrow> bytes \<Rightarrow> (sock \<times> bytes option) result" where
  "receive_and_print E sockfd session_key =
     bindE (receive_encypted_data E sockfd session_key) (\<lambda>(data_len, decrypted_response, sockfd).
     if data_len = -1 then Inr (close sockfd, None)
     else case decrypted_response of
       None \<Rightarrow> Inl (Undefined NullPointer)
     | Some buf \<Rightarrow> Inr (sockfd, Some (printed data_len buf)))"

definition store_data ::
  "('c, 'm, 'k) ext \<Rightarrow> libc \<Rightarrow> nat \<Rightarrow> sock \<Rightarrow> rng \<Rightarrow> bytes \<Rightarrow> (sock \<times> rng \<times> bytes option) result" where
  "store_data E L t sockfd state session_key =
     (let buffer = generate_random_data L t (replicate MAX_LINE 0) MAX_LINE
      in bindE (send_encypted_data E sockfd buffer (strlen buffer) session_key state) (\<lambda>(_, sockfd, state).
         bindE (receive_and_print E sockfd session_key) (\<lambda>(sockfd, out). Inr (sockfd, state, out))))"

definition retrieve_data ::
  "('c, 'm, 'k) ext \<Rightarrow> sock \<Rightarrow> rng \<Rightarrow> bytes \<Rightarrow> (sock \<times> rng \<times> bytes option) result" where
  "retrieve_data E sockfd state session_key =
     (let buffer = str ''RETRIEVE'' @ replicate (MAX_LINE - 8) 0; buffer_length = MAX_LINE
      in bindE (send_encypted_data E sockfd buffer buffer_length session_key state) (\<lambda>(_, sockfd, state).
         bindE (receive_and_print E sockfd session_key) (\<lambda>(sockfd, out). Inr (sockfd, state, out))))"

section \<open>The command loop\<close>

text \<open>\<open>fgets(command, n, stdin)\<close> on the rest of the standard input: the line read and what remains.\<close>

fun fgets :: "nat \<Rightarrow> bytes \<Rightarrow> bytes \<times> bytes" where
  "fgets 0 inp = ([], inp)"
| "fgets (Suc n) [] = ([], [])"
| "fgets (Suc n) (c # inp) = (if c = 10 then ([c], inp) else let (l, r) = fgets n inp in (c # l, r))"

text \<open>\<open>command[strcspn(command, "\n")] = 0\<close>, as a string.\<close>

definition command_of :: "bytes \<Rightarrow> bytes" where
  "command_of line = takeWhile (\<lambda>c. c \<noteq> 10) (cstr line)"

lemma fgets_append: "fgets n inp = (l, r) \<Longrightarrow> inp = l @ r"
  by (induction n inp arbitrary: l r rule: fgets.induct) (auto split: if_splits prod.splits)

lemma fgets_progress: "(l, r) = fgets n inp \<Longrightarrow> 0 < n \<Longrightarrow> inp \<noteq> [] \<Longrightarrow> length r < length inp"
  by (cases n; cases inp) (auto split: if_splits prod.splits dest: fgets_append)

text \<open>
  The loop of \<open>main\<close>: \<open>inp\<close> is the rest of the standard input, \<open>n\<close> the number of clock readings
  so far; the result lists what the commands printed.
\<close>

function command_loop ::
  "('c, 'm, 'k) ext \<Rightarrow> libc \<Rightarrow> bytes \<Rightarrow> nat \<Rightarrow> sock \<Rightarrow> rng \<Rightarrow> bytes \<Rightarrow> (sock \<times> bytes option list) result" where
  "command_loop E L inp n sockfd state session_key =
     (if inp = [] then Inr (sockfd, [])
      else let (line, inp') = fgets (MAX_LINE - 1) inp; command = command_of line
      in if command = str ''store'' then
           bindE (store_data E L (clock L n) sockfd state session_key) (\<lambda>(sockfd, state, out).
           bindE (command_loop E L inp' (Suc n) sockfd state session_key) (\<lambda>(sockfd, outs).
           Inr (sockfd, out # outs)))
         else if command = str ''retrieve'' then
           bindE (retrieve_data E sockfd state session_key) (\<lambda>(sockfd, state, out).
           bindE (command_loop E L inp' n sockfd state session_key) (\<lambda>(sockfd, outs).
           Inr (sockfd, out # outs)))
         else if command = str ''exit'' then
           bindE (send_encypted_data E sockfd (str ''EXIT'') 4 session_key state) (\<lambda>(_, sockfd, _).
           Inr (sockfd, []))
         else command_loop E L inp' n sockfd state session_key)"
  by pat_completeness auto
termination
proof (relation "measure (\<lambda>(E, L, inp, n, s, g, k). length inp)")
qed (auto dest!: fgets_progress simp del: fgets.simps)

declare command_loop.simps [simp del]

text \<open>
  \<open>main\<close>: the arguments, the results of \<open>socket\<close>, \<open>inet_pton\<close> and \<open>connect\<close> (in \<open>ret\<close>), the
  connection and the standard input.  The result is the exit status with the socket and the output.
\<close>

definition main ::
  "('c, 'm, 'k) ext \<Rightarrow> libc \<Rightarrow> limb \<Rightarrow> string list \<Rightarrow> int \<times> int \<times> int \<Rightarrow> sock \<Rightarrow> bytes \<Rightarrow>
   (int \<times> sock \<times> bytes option list) result" where
  "main E L now argv ret sockfd inp =
     (let (socket_ret, pton_ret, connect_ret) = ret in
      if length argv \<noteq> 3 \<or> argv ! 1 \<noteq> ''--session'' then Inr (1, sockfd, [])
      else if socket_ret < 0 then Inr (1, sockfd, [])
      else if pton_ret \<le> 0 then Inr (1, close sockfd, [])
      else if connect_ret < 0 then Inr (1, close sockfd, [])
      else bindE (gmp_randseed_ui gmp_randinit_mt now) (\<lambda>state.
           bindE (client_get_session_key E sockfd (uninit E ''session_key'' AES_KEY_SIZE) state)
             (\<lambda>(sockfd, session_key, state, _).
           bindE (command_loop E L inp 0 sockfd state session_key) (\<lambda>(sockfd, outs).
           Inr (0, close sockfd, outs)))))"


section \<open>Properties\<close>

lemma receive_and_print_answer:
  assumes "channel_ok a E" and "length key = 32" and "rx s = Seg q # rest" and "carries a key m q"
    and "0 < length m" "length m \<le> 2048"
  shows "receive_and_print E s key = Inr (s\<lparr>rx := rest\<rparr>, Some (cstr m))"
proof -
  obtain r where "receive_encypted_data E s key = Inr (int (length m), Some (m @ r), s\<lparr>rx := rest\<rparr>)"
    using aes.receives [OF assms(1,2,4,5,6,3)] by blast
  then show ?thesis by (simp add: receive_and_print_def printed_def)
qed

lemma receive_and_print_closed: "rx s = [] \<Longrightarrow> receive_and_print E s key = Inr (close s, None)"
  by (simp add: receive_and_print_def receive_encypted_data_closed)

definition random_text :: "libc \<Rightarrow> nat \<Rightarrow> bytes" where
  "random_text L t = take 255 (str ''RandomData_'' @ dec (libc_rand L t))"

lemma cstr_random_data: "cstr (generate_random_data L t (replicate 256 0) 256) = random_text L t"
  by (simp add: generate_random_data_def random_text_def cstr_simps dec_nonzero str_def)

lemma random_text_props:
  "0 \<notin> set (random_text L t)" "length (random_text L t) \<le> 255" "0 < length (random_text L t)"
  "random_text L t \<noteq> str ''RETRIEVE''" "random_text L t \<noteq> str ''EXIT''"
  by (auto simp: random_text_def str_def dec_nonzero dest!: in_set_takeD)

lemma client_store_wire:
  assumes "channel_ok a E" and "length key = 32"
  shows "\<exists>p g'. carries a key (random_text L t) p \<and>
    (\<forall>s q rest m. rx s = Seg q # rest \<longrightarrow> carries a key m q \<longrightarrow> 0 < length m \<longrightarrow> length m \<le> 2048 \<longrightarrow>
       store_data E L t s g key = Inr ((send s p)\<lparr>rx := rest\<rparr>, g', Some (cstr m)))"
proof -
  let ?b = "generate_random_data L t (replicate 256 0) 256"
  obtain p g' where p: "\<And>s. send_encypted_data E s ?b (strlen ?b) key g = Inr (32 + strlen ?b, send s p, g')"
    "carries a key (random_text L t) p"
    using aes.sends_all [OF assms strlen_le, of ?b g] by (auto simp: take_strlen cstr_random_data)
  have "store_data E L t s g key = Inr ((send s p)\<lparr>rx := rest\<rparr>, g', Some (cstr m))"
    if "rx s = Seg q # rest" "carries a key m q" "0 < length m" "length m \<le> 2048" for s q rest m
    using p(1) receive_and_print_answer [OF assms, of "send s p" q rest m] that by (simp add: store_data_def)
  then show ?thesis using p(2) by blast
qed

text \<open>
  \<open>store_data\<close> sends the text \<open>RandomData_\<close> with the number drawn, encrypted, and prints the
  answer it receives.
\<close>

theorem client_store_prints_answer:
  assumes "channel_ok a E" and "length key = 32"
  shows "\<exists>p g'. carries a key (random_text L t) p \<and>
    (\<forall>s q rest m. rx s = Seg q # rest \<longrightarrow> carries a key m q \<longrightarrow> 0 < length m \<longrightarrow> length m \<le> 2048 \<longrightarrow>
       store_data E L t s g key = Inr ((send s p)\<lparr>rx := rest\<rparr>, g', Some (cstr m)))"
  by (rule client_store_wire [OF assms])

text \<open>Witness: an answer \<open>ok\<close> in the example world.\<close>

theorem client_store_prints_answer_witness:
  "\<exists>p g'. carries (toy_ctr, toy_tag) (replicate 32 0) (random_text \<lparr>libc_rand = (\<lambda>t. t), clock = (\<lambda>n. 7)\<rparr> 7) p \<and>
    (\<forall>s q rest m. rx s = Seg q # rest \<longrightarrow> carries (toy_ctr, toy_tag) (replicate 32 0) m q \<longrightarrow> 0 < length m \<longrightarrow> length m \<le> 2048 \<longrightarrow>
       store_data toy_ext \<lparr>libc_rand = (\<lambda>t. t), clock = (\<lambda>n. 7)\<rparr> 7 s toy_client_rng (replicate 32 0)
         = Inr ((send s p)\<lparr>rx := rest\<rparr>, g', Some (cstr m)))"
  by (rule client_store_prints_answer [OF toy_channel_ok]) simp

lemma client_retrieve_wire:
  assumes "channel_ok a E" and "length key = 32"
  shows "\<exists>p g'. carries a key (str ''RETRIEVE'' @ replicate 248 0) p \<and>
    (\<forall>s q rest m. rx s = Seg q # rest \<longrightarrow> carries a key m q \<longrightarrow> 0 < length m \<longrightarrow> length m \<le> 2048 \<longrightarrow>
       retrieve_data E s g key = Inr ((send s p)\<lparr>rx := rest\<rparr>, g', Some (cstr m)))
    \<and> (\<forall>s. rx s = [] \<longrightarrow> retrieve_data E s g key = Inr (close (send s p), g', None))"
proof -
  let ?b = "str ''RETRIEVE'' @ replicate 248 0"
  have len: "length ?b = 256" by (simp add: str_def)
  have "256 \<le> length ?b" using len by simp
  then obtain p g' where p: "\<And>s. send_encypted_data E s ?b 256 key g = Inr (32 + 256, send s p, g')"
    "carries a key ?b p"
    using aes.sends_all [OF assms, of 256 ?b g] len by (auto simp: str_def)
  have "retrieve_data E s g key = Inr ((send s p)\<lparr>rx := rest\<rparr>, g', Some (cstr m))"
    if "rx s = Seg q # rest" "carries a key m q" "0 < length m" "length m \<le> 2048" for s q rest m
    using p(1) receive_and_print_answer [OF assms, of "send s p" q rest m] that by (simp add: retrieve_data_def)
  moreover have "retrieve_data E s g key = Inr (close (send s p), g', None)" if "rx s = []" for s
    using p(1) receive_and_print_closed [of "send s p"] that by (simp add: retrieve_data_def)
  ultimately show ?thesis using p(2) by blast
qed

text \<open>
  \<open>retrieve_data\<close> sends a 256-byte buffer whose string is \<open>RETRIEVE\<close> and prints the answer;
  without one it closes the connection, and every later command fails as well.
\<close>

theorem client_retrieve_prints_answer:
  assumes "channel_ok a E" and "length key = 32"
  shows "\<exists>p g' request. carries a key request p \<and> length request = 256 \<and> cstr request = str ''RETRIEVE'' \<and>
    (\<forall>s q rest m. rx s = Seg q # rest \<longrightarrow> carries a key m q \<longrightarrow> 0 < length m \<longrightarrow> length m \<le> 2048 \<longrightarrow>
       retrieve_data E s g key = Inr ((send s p)\<lparr>rx := rest\<rparr>, g', Some (cstr m)))
    \<and> (\<forall>s. rx s = [] \<longrightarrow> retrieve_data E s g key = Inr (close (send s p), g', None))"
proof -
  have "0 \<notin> set (str ''RETRIEVE'')" by (simp add: str_def)
  then have "cstr (str ''RETRIEVE'' @ replicate 248 0) = str ''RETRIEVE''" by (rule cstr_append_zeros)
  moreover have "length (str ''RETRIEVE'' @ replicate 248 0) = 256" by (simp add: str_def)
  ultimately show ?thesis using client_retrieve_wire [OF assms, of g] by blast
qed

text \<open>The retrieval in the example world.\<close>

theorem client_retrieve_prints_answer_witness:
  "\<exists>p g' request. carries (toy_ctr, toy_tag) (replicate 32 0) request p \<and> length request = 256
     \<and> cstr request = str ''RETRIEVE'' \<and>
    (\<forall>s q rest m. rx s = Seg q # rest \<longrightarrow> carries (toy_ctr, toy_tag) (replicate 32 0) m q \<longrightarrow> 0 < length m \<longrightarrow> length m \<le> 2048 \<longrightarrow>
       retrieve_data toy_ext s toy_client_rng (replicate 32 0) = Inr ((send s p)\<lparr>rx := rest\<rparr>, g', Some (cstr m)))
    \<and> (\<forall>s. rx s = [] \<longrightarrow> retrieve_data toy_ext s toy_client_rng (replicate 32 0) = Inr (close (send s p), g', None))"
  by (rule client_retrieve_prints_answer [OF toy_channel_ok]) simp

section \<open>A session\<close>

text \<open>
  What a user types: lines of fewer than 255 characters.  What the client sends for them: a random
  text for each \<open>store\<close>, drawn at the next reading of the clock, a buffer of 256 bytes for each
  \<open>retrieve\<close>, \<open>EXIT\<close> for the first \<open>exit\<close>, and nothing for other lines or for what follows an
  \<open>exit\<close>.  \<open>exchanges\<close> counts the requests that are answered.
\<close>

definition command_line :: "bytes \<Rightarrow> bool" where
  "command_line c \<longleftrightarrow> length c < 255 \<and> 10 \<notin> set c \<and> 0 \<notin> set c"

definition typed :: "bytes list \<Rightarrow> bytes" where
  "typed cs = concat (map (\<lambda>c. c @ [10]) cs)"

fun requests :: "libc \<Rightarrow> nat \<Rightarrow> bytes list \<Rightarrow> bytes list" where
  "requests L n [] = []"
| "requests L n (c # cs) =
     (if c = str ''store'' then random_text L (clock L n) # requests L (Suc n) cs
      else if c = str ''retrieve'' then (str ''RETRIEVE'' @ replicate 248 0) # requests L n cs
      else if c = str ''exit'' then [str ''EXIT'']
      else requests L n cs)"

definition exchanges :: "bytes list \<Rightarrow> nat" where
  "exchanges cs = length (filter (\<lambda>c. c = str ''store'' \<or> c = str ''retrieve'')
     (takeWhile (\<lambda>c. c \<noteq> str ''exit'') cs))"

lemma fgets_line: "10 \<notin> set c \<Longrightarrow> length c < n \<Longrightarrow> fgets n (c @ 10 # r) = (c @ [10], r)"
proof (induction c arbitrary: n)
  case Nil
  then show ?case by (cases n) simp_all
next
  case (Cons x c)
  then show ?case by (cases n) auto
qed

lemma command_of_line: "command_line c \<Longrightarrow> command_of (c @ [10]) = c"
proof -
  assume c: "command_line c"
  then have "cstr (c @ [10]) = c @ [10]" by (intro cstr_id) (simp add: command_line_def)
  moreover have "takeWhile (\<lambda>x. x \<noteq> 10) (c @ [10]) = c"
    using c by (subst takeWhile_append2) (auto simp: command_line_def)
  ultimately show ?thesis by (simp add: command_of_def)
qed

lemma command_loop_line:
  assumes "command_line c"
  shows "command_loop E L (typed (c # cs)) n s g key =
     (if c = str ''store'' then
        bindE (store_data E L (clock L n) s g key) (\<lambda>(s, g, out).
        bindE (command_loop E L (typed cs) (Suc n) s g key) (\<lambda>(s, outs). Inr (s, out # outs)))
      else if c = str ''retrieve'' then
        bindE (retrieve_data E s g key) (\<lambda>(s, g, out).
        bindE (command_loop E L (typed cs) n s g key) (\<lambda>(s, outs). Inr (s, out # outs)))
      else if c = str ''exit'' then
        bindE (send_encypted_data E s (str ''EXIT'') 4 key g) (\<lambda>(_, s, _). Inr (s, []))
      else command_loop E L (typed cs) n s g key)"
proof -
  have "typed (c # cs) = c @ 10 # typed cs" by (simp add: typed_def)
  moreover have "fgets 255 (c @ 10 # typed cs) = (c @ [10], typed cs)"
    using assms by (intro fgets_line) (simp_all add: command_line_def)
  ultimately show ?thesis
    using command_of_line [OF assms] by (subst command_loop.simps) simp
qed

lemma exchanges_simps:
  "exchanges [] = 0"
  "exchanges (c # cs) = (if c = str ''store'' \<or> c = str ''retrieve'' then Suc (exchanges cs)
     else if c = str ''exit'' then 0 else exchanges cs)"
  by (auto simp: exchanges_def str_def)

lemma command_loop_session:
  assumes a: "channel_ok a E" and key: "length key = 32"
  shows "\<forall>c \<in> set cs. command_line c \<Longrightarrow> list_all2 (carries a key) ms qs \<Longrightarrow> length ms = exchanges cs \<Longrightarrow>
    \<forall>m \<in> set ms. 0 < length m \<and> length m \<le> 2048 \<Longrightarrow> rx s = map Seg qs \<Longrightarrow>
    \<exists>ps s'. command_loop E L (typed cs) n s g key = Inr (s', map (\<lambda>m. Some (cstr m)) ms)
      \<and> tx s' = tx s @ ps \<and> list_all2 (carries a key) (requests L n cs) ps"
proof (induction cs arbitrary: ms qs s g n)
  case Nil
  then show ?case by (subst command_loop.simps) (simp add: typed_def exchanges_simps)
next
  case (Cons c cs)
  have c: "command_line c" and cs: "\<forall>c \<in> set cs. command_line c" using Cons.prems(1) by simp_all
  note line = command_loop_line [OF c, of E L cs n s g key]
  have exchange: "\<exists>ps s'. bindE (f s) (\<lambda>(s, g, out).
        bindE (command_loop E L (typed cs) n' s g key) (\<lambda>(s, outs). Inr (s, out # outs)))
        = Inr (s', map (\<lambda>m. Some (cstr m)) ms)
      \<and> tx s' = tx s @ ps \<and> list_all2 (carries a key) (req # requests L n' cs) ps"
    if p: "carries a key req p" and e: "exchanges (c # cs) = Suc (exchanges cs)"
      and f: "\<And>s q rest m. rx s = Seg q # rest \<Longrightarrow> carries a key m q \<Longrightarrow> 0 < length m \<Longrightarrow> length m \<le> 2048 \<Longrightarrow>
         f s = Inr ((send s p)\<lparr>rx := rest\<rparr>, g', Some (cstr m))" for req p g' f n'
  proof -
    obtain m ms' where ms: "ms = m # ms'" using Cons.prems(3) e by (cases ms) auto
    then obtain q qs' where qs: "qs = q # qs'" "carries a key m q" "list_all2 (carries a key) ms' qs'"
      using Cons.prems(2) by (auto simp: list_all2_Cons1)
    let ?s = "(send s p)\<lparr>rx := map Seg qs'\<rparr>"
    have "f s = Inr (?s, g', Some (cstr m))" using f [of s q "map Seg qs'" m] Cons.prems(4,5) ms qs by simp
    moreover obtain ps s' where "command_loop E L (typed cs) n' ?s g' key = Inr (s', map (\<lambda>m. Some (cstr m)) ms')"
      "tx s' = tx ?s @ ps" "list_all2 (carries a key) (requests L n' cs) ps"
      using Cons.IH [OF cs qs(3), of ?s n' g'] Cons.prems(3,4) e ms by auto
    ultimately show ?thesis using p ms by (intro exI [of _ "p # ps"] exI [of _ s']) simp
  qed
  show ?case
  proof (cases "c = str ''store''")
    case True
    obtain p g' where p: "carries a key (random_text L (clock L n)) p" and
      st: "\<And>s q rest m. rx s = Seg q # rest \<Longrightarrow> carries a key m q \<Longrightarrow> 0 < length m \<Longrightarrow> length m \<le> 2048 \<Longrightarrow>
       store_data E L (clock L n) s g key = Inr ((send s p)\<lparr>rx := rest\<rparr>, g', Some (cstr m))"
      using client_store_wire [OF a key, of L "clock L n" g] by blast
    from exchange [OF p _ st] show ?thesis using True line by (simp add: exchanges_simps)
  next
    case nostore: False
    show ?thesis
    proof (cases "c = str ''retrieve''")
      case True
      obtain p g' where p: "carries a key (str ''RETRIEVE'' @ replicate 248 0) p" and
        st: "\<And>s q rest m. rx s = Seg q # rest \<Longrightarrow> carries a key m q \<Longrightarrow> 0 < length m \<Longrightarrow> length m \<le> 2048 \<Longrightarrow>
         retrieve_data E s g key = Inr ((send s p)\<lparr>rx := rest\<rparr>, g', Some (cstr m))"
        using client_retrieve_wire [OF a key, of g] by blast
      from exchange [OF p _ st] show ?thesis using True nostore line by (simp add: exchanges_simps)
    next
      case noretrieve: False
      show ?thesis
      proof (cases "c = str ''exit''")
        case True
        obtain p g' where "send_encypted_data E s (str ''EXIT'') 4 key g = Inr (36, send s p, g')"
          "carries a key (str ''EXIT'') p"
          using aes.sends [OF a key, of 4 "str ''EXIT''" s g] by (auto simp: str_def)
        then show ?thesis using True nostore noretrieve line Cons.prems(3)
          by (intro exI [of _ "[p]"]) (simp add: exchanges_simps)
      next
        case False
        then show ?thesis
          using Cons.IH [OF cs Cons.prems(2) _ Cons.prems(4,5), of n g] Cons.prems(3) nostore noretrieve line
          by (simp add: exchanges_simps)
      qed
    qed
  qed
qed

text \<open>
  C27.  A session of the client program.  With the right arguments, a connection and a handshake that
  returned the key, for every list of typed lines: when the router answers each \<open>store\<close> and
  \<open>retrieve\<close> before the first \<open>exit\<close> with a message of 1 to 2048 bytes, the process ends with
  status 0, has closed the connection, has sent exactly the requests the lines ask for, in their
  order, each encrypted under the session key, and has printed the text of each answer.
\<close>

theorem client_session:
  assumes "channel_ok a E" and "kdf_ok E"
    and "length argv = 3" and "argv ! 1 = ''--session''" and "0 \<le> sr" "0 < pr" "0 \<le> cr"
    and "gmp_randseed_ui gmp_randinit_mt now = Inr g0"
    and "client_get_session_key E s (uninit E ''session_key'' 32) g0 = Inr (s1, key, g1, w)"
    and "\<forall>c \<in> set cs. command_line c"
    and "list_all2 (carries a key) ms qs" and "rx s1 = map Seg qs" and "length ms = exchanges cs"
    and "\<forall>m \<in> set ms. 0 < length m \<and> length m \<le> 2048"
  shows "\<exists>ps s'. main E L now argv (sr, pr, cr) s (typed cs) = Inr (0, s', map (\<lambda>m. Some (cstr m)) ms)
    \<and> \<not> is_open s' \<and> tx s' = tx s1 @ ps \<and> list_all2 (carries a key) (requests L 0 cs) ps"
proof -
  have "length (uninit E ''session_key'' 32) = 32"
    using assms(1) by (auto simp: memory_ok_def elim: channel_okE)
  then have "length key = 32" by (rule client_get_session_key_length [OF assms(2,9)])
  from command_loop_session [OF assms(1) this assms(10,11,13,14,12), of L 0 g1] show ?thesis
    using assms(3-9) by (fastforce simp: main_def close_def)
qed

text \<open>C27, witness: a store, an unknown command, a retrieval, the end, and a line that is not read.\<close>

theorem client_session_witness:
  "\<exists>hello key ps s'. main steady_ext \<lparr>libc_rand = (\<lambda>t. t), clock = (\<lambda>n. 7)\<rparr> 1 [''client'', ''--session'', ''10.0.1.1'']
      (3, 1, 0) \<lparr>rx = Seg steady_answer # map Seg [toy_seal (str ''DATA_STORED''), toy_seal (str ''x'')], tx = [], is_open = True\<rparr>
      (typed [str ''store'', str ''help'', str ''retrieve'', str ''exit'', str ''store''])
    = Inr (0, s', map (\<lambda>m. Some (cstr m)) [str ''DATA_STORED'', str ''x''])
    \<and> \<not> is_open s' \<and> tx s' = hello # ps \<and> length key = 32
    \<and> list_all2 (carries (toy_ctr, toy_tag) key)
        (requests \<lparr>libc_rand = (\<lambda>t. t), clock = (\<lambda>n. 7)\<rparr> 0
          [str ''store'', str ''help'', str ''retrieve'', str ''exit'', str ''store'']) ps"
proof -
  let ?qs = "[toy_seal (str ''DATA_STORED''), toy_seal (str ''x'')]"
  let ?s = "\<lparr>rx = Seg steady_answer # map Seg ?qs, tx = [], is_open = True\<rparr>"
  have l: "length (uninit steady_ext ''session_key'' 32) = 32" using steady_ok(4) by (simp add: memory_ok_def)
  moreover obtain g0 where g0: "gmp_randseed_ui gmp_randinit_mt 1 = Inr g0" using gmp_randseed_ui_returns by blast
  moreover have "rx ?s = Seg steady_answer # map Seg ?qs" by simp
  ultimately obtain hello key g1 w where h: "client_get_session_key steady_ext ?s (uninit steady_ext ''session_key'' 32) g0
      = Inr (send (?s\<lparr>rx := map Seg ?qs\<rparr>) hello, key, g1, w)"
    using steady_client_handshake by blast
  have lines: "\<forall>c \<in> set [str ''store'', str ''help'', str ''retrieve'', str ''exit'', str ''store'']. command_line c"
    by (simp add: command_line_def str_def)
  have answers: "list_all2 (carries (toy_ctr, toy_tag) key) [str ''DATA_STORED'', str ''x''] ?qs"
    by (simp add: toy_seal_carries)
  have ex: "length [str ''DATA_STORED'', str ''x''] =
      exchanges [str ''store'', str ''help'', str ''retrieve'', str ''exit'', str ''store'']"
    by (simp add: exchanges_simps) (simp add: str_def)
  have len: "\<forall>m \<in> set [str ''DATA_STORED'', str ''x'']. 0 < length m \<and> length m \<le> 2048"
    by (simp add: str_def)
  have key: "length key = 32" by (rule client_get_session_key_length [OF steady_ok(3) h l])
  have tx: "tx (send (?s\<lparr>rx := map Seg ?qs\<rparr>) hello) = [hello]" by simp
  show ?thesis
    using client_session [OF steady_ok(1,3) _ _ _ _ _ g0 h lines answers _ ex len,
      of "[''client'', ''--session'', ''10.0.1.1'']" 3 1 0 "\<lparr>libc_rand = (\<lambda>t. t), clock = (\<lambda>n. 7)\<rparr>"]
      key tx by fastforce
qed

end
