(* ===== verification/Spec2Isabelle.thy ===== *)
theory Spec2Isabelle
  imports Gmp_Properties Gmp_Powm_Properties Gmp_Limb_Properties Gmp_Nextprime_Properties Key_Exchange_Properties Server_Properties Router_Properties Client
begin

text \<open>
  A verification of a small distributed data store written in C, together with the part of the
  GNU multiple precision library in its tree that it rests on.  Clients send data to a router; the
  router passes each item to one of three servers in turn; a server keeps its items in a linked
  list of blocks, each holding the SHA-256 of its data and of the hash before it.  All
  connections are encrypted with AES-256-GCM under session keys agreed by an authenticated
  Diffie-Hellman exchange.

  \<^bold>\<open>Parts, sources and theories.\<close>

  \<^item> \<open>C_Prelude\<close>: bytes, buffers, the C library functions the sources call, the types of
    faults (\<open>fault\<close>) and of results (\<open>result\<close>, a sum; \<open>run\<close>, an option of a sum for loops whose
    end is proved and not presumed), and the shared \<open>named_theorems\<close>.
  \<^item> \<open>World\<close>: what a process finds outside the sources: sockets as queues of received segments and
    a list of sent ones, files, OpenSSL, the contents of uninitialised memory, the outcomes of
    \<open>malloc\<close> and \<open>send\<close>.  The calls are fields of the record \<open>ext\<close>; what the program relies on is
    stated by \<open>channel_ok\<close>, \<open>kdf_ok\<close>, \<open>sha_ok\<close>, \<open>powm_ok\<close>, \<open>nextprime_ok\<close>, \<open>identity_ok\<close>.
    \<open>Example_World\<close> has an instance of all of them, with which the witnesses are evaluated.
  \<^item> \<open>Helper_Func\<close> (\<open>shared_functions/helper_func.c\<close>), \<open>Certificates\<close>
    (\<open>shared_functions/certificates.c\<close>) and \<open>Key_Exchange\<close> (\<open>shared_functions/key_exchange.c\<close>):
    one definition per function, the messages byte by byte.
  \<^item> \<open>Server\<close> (\<open>server/server.c\<close>): the list of blocks on an explicit heap; store, validation,
    retrieval, release, the loops over messages and connections.
  \<^item> \<open>Router\<close> (\<open>router/router.c\<close>) and \<open>Client\<close> (\<open>client/client.c\<close>).
  \<^item> \<open>Gmp_Integer\<close> (\<open>gmp-6.3.0/mpz/\<close>: \<open>init.c\<close>, \<open>init2.c\<close>, \<open>set_ui.c\<close>, \<open>export.c\<close>,
    \<open>import.c\<close>): the structure \<open>mpz_t\<close> and the conversion to bytes and back.
  \<^item> \<open>Gmp_Random\<close> (\<open>gmp-6.3.0/rand/\<close>: \<open>randmt.c\<close>, \<open>randmts.c\<close>, \<open>randsdui.c\<close>, and
    \<open>mpz/urandomb.c\<close>): the Mersenne Twister, its seeding, and numbers of a given size.
  \<^item> \<open>Gmp_Mpn\<close>, \<open>Gmp_Square\<close>, \<open>Gmp_Redc\<close> (\<open>gmp-6.3.0/longlong.h\<close>, \<open>gmp.h\<close>, and \<open>add_n.c\<close>,
    \<open>sub_n.c\<close>, \<open>mul_1.c\<close>, \<open>addmul_1.c\<close>, \<open>mul_basecase.c\<close>, \<open>sqr_basecase.c\<close>, \<open>lshift.c\<close>, \<open>rshift.c\<close>,
    \<open>redc_1.c\<close>, \<open>redc_2.c\<close> of \<open>mpn/generic/\<close>): arithmetic on vectors of 64-bit limbs, with every
    carry as the code computes it.
  \<^item> \<open>Gmp_Config\<close> (the thresholds of \<open>gmp-impl.h\<close> and \<open>gmp-mparam.h\<close>), \<open>Gmp_Mod_1\<close> (\<open>mod_1.c\<close> and
    the division of two limbs by one), \<open>Gmp_Mul\<close> (\<open>mul_n.c\<close>, \<open>sqr.c\<close>, \<open>mul.c\<close>), \<open>Gmp_Mullo\<close>
    (\<open>mullo_basecase.c\<close>, \<open>mullo_n.c\<close>, \<open>sqrlo_basecase.c\<close>, \<open>sqrlo.c\<close>), \<open>Gmp_Binvert\<close> (\<open>binvert.c\<close>,
    \<open>sbpi1_bdiv_q.c\<close>, \<open>redc_n.c\<close>): the routines that choose a method by the size of the operands.
  \<^item> \<open>Gmp_Powm\<close> and \<open>Gmp_2powm\<close> (\<open>mpn/generic/powm.c\<close>): powers modulo an odd number by a sliding
    window over the exponent on numbers in Montgomery form, and by shifts for the base 2.
    \<open>Gmp_Powlo\<close> (\<open>mpn/generic/powlo.c\<close>): powers modulo a power of the radix.  \<open>Gmp_Mpz_Powm\<close>
    (\<open>mpz/powm.c\<close>): \<open>mpz_powm\<close>, which takes the modulus apart, calls both and puts the results
    together.  \<open>Example_Gmp\<close> has an instance of the routines that stay parameters.
  \<^item> \<open>Gmp_Ui\<close> (\<open>cmp_ui.c\<close>, \<open>aors_ui.h\<close>, \<open>cdiv_ui.c\<close>, \<open>tdiv_q_2exp.c\<close>, \<open>urandomm.c\<close> of \<open>mpz/\<close>,
    \<open>mpn/generic/scan1.c\<close>): operations with one limb, and random numbers below a bound.
    \<open>Gmp_Powm_Ui\<close> (\<open>mpz/powm_ui.c\<close>): powers with an exponent of one limb.  \<open>Gmp_Millerrabin\<close>
    (\<open>mpz/millerrabin.c\<close>): the primality test.  \<open>Gmp_Nextprime\<close>, \<open>Gmp_Nextprime_Search\<close>,
    \<open>Gmp_Nextprime_Found\<close> (\<open>mpz/nextprime.c\<close>): the search for the next prime, below the limit of
    its table and above it.  \<open>Prime_Numbers\<close> has the number theory they rest on: small factors,
    Fermat's theorem, roots of one modulo a prime, and a prime between \<open>n\<close> and \<open>2 * n ^ 2\<close>, without
    which the search would not be known to end.  \<open>Example_Prime\<close> is their example configuration.

  \<^bold>\<open>What can go wrong in a call.\<close>  A peer can close its connection (the queue is empty), cause a
  receive error, or keep the connection open and send nothing (\<open>Silent\<close>); the sockets block, so a
  \<open>recv\<close> that meets \<open>Silent\<close> is the fault \<open>Waiting\<close>, from which no theorem claims a way out.  A \<open>send\<close>
  can be accepted, return an error that the sources ignore, raise \<open>SIGPIPE\<close> or wait.  A \<open>malloc\<close>
  that fails gives a null pointer, whose use is a fault.  Arrays of size zero or less, numbers that
  were never initialised, accesses out of bounds and a zero modulus are faults too.  \<open>cipher_ok\<close>
  states the documented behaviour of the cipher alone; \<open>channel_ok\<close> adds \<open>resources_ok\<close>, that no
  \<open>malloc\<close> of the message layer and no \<open>send\<close> fails.  The digest contexts of signing and verifying are
  followed through \<open>Init\<close>, \<open>Update\<close> and \<open>Final\<close> (\<open>sign_digest\<close>, \<open>verify_digest\<close>), with the states of the
  EVP manual (\<open>evp_sign_ok\<close>, \<open>evp_verify_ok\<close>).

  \<^bold>\<open>How the parts interact.\<close>  The server's \<open>message_loop\<close> and the router's \<open>client_loop\<close> call
  \<open>receive_encypted_data\<close> and \<open>send_encypted_data\<close>.  The locale \<open>message_channel\<close>
  (\<open>Helper_Func\<close>) states what they need of these two; it is interpreted on them as \<open>aes\<close>.  The
  message loop uses the list of blocks through the locale \<open>block_store\<close> (\<open>Server\<close>), interpreted
  as \<open>chain_store\<close>; the abstract server of its refinement is \<open>serve_all\<close> over a ledger of
  entries.  The exponentiations by windows share the locale \<open>power_form\<close>
  (\<open>Gmp_Powm\<close>): a representation of powers with a squaring and a multiplication; it is
  interpreted on the Montgomery form of \<open>mpn_powm\<close> and on the low limbs of \<open>mpn_powlo\<close>.  The two
  divisions of two limbs by one that \<open>mod_1.c\<close> chooses between are interpretations of the locale
  \<open>limb_division\<close> (\<open>Gmp_Mod_1\<close>).  The key
  exchange sees the modular power through the field \<open>gmp_powm\<close> and the assumption \<open>powm_ok\<close>;
  \<open>runs_gmp\<close> says that the field is \<open>mpz_powm\<close>, and \<open>gmp_powm_refines\<close> discharges the assumption;
  \<open>runs_nextprime\<close> and \<open>gmp_nextprime_refines\<close> do the same for \<open>gmp_nextprime\<close> and \<open>nextprime_ok\<close>.

  \<^bold>\<open>What is shown.\<close>
  \<^item> \<open>Key_Exchange\<close>, \<open>Key_Exchange_Properties\<close>: both ends of an undisturbed handshake hold the same
    key; messages arrive unchanged or are rejected, and what an empty one does; the server's
    handshake completes with every client that \<open>greets\<close>; what goes wrong with an invalid
    signature, with a prefix of the pinned key, with forged or over-long messages.
  \<^item> \<open>Server_Properties\<close>: \<open>store_data\<close> and \<open>message_loop\<close> refine the ledger; \<open>validate_blockchain\<close>
    is equivalent to its specification; which changes are noticed; memory is released; whatever a
    peer sends and whatever resources fail, a session ends with an extended ledger or stops for one
    of the listed reasons (\<open>explained\<close>); clients that \<open>greets\<close> describes are all served, and one that
    keeps silent blocks the process.
  \<^item> \<open>Router_Properties\<close>, \<open>Client\<close>: round robin; a retrieval from the request of the client to the
    message it is sent; a server that has closed its connection; the router serves its clients as the
    server does; a session of the client from the typed lines to the requests sent and the
    answers printed.
  \<^item> \<open>Gmp_Properties\<close>, \<open>Gmp_Powm_Properties\<close>, \<open>Gmp_Limb_Properties\<close>: round trip and its limits for the byte conversions,
    the recurrence, range and seeding of the random numbers, products, squares and Montgomery
    reduction of limb vectors, \<open>mpz_powm\<close> for
    every sign and parity, products and low products of every
    length, inverses modulo a power of the radix.
  \<^item> \<open>Gmp_Nextprime_Properties\<close>: powers with an exponent of one limb; the primality test never rejects
    a prime; every \<open>mpz\<close> number the program computes is normalised; \<open>mpz_nextprime\<close> ends,
    passes over no prime, and returns exactly the next prime below 310243.
  \<^item> This theory: a handshake followed by a message, a store from the client through the
    router to the ledger of a server and back, the end of the server process by a client
    hello with a zero prime, and what a short client hello does to server and router.

  \<^bold>\<open>Bounds and termination.\<close>  No loop is cut by fuel.  Loops over the list of blocks and over
  messages are \<open>partial_function (option)\<close>, where a run that does not end would be \<open>None\<close>; the
  theorems show the result is \<open>Some\<close>.  A loop that waits for a silent peer does not count as ended:
  its result is \<open>Some (Inl Waiting)\<close>.  Sequences of connections and lines of input are finite
  lists.  Machine integers keep their width: bytes, 32-bit words of the generator, 64-bit limbs;
  numbers have fewer than \<open>2 ^ 31\<close> limbs, since the size field is an \<open>int\<close>.

  \<^bold>\<open>Configuration.\<close>  64-bit limbs without nail bits, a little-endian host, and of the limb routines
  the portable C versions rather than the assembly ones.

  \<^bold>\<open>Not modelled.\<close>  OpenSSL and the kernel's sockets (parameters); the
  routines for large operands that \<open>mpn_powm\<close> and \<open>mpz_powm\<close> call in the end (Toom-Cook and FFT
  products, \<open>mpn_mulmod_bnm1\<close>, \<open>mpn_dcpi1_bdiv_q\<close>, \<open>mpn_tdiv_qr\<close>, \<open>mpn_mod_1\<close> on long vectors,
  \<open>mpz_invert\<close>), which are fields of \<open>mpn_cfg\<close>; \<open>cfg_ok\<close> says which numbers they return, for the
  sizes of operands that their own assertions admit (\<open>toom_area\<close>); of the search for a prime the
  division by a normalised divisor (\<open>div_ok\<close>), the strong Lucas test, of which only is asked that it
  does not reject a prime (\<open>lucas_ok\<close>), and the sieve of Eratosthenes with the integer functions that
  choose its limit (\<open>sieve_ok\<close>), which are fields of \<open>prime_cfg\<close>; the parts of GMP the program never reaches; printing to the
  terminal apart from the client's answers; the scripts that deploy the processes.
\<close>

section \<open>The processes together\<close>

text \<open>
  C10.  The key of the handshake is the key of the messages: after a completed handshake, what the
  client sends with its copy of the session key is what the server receives with its own.  An empty
  message makes the server declare an array of size zero.
\<close>

theorem handshake_then_message:
  fixes Ec Es :: "('c, 'm, 'k) ext"
  assumes ok: "handshake_ok alg Ec" "handshake_ok alg Es" "same_crypto Ec Es" "nextprime_ok Ec"
    and id: "identity_ok Es ''./keys/private.pem'' ''server'' sk"
    and pin: "read_file Ec ''./keys/server.pem'' = Some (PEM_write_bio_PUBKEY Es sk)"
      "length (PEM_write_bio_PUBKEY Es sk) \<le> 768"
    and full: "full_size (dh_prime Ec gc) (dh_secret (snd (get_big_prime Ec gc))) (dh_secret gs)"
    and len: "length kc = 32" "length ks = 32" and n: "n \<le> length data" "n \<le> 2048"
  shows "\<exists>hello answer gc' gs' msg.
    (\<forall>s r. rx s = Seg answer # r \<longrightarrow> (\<exists>key gc1. client_get_session_key Ec s kc gc
         = Inr (send (s\<lparr>rx := r\<rparr>) hello, key, gc1, False)
       \<and> send_encypted_data Ec (send (s\<lparr>rx := r\<rparr>) hello) data n key gc1
         = Inr (32 + n, send (send (s\<lparr>rx := r\<rparr>) hello) msg, gc')))
  \<and> (\<forall>s r. rx s = Seg hello # Seg msg # r \<longrightarrow> (\<exists>key rest. server_get_session_key Es s ks gs
         = Inr (send (s\<lparr>rx := Seg msg # r\<rparr>) answer, key, gs')
       \<and> receive_encypted_data Es (send (s\<lparr>rx := Seg msg # r\<rparr>) answer) key
         = (if n = 0 then Inl (Undefined ZeroArraySize)
            else Inr (int n, Some (take n data @ rest), send (s\<lparr>rx := r\<rparr>) answer))))"
proof -
  obtain hello answer key gc1 gs' where k: "length key = 32"
    and c: "\<And>s r. rx s = Seg answer # r \<Longrightarrow>
         client_get_session_key Ec s kc gc = Inr (send (s\<lparr>rx := r\<rparr>) hello, key, gc1, False)"
    and s: "\<And>s r. rx s = Seg hello # r \<Longrightarrow>
         server_get_session_key Es s ks gs = Inr (send (s\<lparr>rx := r\<rparr>) answer, key, gs')"
    using handshake_run [OF ok id pin full len] by blast
  have ch: "channel_ok alg Ec" "channel_ok alg Es" using ok(1,2) by (simp_all add: handshake_ok_def)
  obtain msg gc' where m: "\<And>s. send_encypted_data Ec s data n key gc1 = Inr (32 + n, send s msg, gc')"
    "carries alg key (take n data) msg"
    using aes.sends_all [OF ch(1) k n(1), of gc1] by blast
  have "\<exists>rest. receive_encypted_data Es (send (s\<lparr>rx := Seg msg # r\<rparr>) answer) key
         = (if n = 0 then Inl (Undefined ZeroArraySize)
            else Inr (int n, Some (take n data @ rest), send (s\<lparr>rx := r\<rparr>) answer))" for s r
  proof (cases "n = 0")
    case True
    then have "carries alg key [] msg" using m(2) by simp
    from aes.receives_empty [OF ch(2) k this, of "send (s\<lparr>rx := Seg msg # r\<rparr>) answer" r] True
    show ?thesis by simp
  next
    case False
    then have "0 < length (take n data)" "length (take n data) \<le> 2048" using n by simp_all
    from aes.receives [OF ch(2) k m(2) this, of "send (s\<lparr>rx := Seg msg # r\<rparr>) answer" r] False n
    show ?thesis by (auto simp: send_def)
  qed
  then show ?thesis
    using c s m(1) by (intro exI [of _ hello] exI [of _ answer] exI [of _ gc'] exI [of _ gs'] exI [of _ msg]) blast
qed

text \<open>C10, witness: the example handshake and a message of five bytes.\<close>

theorem handshake_then_message_witness:
  "\<exists>hello answer gc' gs' msg.
    (\<forall>s r. rx s = Seg answer # r \<longrightarrow> (\<exists>key gc1. client_get_session_key toy_ext s (replicate 32 0) toy_client_rng
         = Inr (send (s\<lparr>rx := r\<rparr>) hello, key, gc1, False)
       \<and> send_encypted_data toy_ext (send (s\<lparr>rx := r\<rparr>) hello) (str ''hello'') 5 key gc1
         = Inr (32 + 5, send (send (s\<lparr>rx := r\<rparr>) hello) msg, gc')))
  \<and> (\<forall>s r. rx s = Seg hello # Seg msg # r \<longrightarrow> (\<exists>key rest. server_get_session_key toy_ext s (replicate 32 0) toy_server_rng
         = Inr (send (s\<lparr>rx := Seg msg # r\<rparr>) answer, key, gs')
       \<and> receive_encypted_data toy_ext (send (s\<lparr>rx := Seg msg # r\<rparr>) answer) key
         = (if (5::nat) = 0 then Inl (Undefined ZeroArraySize)
            else Inr (int 5, Some (take 5 (str ''hello'') @ rest), send (s\<lparr>rx := r\<rparr>) answer))))"
  by (rule handshake_then_message [OF toy_handshake_ok toy_handshake_ok toy_pinned(1) toy_nextprime_ok
        toy_identity_ok toy_pinned(2,3) toy_full length_replicate length_replicate]) (simp_all add: str_def)

text \<open>
  C4.  A store, end to end: there are four wire messages such that the client that sends the first
  prints \<open>DATA_STORED\<close> on the fourth, the router that decrypts the first passes it on as the
  second to the server whose turn it is and relays the third as the fourth, and that server,
  given the second, answers with the third and holds the client's text as a new block.
\<close>

theorem store_end_to_end:
  fixes Ec Er Es :: "('c, 'm, 'k) ext"
  assumes ch: "channel_ok alg Ec" "channel_ok alg Er" "channel_ok alg Es"
    and keys: "length kc = 32" "router_wf rt" "current_server rt = i" "server_session_keys rt ! i = ks"
    and st: "store_ok (Es, malloc)" "malloc_total malloc" "server_ledger st l"
    and turn: "rx (server_sockets rt ! i) = []"
  shows "\<exists>p1 p2 q2 q1 gc' gr' gr2' gs' st' resp.
    (\<forall>s r. rx s = Seg q1 # r \<longrightarrow>
       Client.store_data Ec L t s gc kc = Inr ((send s p1)\<lparr>rx := r\<rparr>, gc', Some (str ''DATA_STORED'')))
  \<and> (\<forall>s r. rx s = Seg p1 # r \<longrightarrow> (\<exists>rest.
       receive_encypted_data Er s kc = Inr (int (length (random_text L t)), Some (random_text L t @ rest), s\<lparr>rx := r\<rparr>)))
  \<and> client_command Er (random_text L t) gr (rt\<lparr>server_sockets := (server_sockets rt)
        [i := (server_sockets rt ! i)\<lparr>rx := [Seg q2]\<rparr>]\<rparr>)
      = Inr (resp, gr', rt\<lparr>current_server := (i + 1) mod 3, server_sockets := (server_sockets rt)
        [i := send (server_sockets rt ! i) p2]\<rparr>)
  \<and> (\<forall>s. send_encypted_data Er s resp (strlen resp) kc gr' = Inr (43, send s q1, gr2'))
  \<and> message_loop Es malloc (ss\<lparr>rx := [Seg p2]\<rparr>) ks gs st
      = Some (Inr (ss\<lparr>rx := [], tx := tx ss @ [q2]\<rparr>, gs', st'))
  \<and> server_ledger st' (ledger_store (block_digest Es) (random_text L t) l)"
proof -
  let ?d = "random_text L t" and ?ack = "str ''DATA_STORED''"
  have i: "i < 3" and ks: "length ks = 32" using keys router_wf_key [OF keys(2)] by (auto simp: router_wf_def)
  have d: "cstr ?d = ?d" "stored_data ?d = ?d" "length ?d \<le> 2048" "0 < length ?d"
    using random_text_props [of L t] by (auto simp: cstr_id stored_data_def Server.MAX_LINE_def)
  have ack: "0 < length ?ack" "length ?ack = 11" "cstr ?ack = ?ack" by (simp_all add: str_def cstr_def)
  obtain p1 gc' where p1: "carries alg kc ?d p1"
    and client: "\<And>s q rest m. rx s = Seg q # rest \<Longrightarrow> carries alg kc m q \<Longrightarrow> 0 < length m \<Longrightarrow>
       length m \<le> 2048 \<Longrightarrow> Client.store_data Ec L t s gc kc = Inr ((send s p1)\<lparr>rx := rest\<rparr>, gc', Some (cstr m))"
    using client_store_wire [OF ch(1) keys(1), of L t gc] by blast
  obtain p2 gr' where p2: "carries alg ks (cstr ?d) p2"
    and cmd: "\<And>rt i response q rest m. router_wf rt \<Longrightarrow> i < 3 \<Longrightarrow> server_session_keys rt ! i = ks \<Longrightarrow>
      length response = 102400 \<Longrightarrow> rx (server_sockets rt ! i) = Seg q # rest \<Longrightarrow> carries alg ks m q \<Longrightarrow>
      0 < length m \<Longrightarrow> length m \<le> 2048 \<Longrightarrow>
      \<exists>resp. send_command_to_server Er i ?d response gr rt =
         Inr (resp, gr', rt\<lparr>server_sockets := (server_sockets rt)
           [i := (send (server_sockets rt ! i) p2)\<lparr>rx := rest\<rparr>]\<rparr>)
        \<and> cstr resp = cstr m \<and> length resp = 102400"
    by (rule send_command_wire [OF ch(2) ks, where message = ?d and g = gr]) blast
  have "list_all2 (carries alg ks) [?d] [p2]" using p2 d(1) by simp
  from message_loop_serves [OF ch(3) ks st(1,2) this _ st(3), of "ss\<lparr>rx := [Seg p2]\<rparr>" gs]
  obtain q2 gs' st' where q2: "carries alg ks ?ack q2"
    and server: "message_loop Es malloc (ss\<lparr>rx := [Seg p2]\<rparr>) ks gs st
        = Some (Inr (ss\<lparr>rx := [], tx := tx ss @ [q2]\<rparr>, gs', st'))"
      "server_ledger st' (ledger_store (block_digest Es) ?d l)"
    using d random_text_props(4) [of L t] by (auto simp: serve_def list_all2_Cons1)
  let ?rt = "rt\<lparr>current_server := (i + 1) mod 3,
      server_sockets := (server_sockets rt)[i := (server_sockets rt ! i)\<lparr>rx := [Seg q2]\<rparr>]\<rparr>"
  have rt: "router_wf ?rt" "rx (server_sockets ?rt ! i) = [Seg q2]" "server_session_keys ?rt ! i = ks"
    using keys i by (simp_all add: router_wf_def)
  obtain resp where resp: "send_command_to_server Er i ?d (replicate 102400 0) gr ?rt =
         Inr (resp, gr', ?rt\<lparr>server_sockets := (server_sockets ?rt)
           [i := (send (server_sockets ?rt ! i) p2)\<lparr>rx := []\<rparr>]\<rparr>)" "cstr resp = ?ack"
    using cmd [OF rt(1) i rt(3) length_replicate rt(2) q2] ack by auto
  have "(send (s\<lparr>rx := x\<rparr>) p2)\<lparr>rx := []\<rparr> = send s p2" if "rx s = []" for s :: sock and x
    using that by (cases s) (simp add: send_def)
  note same = this [OF turn]
  have "?rt\<lparr>server_sockets := (server_sockets ?rt)[i := (send (server_sockets ?rt ! i) p2)\<lparr>rx := []\<rparr>]\<rparr>
      = rt\<lparr>current_server := (i + 1) mod 3, server_sockets := (server_sockets rt)[i := send (server_sockets rt ! i) p2]\<rparr>"
    using i keys(2) by (simp add: router_wf_def same)
  moreover have swap: "rt\<lparr>server_sockets := x, current_server := n\<rparr> = rt\<lparr>current_server := n, server_sockets := x\<rparr>"
    for x n by simp
  ultimately have router: "client_command Er ?d gr (rt\<lparr>server_sockets := (server_sockets rt)
        [i := (server_sockets rt ! i)\<lparr>rx := [Seg q2]\<rparr>]\<rparr>)
      = Inr (resp, gr', rt\<lparr>current_server := (i + 1) mod 3, server_sockets := (server_sockets rt)
        [i := send (server_sockets rt ! i) p2]\<rparr>)"
    using resp(1) keys(3) d(1) random_text_props(4) [of L t] by (simp add: client_command_def Let_def swap)
  obtain q1 gr2' where q1: "\<And>s. send_encypted_data Er s resp (strlen resp) kc gr' = Inr (32 + strlen resp, send s q1, gr2')"
    "carries alg kc ?ack q1"
    using aes.sends_all [OF ch(2) keys(1) strlen_le, of resp gr'] resp(2) by (auto simp: take_strlen)
  have relay: "send_encypted_data Er s resp (strlen resp) kc gr' = Inr (43, send s q1, gr2')" for s
    using q1(1) resp(2) ack(2) by (simp add: strlen_def)
  have prints: "Client.store_data Ec L t s gc kc = Inr ((send s p1)\<lparr>rx := r\<rparr>, gc', Some ?ack)"
    if "rx s = Seg q1 # r" for s r using client [OF that q1(2)] ack by simp
  have received: "\<exists>rest. receive_encypted_data Er s kc = Inr (int (length ?d), Some (?d @ rest), s\<lparr>rx := r\<rparr>)"
    if "rx s = Seg p1 # r" for s r using aes.receives [OF ch(2) keys(1) p1 d(4,3) that] by blast
  show ?thesis
    by (rule exI [of _ p1], rule exI [of _ p2], rule exI [of _ q2], rule exI [of _ q1], rule exI [of _ gc'],
        rule exI [of _ gr'], rule exI [of _ gr2'], rule exI [of _ gs'], rule exI [of _ st'], rule exI [of _ resp],
        intro conjI allI impI prints received router relay server)
qed

text \<open>C4, witness: the first block of a server, through a router that is at its third server.\<close>

theorem store_end_to_end_witness:
  "\<exists>p1 p2 q2 q1 gc' gr' gr2' gs' st' resp.
    (\<forall>s r. rx s = Seg q1 # r \<longrightarrow>
       Client.store_data toy_ext \<lparr>libc_rand = (\<lambda>t. t), clock = (\<lambda>n. 7)\<rparr> 7 s toy_client_rng (replicate 32 0)
         = Inr ((send s p1)\<lparr>rx := r\<rparr>, gc', Some (str ''DATA_STORED'')))
  \<and> (\<forall>s r. rx s = Seg p1 # r \<longrightarrow> (\<exists>rest.
       receive_encypted_data toy_ext s (replicate 32 0)
         = Inr (int (length (random_text \<lparr>libc_rand = (\<lambda>t. t), clock = (\<lambda>n. 7)\<rparr> 7)),
             Some (random_text \<lparr>libc_rand = (\<lambda>t. t), clock = (\<lambda>n. 7)\<rparr> 7 @ rest), s\<lparr>rx := r\<rparr>)))
  \<and> client_command toy_ext (random_text \<lparr>libc_rand = (\<lambda>t. t), clock = (\<lambda>n. 7)\<rparr> 7) toy_server_rng
      (toy_router\<lparr>server_sockets := replicate 3 (close toy_sock)\<rparr>\<lparr>server_sockets := (replicate 3 (close toy_sock))
        [2 := (close toy_sock)\<lparr>rx := [Seg q2]\<rparr>]\<rparr>)
      = Inr (resp, gr', toy_router\<lparr>server_sockets := replicate 3 (close toy_sock)\<rparr>
          \<lparr>current_server := (2 + 1) mod 3, server_sockets := (replicate 3 (close toy_sock))
        [2 := send (close toy_sock) p2]\<rparr>)
  \<and> (\<forall>s. send_encypted_data toy_ext s resp (strlen resp) (replicate 32 0) gr' = Inr (43, send s q1, gr2'))
  \<and> message_loop toy_ext toy_malloc (toy_sock\<lparr>rx := [Seg p2]\<rparr>) (replicate 32 0) toy_server_rng server_start
      = Some (Inr (toy_sock\<lparr>rx := [], tx := tx toy_sock @ [q2]\<rparr>, gs', st'))
  \<and> server_ledger st' (ledger_store (block_digest toy_ext) (random_text \<lparr>libc_rand = (\<lambda>t. t), clock = (\<lambda>n. 7)\<rparr> 7) [])"
proof -
  have "router_wf (toy_router\<lparr>server_sockets := replicate 3 (close toy_sock)\<rparr>)"
    "current_server (toy_router\<lparr>server_sockets := replicate 3 (close toy_sock)\<rparr>) = 2"
    "server_session_keys (toy_router\<lparr>server_sockets := replicate 3 (close toy_sock)\<rparr>) ! 2 = replicate 32 0"
    "rx (server_sockets (toy_router\<lparr>server_sockets := replicate 3 (close toy_sock)\<rparr>) ! 2) = []"
    by (simp_all add: router_wf_def toy_router_def)
  from store_end_to_end [OF toy_channel_ok toy_channel_ok toy_channel_ok length_replicate this(1-3)
      toy_store_ok toy_malloc_total server_ledger_start this(4),
      where L = "\<lparr>libc_rand = (\<lambda>t. t), clock = (\<lambda>n. 7)\<rparr>" and t = 7 and gc = toy_client_rng
        and gr = toy_server_rng and ss = toy_sock and gs = toy_server_rng]
  show ?thesis by simp
qed

text \<open>
  C32.  A client can stop the server with one message: a client hello whose prime is zero makes
  \<open>mpz_powm\<close> raise a division by zero, which ends the process with all its connections and the
  stored blocks, whatever state the server is in and whatever other clients are waiting.
\<close>

theorem zero_prime_stops_server:
  assumes "runs_gmp cfg E"
    and "rx s = Seg (replicate 256 0 @ ab @ n0) # r" and "length ab = 256" and "length n0 = 16"
  shows "Server.accept_loop E malloc (Some s # connections) state st = Some (Inl DivideByZero)"
proof -
  obtain prime dhA where hello: "\<And>u. receive_client_hello s u = Inr (Some prime, Some dhA, n0, s\<lparr>rx := r\<rparr>)"
    and p: "mpz_wf prime" "mpz_abs prime = be_val (replicate 256 0)"
    using receive_client_hello_spec [OF length_replicate assms(3,4)] assms(2) by metis
  have "be_val (replicate 256 0) = 0" by (rule be_val_zeros)
  then have "ABSIZ prime = 0" using mpz_wf_limbs(4,5) [OF p(1)] p(2) by (metis less_irrefl)
  then have zero: "gmp_powm E b e prime = Inl DivideByZero" for b e
    using assms(1) mpz_powm_zero_modulus unfolding runs_gmp_def by blast
  have "initialize_values E (Some prime) g = Inl DivideByZero" for g
    by (cases "mpz_urandomb (mpz_init2 2048) g 2048") (simp add: initialize_values_def Let_def zero)
  then have "server_get_session_key E s key g = Inl DivideByZero" for key g
    using hello by (simp add: server_get_session_key_def send_server_hello_def Let_def)
  then show ?thesis
    by (simp add: Server.handle_client_def)
qed

text \<open>C32, witness: the first client of a server, with the modular power of the model.\<close>

theorem zero_prime_stops_server_witness:
  "Server.accept_loop gmp_ext toy_malloc
      [Some \<lparr>rx = [Seg (replicate 256 0 @ replicate 256 1 @ replicate 16 2)], tx = [], is_open = True\<rparr>]
      toy_server_rng server_start
    = Some (Inl DivideByZero)"
  by (rule zero_prime_stops_server [OF gmp_ext_runs, OF _ length_replicate length_replicate]) simp

text \<open>
  C38.  The number of bytes that one \<open>recv\<close> returns for the client hello decides.  With fewer than
  528, which a client also achieves by connecting and closing at once, the server process and the
  router process compute with numbers that were never initialised, whatever state they are in and
  whatever other clients are waiting.  With 528 and a prime other than zero the handshake of both
  completes.
\<close>

theorem short_client_hello_undefined:
  assumes "handshake_ok alg E" and "identity_ok E ''./keys/private.pem'' ''server'' sk" and "length ks = 32"
    and "recv s 528 = Inr (l, hello, s')" and "l = 528 \<longrightarrow> 0 < be_val (take 256 hello)"
  shows "if l < 528 then
      Server.accept_loop E malloc (Some s # connections) g st = Some (Inl (Undefined Uninitialised))
      \<and> Router.accept_loop E (Some s # connections) g rt = Some (Inl (Undefined Uninitialised))
    else \<exists>answer key g'. server_get_session_key E s ks g = Inr (send s' answer, key, g') \<and> length key = 32"
proof (cases "l < 528")
  case True
  from server_handshake_short [OF assms(4) this, of E] show ?thesis
    using True by (simp add: Server.handle_client_def Router.handle_client_def)
next
  case False
  then have "l = 528" using recv_length [OF assms(4)] by linarith
  then show ?thesis using server_handshake_returns [OF assms(1,2) _ _ assms(3), of s hello s' g] assms(4,5) by simp
qed

text \<open>C38, witness: a client that closes at once, and one that sends the whole hello.\<close>

theorem short_client_hello_undefined_witness:
  "Server.accept_loop toy_ext toy_malloc [Some \<lparr>rx = [], tx = [], is_open = True\<rparr>, Some toy_client]
      toy_server_rng server_start = Some (Inl (Undefined Uninitialised))
   \<and> Router.accept_loop toy_ext [Some \<lparr>rx = [], tx = [], is_open = True\<rparr>, Some toy_client]
      toy_server_rng toy_router = Some (Inl (Undefined Uninitialised))
   \<and> (\<exists>answer key g'. server_get_session_key toy_ext toy_client (replicate 32 0) toy_server_rng
        = Inr (send (toy_client\<lparr>rx := tl (rx toy_client)\<rparr>) answer, key, g') \<and> length key = 32)"
proof -
  have s: "recv \<lparr>rx = [], tx = [], is_open = True\<rparr> 528 = Inr (0, [], \<lparr>rx = [], tx = [], is_open = True\<rparr>)"
    by (simp add: recv_closed)
  have l: "length toy_hello = 528" "0 < be_val (take 256 toy_hello)"
    by (simp_all add: toy_hello_def be_val_append be_val_zeros be_val_def [of "[1, 1]"])
  have f: "recv toy_client 528 = Inr (528, toy_hello, toy_client\<lparr>rx := tl (rx toy_client)\<rparr>)"
    using l(1) by (simp add: recv_def toy_client_def)
  show ?thesis
    using short_client_hello_undefined [OF toy_handshake_ok toy_identity_ok length_replicate s,
        of toy_malloc "[Some toy_client]" toy_server_rng server_start toy_router]
      short_client_hello_undefined [OF toy_handshake_ok toy_identity_ok length_replicate f,
        of toy_malloc "[]" toy_server_rng server_start toy_router] l(2) by simp
qed

end
